(* ===== verification/Prelude.thy ===== *)
theory Prelude
  imports Main "HOL-Library.Multiset"
begin

text \<open>
  Shared vocabulary of the development: the result type of fallible Go code, the two's complement
  wrap-around of Go's 64-bit integers, a few list facts every component uses, and the named
  collections that carry the automation of the component theories:

    \<^item> \<open>time_order\<close>: facts that turn the three-way comparison of hybrid logical clocks into the
      linear order of \<open>Hlc\<close>;
    \<^item> \<open>invar_simps\<close>: unfolding of the invariants of the data structures.
\<close>

named_theorems time_order
named_theorems invar_simps

text \<open>A Go function with results \<open>(T, error)\<close> returns \<open>Inr v\<close> or the error as \<open>Inl e\<close>.\<close>

type_synonym ('e, 'a) result = "'e + 'a"

lemma case_Inr_pairD:
  "(case r of Inl _ \<Rightarrow> False | Inr (x, y) \<Rightarrow> P x y) \<Longrightarrow> \<exists>x y. r = Inr (x, y) \<and> P x y"
  by (auto split: sum.splits)

lemma case_InrD: "(case r of Inl _ \<Rightarrow> False | Inr x \<Rightarrow> P x) \<Longrightarrow> \<exists>x. r = Inr x \<and> P x"
  by (auto split: sum.splits)

lemma case_pair_InrD:
  "(case r of (Inl _, d) \<Rightarrow> False | (Inr x, d) \<Rightarrow> P x d) \<Longrightarrow> \<exists>x d. r = (Inr x, d) \<and> P x d"
  by (cases r; cases "fst r") auto

lemma case_SomeD: "(case r of None \<Rightarrow> False | Some x \<Rightarrow> P x) \<Longrightarrow> \<exists>x. r = Some x \<and> P x"
  by (auto split: option.splits)

lemma exI2: "P a b \<Longrightarrow> \<exists>a b. P a b"
  by blast

section \<open>Machine integers\<close>

text \<open>
  Go's \<open>int\<close> and \<open>int64\<close> are 64-bit two's complement integers: arithmetic is exact integer
  arithmetic followed by \<open>wrap64\<close>.
\<close>

definition wrap64 :: "int \<Rightarrow> int" where
  "wrap64 x = (x + 2 ^ 63) mod 2 ^ 64 - 2 ^ 63"

definition in_int64 :: "int \<Rightarrow> bool" where
  "in_int64 x \<longleftrightarrow> - (2 ^ 63) \<le> x \<and> x < 2 ^ 63"

definition MaxInt32 :: int where
  "MaxInt32 = 2 ^ 31 - 1"

definition MaxInt64 :: int where
  "MaxInt64 = 2 ^ 63 - 1"

lemma wrap64_in_int64 [simp]: "in_int64 (wrap64 x)"
  unfolding wrap64_def in_int64_def by (simp add: algebra_simps)

lemma wrap64_id [simp]: "in_int64 x \<Longrightarrow> wrap64 x = x"
  unfolding wrap64_def in_int64_def by simp

lemma in_int64_diff_nonneg:
  "\<lbrakk>0 \<le> a; a < 2 ^ 63; 0 \<le> b; b < 2 ^ 63\<rbrakk> \<Longrightarrow> in_int64 (a - b)"
  unfolding in_int64_def by simp

section \<open>Lists and multisets\<close>

lemma size_filter_remove:
  "t \<in># M \<Longrightarrow> size (filter_mset P M) = size (filter_mset P (M - {# t #})) + of_bool (P t)"
  by (drule multi_member_split) auto

lemma sorted_wrt_snocI:
  "\<lbrakk>sorted_wrt R xs; \<And>y. y \<in> set xs \<Longrightarrow> R y x\<rbrakk> \<Longrightarrow> sorted_wrt R (xs @ [x])"
  by (simp add: sorted_wrt_append)

lemma filter_eq_ConsE:
  assumes "filter P xs = y # ys"
  obtains us vs where "xs = us @ y # vs" "\<forall>u \<in> set us. \<not> P u" "P y" "ys = filter P vs"
  using assms by (auto simp: filter_eq_Cons_iff)

lemma nth_upd_if: "xs[i := x] ! j = (if j = i \<and> i < length xs then x else xs ! j)"
  by (cases "i < length xs") (auto simp: nth_list_update list_update_beyond)

lemma sorted_wrt_strict:
  fixes f :: "'a \<Rightarrow> 'b :: linorder"
  assumes "sorted_wrt (\<lambda>a b. f a \<le> f b) xs" "distinct xs" "inj_on f (set xs)"
  shows "sorted_wrt (\<lambda>a b. f a < f b) xs"
  using assms by (induction xs) (auto simp: inj_on_def le_less)

lemma sorted_wrt_concat:
  "sorted_wrt R (concat xss) \<longleftrightarrow>
   (\<forall>xs \<in> set xss. sorted_wrt R xs) \<and> sorted_wrt (\<lambda>xs ys. \<forall>x \<in> set xs. \<forall>y \<in> set ys. R x y) xss"
  by (induction xss) (auto simp: sorted_wrt_append)

lemma distinct_sorted_wrt: "distinct xs \<longleftrightarrow> sorted_wrt (\<noteq>) xs"
  by (induction xs) auto

lemma sorted_wrt_conj:
  "\<lbrakk>sorted_wrt P xs; sorted_wrt Q xs\<rbrakk> \<Longrightarrow> sorted_wrt (\<lambda>a b. P a b \<and> Q a b) xs"
  by (induction xs) auto

end
