(* ===== verification/Lockset.thy ===== *)
theory Lockset
  imports Prelude
begin

text \<open>
  The in-order admission queue of \<open>src/internal/util/lockset/queue.go\<close>. Entries live in a heap (a
  list indexed by address, allocation appends), because the code links them by pointer three times:
  in the global list (\<open>next\<close>), in one slice per key and in the map from values. A value is admitted
  when its entry is first in every key queue it belongs to.

  The definitions are followed by the invariant, the abstract queue (a list of values with their
  keys, oldest first) and the refinement.
\<close>

section \<open>The data structure\<close>

record ('k, 'v) queueEntry =
  qe_headCount :: nat
  qe_elt :: 'v
  qe_keys :: "'k list"
  qe_next :: "nat option"
  qe_valid :: bool

record ('k, 'v) Queue =
  q_heap :: "('k, 'v) queueEntry list"
  q_head :: "nat option"
  q_tail :: "nat option"
  q_queues :: "'k \<Rightarrow> nat list option"
  q_ref :: "'v \<Rightarrow> nat option"

datatype queue_panic = WaiterNotFound | OverCounted | Diverges

definition NewQueue :: "('k, 'v) Queue" where
  "NewQueue = \<lparr>q_heap = [], q_head = None, q_tail = None, q_queues = (\<lambda>_. None), q_ref = (\<lambda>_. None)\<rparr>"

text \<open>A missing key reads as the nil slice.\<close>

definition qlist :: "('k \<Rightarrow> nat list option) \<Rightarrow> 'k \<Rightarrow> nat list" where
  "qlist queues k = (case queues k of None \<Rightarrow> [] | Some es \<Rightarrow> es)"

text \<open>\<open>dedup\<close> compacts a copy of the key slice in place, keeping first occurrences.\<close>

function dedup_loop :: "'k list \<Rightarrow> nat \<Rightarrow> nat \<Rightarrow> 'k set \<Rightarrow> 'k list" where
  "dedup_loop keys i idx seen =
     (if i < length keys then
        (let key = keys ! i in
         if key \<in> seen then dedup_loop keys (Suc i) idx seen
         else dedup_loop (keys[idx := key]) (Suc i) (Suc idx) (insert key seen))
      else take idx keys)"
  by pat_completeness auto
termination by (relation "measure (\<lambda>(keys, i, _, _). length keys - i)") auto

definition dedup :: "'k list \<Rightarrow> 'k list" where
  "dedup keys = dedup_loop keys 0 0 {}"

declare dedup_loop.simps [simp del]

text \<open>
  \<open>Enqueue\<close>: one iteration of the loop over the entry's keys, then the whole operation. The error
  branch leaves the queue alone.
\<close>

definition enqueue_key ::
  "nat \<Rightarrow> 'k \<Rightarrow> ('k, 'v) queueEntry list \<times> ('k \<Rightarrow> nat list option)
   \<Rightarrow> ('k, 'v) queueEntry list \<times> ('k \<Rightarrow> nat list option)" where
  "enqueue_key e k st =
     (case st of (heap, queues) \<Rightarrow>
        let entries = qlist queues k @ [e]
        in (if length entries = 1
            then heap[e := (heap ! e)\<lparr>qe_headCount := qe_headCount (heap ! e) + 1\<rparr>]
            else heap,
            queues(k \<mapsto> entries)))"

definition Enqueue ::
  "('k, 'v) Queue \<Rightarrow> 'k list \<Rightarrow> 'v \<Rightarrow> ('k, 'v) Queue \<times> (string, bool) result" where
  "Enqueue q keys val =
     (case q_ref q val of
        Some _ \<Rightarrow> (q, Inl ''already enqueued'')
      | None \<Rightarrow>
          let e = length (q_heap q);
              entry = \<lparr>qe_headCount = 0, qe_elt = val, qe_keys = dedup keys, qe_next = None, qe_valid = True\<rparr>;
              linked = (case q_tail q of
                          None \<Rightarrow> q_heap q
                        | Some t \<Rightarrow> (q_heap q)[t := (q_heap q ! t)\<lparr>qe_next := Some e\<rparr>]);
              head = (case q_tail q of None \<Rightarrow> Some e | Some _ \<Rightarrow> q_head q);
              (heap, queues) = fold (enqueue_key e) (dedup keys) (linked @ [entry], q_queues q)
          in (\<lparr>q_heap = heap, q_head = head, q_tail = Some e, q_queues = queues,
               q_ref = (q_ref q)(val \<mapsto> e)\<rparr>,
              Inr (qe_headCount (heap ! e) = length (qe_keys (heap ! e)))))"

text \<open>
  The search loop of \<open>Dequeue\<close> leaves \<open>idx\<close> at the waiter, at the last index when it is absent, and
  at zero when the slice is empty.
\<close>

fun search_idx :: "nat list \<Rightarrow> nat \<Rightarrow> nat" where
  "search_idx [] w = 0"
| "search_idx [x] w = 0"
| "search_idx (x # y # ys) w = (if x = w then 0 else Suc (search_idx (y # ys) w))"

definition dequeue_key ::
  "nat \<Rightarrow> ('k, 'v) queueEntry list \<Rightarrow> ('k \<Rightarrow> nat list option) \<Rightarrow> 'v list \<Rightarrow> 'k
   \<Rightarrow> (queue_panic, ('k, 'v) queueEntry list \<times> ('k \<Rightarrow> nat list option) \<times> 'v list) result" where
  "dequeue_key w heap queues ret k =
     (let entries = qlist queues k; idx = search_idx entries w in
      if idx = length entries then Inl WaiterNotFound
      else if idx = 0 then
        (case drop 1 entries of
           [] \<Rightarrow> Inr (heap, queues(k := None), ret)
         | head # rest \<Rightarrow>
             let h = (heap ! head)\<lparr>qe_headCount := qe_headCount (heap ! head) + 1\<rparr>;
                 heap' = heap[head := h]
             in if qe_headCount h = length (qe_keys h)
                then Inr (heap', queues(k \<mapsto> head # rest), ret @ [qe_elt h])
                else if qe_headCount h > length (qe_keys h) then Inl OverCounted
                else Inr (heap', queues(k \<mapsto> head # rest), ret))
      else Inr (heap, queues(k \<mapsto> take idx entries @ drop (Suc idx) entries), ret))"

fun dequeue_keys ::
  "nat \<Rightarrow> ('k, 'v) queueEntry list \<Rightarrow> ('k \<Rightarrow> nat list option) \<Rightarrow> 'v list \<Rightarrow> 'k list
   \<Rightarrow> (queue_panic, ('k, 'v) queueEntry list \<times> ('k \<Rightarrow> nat list option) \<times> 'v list) result" where
  "dequeue_keys w heap queues ret [] = Inr (heap, queues, ret)"
| "dequeue_keys w heap queues ret (k # ks) =
     (case dequeue_key w heap queues ret k of
        Inl p \<Rightarrow> Inl p
      | Inr (heap', queues', ret') \<Rightarrow> dequeue_keys w heap' queues' ret' ks)"

text \<open>\<open>invalidate\<close> clears the entry; \<open>nilv\<close> is the zero value of the element type.\<close>

definition invalidate :: "'v \<Rightarrow> ('k, 'v) queueEntry \<Rightarrow> ('k, 'v) queueEntry" where
  "invalidate nilv e = e\<lparr>qe_elt := nilv, qe_keys := [], qe_valid := False\<rparr>"

text \<open>The loop that moves the head past invalid entries; \<open>None\<close> if it does not end.\<close>

partial_function (option) skip_invalid ::
  "('k, 'v) queueEntry list \<Rightarrow> nat option \<Rightarrow> nat option option" where
  "skip_invalid heap head =
     (case head of
        None \<Rightarrow> Some None
      | Some a \<Rightarrow> if qe_valid (heap ! a) then Some (Some a) else skip_invalid heap (qe_next (heap ! a)))"

declare skip_invalid.simps [code]

definition Dequeue ::
  "'v \<Rightarrow> ('k, 'v) Queue \<Rightarrow> 'v \<Rightarrow> (queue_panic, ('k, 'v) Queue \<times> 'v list \<times> bool) result" where
  "Dequeue nilv q val =
     (case q_ref q val of
        None \<Rightarrow> Inr (q, [], False)
      | Some w \<Rightarrow>
          (case dequeue_keys w (q_heap q) (q_queues q) [] (qe_keys (q_heap q ! w)) of
             Inl p \<Rightarrow> Inl p
           | Inr (heap, queues, ret) \<Rightarrow>
               let heap' = heap[w := invalidate nilv (heap ! w)]
               in case skip_invalid heap' (q_head q) of
                    None \<Rightarrow> Inl Diverges
                  | Some head \<Rightarrow>
                      Inr (\<lparr>q_heap = heap', q_head = head,
                            q_tail = (if head = None then None else q_tail q),
                            q_queues = queues, q_ref = (q_ref q)(val := None)\<rparr>,
                           ret, True)))"

definition IsEmpty :: "('k, 'v) Queue \<Rightarrow> bool" where
  "IsEmpty q \<longleftrightarrow> q_head q = None"

definition IsHead :: "('k, 'v) Queue \<Rightarrow> 'v \<Rightarrow> bool" where
  "IsHead q val = (case q_head q of None \<Rightarrow> False | Some h \<Rightarrow> qe_elt (q_heap q ! h) = val)"

definition IsQueuedKey :: "('k, 'v) Queue \<Rightarrow> 'k \<Rightarrow> bool" where
  "IsQueuedKey q key \<longleftrightarrow> length (qlist (q_queues q) key) > 0"

definition IsQueuedValue :: "('k, 'v) Queue \<Rightarrow> 'v \<Rightarrow> bool" where
  "IsQueuedValue q val \<longleftrightarrow> q_ref q val \<noteq> None"

definition IsTail :: "('k, 'v) Queue \<Rightarrow> 'v \<Rightarrow> bool" where
  "IsTail q val = (case q_tail q of None \<Rightarrow> False | Some t \<Rightarrow> qe_elt (q_heap q ! t) = val)"

definition PeekHead :: "'v \<Rightarrow> ('k, 'v) Queue \<Rightarrow> 'v \<times> bool" where
  "PeekHead nilv q = (case q_head q of None \<Rightarrow> (nilv, False) | Some h \<Rightarrow> (qe_elt (q_heap q ! h), True))"

definition PeekTail :: "'v \<Rightarrow> ('k, 'v) Queue \<Rightarrow> 'v \<times> bool" where
  "PeekTail nilv q = (case q_tail q of None \<Rightarrow> (nilv, False) | Some t \<Rightarrow> (qe_elt (q_heap q ! t), True))"

section \<open>The abstract queue\<close>

text \<open>
  Abstractly the queue is the list of queued values with their key sets, in the order they were
  enqueued. A value is admitted when no earlier value shares a key with it.
\<close>

type_synonym ('k, 'v) aqueue = "('v \<times> 'k set) list"

fun admitted_after :: "'k set \<Rightarrow> ('k, 'v) aqueue \<Rightarrow> 'v \<Rightarrow> bool" where
  "admitted_after used [] v \<longleftrightarrow> False"
| "admitted_after used ((u, ks) # s) v \<longleftrightarrow>
     (if u = v then ks \<inter> used = {} else admitted_after (used \<union> ks) s v)"

definition admitted :: "('k, 'v) aqueue \<Rightarrow> 'v \<Rightarrow> bool" where
  "admitted s v = admitted_after {} s v"

definition aq_values :: "('k, 'v) aqueue \<Rightarrow> 'v set" where
  "aq_values s = fst ` set s"

definition aq_enqueue :: "'k set \<Rightarrow> 'v \<Rightarrow> ('k, 'v) aqueue \<Rightarrow> ('k, 'v) aqueue" where
  "aq_enqueue ks v s = s @ [(v, ks)]"

definition aq_dequeue :: "'v \<Rightarrow> ('k, 'v) aqueue \<Rightarrow> ('k, 'v) aqueue" where
  "aq_dequeue v s = filter (\<lambda>p. fst p \<noteq> v) s"

section \<open>The invariant and the abstraction function\<close>

definition live :: "('k, 'v) queueEntry list \<Rightarrow> nat list" where
  "live H = filter (\<lambda>a. qe_valid (H ! a)) [0..<length H]"

definition waiting :: "('k, 'v) queueEntry list \<Rightarrow> 'k \<Rightarrow> nat list" where
  "waiting H k = filter (\<lambda>a. k \<in> set (qe_keys (H ! a))) (live H)"

definition opt_list :: "nat list \<Rightarrow> nat list option" where
  "opt_list xs = (if xs = [] then None else Some xs)"

definition is_first :: "('k \<Rightarrow> nat list option) \<Rightarrow> 'k \<Rightarrow> nat \<Rightarrow> bool" where
  "is_first Q k a = (case qlist Q k of [] \<Rightarrow> False | x # _ \<Rightarrow> x = a)"

definition counts_ok :: "nat set \<Rightarrow> ('k, 'v) queueEntry list \<Rightarrow> ('k \<Rightarrow> nat list option) \<Rightarrow> bool" where
  "counts_ok X H Q \<longleftrightarrow> (\<forall>a \<in> set (live H) - X.
     qe_headCount (H ! a) = length (filter (\<lambda>k. is_first Q k a) (qe_keys (H ! a))))"

definition linked :: "('k, 'v) queueEntry list \<Rightarrow> nat option \<Rightarrow> nat option \<Rightarrow> bool" where
  "linked H head tail \<longleftrightarrow>
     (case head of
        None \<Rightarrow> tail = None \<and> live H = []
      | Some h \<Rightarrow>
          H \<noteq> [] \<and> tail = Some (length H - 1) \<and> live H \<noteq> [] \<and> h = hd (live H)
          \<and> (\<forall>a. h \<le> a \<longrightarrow> a < length H \<longrightarrow>
               qe_next (H ! a) = (if Suc a < length H then Some (Suc a) else None)))"

definition queue_invar :: "('k, 'v) Queue \<Rightarrow> bool" where
  "queue_invar q \<longleftrightarrow>
     linked (q_heap q) (q_head q) (q_tail q)
     \<and> (\<forall>v a. q_ref q v = Some a \<longleftrightarrow> a \<in> set (live (q_heap q)) \<and> qe_elt (q_heap q ! a) = v)
     \<and> (\<forall>a \<in> set (live (q_heap q)). distinct (qe_keys (q_heap q ! a)))
     \<and> (\<forall>k. q_queues q k = opt_list (waiting (q_heap q) k))
     \<and> counts_ok {} (q_heap q) (q_queues q)"

definition queue_abs :: "('k, 'v) Queue \<Rightarrow> ('k, 'v) aqueue" where
  "queue_abs q = map (\<lambda>a. (qe_elt (q_heap q ! a), set (qe_keys (q_heap q ! a)))) (live (q_heap q))"

section \<open>Deduplication\<close>

fun uniq :: "'k set \<Rightarrow> 'k list \<Rightarrow> 'k list" where
  "uniq seen [] = []"
| "uniq seen (x # xs) = (if x \<in> seen then uniq seen xs else x # uniq (insert x seen) xs)"

lemma set_uniq [simp]: "set (uniq seen xs) = set xs - seen"
  by (induction seen xs rule: uniq.induct) auto

lemma distinct_uniq [simp]: "distinct (uniq seen xs)"
  by (induction seen xs rule: uniq.induct) auto

lemma dedup_loop_uniq:
  "\<lbrakk>idx \<le> i; i \<le> length keys\<rbrakk> \<Longrightarrow> dedup_loop keys i idx seen = take idx keys @ uniq seen (drop i keys)"
proof (induction keys i idx seen rule: dedup_loop.induct)
  case (1 keys i idx seen)
  show ?case
  proof (cases "i < length keys")
    case True
    then have d: "drop i keys = keys ! i # drop (Suc i) keys" by (simp add: Cons_nth_drop_Suc)
    have t: "take (Suc idx) (keys[idx := keys ! i]) = take idx keys @ [keys ! i]"
      using True 1(3) by (simp add: take_Suc_conv_app_nth)
    show ?thesis
      using 1 True d t by (subst dedup_loop.simps) (simp add: Let_def)
  next
    case False
    then show ?thesis by (subst dedup_loop.simps) simp
  qed
qed

lemma dedup_uniq: "dedup keys = uniq {} keys"
  by (simp add: dedup_def dedup_loop_uniq)

lemma set_dedup [simp]: "set (dedup keys) = set keys"
  by (simp add: dedup_uniq)

lemma distinct_dedup [simp]: "distinct (dedup keys)"
  by (simp add: dedup_uniq)

section \<open>Live entries\<close>

lemma live_iff [simp]: "a \<in> set (live H) \<longleftrightarrow> a < length H \<and> qe_valid (H ! a)"
  by (auto simp: live_def)

lemma distinct_live [simp]: "distinct (live H)"
  by (simp add: live_def)

lemma sorted_live [simp]: "sorted (live H)"
  by (simp add: live_def sorted_wrt_filter)

lemma live_cong:
  "\<lbrakk>length H' = length H; \<And>a. a < length H \<Longrightarrow> qe_valid (H' ! a) = qe_valid (H ! a)\<rbrakk> \<Longrightarrow> live H' = live H"
  unfolding live_def by (auto intro!: filter_cong)

lemma live_snoc: "live (H @ [e]) = live H @ (if qe_valid e then [length H] else [])"
  by (auto simp: live_def nth_append intro!: filter_cong)

lemma live_invalidate:
  "w < length H \<Longrightarrow> live (H[w := invalidate nilv (H ! w)]) = filter (\<lambda>a. a \<noteq> w) (live H)"
  by (auto simp: live_def invalidate_def nth_list_update intro!: filter_cong)

lemma waiting_iff [simp]:
  "a \<in> set (waiting H k) \<longleftrightarrow> a < length H \<and> qe_valid (H ! a) \<and> k \<in> set (qe_keys (H ! a))"
  by (auto simp: waiting_def)

lemma distinct_waiting [simp]: "distinct (waiting H k)"
  by (simp add: waiting_def)

lemma sorted_waiting [simp]: "sorted (waiting H k)"
  by (simp add: waiting_def sorted_wrt_filter)

lemma qlist_upd: "qlist (Q(k := x)) j = (if j = k then (case x of None \<Rightarrow> [] | Some es \<Rightarrow> es) else qlist Q j)"
  by (simp add: qlist_def)

lemma case_opt_list [simp]: "(case opt_list xs of None \<Rightarrow> [] | Some es \<Rightarrow> es) = xs"
  by (simp add: opt_list_def)

lemma qlist_waiting: "queue_invar q \<Longrightarrow> qlist (q_queues q) k = waiting (q_heap q) k"
  by (simp add: queue_invar_def qlist_def)

text \<open>Two heaps that differ in head counts only.\<close>

definition same_but_hc :: "('k, 'v) queueEntry list \<Rightarrow> ('k, 'v) queueEntry list \<Rightarrow> bool" where
  "same_but_hc H H' \<longleftrightarrow> length H' = length H
     \<and> (\<forall>a < length H. qe_elt (H' ! a) = qe_elt (H ! a) \<and> qe_keys (H' ! a) = qe_keys (H ! a)
          \<and> qe_next (H' ! a) = qe_next (H ! a) \<and> qe_valid (H' ! a) = qe_valid (H ! a))"

lemma same_but_hc_refl [simp]: "same_but_hc H H"
  by (simp add: same_but_hc_def)

lemma same_but_hc_trans: "\<lbrakk>same_but_hc H H'; same_but_hc H' H''\<rbrakk> \<Longrightarrow> same_but_hc H H''"
  by (simp add: same_but_hc_def)

lemma same_but_hc_update: "same_but_hc H (H[a := (H ! a)\<lparr>qe_headCount := n\<rparr>])"
  by (cases "a < length H") (auto simp: same_but_hc_def nth_list_update)

lemma same_but_hc_live: "same_but_hc H H' \<Longrightarrow> live H' = live H"
  by (rule live_cong) (simp_all add: same_but_hc_def)

lemma same_but_hc_waiting: "same_but_hc H H' \<Longrightarrow> waiting H' k = waiting H k"
  by (auto simp: waiting_def same_but_hc_live same_but_hc_def intro!: filter_cong)

section \<open>The loop of Enqueue\<close>

lemma fold_enqueue_key:
  assumes "distinct ks" "e < length H"
  shows "fold (enqueue_key e) ks (H, Q) =
    (H[e := (H ! e)\<lparr>qe_headCount := qe_headCount (H ! e) + length (filter (\<lambda>k. qlist Q k = []) ks)\<rparr>],
     \<lambda>k. if k \<in> set ks then Some (qlist Q k @ [e]) else Q k)"
  using assms
proof (induction ks arbitrary: H Q)
  case (Cons k ks)
  let ?H = "if qlist Q k = [] then H[e := (H ! e)\<lparr>qe_headCount := qe_headCount (H ! e) + 1\<rparr>] else H"
  let ?Q = "Q(k \<mapsto> qlist Q k @ [e])"
  have "enqueue_key e k (H, Q) = (?H, ?Q)"
    by (simp add: enqueue_key_def)
  then have "fold (enqueue_key e) (k # ks) (H, Q) = fold (enqueue_key e) ks (?H, ?Q)"
    by simp
  also have "\<dots> = (?H[e := (?H ! e)\<lparr>qe_headCount := qe_headCount (?H ! e) + length (filter (\<lambda>k. qlist ?Q k = []) ks)\<rparr>],
     \<lambda>j. if j \<in> set ks then Some (qlist ?Q j @ [e]) else ?Q j)"
    using Cons.prems by (intro Cons.IH) auto
  also have "filter (\<lambda>j. qlist ?Q j = []) ks = filter (\<lambda>j. qlist Q j = []) ks"
    using Cons.prems by (auto simp: qlist_upd intro!: filter_cong)
  finally show ?case
    using Cons.prems by (auto simp: qlist_upd fun_eq_iff)
qed simp

section \<open>The loop of Dequeue\<close>

lemma search_idx_found:
  assumes "w \<in> set es" "distinct es"
  shows "search_idx es w < length es" "search_idx es w = 0 \<longleftrightarrow> hd es = w"
    "take (search_idx es w) es @ drop (Suc (search_idx es w)) es = remove1 w es"
  using assms by (induction es w rule: search_idx.induct) auto

definition entries_ok :: "('k, 'v) queueEntry list \<Rightarrow> ('k \<Rightarrow> nat list option) \<Rightarrow> bool" where
  "entries_ok H Q \<longleftrightarrow>
     (\<forall>k. distinct (qlist Q k) \<and> (\<forall>a \<in> set (qlist Q k). a \<in> set (live H) \<and> k \<in> set (qe_keys (H ! a))))
     \<and> (\<forall>a \<in> set (live H). distinct (qe_keys (H ! a)))"

definition full :: "('k, 'v) queueEntry list \<Rightarrow> ('k \<Rightarrow> nat list option) \<Rightarrow> nat \<Rightarrow> bool" where
  "full H Q a \<longleftrightarrow> (\<forall>k \<in> set (qe_keys (H ! a)). is_first Q k a)"

lemma entries_ok_hc: "\<lbrakk>same_but_hc H H'; entries_ok H Q\<rbrakk> \<Longrightarrow> entries_ok H' Q"
  by (auto simp: entries_ok_def same_but_hc_def)

lemma full_hc: "\<lbrakk>same_but_hc H H'; a < length H\<rbrakk> \<Longrightarrow> full H' Q a = full H Q a"
  by (simp add: full_def same_but_hc_def)

text \<open>The key queues after the waiter left those of the keys \<open>K\<close>.\<close>

definition leave :: "nat \<Rightarrow> 'k set \<Rightarrow> ('k \<Rightarrow> nat list option) \<Rightarrow> ('k \<Rightarrow> nat list option)" where
  "leave w K Q = (\<lambda>k. if k \<in> K then opt_list (remove1 w (qlist Q k)) else Q k)"

lemma qlist_leave: "qlist (leave w K Q) k = (if k \<in> K then remove1 w (qlist Q k) else qlist Q k)"
  by (simp add: qlist_def leave_def)

lemma leave_empty [simp]: "leave w {} Q = Q"
  by (simp add: leave_def)

lemma leave_single: "Q(k := opt_list (remove1 w (qlist Q k))) = leave w {k} Q"
  by (auto simp: leave_def)

lemma leave_leave: "k \<notin> K \<Longrightarrow> leave w K (leave w {k} Q) = leave w (insert k K) Q"
  by (auto simp: leave_def qlist_def fun_eq_iff)

lemma entries_ok_leave: "entries_ok H Q \<Longrightarrow> entries_ok H (leave w K Q)"
  by (auto simp: entries_ok_def qlist_leave dest: notin_set_remove1)

lemma is_first_leave: "\<lbrakk>is_first Q j a; a \<noteq> w\<rbrakk> \<Longrightarrow> is_first (leave w K Q) j a"
  by (auto simp: is_first_def qlist_leave split: list.splits if_splits)

lemma full_leave: "\<lbrakk>full H Q a; a \<noteq> w\<rbrakk> \<Longrightarrow> full H (leave w K Q) a"
  by (auto simp: full_def intro: is_first_leave)

lemma length_filter_insert:
  assumes "distinct ks" "k \<in> set ks" "\<not> P k" "\<And>x. x \<in> set ks \<Longrightarrow> P' x \<longleftrightarrow> x = k \<or> P x"
  shows "length (filter P' ks) = Suc (length (filter P ks))"
proof -
  have "set (filter P' ks) = insert k (set (filter P ks))" using assms by auto
  then have "card (set (filter P' ks)) = Suc (card (set (filter P ks)))" using assms by simp
  then show ?thesis using assms(1) by (metis distinct_card distinct_filter)
qed

lemma filter_all_length: "length (filter P ks) = length ks \<longleftrightarrow> (\<forall>k \<in> set ks. P k)"
  using length_filter_less [of _ ks P] by (metis filter_True less_irrefl)

text \<open>
  One key: the waiter leaves the key's queue, the head counts of the other entries stay in step with
  the queues, and the entries returned are those that became first in all their queues.
\<close>

lemma dequeue_key_spec:
  assumes ok: "entries_ok H Q" and w: "w \<in> set (qlist Q k)" and cnt: "counts_ok {w} H Q"
  defines "Q' \<equiv> leave w {k} Q"
  shows "\<exists>H' r. dequeue_key w H Q ret k = Inr (H', Q', ret @ map (\<lambda>a. qe_elt (H ! a)) r)
    \<and> same_but_hc H H' \<and> counts_ok {w} H' Q' \<and> distinct r
    \<and> set r = {a \<in> set (live H) - {w}. full H Q' a \<and> \<not> full H Q a}"
proof -
  have d: "distinct (qlist Q k)" using ok by (simp add: entries_ok_def)
  note s = search_idx_found [OF w d]
  have other: "is_first Q' j a = is_first Q j a" if "j \<noteq> k" for j a
    using that by (simp add: is_first_def Q'_def qlist_leave)
  consider (mid) x xs where "qlist Q k = x # xs" "x \<noteq> w"
    | (single) "qlist Q k = [w]" | (top) h rest where "qlist Q k = w # h # rest"
    using w by (cases "qlist Q k"; cases "tl (qlist Q k)") auto
  then show ?thesis
  proof cases
    case mid
    have same: "is_first Q' j a = is_first Q j a" for j a
      using other mid by (cases "j = k") (auto simp: is_first_def Q'_def qlist_leave)
    have "dequeue_key w H Q ret k = Inr (H, Q', ret)"
      using s mid by (auto simp: dequeue_key_def Let_def Q'_def leave_single [symmetric] opt_list_def)
    moreover have "counts_ok {w} H Q'" using cnt by (simp add: counts_ok_def same)
    moreover have "full H Q' a = full H Q a" for a by (simp add: full_def same)
    ultimately show ?thesis by (intro exI [of _ H] exI [of _ "[]"]) auto
  next
    case single
    have same: "is_first Q' j a = is_first Q j a" if "a \<noteq> w" for j a
      using other single that by (cases "j = k") (auto simp: is_first_def Q'_def qlist_leave)
    have "dequeue_key w H Q ret k = Inr (H, Q', ret)"
      using s single by (auto simp: dequeue_key_def Let_def Q'_def leave_single [symmetric] opt_list_def)
    moreover have "counts_ok {w} H Q'" using cnt by (simp add: counts_ok_def same)
    moreover have "full H Q' a = full H Q a" if "a \<noteq> w" for a using that by (simp add: full_def same)
    ultimately show ?thesis by (intro exI [of _ H] exI [of _ "[]"]) auto
  next
    case top
    have h: "h \<in> set (live H)" "k \<in> set (qe_keys (H ! h))" "h \<noteq> w" "distinct (qe_keys (H ! h))"
      using ok top d unfolding entries_ok_def by (metis list.set_intros distinct.simps(2))+
    let ?H = "H[h := (H ! h)\<lparr>qe_headCount := qe_headCount (H ! h) + 1\<rparr>]"
    have Qk: "qlist Q' k = h # rest" using top by (simp add: Q'_def qlist_leave)
    have fk: "is_first Q' k a \<longleftrightarrow> a = h" "is_first Q k a \<longleftrightarrow> a = w" for a
      using top Qk by (auto simp: is_first_def)
    have same: "is_first Q' j a = is_first Q j a" if "a \<noteq> w" "a \<noteq> h" for j a
      using other fk that by (cases "j = k") auto
    have cnt_h: "qe_headCount (H ! h) + 1 = length (filter (\<lambda>j. is_first Q' j h) (qe_keys (H ! h)))"
      using length_filter_insert [of "qe_keys (H ! h)" k "\<lambda>j. is_first Q j h" "\<lambda>j. is_first Q' j h"]
        cnt h fk other unfolding counts_ok_def by (metis Diff_iff Suc_eq_plus1 singletonD)
    have sb: "same_but_hc H ?H" by (rule same_but_hc_update)
    have nf: "\<not> full H Q h" using h fk by (auto simp: full_def)
    have fo: "full H Q' a = full H Q a" if "a \<noteq> w" "a \<noteq> h" for a
      using that by (simp add: full_def same)
    have le: "qe_headCount (H ! h) + 1 \<le> length (qe_keys (H ! h))"
      unfolding cnt_h by simp
    have fh: "full H Q' h \<longleftrightarrow> qe_headCount (H ! h) + 1 = length (qe_keys (H ! h))"
      unfolding cnt_h filter_all_length full_def ..
    have "counts_ok {w} ?H Q'"
      using cnt cnt_h h unfolding counts_ok_def same_but_hc_live [OF sb]
      by (auto simp: nth_list_update same)
    moreover have "dequeue_key w H Q ret k
      = Inr (?H, Q', ret @ map (\<lambda>a. qe_elt (H ! a)) (if full H Q' h then [h] else []))"
      using s top le fh by (auto simp: dequeue_key_def Let_def Q'_def leave_single [symmetric] opt_list_def)
    moreover have "set (if full H Q' h then [h] else [])
      = {a \<in> set (live H) - {w}. full H Q' a \<and> \<not> full H Q a}"
      using h nf fo by auto
    ultimately show ?thesis using sb
      by (intro exI [of _ ?H] exI [of _ "if full H Q' h then [h] else []"]) auto
  qed
qed

lemma dequeue_keys_spec:
  assumes "entries_ok H Q" "distinct ks" "\<And>k. k \<in> set ks \<Longrightarrow> w \<in> set (qlist Q k)" "counts_ok {w} H Q"
  shows "\<exists>H' r. dequeue_keys w H Q ret ks = Inr (H', leave w (set ks) Q, ret @ map (\<lambda>a. qe_elt (H ! a)) r)
    \<and> same_but_hc H H' \<and> counts_ok {w} H' (leave w (set ks) Q) \<and> distinct r
    \<and> set r = {a \<in> set (live H) - {w}. full H (leave w (set ks) Q) a \<and> \<not> full H Q a}"
  using assms
proof (induction ks arbitrary: H Q ret)
  case Nil
  then show ?case by (intro exI [of _ H] exI [of _ "[]"]) auto
next
  case (Cons k ks)
  let ?Q1 = "leave w {k} Q" and ?Q2 = "leave w (set (k # ks)) Q"
  obtain H1 r1 where 1: "dequeue_key w H Q ret k = Inr (H1, ?Q1, ret @ map (\<lambda>a. qe_elt (H ! a)) r1)"
    "same_but_hc H H1" "counts_ok {w} H1 ?Q1" "distinct r1"
    "set r1 = {a \<in> set (live H) - {w}. full H ?Q1 a \<and> \<not> full H Q a}"
    using dequeue_key_spec [OF Cons.prems(1) _ Cons.prems(4), of k ret] Cons.prems(3) by auto
  have Q2: "leave w (set ks) ?Q1 = ?Q2"
    using Cons.prems(2) by (simp add: leave_leave)
  have "entries_ok H1 ?Q1"
    using entries_ok_hc [OF 1(2)] entries_ok_leave [OF Cons.prems(1)] by blast
  moreover have "w \<in> set (qlist ?Q1 j)" if "j \<in> set ks" for j
    using Cons.prems(2,3) that by (auto simp: qlist_leave)
  ultimately obtain H2 r2 where 2:
    "dequeue_keys w H1 ?Q1 (ret @ map (\<lambda>a. qe_elt (H ! a)) r1) ks
       = Inr (H2, ?Q2, (ret @ map (\<lambda>a. qe_elt (H ! a)) r1) @ map (\<lambda>a. qe_elt (H1 ! a)) r2)"
    "same_but_hc H1 H2" "counts_ok {w} H2 ?Q2" "distinct r2"
    "set r2 = {a \<in> set (live H1) - {w}. full H1 ?Q2 a \<and> \<not> full H1 ?Q1 a}"
    using Cons.IH [of H1 ?Q1 "ret @ map (\<lambda>a. qe_elt (H ! a)) r1"] Cons.prems(2) 1(3) unfolding Q2
    by auto
  have r2: "set r2 = {a \<in> set (live H) - {w}. full H ?Q2 a \<and> \<not> full H ?Q1 a}"
    unfolding 2(5) same_but_hc_live [OF 1(2)] using full_hc [OF 1(2)] by auto
  have "map (\<lambda>a. qe_elt (H1 ! a)) r2 = map (\<lambda>a. qe_elt (H ! a)) r2"
    using 1(2) r2 by (auto simp: same_but_hc_def)
  then have res: "dequeue_keys w H Q ret (k # ks) = Inr (H2, ?Q2, ret @ map (\<lambda>a. qe_elt (H ! a)) (r1 @ r2))"
    using 1(1) 2(1) by simp
  have m2: "full H ?Q2 a" if "full H ?Q1 a" "a \<noteq> w" for a
    using full_leave [OF that, of "set ks"] unfolding Q2 .
  have m1: "full H ?Q1 a" if "full H Q a" "a \<noteq> w" for a
    using full_leave [OF that] .
  have un: "set (r1 @ r2) = {a \<in> set (live H) - {w}. full H ?Q2 a \<and> \<not> full H Q a}"
    unfolding set_append 1(5) r2 using m1 m2 by blast
  have "distinct (r1 @ r2)" using 1(4) 2(4) unfolding distinct_append 1(5) r2 by blast
  with res un show ?case
    using 2(3) same_but_hc_trans [OF 1(2) 2(2)] by blast
qed

section \<open>The loop over the global list\<close>

lemma skip_invalid_chain:
  assumes "\<And>a. \<lbrakk>h \<le> a; a < length H\<rbrakk> \<Longrightarrow> qe_next (H ! a) = (if Suc a < length H then Some (Suc a) else None)"
    and "h < length H"
  shows "skip_invalid H (Some h)
    = Some (case filter (\<lambda>a. qe_valid (H ! a)) [h..<length H] of [] \<Rightarrow> None | x # _ \<Rightarrow> Some x)"
  using assms
proof (induction "length H - h" arbitrary: h rule: less_induct)
  case less
  have up: "[h..<length H] = h # [Suc h..<length H]" using less.prems(2) by (simp add: upt_conv_Cons)
  show ?case
  proof (cases "Suc h < length H")
    case True
    then have "skip_invalid H (Some (Suc h))
      = Some (case filter (\<lambda>a. qe_valid (H ! a)) [Suc h..<length H] of [] \<Rightarrow> None | x # _ \<Rightarrow> Some x)"
      using less.prems by (intro less.hyps) auto
    then show ?thesis
      using True less.prems up by (subst skip_invalid.simps) simp
  next
    case False
    then show ?thesis
      using less.prems up by (subst skip_invalid.simps) (simp add: skip_invalid.simps)
  qed
qed

lemma live_from:
  assumes "\<And>a. a \<in> set (live H) \<Longrightarrow> h \<le> a" "h \<le> length H"
  shows "filter (\<lambda>a. qe_valid (H ! a)) [h..<length H] = live H"
proof -
  have "live H = filter (\<lambda>a. qe_valid (H ! a)) ([0..<h] @ [h..<length H])"
    unfolding live_def using assms(2) by (metis le0 upt_add_eq_append add_0 le_add_diff_inverse)
  moreover have "filter (\<lambda>a. qe_valid (H ! a)) [0..<h] = []"
    using assms unfolding filter_empty_conv by (metis atLeastLessThan_iff leD live_iff order_less_le_trans set_upt)
  ultimately show ?thesis by simp
qed

lemma hd_sorted_le: "\<lbrakk>sorted xs; a \<in> set xs\<rbrakk> \<Longrightarrow> hd xs \<le> (a :: nat)"
  by (cases xs) auto

section \<open>Every operation keeps the invariant\<close>

lemma queue_invar_entries: "queue_invar q \<Longrightarrow> entries_ok (q_heap q) (q_queues q)"
  by (auto simp: entries_ok_def qlist_waiting) (auto simp: queue_invar_def)

lemma NewQueue_invar: "queue_invar NewQueue"
  by (auto simp: queue_invar_def NewQueue_def linked_def live_def waiting_def opt_list_def counts_ok_def)

lemma NewQueue_abs: "queue_abs NewQueue = []"
  by (simp add: queue_abs_def NewQueue_def live_def)

lemma queue_invar_elt_inj:
  "\<lbrakk>queue_invar q; a \<in> set (live (q_heap q)); b \<in> set (live (q_heap q));
    qe_elt (q_heap q ! a) = qe_elt (q_heap q ! b)\<rbrakk> \<Longrightarrow> a = b"
  unfolding queue_invar_def by (metis option.inject)

lemma queue_invarD:
  assumes "queue_invar q"
  shows "linked (q_heap q) (q_head q) (q_tail q)"
    "q_ref q v = Some a \<longleftrightarrow> a \<in> set (live (q_heap q)) \<and> qe_elt (q_heap q ! a) = v"
    "b \<in> set (live (q_heap q)) \<Longrightarrow> distinct (qe_keys (q_heap q ! b))"
    "q_queues q k = opt_list (waiting (q_heap q) k)"
    "counts_ok {} (q_heap q) (q_queues q)"
  using assms unfolding queue_invar_def by blast+

text \<open>Enqueue, in the form the proofs use: the resulting record without the loop.\<close>

lemma Enqueue_eq:
  fixes q :: "('k, 'v) Queue" and keys :: "'k list"
  assumes inv: "queue_invar q" and new: "q_ref q val = None"
  defines "H \<equiv> q_heap q" and "ks \<equiv> dedup keys"
  defines "entry \<equiv> \<lparr>qe_headCount = length (filter (\<lambda>k. waiting H k = []) ks), qe_elt = val,
      qe_keys = ks, qe_next = None, qe_valid = True\<rparr>"
  defines "L \<equiv> (case q_tail q of None \<Rightarrow> H | Some t \<Rightarrow> H[t := (H ! t)\<lparr>qe_next := Some (length H)\<rparr>])"
  shows "Enqueue q keys val =
    (\<lparr>q_heap = L @ [entry],
      q_head = (case q_tail q of None \<Rightarrow> Some (length H) | Some _ \<Rightarrow> q_head q), q_tail = Some (length H),
      q_queues = (\<lambda>k. if k \<in> set ks then Some (waiting H k @ [length H]) else q_queues q k),
      q_ref = (q_ref q)(val \<mapsto> length H)\<rparr>,
     Inr (\<forall>k \<in> set ks. waiting H k = []))"
proof -
  have len: "length L = length H" unfolding L_def by (cases "q_tail q") simp_all
  have "fold (enqueue_key (length H)) ks (L @ [entry\<lparr>qe_headCount := 0\<rparr>], q_queues q)
    = (L @ [entry], \<lambda>k. if k \<in> set ks then Some (waiting H k @ [length H]) else q_queues q k)"
    using len by (subst fold_enqueue_key)
      (auto simp: ks_def entry_def qlist_waiting [OF inv] H_def nth_append list_update_append)
  then show ?thesis
    using len new unfolding Enqueue_def L_def H_def ks_def entry_def
    by (cases "q_tail q") (simp_all add: Let_def nth_append filter_all_length)
qed

lemma live_link:
  "live (case t of None \<Rightarrow> H | Some t \<Rightarrow> H[t := (H ! t)\<lparr>qe_next := n\<rparr>]) = live H"
  by (cases t) (auto intro!: live_cong simp: nth_upd_if split: if_splits)

lemma Enqueue_invar:
  assumes inv: "queue_invar q" and new: "q_ref q val = None"
  shows "queue_invar (fst (Enqueue q keys val))"
    and "queue_abs (fst (Enqueue q keys val)) = aq_enqueue (set keys) val (queue_abs q)"
    and "snd (Enqueue q keys val) = Inr (\<forall>k \<in> set keys. waiting (q_heap q) k = [])"
proof -
  define H where "H = q_heap q"
  define L where "L = (case q_tail q of None \<Rightarrow> H | Some t \<Rightarrow> H[t := (H ! t)\<lparr>qe_next := Some (length H)\<rparr>])"
  define entry where "entry = \<lparr>qe_headCount = length (filter (\<lambda>k. waiting H k = []) (dedup keys)), qe_elt = val,
      qe_keys = dedup keys, qe_next = None, qe_valid = True\<rparr>"
  note eq = Enqueue_eq [OF inv new, folded H_def, of keys, folded entry_def, folded L_def]
  have len: "length L = length H" unfolding L_def by (cases "q_tail q") simp_all
  have live: "live (L @ [entry]) = live H @ [length H]"
    by (simp add: live_snoc len) (simp add: L_def live_link entry_def)
  have sel: "qe_elt (L ! a) = qe_elt (H ! a)" "qe_keys (L ! a) = qe_keys (H ! a)"
    "qe_headCount (L ! a) = qe_headCount (H ! a)" "qe_valid (L ! a) = qe_valid (H ! a)" if "a < length H" for a
    using that by (auto simp: L_def nth_upd_if split: option.splits)
  have wait: "waiting (L @ [entry]) k = waiting H k @ (if k \<in> set keys then [length H] else [])" for k
    unfolding waiting_def live using len sel
    by (auto simp: nth_append entry_def intro!: filter_cong)
  let ?q = "fst (Enqueue q keys val)"
  have Qs: "q_queues ?q k = opt_list (waiting (L @ [entry]) k)" for k
    by (auto simp: eq wait queue_invarD(4) [OF inv] opt_list_def H_def)
  then have ql: "qlist (q_queues ?q) k = waiting (L @ [entry]) k" for k by (simp add: qlist_def)
  have old: "is_first (q_queues ?q) k a = is_first (q_queues q) k a" if "a < length H" for k a
    using that by (auto simp: is_first_def ql wait qlist_waiting [OF inv] H_def split: list.splits)
  have fresh: "is_first (q_queues ?q) k (length H) \<longleftrightarrow> waiting H k = []" if "k \<in> set keys" for k
    using that by (cases "waiting H k")
      (auto simp: is_first_def ql wait, metis list.set_intros(1) nat_less_le waiting_iff)
  have "counts_ok {} (L @ [entry]) (q_queues ?q)"
    unfolding counts_ok_def live
  proof (intro ballI)
    fix a assume "a \<in> set (live H @ [length H]) - {}"
    then consider "a \<in> set (live H)" "a < length H" | "a = length H" by auto
    then show "qe_headCount ((L @ [entry]) ! a)
      = length (filter (\<lambda>k. is_first (q_queues ?q) k a) (qe_keys ((L @ [entry]) ! a)))"
    proof cases
      case 1
      then show ?thesis
        using queue_invarD(5) [OF inv] len sel old by (simp add: nth_append counts_ok_def H_def)
    next
      case 2
      then show ?thesis
        using len fresh by (auto simp: nth_append entry_def intro!: arg_cong [where f = length] filter_cong)
    qed
  qed
  moreover have "linked (L @ [entry]) (q_head ?q) (q_tail ?q)"
  proof (cases "q_head q")
    case None
    then show ?thesis
      using queue_invarD(1) [OF inv] live len by (auto simp: linked_def eq H_def L_def nth_append entry_def)
  next
    case (Some h)
    then show ?thesis
      using queue_invarD(1) [OF inv] live len
      by (auto simp: linked_def eq H_def [symmetric] L_def nth_append entry_def nth_list_update less_Suc_eq)
  qed
  moreover have "qe_elt (H ! a) \<noteq> val" if "a < length H" "qe_valid (H ! a)" for a
    using queue_invarD(2) [OF inv, folded H_def, of val a] new that by auto
  then have "q_ref ?q v = Some a \<longleftrightarrow> a \<in> set (live (L @ [entry])) \<and> qe_elt ((L @ [entry]) ! a) = v" for v a
    using queue_invarD(2) [OF inv, folded H_def] new len sel live
    by (auto simp: eq nth_append entry_def split: if_splits)
  moreover have "distinct (qe_keys ((L @ [entry]) ! a))" if "a \<in> set (live (L @ [entry]))" for a
    using queue_invarD(3) [OF inv, folded H_def, of a] that len sel unfolding live
    by (auto simp: nth_append entry_def)
  ultimately show "queue_invar ?q"
    using Qs by (simp add: queue_invar_def eq)
  show "queue_abs ?q = aq_enqueue (set keys) val (queue_abs q)"
    using len sel live by (simp add: queue_abs_def eq aq_enqueue_def nth_append H_def) (simp add: entry_def)
  show "snd (Enqueue q keys val) = Inr (\<forall>k \<in> set keys. waiting (q_heap q) k = [])"
    by (simp add: eq H_def)
qed

lemma live_after:
  "\<lbrakk>same_but_hc H H'; w < length H\<rbrakk>
   \<Longrightarrow> live (H'[w := invalidate nilv (H' ! w)]) = filter (\<lambda>a. a \<noteq> w) (live H)"
  using live_invalidate [of w H' nilv] same_but_hc_live [of H H'] by (simp add: same_but_hc_def)

text \<open>Dequeue, in the same form.\<close>

lemma Dequeue_eq:
  assumes inv: "queue_invar q" and w: "q_ref q val = Some w"
  defines "H \<equiv> q_heap q" and "Q' \<equiv> leave w (set (qe_keys (q_heap q ! w))) (q_queues q)"
  obtains H' r where
    "Dequeue nilv q val = Inr
       (\<lparr>q_heap = H'[w := invalidate nilv (H' ! w)],
         q_head = (case filter (\<lambda>a. a \<noteq> w) (live H) of [] \<Rightarrow> None | x # _ \<Rightarrow> Some x),
         q_tail = (if filter (\<lambda>a. a \<noteq> w) (live H) = [] then None else q_tail q),
         q_queues = Q', q_ref = (q_ref q)(val := None)\<rparr>, map (\<lambda>a. qe_elt (H ! a)) r, True)"
    "same_but_hc H H'" "counts_ok {w} H' Q'" "distinct r"
    "set r = {a \<in> set (live H) - {w}. full H Q' a \<and> \<not> full H (q_queues q) a}"
proof -
  have wl: "w \<in> set (live H)" "qe_elt (H ! w) = val" using queue_invarD(2) [OF inv] w by (simp_all add: H_def)
  have "counts_ok {w} H (q_queues q)" using queue_invarD(5) [OF inv] by (simp add: counts_ok_def H_def)
  then obtain H' r where r:
    "dequeue_keys w H (q_queues q) [] (qe_keys (H ! w)) = Inr (H', Q', map (\<lambda>a. qe_elt (H ! a)) r)"
    "same_but_hc H H'" "counts_ok {w} H' Q'" "distinct r"
    "set r = {a \<in> set (live H) - {w}. full H Q' a \<and> \<not> full H (q_queues q) a}"
    using dequeue_keys_spec [OF queue_invar_entries [OF inv] queue_invarD(3) [OF inv], of w w "[]"] wl
    by (auto simp: qlist_waiting [OF inv] Q'_def H_def)
  let ?H = "H'[w := invalidate nilv (H' ! w)]"
  have ne: "live H \<noteq> []" using wl(1) by (metis empty_iff list.set(1))
  obtain h where h: "q_head q = Some h" "h = hd (live H)" and
    chain: "\<And>a. \<lbrakk>h \<le> a; a < length H\<rbrakk> \<Longrightarrow> qe_next (H ! a) = (if Suc a < length H then Some (Suc a) else None)"
    using queue_invarD(1) [OF inv] ne by (auto simp: linked_def H_def split: option.splits)
  have len: "length ?H = length H" using r(2) by (simp add: same_but_hc_def)
  have live: "live ?H = filter (\<lambda>a. a \<noteq> w) (live H)"
    using live_after [OF r(2)] wl by simp
  have hl: "h \<in> set (live H)" using h ne by (metis hd_in_set)
  have "qe_next (?H ! a) = qe_next (H ! a)" if "a < length H" for a
    using r(2) that wl by (auto simp: same_but_hc_def nth_upd_if invalidate_def)
  moreover have "h \<le> a" if "a \<in> set (live ?H)" for a
    using that unfolding live h(2) by (auto intro: hd_sorted_le)
  ultimately have "skip_invalid ?H (Some h) = Some (case live ?H of [] \<Rightarrow> None | x # _ \<Rightarrow> Some x)"
    using skip_invalid_chain [of h ?H] live_from [of ?H h] chain hl len by auto
  then have "Dequeue nilv q val = Inr
       (\<lparr>q_heap = ?H, q_head = (case filter (\<lambda>a. a \<noteq> w) (live H) of [] \<Rightarrow> None | x # _ \<Rightarrow> Some x),
         q_tail = (if filter (\<lambda>a. a \<noteq> w) (live H) = [] then None else q_tail q),
         q_queues = Q', q_ref = (q_ref q)(val := None)\<rparr>, map (\<lambda>a. qe_elt (H ! a)) r, True)"
    using w r(1) h(1) unfolding Dequeue_def H_def [symmetric] live
    by (simp add: Let_def split: list.splits)
  then show thesis using that r by blast
qed

lemma Dequeue_invar:
  assumes inv: "queue_invar q" and w: "q_ref q val = Some w"
  shows "\<exists>q' ret. Dequeue nilv q val = Inr (q', ret, True) \<and> queue_invar q'
    \<and> queue_abs q' = aq_dequeue val (queue_abs q) \<and> distinct ret
    \<and> set ret = {qe_elt (q_heap q ! a) | a. a \<in> set (live (q_heap q)) - {w}
         \<and> full (q_heap q') (q_queues q') a \<and> \<not> full (q_heap q) (q_queues q) a}
    \<and> live (q_heap q') = filter (\<lambda>a. a \<noteq> w) (live (q_heap q))
    \<and> (\<forall>a \<in> set (live (q_heap q)) - {w}. qe_elt (q_heap q' ! a) = qe_elt (q_heap q ! a))"
proof -
  define H where "H = q_heap q"
  define Q' where "Q' = leave w (set (qe_keys (H ! w))) (q_queues q)"
  obtain H' r where D: "Dequeue nilv q val = Inr
       (\<lparr>q_heap = H'[w := invalidate nilv (H' ! w)],
         q_head = (case filter (\<lambda>a. a \<noteq> w) (live H) of [] \<Rightarrow> None | x # _ \<Rightarrow> Some x),
         q_tail = (if filter (\<lambda>a. a \<noteq> w) (live H) = [] then None else q_tail q),
         q_queues = Q', q_ref = (q_ref q)(val := None)\<rparr>, map (\<lambda>a. qe_elt (H ! a)) r, True)"
    and sb: "same_but_hc H H'" and cnt: "counts_ok {w} H' Q'" and dr: "distinct r"
    and sr: "set r = {a \<in> set (live H) - {w}. full H Q' a \<and> \<not> full H (q_queues q) a}"
    by (rule Dequeue_eq [OF inv w, of nilv, folded H_def, folded Q'_def])
  let ?H = "H'[w := invalidate nilv (H' ! w)]"
  let ?q = "\<lparr>q_heap = ?H,
         q_head = (case filter (\<lambda>a. a \<noteq> w) (live H) of [] \<Rightarrow> None | x # _ \<Rightarrow> Some x),
         q_tail = (if filter (\<lambda>a. a \<noteq> w) (live H) = [] then None else q_tail q),
         q_queues = Q', q_ref = (q_ref q)(val := None)\<rparr>"
  have wl: "w < length H" "qe_valid (H ! w)" "qe_elt (H ! w) = val"
    using queue_invarD(2) [OF inv] w by (simp_all add: H_def)
  have len: "length ?H = length H" using sb by (simp add: same_but_hc_def)
  have live: "live ?H = filter (\<lambda>a. a \<noteq> w) (live H)"
    using live_after [OF sb wl(1)] .
  have sel: "?H ! a = H' ! a" "qe_elt (?H ! a) = qe_elt (H ! a)" "qe_keys (?H ! a) = qe_keys (H ! a)"
    if "a < length H" "a \<noteq> w" for a
    using that sb by (simp_all add: same_but_hc_def nth_upd_if)
  have nxt: "qe_next (?H ! a) = qe_next (H ! a)" if "a < length H" for a
    using that sb by (simp add: same_but_hc_def nth_upd_if invalidate_def)
  have wait: "waiting ?H k = filter (\<lambda>a. a \<noteq> w) (waiting H k)" for k
    unfolding waiting_def live using sel by (auto simp: filter_filter intro!: filter_cong)
  have Qs: "Q' k = opt_list (waiting ?H k)" for k
  proof (cases "k \<in> set (qe_keys (H ! w))")
    case True
    then show ?thesis
      by (auto simp: Q'_def leave_def qlist_waiting [OF inv] H_def [symmetric] wait distinct_remove1_removeAll
          removeAll_filter_not_eq intro!: arg_cong [where f = opt_list] filter_cong)
  next
    case False
    then have "filter (\<lambda>a. a \<noteq> w) (waiting H k) = waiting H k" by (auto intro!: filter_True)
    with False show ?thesis using queue_invarD(4) [OF inv] by (simp add: Q'_def leave_def wait H_def)
  qed
  have "linked ?H (q_head ?q) (q_tail ?q)"
  proof (cases "live ?H")
    case Nil
    then show ?thesis using live by (simp add: linked_def)
  next
    case (Cons x xs)
    obtain h where h: "q_head q = Some h" "h = hd (live H)"
      "H \<noteq> []" "q_tail q = Some (length H - 1)"
      "\<And>a. \<lbrakk>h \<le> a; a < length H\<rbrakk> \<Longrightarrow> qe_next (H ! a) = (if Suc a < length H then Some (Suc a) else None)"
      using queue_invarD(1) [OF inv] Cons live by (auto simp: linked_def H_def split: option.splits)
    have "x \<in> set (live H)" using Cons live by (metis filter_is_subset list.set_intros(1) subsetD)
    then have "h \<le> x" using h(2) by (auto intro: hd_sorted_le)
    then show ?thesis using Cons live h len nxt by (auto simp: linked_def)
  qed
  moreover have "qe_elt (H ! a) = val \<longleftrightarrow> a = w" if "a \<in> set (live H)" for a
    using queue_invar_elt_inj [OF inv, folded H_def] that wl by auto
  note val = this
  have "q_ref ?q v = Some a \<longleftrightarrow> a \<in> set (live ?H) \<and> qe_elt (?H ! a) = v" for v a
    using queue_invarD(2) [OF inv, folded H_def, of v a] val sel(2) [of a] unfolding live by auto
  moreover have "counts_ok {} ?H Q'"
    using cnt sel(1) unfolding counts_ok_def live same_but_hc_live [OF sb] by auto
  moreover have "distinct (qe_keys (?H ! a))" if "a \<in> set (live ?H)" for a
    using queue_invarD(3) [OF inv, folded H_def, of a] that sel(3) [of a] unfolding live by auto
  ultimately have inv': "queue_invar ?q" using Qs by (simp add: queue_invar_def)
  have abs': "queue_abs ?q = aq_dequeue val (queue_abs q)"
  proof -
    have "filter (\<lambda>a. qe_elt (H ! a) \<noteq> val) (live H) = filter (\<lambda>a. a \<noteq> w) (live H)"
      by (rule filter_cong) (use val in simp_all)
    then show ?thesis
      using sel(2,3) unfolding queue_abs_def aq_dequeue_def H_def [symmetric]
      by (auto simp: live filter_map o_def)
  qed
  have "full ?H Q' a = full H Q' a" if "a \<in> set (live H) - {w}" for a
    using that sel(3) by (auto simp: full_def)
  then have ret: "set (map (\<lambda>a. qe_elt (H ! a)) r) = {qe_elt (H ! a) | a. a \<in> set (live H) - {w}
         \<and> full ?H Q' a \<and> \<not> full H (q_queues q) a}"
    unfolding set_map sr by blast
  have "distinct (map (\<lambda>a. qe_elt (H ! a)) r)"
    using dr sr queue_invar_elt_inj [OF inv, folded H_def] by (auto simp: distinct_map inj_on_def)
  then show ?thesis
    using D inv' abs' ret live sel(2) unfolding H_def [symmetric]
    by (intro exI [of _ ?q] exI [of _ "map (\<lambda>a. qe_elt (H ! a)) r"]) simp
qed

section \<open>Admission\<close>

lemma admitted_after_map:
  fixes xs :: "nat list"
  assumes "sorted xs" "distinct xs" "inj_on f (set xs)"
  shows "admitted_after U (map (\<lambda>a. (f a, K a)) xs) v \<longleftrightarrow>
    (\<exists>a \<in> set xs. f a = v \<and> K a \<inter> U = {} \<and> (\<forall>b \<in> set xs. b < a \<longrightarrow> K a \<inter> K b = {}))"
  using assms
proof (induction xs arbitrary: U)
  case (Cons x xs)
  have lt: "\<forall>y \<in> set xs. x < y" using Cons.prems by (auto simp: less_le)
  show ?case
  proof (cases "f x = v")
    case True
    then have "a = x" if "a \<in> set (x # xs)" "f a = v" for a
      using Cons.prems(3) that by (auto simp: inj_on_def)
    then show ?thesis using True lt by auto
  next
    case False
    then have "admitted_after U (map (\<lambda>a. (f a, K a)) (x # xs)) v \<longleftrightarrow>
      (\<exists>a \<in> set xs. f a = v \<and> K a \<inter> (U \<union> K x) = {} \<and> (\<forall>b \<in> set xs. b < a \<longrightarrow> K a \<inter> K b = {}))"
      using Cons by simp
    then show ?thesis using False lt by (auto simp: Int_Un_distrib)
  qed
qed simp

lemma hd_filter_sorted:
  fixes xs :: "nat list"
  assumes "sorted xs" "distinct xs" "a \<in> set xs" "P a"
  shows "hd (filter P xs) = a \<longleftrightarrow> (\<forall>b \<in> set xs. b < a \<longrightarrow> \<not> P b)"
proof -
  have s: "sorted (filter P xs)" using assms(1) by (simp add: sorted_wrt_filter)
  have mem: "a \<in> set (filter P xs)" using assms by simp
  then have h: "hd (filter P xs) \<in> set (filter P xs)" by (metis empty_iff hd_in_set list.set(1))
  show ?thesis
  proof
    assume "hd (filter P xs) = a"
    then have "\<forall>b \<in> set (filter P xs). a \<le> b" using s hd_sorted_le by blast
    then show "\<forall>b \<in> set xs. b < a \<longrightarrow> \<not> P b" by auto
  next
    assume "\<forall>b \<in> set xs. b < a \<longrightarrow> \<not> P b"
    then have "a \<le> hd (filter P xs)" using h by (metis (no_types, lifting) mem_Collect_eq not_le set_filter)
    then show "hd (filter P xs) = a" using hd_sorted_le [OF s mem] by simp
  qed
qed

lemma is_first_hd: "is_first Q k a \<longleftrightarrow> qlist Q k \<noteq> [] \<and> hd (qlist Q k) = a"
  by (auto simp: is_first_def split: list.splits)

lemma full_iff_earlier:
  assumes inv: "queue_invar q" and a: "a \<in> set (live (q_heap q))"
  shows "full (q_heap q) (q_queues q) a \<longleftrightarrow>
    (\<forall>b \<in> set (live (q_heap q)). b < a \<longrightarrow> set (qe_keys (q_heap q ! a)) \<inter> set (qe_keys (q_heap q ! b)) = {})"
proof -
  have "is_first (q_queues q) k a \<longleftrightarrow>
      (\<forall>b \<in> set (live (q_heap q)). b < a \<longrightarrow> k \<notin> set (qe_keys (q_heap q ! b)))"
    if k: "k \<in> set (qe_keys (q_heap q ! a))" for k
  proof -
    have "a \<in> set (waiting (q_heap q) k)" using a k by simp
    then have "waiting (q_heap q) k \<noteq> []" by (metis empty_iff list.set(1))
    then show ?thesis
      using hd_filter_sorted [OF sorted_live distinct_live a, of "\<lambda>a. k \<in> set (qe_keys (q_heap q ! a))"] k
      unfolding is_first_hd qlist_waiting [OF inv] waiting_def by blast
  qed
  then show ?thesis unfolding full_def by blast
qed

lemma admitted_iff_full:
  assumes inv: "queue_invar q"
  shows "admitted (queue_abs q) v \<longleftrightarrow>
    (\<exists>a \<in> set (live (q_heap q)). qe_elt (q_heap q ! a) = v \<and> full (q_heap q) (q_queues q) a)"
proof -
  have "inj_on (\<lambda>a. qe_elt (q_heap q ! a)) (set (live (q_heap q)))"
    using queue_invar_elt_inj [OF inv] by (auto simp: inj_on_def)
  then show ?thesis
    unfolding admitted_def queue_abs_def
    using admitted_after_map [of "live (q_heap q)" "\<lambda>a. qe_elt (q_heap q ! a)" "{}" "\<lambda>a. set (qe_keys (q_heap q ! a))" v]
      full_iff_earlier [OF inv] by simp
qed

lemma aq_values_ref: "queue_invar q \<Longrightarrow> v \<in> aq_values (queue_abs q) \<longleftrightarrow> q_ref q v \<noteq> None"
  using queue_invarD(2) by (fastforce simp: aq_values_def queue_abs_def image_iff)

lemma distinct_abs: "queue_invar q \<Longrightarrow> distinct (map fst (queue_abs q))"
  using queue_invar_elt_inj [of q] by (auto simp: queue_abs_def distinct_map inj_on_def)

section \<open>The abstract queue admits safely and makes progress\<close>

lemma admitted_after_keys:
  "\<lbrakk>admitted_after U s v; (v, ks) \<in> set s; distinct (map fst s)\<rbrakk> \<Longrightarrow> ks \<inter> U = {}"
  by (induction U s v rule: admitted_after.induct) (force split: if_splits)+

lemma admitted_after_value: "admitted_after U s v \<Longrightarrow> v \<in> aq_values s"
  by (induction U s v rule: admitted_after.induct) (auto simp: aq_values_def split: if_splits)

lemma admitted_exclusive:
  assumes "distinct (map fst s)" "admitted_after U s u" "admitted_after U s v" "u \<noteq> v"
    "(u, ks) \<in> set s" "(v, ls) \<in> set s"
  shows "ks \<inter> ls = {}"
  using assms
proof (induction s arbitrary: U)
  case (Cons p s)
  obtain x js where p: "p = (x, js)" by force
  consider "x = u" | "x = v" | "x \<noteq> u" "x \<noteq> v" by blast
  then show ?case
  proof cases
    case 1
    then have "ks = js" "(v, ls) \<in> set s" "admitted_after (U \<union> js) s v"
      using Cons.prems p by force+
    then show ?thesis using admitted_after_keys [of "U \<union> js" s v ls] Cons.prems(1) by auto
  next
    case 2
    then have "ls = js" "(u, ks) \<in> set s" "admitted_after (U \<union> js) s u"
      using Cons.prems p by force+
    then show ?thesis using admitted_after_keys [of "U \<union> js" s u ks] Cons.prems(1) by auto
  next
    case 3
    then show ?thesis using Cons.IH [of "U \<union> js"] Cons.prems p by auto
  qed
qed simp

lemma admitted_head: "s \<noteq> [] \<Longrightarrow> admitted s (fst (hd s))"
  by (cases s) (auto simp: admitted_def)

lemma admitted_after_snoc:
  "v \<in> aq_values s \<Longrightarrow> admitted_after U (s @ t) v = admitted_after U s v"
  by (induction U s v rule: admitted_after.induct) (auto simp: aq_values_def)

lemma admitted_after_new:
  "v \<notin> aq_values s \<Longrightarrow> admitted_after U (s @ [(v, ks)]) v \<longleftrightarrow> ks \<inter> (U \<union> \<Union> (snd ` set s)) = {}"
  by (induction U s v rule: admitted_after.induct) (auto simp: aq_values_def)

lemma admitted_after_mono: "\<lbrakk>admitted_after U s v; W \<subseteq> U\<rbrakk> \<Longrightarrow> admitted_after W s v"
proof (induction U s v arbitrary: W rule: admitted_after.induct)
  case (2 used u ks s v)
  show ?case
  proof (cases "u = v")
    case False
    have "admitted_after (W \<union> ks) s v"
      by (rule "2.IH" [OF False]) (use "2.prems" False in auto)
    with False show ?thesis by simp
  next
    case True
    with "2.prems" show ?thesis by auto
  qed
qed simp

lemma admitted_after_dequeue:
  "\<lbrakk>admitted_after U s v; u \<noteq> v\<rbrakk> \<Longrightarrow> admitted_after U (aq_dequeue u s) v"
  unfolding aq_dequeue_def
  by (induction U s v rule: admitted_after.induct)
     (auto split: if_splits intro: admitted_after_mono)

lemma aq_values_enqueue [simp]: "aq_values (aq_enqueue ks v s) = insert v (aq_values s)"
  by (simp add: aq_values_def aq_enqueue_def)

lemma aq_values_dequeue [simp]: "aq_values (aq_dequeue v s) = aq_values s - {v}"
  by (auto simp: aq_values_def aq_dequeue_def)

lemma admitted_value: "admitted s v \<Longrightarrow> v \<in> aq_values s"
  unfolding admitted_def by (rule admitted_after_value)

lemma admitted_enqueue: "u \<noteq> v \<Longrightarrow> admitted (aq_enqueue ks v s) u = admitted s u"
  using admitted_after_snoc [of u s "{}" "[(v, ks)]"] admitted_after_value [of "{}" _ u]
  unfolding admitted_def by (metis aq_enqueue_def aq_values_enqueue insertE)

lemma admitted_dequeue: "\<lbrakk>admitted s u; u \<noteq> v\<rbrakk> \<Longrightarrow> admitted (aq_dequeue v s) u"
  unfolding admitted_def by (rule admitted_after_dequeue) auto

section \<open>The admission contract\<close>

text \<open>
  What the users of an admission queue rely on, stated over the abstract queue: the operations keep
  the invariant, never panic, and report exactly the values that the change admits.
\<close>

locale admission_queue =
  fixes invar :: "'q \<Rightarrow> bool"
    and abs :: "'q \<Rightarrow> ('k, 'v) aqueue"
    and new :: 'q
    and enq :: "'q \<Rightarrow> 'k list \<Rightarrow> 'v \<Rightarrow> 'q \<times> (string, bool) result"
    and deq :: "'q \<Rightarrow> 'v \<Rightarrow> (queue_panic, 'q \<times> 'v list \<times> bool) result"
  assumes new_law: "invar new" "abs new = []"
    and distinct_law: "invar q \<Longrightarrow> distinct (map fst (abs q))"
    and enq_dup_law: "\<lbrakk>invar q; v \<in> aq_values (abs q)\<rbrakk> \<Longrightarrow> \<exists>e. enq q ks v = (q, Inl e)"
    and enq_law: "\<lbrakk>invar q; v \<notin> aq_values (abs q)\<rbrakk> \<Longrightarrow>
      \<exists>q'. enq q ks v = (q', Inr (admitted (abs q') v)) \<and> invar q' \<and> abs q' = aq_enqueue (set ks) v (abs q)"
    and deq_law: "invar q \<Longrightarrow> \<exists>q' ret. deq q v = Inr (q', ret, v \<in> aq_values (abs q)) \<and> invar q'
      \<and> abs q' = aq_dequeue v (abs q) \<and> distinct ret
      \<and> set ret = {u. admitted (abs q') u \<and> \<not> admitted (abs q) u}"

text \<open>
  A client that tracks what it was told to run: it starts a value when \<open>Enqueue\<close> returns true or
  \<open>Dequeue\<close> returns it, and forgets it when it dequeues it. The third component counts how often a
  value was started, so that a second start of the same admission is visible.
\<close>

datatype ('k, 'v) qop = OpEnqueue "'k list" 'v | OpDequeue 'v

fun client_step ::
  "('q \<Rightarrow> 'k list \<Rightarrow> 'v \<Rightarrow> 'q \<times> (string, bool) result)
   \<Rightarrow> ('q \<Rightarrow> 'v \<Rightarrow> (queue_panic, 'q \<times> 'v list \<times> bool) result)
   \<Rightarrow> ('k, 'v) qop \<Rightarrow> 'q \<times> 'v multiset \<Rightarrow> (queue_panic, 'q \<times> 'v multiset) result" where
  "client_step enq deq (OpEnqueue ks v) (q, run) =
     (case enq q ks v of
        (q', Inr True) \<Rightarrow> Inr (q', add_mset v run)
      | (q', _) \<Rightarrow> Inr (q', run))"
| "client_step enq deq (OpDequeue v) (q, run) =
     (case deq q v of
        Inl p \<Rightarrow> Inl p
      | Inr (q', ret, _) \<Rightarrow> Inr (q', (run - {# v #}) + mset ret))"

fun client_run where
  "client_run enq deq [] st = Inr st"
| "client_run enq deq (op # ops) st =
     (case client_step enq deq op st of Inl p \<Rightarrow> Inl p | Inr st' \<Rightarrow> client_run enq deq ops st')"

context admission_queue
begin

text \<open>The client's picture is exact: what it runs is what the queue admits, each value once.\<close>

definition exact :: "'q \<times> 'v multiset \<Rightarrow> bool" where
  "exact st \<longleftrightarrow> invar (fst st) \<and> (\<forall>v. count (snd st) v = (if admitted (abs (fst st)) v then 1 else 0))"

lemma exact_enqueue:
  assumes ex: "exact (q, run)"
  shows "\<exists>st'. client_step enq deq (OpEnqueue ks v) (q, run) = Inr st' \<and> exact st'"
proof (cases "v \<in> aq_values (abs q)")
  case True
  then obtain e where "enq q ks v = (q, Inl e)" using enq_dup_law [of q v ks] ex by (auto simp: exact_def)
  then show ?thesis using ex by simp
next
  case False
  then obtain q' where q': "enq q ks v = (q', Inr (admitted (abs q') v))" "invar q'"
    "abs q' = aq_enqueue (set ks) v (abs q)"
    using enq_law [of q v ks] ex by (auto simp: exact_def)
  have old: "admitted (abs q') u = admitted (abs q) u" if "u \<noteq> v" for u
    unfolding q'(3) using that by (rule admitted_enqueue)
  have "\<not> admitted (abs q) v" using False admitted_value [of "abs q" v] by auto
  then have "count (if admitted (abs q') v then add_mset v run else run) u
      = (if admitted (abs q') u then 1 else 0)" for u
    using ex old [of u] by (cases "u = v") (auto simp: exact_def)
  then have "exact (q', if admitted (abs q') v then add_mset v run else run)"
    using q'(2) by (simp add: exact_def)
  then show ?thesis using q'(1) by (cases "admitted (abs q') v") auto
qed

lemma exact_dequeue:
  assumes ex: "exact (q, run)"
  shows "\<exists>st'. client_step enq deq (OpDequeue v) (q, run) = Inr st' \<and> exact st'"
proof -
  obtain q' ret where q': "deq q v = Inr (q', ret, v \<in> aq_values (abs q))" "invar q'"
    "abs q' = aq_dequeue v (abs q)" "distinct ret"
    "set ret = {u. admitted (abs q') u \<and> \<not> admitted (abs q) u}"
    using deq_law [of q v] ex by (auto simp: exact_def)
  have cr: "count (mset ret) u = (if admitted (abs q') u \<and> \<not> admitted (abs q) u then 1 else 0)" for u
    using q'(4,5) by (simp add: distinct_count_atmost_1 count_mset_0_iff)
  have gone: "\<not> admitted (abs q') v" using admitted_value [of "abs q'" v] q'(3) by auto
  have keep: "admitted (abs q') u" if "admitted (abs q) u" "u \<noteq> v" for u
    unfolding q'(3) using that by (rule admitted_dequeue)
  have "exact (q', (run - {# v #}) + mset ret)"
    using ex q'(2) cr gone keep by (auto simp: exact_def)
  then show ?thesis using q'(1) by simp
qed

lemma exact_run: "exact st \<Longrightarrow> \<exists>st'. client_run enq deq ops st = Inr st' \<and> exact st'"
proof (induction ops arbitrary: st)
  case (Cons op ops)
  obtain q run where st: "st = (q, run)" by force
  have "\<exists>st'. client_step enq deq op st = Inr st' \<and> exact st'"
    using Cons.prems exact_enqueue exact_dequeue unfolding st by (cases op) simp_all
  then show ?case using Cons.IH by auto
qed simp

lemma exact_new: "exact (new, {#})"
  using new_law by (simp add: exact_def admitted_def)

lemma exact_run_iff: "exact (q, run) \<Longrightarrow> v \<in># run \<longleftrightarrow> admitted (abs q) v"
  by (auto simp: exact_def count_greater_zero_iff [symmetric] simp del: count_greater_zero_iff)

lemma exact_exclusive:
  assumes "exact (q, run)" "u \<in># run" "v \<in># run" "u \<noteq> v" "(u, ks) \<in> set (abs q)" "(v, ls) \<in> set (abs q)"
  shows "ks \<inter> ls = {}"
proof (rule admitted_exclusive)
  show "distinct (map fst (abs q))" using assms(1) by (intro distinct_law) (simp add: exact_def)
  show "admitted_after {} (abs q) u" "admitted_after {} (abs q) v"
    using assms exact_run_iff unfolding admitted_def [symmetric] by blast+
qed (use assms in simp_all)

lemma exact_head: "\<lbrakk>exact (q, run); abs q \<noteq> []\<rbrakk> \<Longrightarrow> fst (hd (abs q)) \<in># run"
  using admitted_head exact_run_iff by blast

text \<open>The whole contract of a client run.\<close>

lemma client_run_correct:
  "\<exists>q run. client_run enq deq ops (new, {#}) = Inr (q, run) \<and> invar q
     \<and> (\<forall>v. count run v = (if admitted (abs q) v then 1 else 0))
     \<and> (\<forall>u ks v ls. u \<in># run \<and> v \<in># run \<and> u \<noteq> v \<and> (u, ks) \<in> set (abs q) \<and> (v, ls) \<in> set (abs q)
          \<longrightarrow> ks \<inter> ls = {})
     \<and> (abs q \<noteq> [] \<longrightarrow> fst (hd (abs q)) \<in># run)"
proof -
  obtain q run where "client_run enq deq ops (new, {#}) = Inr (q, run)" "exact (q, run)"
    using exact_run [OF exact_new] by (metis surj_pair)
  note r = this
  have "\<forall>u ks v ls. u \<in># run \<and> v \<in># run \<and> u \<noteq> v \<and> (u, ks) \<in> set (abs q) \<and> (v, ls) \<in> set (abs q)
          \<longrightarrow> ks \<inter> ls = {}"
    using exact_exclusive [OF r(2)] by blast
  moreover have "abs q \<noteq> [] \<longrightarrow> fst (hd (abs q)) \<in># run" using exact_head [OF r(2)] by blast
  ultimately show ?thesis using r by (intro exI [of _ q] exI [of _ run]) (simp add: exact_def)
qed

end

section \<open>The queue fulfils the contract\<close>

lemma Enqueue_law:
  assumes inv: "queue_invar q" and new: "v \<notin> aq_values (queue_abs q)"
  shows "\<exists>q'. Enqueue q ks v = (q', Inr (admitted (queue_abs q') v)) \<and> queue_invar q'
    \<and> queue_abs q' = aq_enqueue (set ks) v (queue_abs q)"
proof -
  have ref: "q_ref q v = None" using new aq_values_ref [OF inv] by auto
  have "(\<forall>k \<in> set ks. waiting (q_heap q) k = []) \<longleftrightarrow> set ks \<inter> \<Union> (snd ` set (queue_abs q)) = {}"
    by (auto simp: queue_abs_def waiting_def filter_empty_conv)
  also have "\<dots> \<longleftrightarrow> admitted (aq_enqueue (set ks) v (queue_abs q)) v"
    using admitted_after_new [OF new, of "{}" "set ks"] by (simp add: admitted_def aq_enqueue_def)
  finally have "snd (Enqueue q ks v) = Inr (admitted (queue_abs (fst (Enqueue q ks v))) v)"
    unfolding Enqueue_invar(2,3) [OF inv ref, of ks] by simp
  then show ?thesis
    using Enqueue_invar(1,2) [OF inv ref, of ks] by (intro exI [of _ "fst (Enqueue q ks v)"]) (simp add: prod_eq_iff)
qed

lemma Dequeue_law:
  assumes inv: "queue_invar q"
  shows "\<exists>q' ret. Dequeue nilv q v = Inr (q', ret, v \<in> aq_values (queue_abs q)) \<and> queue_invar q'
    \<and> queue_abs q' = aq_dequeue v (queue_abs q) \<and> distinct ret
    \<and> set ret = {u. admitted (queue_abs q') u \<and> \<not> admitted (queue_abs q) u}"
proof (cases "q_ref q v")
  case None
  then have "v \<notin> aq_values (queue_abs q)" using aq_values_ref [OF inv] by simp
  moreover from this have "aq_dequeue v (queue_abs q) = queue_abs q"
    by (auto simp: aq_dequeue_def aq_values_def filter_id_conv)
  ultimately show ?thesis using None inv by (simp add: Dequeue_def)
next
  case (Some w)
  obtain q' ret where q': "Dequeue nilv q v = Inr (q', ret, True)" "queue_invar q'"
    "queue_abs q' = aq_dequeue v (queue_abs q)" "distinct ret"
    "set ret = {qe_elt (q_heap q ! a) | a. a \<in> set (live (q_heap q)) - {w}
       \<and> full (q_heap q') (q_queues q') a \<and> \<not> full (q_heap q) (q_queues q) a}"
    "live (q_heap q') = filter (\<lambda>a. a \<noteq> w) (live (q_heap q))"
    "\<And>a. a \<in> set (live (q_heap q)) - {w} \<Longrightarrow> qe_elt (q_heap q' ! a) = qe_elt (q_heap q ! a)"
    using Dequeue_invar [OF inv Some, of nilv] by auto
  have "set ret = {u. admitted (queue_abs q') u \<and> \<not> admitted (queue_abs q) u}"
    unfolding q'(5) admitted_iff_full [OF inv] admitted_iff_full [OF q'(2)]
    using q'(6,7) queue_invar_elt_inj [OF inv] by (auto simp del: live_iff)
  then show ?thesis using q' Some aq_values_ref [OF inv, of v] by auto
qed

interpretation lockset_queue: admission_queue queue_invar queue_abs NewQueue Enqueue "Dequeue nilv"
  for nilv :: 'v
proof
  show "\<exists>e. Enqueue q ks v = (q, Inl e)" if "queue_invar q" "v \<in> aq_values (queue_abs q)"
    for q :: "('k, 'v) Queue" and v ks
    using that aq_values_ref [OF that(1), of v] by (auto simp: Enqueue_def)
qed (use NewQueue_invar NewQueue_abs distinct_abs Enqueue_law Dequeue_law in auto)

section \<open>Properties\<close>

text \<open>
  C1: for every sequence of \<open>Enqueue\<close> and \<open>Dequeue\<close> calls on a new queue, none of them panics or
  loops, and a client that starts what it is told to start runs exactly the admitted values, each
  one once: no admission is lost, repeated or premature.
\<close>

theorem admission_notifications_exact:
  "\<exists>q run. client_run Enqueue (Dequeue nilv) ops (NewQueue, {#}) = Inr (q, run) \<and> queue_invar q
     \<and> (\<forall>v. count run v = (if admitted (queue_abs q) v then 1 else 0))"
  using lockset_queue.client_run_correct [of nilv ops] by blast

text \<open>
  C2: after any sequence of calls, two values that run at the same time have disjoint key sets,
  and a non-empty queue always runs its oldest value, so the queue cannot deadlock.
\<close>

theorem admission_exclusive_and_live:
  assumes "client_run Enqueue (Dequeue nilv) ops (NewQueue, {#}) = Inr (q, run)"
  shows "(\<forall>u ks v ls. u \<in># run \<and> v \<in># run \<and> u \<noteq> v \<and> (u, ks) \<in> set (queue_abs q) \<and> (v, ls) \<in> set (queue_abs q)
            \<longrightarrow> ks \<inter> ls = {})
         \<and> (queue_abs q \<noteq> [] \<longrightarrow> fst (hd (queue_abs q)) \<in># run)"
  using lockset_queue.client_run_correct [of nilv ops] assms by (simp only: sum.inject prod.inject) blast

text \<open>
  Witness for C2: three values on overlapping keys, the first one dequeued; the second runs.
\<close>

theorem admission_exclusive_and_live_witness:
  "\<exists>q run. client_run Enqueue (Dequeue (0 :: nat))
       [OpEnqueue [1, 2, 1] 10, OpEnqueue [2, 3] 20, OpEnqueue [3 :: nat] 30, OpDequeue 10] (NewQueue, {#})
       = Inr (q, run)
     \<and> queue_abs q = [(20, {2, 3}), (30, {3})] \<and> run = {# 20 #} \<and> fst (hd (queue_abs q)) \<in># run"
proof -
  let ?r = "client_run Enqueue (Dequeue (0 :: nat))
       [OpEnqueue [1, 2, 1] 10, OpEnqueue [2, 3] 20, OpEnqueue [3 :: nat] 30, OpDequeue 10] (NewQueue, {#})"
  have ev: "case ?r of Inl _ \<Rightarrow> False
     | Inr (q, run) \<Rightarrow> queue_abs q = [(20, {2, 3}), (30, {3})] \<and> run = {# 20 #}"
    by code_simp
  obtain q run where "?r = Inr (q, run)" "queue_abs q = [(20, {2, 3}), (30, {3})]" "run = {# 20 #}"
    using case_Inr_pairD [OF ev] by blast
  note r = this
  have "queue_abs q \<noteq> [] \<longrightarrow> fst (hd (queue_abs q)) \<in># run"
    using admission_exclusive_and_live [OF r(1)] by (rule conjunct2)
  then have "fst (hd (queue_abs q)) \<in># run" using r(2) by simp
  with r show ?thesis by (intro exI [of _ q] exI [of _ run] conjI) assumption+
qed

text \<open>
  C3: \<open>Dequeue\<close> refines removal from the abstract queue, wherever in the queue the value is: it
  reports whether the value was queued, removes it from every key queue and from the global
  list, and returns exactly the values that the removal unblocks.
\<close>

theorem Dequeue_refines:
  assumes "queue_invar q"
  shows "\<exists>q' ret. Dequeue nilv q v = Inr (q', ret, v \<in> aq_values (queue_abs q)) \<and> queue_invar q'
    \<and> queue_abs q' = aq_dequeue v (queue_abs q) \<and> distinct ret
    \<and> set ret = {u. admitted (queue_abs q') u \<and> \<not> admitted (queue_abs q) u}"
  using Dequeue_law [OF assms] .

text \<open>Witness for C3: the new queue.\<close>

theorem Dequeue_refines_witness:
  "queue_invar (NewQueue :: (nat, nat) Queue)
   \<and> (\<exists>q'. Dequeue 0 NewQueue 7 = Inr (q' :: (nat, nat) Queue, [], False) \<and> queue_abs q' = [])"
  using Dequeue_refines [of "NewQueue :: (nat, nat) Queue" 0 7] NewQueue_invar
  by (auto simp: NewQueue_abs aq_values_def aq_dequeue_def admitted_def set_empty [symmetric] simp del: set_empty)

text \<open>
  The tail pointer is not moved back when the newest entry is dequeued out of order: \<open>PeekTail\<close>
  then returns the zero value of a cleared entry although older values are queued.
\<close>

theorem PeekTail_stale:
  "case client_run Enqueue (Dequeue (0 :: nat))
       [OpEnqueue [1 :: nat] 10, OpEnqueue [1] 20, OpDequeue 20] (NewQueue, {#})
     of Inl _ \<Rightarrow> False | Inr (q, run) \<Rightarrow> map fst (queue_abs q) = [10] \<and> PeekTail 0 q = (0, True)"
  by code_simp

end
