(* ===== verification/Schedule.thy ===== *)
theory Schedule
  imports Lockset
begin

text \<open>
  The task scheduler \<open>Set\<close> of \<open>src/internal/util/lockset/lockset.go\<close>, on top of the admission queue
  of \<open>Lockset\<close>. Goroutines are tasks with a program counter; a step is one critical section or one
  access to a shared variable, so the interleavings of the code are those of the step relation.
  Callbacks return any result; the runner may refuse to start a task.

  Spawning: \<open>dispose\<close> hands its closure to the runner, which starts it at an arbitrary later time.
  A pending start is the task \<open>TStart\<close>, created in the step that decides to call \<open>dispose\<close>.
\<close>

section \<open>Statuses\<close>

datatype sched_error = Canceled | CallbackErr nat | PanicErr nat | EnqueueErr | RunnerErr

datatype Status =
    executing | queued | retryQueued | retryRequested | success | StatusErr sched_error

definition StatusFor :: "sched_error option \<Rightarrow> Status" where
  "StatusFor err = (case err of None \<Rightarrow> success | Some e \<Rightarrow> StatusErr e)"

definition Status_Completed :: "Status \<Rightarrow> bool" where
  "Status_Completed s \<longleftrightarrow> s = success \<or> (\<exists>e. s = StatusErr e)"

definition Status_Err :: "Status \<Rightarrow> sched_error option" where
  "Status_Err s = (case s of StatusErr e \<Rightarrow> Some e | _ \<Rightarrow> None)"

definition Status_Executing :: "Status \<Rightarrow> bool" where
  "Status_Executing s \<longleftrightarrow> s = executing"

definition Status_Queued :: "Status \<Rightarrow> bool" where
  "Status_Queued s \<longleftrightarrow> s = queued"

definition Status_Retrying :: "Status \<Rightarrow> bool" where
  "Status_Retrying s \<longleftrightarrow> s = retryRequested \<or> s = retryQueued"

definition Status_Success :: "Status \<Rightarrow> bool" where
  "Status_Success s \<longleftrightarrow> s = success"

text \<open>
  \<open>Wait\<close> on the statuses it reads: \<open>None\<close> when it has to block, otherwise the first error or
  success of all.
\<close>

fun Wait :: "Status list \<Rightarrow> sched_error option option" where
  "Wait [] = Some None"
| "Wait (s # ss) =
     (if Status_Success s then Wait ss
      else case Status_Err s of Some e \<Rightarrow> Some (Some e) | None \<Rightarrow> None)"

section \<open>Waiters, callbacks and tasks\<close>

text \<open>A scheduled function is the user's or the one that \<open>cancel\<close> swaps in.\<close>

datatype callback = UserFn nat | CanceledFn

text \<open>What a callback returns: nil, a \<open>RetryAtHeadErr\<close> with an optional cause, another error.\<close>

datatype cb_result = CbNil | CbRetry "sched_error option" | CbErr sched_error

datatype cb_outcome = Return cb_result | PanicError cb_result | PanicValue nat

definition tryCall :: "cb_outcome \<Rightarrow> cb_result" where
  "tryCall out = (case out of
     Return r \<Rightarrow> r
   | PanicError r \<Rightarrow> r
   | PanicValue n \<Rightarrow> CbErr (PanicErr n))"

fun may_return :: "callback \<Rightarrow> cb_outcome \<Rightarrow> bool" where
  "may_return (UserFn _) out \<longleftrightarrow> True"
| "may_return CanceledFn out \<longleftrightarrow> out = Return (CbErr Canceled)"

record 'k waiter =
  w_fn :: "callback option"
  w_keys :: "'k list"
  w_result :: Status

text \<open>
  The points of the closure in \<open>dispose\<close>: before the first critical section (with the \<open>cancel\<close>
  flag); after it, with \<open>fn\<close> and \<open>startedAtHead\<close>; in the callback; before the switch on its error;
  before \<open>Dequeue\<close>; between setting \<open>retryRequested\<close> and reading \<open>IsHead\<close>, with the mutex held;
  and before \<open>PeekHead\<close>, before reading and before setting the status of the head, with the list
  \<open>next\<close> still to be dispatched.
\<close>

datatype task =
    TStart nat bool
  | TTaken nat callback bool bool
  | TRun nat callback bool
  | TReturned nat callback bool cb_result
  | TDequeue nat
  | TRestore nat
  | TPeek "nat list"
  | TGet nat "nat list"
  | TSet nat "nat list"

text \<open>Waiters are pointers: \<open>None\<close> is nil, \<open>Some w\<close> the waiter at index \<open>w\<close>.\<close>

record 'k sset =
  ss_queue :: "('k, nat option) Queue"
  ss_waiters :: "'k waiter list"
  ss_waiterMu :: bool
  ss_tasks :: "task multiset"
  ss_refused :: bool

definition NewSet :: "'k sset" where
  "NewSet = \<lparr>ss_queue = NewQueue, ss_waiters = [], ss_waiterMu = False, ss_tasks = {#}, ss_refused = False\<rparr>"

section \<open>Operations\<close>

definition set_result :: "nat \<Rightarrow> Status \<Rightarrow> 'k sset \<Rightarrow> 'k sset" where
  "set_result w r s = s\<lparr>ss_waiters := (ss_waiters s)[w := (ss_waiters s ! w)\<lparr>w_result := r\<rparr>]\<rparr>"

definition set_fn :: "nat \<Rightarrow> callback option \<Rightarrow> 'k sset \<Rightarrow> 'k sset" where
  "set_fn w f s = s\<lparr>ss_waiters := (ss_waiters s)[w := (ss_waiters s ! w)\<lparr>w_fn := f\<rparr>]\<rparr>"

definition spawn :: "task multiset \<Rightarrow> 'k sset \<Rightarrow> 'k sset" where
  "spawn T s = s\<lparr>ss_tasks := ss_tasks s + T\<rparr>"

definition Schedule :: "'k list \<Rightarrow> nat \<Rightarrow> 'k sset \<Rightarrow> 'k sset" where
  "Schedule keys fn s =
     (let ks = dedup keys; w = length (ss_waiters s);
          s1 = s\<lparr>ss_waiters := ss_waiters s @ [\<lparr>w_fn = Some (UserFn fn), w_keys = ks, w_result = queued\<rparr>]\<rparr>
      in case Enqueue (ss_queue s) ks (Some w) of
           (q, Inl _) \<Rightarrow> set_result w (StatusFor (Some EnqueueErr)) (s1\<lparr>ss_queue := q\<rparr>)
         | (q, Inr ready) \<Rightarrow>
             if ready then spawn {# TStart w False #} (s1\<lparr>ss_queue := q\<rparr>)
             else s1\<lparr>ss_queue := q\<rparr>)"

text \<open>The function that \<open>Schedule\<close> returns to cancel the waiter.\<close>

definition cancel :: "nat \<Rightarrow> 'k sset \<Rightarrow> 'k sset" where
  "cancel w s =
     (if w_fn (ss_waiters s ! w) \<noteq> None
      then spawn {# TStart w True #} (set_fn w (Some CanceledFn) s) else s)"

definition work_start :: "nat \<Rightarrow> bool \<Rightarrow> 'k sset \<Rightarrow> 'k sset" where
  "work_start w can s =
     (let startedAtHead = IsHead (ss_queue s) (Some w)
      in case w_fn (ss_waiters s ! w) of
           None \<Rightarrow> s
         | Some fn \<Rightarrow> spawn {# TTaken w fn startedAtHead can #} (set_fn w None s))"

definition work_call :: "nat \<Rightarrow> callback \<Rightarrow> bool \<Rightarrow> bool \<Rightarrow> 'k sset \<Rightarrow> 'k sset" where
  "work_call w fn startedAtHead can s =
     (if can then spawn {# TReturned w fn startedAtHead (CbErr Canceled) #} s
      else spawn {# TRun w fn startedAtHead #} (set_result w executing s))"

definition work_return :: "nat \<Rightarrow> callback \<Rightarrow> bool \<Rightarrow> cb_outcome \<Rightarrow> 'k sset \<Rightarrow> 'k sset" where
  "work_return w fn startedAtHead out s = spawn {# TReturned w fn startedAtHead (tryCall out) #} s"

text \<open>The switch on the error. A retry that is not at the head puts the function back, sets the
  status and keeps the mutex until \<open>IsHead\<close> was read.\<close>

definition work_switch :: "nat \<Rightarrow> callback \<Rightarrow> bool \<Rightarrow> cb_result \<Rightarrow> 'k sset \<Rightarrow> 'k sset" where
  "work_switch w fn startedAtHead err s =
     (case err of
        CbNil \<Rightarrow> spawn {# TDequeue w #} (set_result w success s)
      | CbRetry cause \<Rightarrow>
          if startedAtHead
          then spawn {# TDequeue w #}
                 (set_result w (case cause of None \<Rightarrow> success | Some e \<Rightarrow> StatusErr e) s)
          else spawn {# TRestore w #}
                 ((set_result w retryRequested (set_fn w (Some fn) s))\<lparr>ss_waiterMu := True\<rparr>)
      | CbErr e \<Rightarrow> spawn {# TDequeue w #} (set_result w (StatusErr e) s))"

definition work_restored :: "nat \<Rightarrow> 'k sset \<Rightarrow> 'k sset" where
  "work_restored w s =
     (let endedAtHead = IsHead (ss_queue s) (Some w); s1 = s\<lparr>ss_waiterMu := False\<rparr>
      in if endedAtHead then spawn {# TStart w False #} s1 else s1)"

text \<open>Dispatching the unblocked waiters.\<close>

definition dispatch :: "nat list \<Rightarrow> 'k sset \<Rightarrow> 'k sset" where
  "dispatch next = spawn (mset (map (\<lambda>w. TStart w False) next))"

definition work_dequeue :: "nat \<Rightarrow> 'k sset \<Rightarrow> (queue_panic, 'k sset) result" where
  "work_dequeue w s =
     (case Dequeue None (ss_queue s) (Some w) of
        Inl p \<Rightarrow> Inl p
      | Inr (q, next, _) \<Rightarrow> Inr (spawn {# TPeek (map the next) #} (s\<lparr>ss_queue := q\<rparr>)))"

definition work_peek :: "nat list \<Rightarrow> 'k sset \<Rightarrow> 'k sset" where
  "work_peek next s =
     (case PeekHead None (ss_queue s) of
        (Some h, True) \<Rightarrow> spawn {# TGet h next #} s
      | _ \<Rightarrow> dispatch next s)"

definition work_get :: "nat \<Rightarrow> nat list \<Rightarrow> 'k sset \<Rightarrow> 'k sset" where
  "work_get h next s =
     (if w_result (ss_waiters s ! h) = retryRequested then spawn {# TSet h next #} s
      else dispatch next s)"

definition work_set :: "nat \<Rightarrow> nat list \<Rightarrow> 'k sset \<Rightarrow> 'k sset" where
  "work_set h next s = dispatch (next @ [h]) (set_result h retryQueued s)"

text \<open>The runner refuses the closure: the waiter gets the error and nothing is started.\<close>

definition refuse :: "nat \<Rightarrow> 'k sset \<Rightarrow> 'k sset" where
  "refuse w s = (set_result w (StatusErr RunnerErr) s)\<lparr>ss_refused := True\<rparr>"

section \<open>The step relation\<close>

definition without :: "task \<Rightarrow> 'k sset \<Rightarrow> 'k sset" where
  "without t s = s\<lparr>ss_tasks := ss_tasks s - {# t #}\<rparr>"

text \<open>A retry that is not at the head is the case of the switch that takes the mutex.\<close>

definition wants_retry :: "cb_result \<Rightarrow> bool" where
  "wants_retry r = (case r of CbRetry _ \<Rightarrow> True | _ \<Rightarrow> False)"

inductive work_step :: "'k sset \<Rightarrow> 'k sset \<Rightarrow> bool" where
  start: "\<lbrakk>TStart w c \<in># ss_tasks s; \<not> ss_waiterMu s\<rbrakk>
    \<Longrightarrow> work_step s (work_start w c (without (TStart w c) s))"
| call: "TTaken w f h c \<in># ss_tasks s \<Longrightarrow> work_step s (work_call w f h c (without (TTaken w f h c) s))"
| return: "\<lbrakk>TRun w f h \<in># ss_tasks s; may_return f out\<rbrakk>
    \<Longrightarrow> work_step s (work_return w f h out (without (TRun w f h) s))"
| switch: "\<lbrakk>TReturned w f h r \<in># ss_tasks s; wants_retry r \<and> \<not> h \<longrightarrow> \<not> ss_waiterMu s\<rbrakk>
    \<Longrightarrow> work_step s (work_switch w f h r (without (TReturned w f h r) s))"
| restored: "TRestore w \<in># ss_tasks s \<Longrightarrow> work_step s (work_restored w (without (TRestore w) s))"
| dequeue: "\<lbrakk>TDequeue w \<in># ss_tasks s; work_dequeue w (without (TDequeue w) s) = Inr s'\<rbrakk> \<Longrightarrow> work_step s s'"
| peek: "TPeek n \<in># ss_tasks s \<Longrightarrow> work_step s (work_peek n (without (TPeek n) s))"
| get: "TGet h n \<in># ss_tasks s \<Longrightarrow> work_step s (work_get h n (without (TGet h n) s))"
| set_status: "TSet h n \<in># ss_tasks s \<Longrightarrow> work_step s (work_set h n (without (TSet h n) s))"

text \<open>Steps of the environment: a new task, a cancellation, a refusal of the runner.\<close>

inductive sched_step :: "'k sset \<Rightarrow> 'k sset \<Rightarrow> bool" where
  schedule: "sched_step s (Schedule keys fn s)"
| cancel: "\<lbrakk>w < length (ss_waiters s); \<not> ss_waiterMu s\<rbrakk> \<Longrightarrow> sched_step s (cancel w s)"
| refused: "TStart w c \<in># ss_tasks s \<Longrightarrow> sched_step s (refuse w (without (TStart w c) s))"
| work: "work_step s s' \<Longrightarrow> sched_step s s'"

inductive reach :: "'k sset \<Rightarrow> bool" where
  init: "reach NewSet"
| step: "\<lbrakk>reach s; sched_step s s'\<rbrakk> \<Longrightarrow> reach s'"

section \<open>The queue as the scheduler sees it\<close>

lemma queue_abs_head:
  assumes "queue_invar q"
  shows "q_head q = None \<longleftrightarrow> queue_abs q = []"
    and "q_head q = Some h \<Longrightarrow> queue_abs q \<noteq> [] \<and> qe_elt (q_heap q ! h) = fst (hd (queue_abs q))"
  using queue_invarD(1) [OF assms]
  by (auto simp: linked_def queue_abs_def hd_map split: option.splits)

lemma IsHead_iff: "queue_invar q \<Longrightarrow> IsHead q v \<longleftrightarrow> queue_abs q \<noteq> [] \<and> fst (hd (queue_abs q)) = v"
  using queue_abs_head [of q] by (cases "q_head q") (auto simp: IsHead_def)

lemma PeekHead_eq:
  "queue_invar q \<Longrightarrow> PeekHead n q = (if queue_abs q = [] then (n, False) else (fst (hd (queue_abs q)), True))"
  using queue_abs_head [of q] by (cases "q_head q") (auto simp: PeekHead_def)

definition inq :: "'k sset \<Rightarrow> nat \<Rightarrow> bool" where
  "inq s w \<longleftrightarrow> Some w \<in> aq_values (queue_abs (ss_queue s))"

definition adm :: "'k sset \<Rightarrow> nat \<Rightarrow> bool" where
  "adm s w \<longleftrightarrow> admitted (queue_abs (ss_queue s)) (Some w)"

definition ishd :: "'k sset \<Rightarrow> nat \<Rightarrow> bool" where
  "ishd s w \<longleftrightarrow> queue_abs (ss_queue s) \<noteq> [] \<and> fst (hd (queue_abs (ss_queue s))) = Some w"

lemma ishd_adm: "ishd s w \<Longrightarrow> adm s w"
  unfolding ishd_def adm_def by (metis admitted_head)

lemma adm_inq: "adm s w \<Longrightarrow> inq s w"
  by (simp add: adm_def inq_def admitted_value)

section \<open>The invariant\<close>

text \<open>A task between the first critical section and \<open>Dequeue\<close> owns its waiter.\<close>

fun owner :: "task \<Rightarrow> nat option" where
  "owner (TTaken w _ _ _) = Some w"
| "owner (TRun w _ _) = Some w"
| "owner (TReturned w _ _ _) = Some w"
| "owner (TDequeue w) = Some w"
| "owner _ = None"

definition owners :: "'k sset \<Rightarrow> nat \<Rightarrow> nat" where
  "owners s w = size (filter_mset (\<lambda>t. owner t = Some w) (ss_tasks s))"

fun is_restore :: "task \<Rightarrow> bool" where
  "is_restore (TRestore _) = True"
| "is_restore _ = False"

text \<open>What a task relies on: waiters it is going to run are admitted while they are queued.\<close>

fun task_ok :: "'k sset \<Rightarrow> task \<Rightarrow> bool" where
  "task_ok s (TStart w c) \<longleftrightarrow> w < length (ss_waiters s) \<and> (\<not> c \<and> inq s w \<longrightarrow> adm s w)"
| "task_ok s (TTaken w f h c) \<longleftrightarrow>
     w < length (ss_waiters s) \<and> (\<not> c \<and> inq s w \<longrightarrow> adm s w) \<and> (h \<and> inq s w \<longrightarrow> ishd s w)"
| "task_ok s (TRun w f h) \<longleftrightarrow>
     w < length (ss_waiters s) \<and> (inq s w \<longrightarrow> adm s w) \<and> (h \<and> inq s w \<longrightarrow> ishd s w)"
| "task_ok s (TReturned w f h r) \<longleftrightarrow>
     w < length (ss_waiters s) \<and> (wants_retry r \<and> inq s w \<longrightarrow> adm s w) \<and> (h \<and> inq s w \<longrightarrow> ishd s w)"
| "task_ok s (TDequeue w) \<longleftrightarrow> w < length (ss_waiters s)"
| "task_ok s (TRestore w) \<longleftrightarrow> w < length (ss_waiters s)"
| "task_ok s (TPeek n) \<longleftrightarrow> (\<forall>w \<in> set n. w < length (ss_waiters s) \<and> (inq s w \<longrightarrow> adm s w))"
| "task_ok s (TGet h n) \<longleftrightarrow> (\<forall>w \<in> set n. w < length (ss_waiters s) \<and> (inq s w \<longrightarrow> adm s w))
     \<and> h < length (ss_waiters s) \<and> (inq s h \<longrightarrow> ishd s h)"
| "task_ok s (TSet h n) \<longleftrightarrow> (\<forall>w \<in> set n. w < length (ss_waiters s) \<and> (inq s w \<longrightarrow> adm s w))
     \<and> h < length (ss_waiters s) \<and> (inq s h \<longrightarrow> ishd s h)"

definition queue_ok :: "'k sset \<Rightarrow> bool" where
  "queue_ok s \<longleftrightarrow> queue_invar (ss_queue s)
     \<and> (\<forall>p \<in> set (queue_abs (ss_queue s)). \<exists>w < length (ss_waiters s).
          fst p = Some w \<and> snd p = set (w_keys (ss_waiters s ! w)))"

definition own_ok :: "'k sset \<Rightarrow> bool" where
  "own_ok s \<longleftrightarrow> (\<forall>w < length (ss_waiters s).
     of_bool (w_fn (ss_waiters s ! w) \<noteq> None) + owners s w = of_bool (inq s w))"

definition mu_ok :: "'k sset \<Rightarrow> bool" where
  "mu_ok s \<longleftrightarrow> size (filter_mset is_restore (ss_tasks s)) = of_bool (ss_waiterMu s)"

definition tasks_ok :: "'k sset \<Rightarrow> bool" where
  "tasks_ok s \<longleftrightarrow> (\<forall>t \<in># ss_tasks s. task_ok s t)"

definition restore_ok :: "'k sset \<Rightarrow> bool" where
  "restore_ok s \<longleftrightarrow> (\<forall>w. TRestore w \<in># ss_tasks s \<longrightarrow>
     w_fn (ss_waiters s ! w) \<noteq> None \<and> adm s w
     \<and> (ss_refused s \<or> ishd s w \<or> w_result (ss_waiters s ! w) = retryRequested))"

text \<open>
  An admitted waiter that has not been taken is on somebody's list: it is about to be started, or it
  asked for a retry and either is not at the head yet or a task is about to look at the head.
\<close>

definition on_list :: "task multiset \<Rightarrow> nat \<Rightarrow> bool" where
  "on_list T w \<longleftrightarrow> (\<exists>c. TStart w c \<in># T)
     \<or> (\<exists>n. w \<in> set n \<and> (TPeek n \<in># T \<or> (\<exists>h. TGet h n \<in># T \<or> TSet h n \<in># T)))
     \<or> (\<exists>n. TSet w n \<in># T) \<or> TRestore w \<in># T"

definition awake :: "'k sset \<Rightarrow> nat \<Rightarrow> bool" where
  "awake s w \<longleftrightarrow> on_list (ss_tasks s) w
     \<or> w_result (ss_waiters s ! w) = retryRequested
        \<and> (\<not> ishd s w \<or> (\<exists>n. TPeek n \<in># ss_tasks s) \<or> (\<exists>n. TGet w n \<in># ss_tasks s))"

definition wake_ok :: "'k sset \<Rightarrow> bool" where
  "wake_ok s \<longleftrightarrow> (\<not> ss_refused s \<longrightarrow>
     (\<forall>w < length (ss_waiters s). adm s w \<and> w_fn (ss_waiters s ! w) \<noteq> None \<longrightarrow> awake s w))"

definition sset_invar :: "'k sset \<Rightarrow> bool" where
  "sset_invar s \<longleftrightarrow> queue_ok s \<and> own_ok s \<and> mu_ok s \<and> tasks_ok s \<and> restore_ok s \<and> wake_ok s"

lemmas sset_defs = queue_ok_def own_ok_def mu_ok_def tasks_ok_def restore_ok_def wake_ok_def
  owners_def inq_def adm_def ishd_def

lemma NewSet_invar: "sset_invar NewSet"
  by (simp add: sset_invar_def sset_defs NewSet_def NewQueue_invar NewQueue_abs admitted_def)

section \<open>Steps that leave the queue alone\<close>

lemma view_simps [simp]:
  "inq (spawn T s) w = inq s w" "adm (spawn T s) w = adm s w" "ishd (spawn T s) w = ishd s w"
  "inq (without t s) w = inq s w" "adm (without t s) w = adm s w" "ishd (without t s) w = ishd s w"
  "inq (set_fn v f s) w = inq s w" "adm (set_fn v f s) w = adm s w" "ishd (set_fn v f s) w = ishd s w"
  "inq (set_result v r s) w = inq s w" "adm (set_result v r s) w = adm s w" "ishd (set_result v r s) w = ishd s w"
  "inq (s\<lparr>ss_waiterMu := b\<rparr>) w = inq s w" "adm (s\<lparr>ss_waiterMu := b\<rparr>) w = adm s w"
  "ishd (s\<lparr>ss_waiterMu := b\<rparr>) w = ishd s w"
  "inq (s\<lparr>ss_refused := b\<rparr>) w = inq s w" "adm (s\<lparr>ss_refused := b\<rparr>) w = adm s w"
  "ishd (s\<lparr>ss_refused := b\<rparr>) w = ishd s w"
  by (simp_all add: inq_def adm_def ishd_def spawn_def without_def set_fn_def set_result_def)

lemma field_simps [simp]:
  "ss_queue (spawn T s) = ss_queue s" "ss_queue (without t s) = ss_queue s"
  "ss_queue (set_fn v f s) = ss_queue s" "ss_queue (set_result v r s) = ss_queue s"
  "ss_waiters (spawn T s) = ss_waiters s" "ss_waiters (without t s) = ss_waiters s"
  "length (ss_waiters (set_fn v f s)) = length (ss_waiters s)"
  "length (ss_waiters (set_result v r s)) = length (ss_waiters s)"
  "ss_waiterMu (spawn T s) = ss_waiterMu s" "ss_waiterMu (without t s) = ss_waiterMu s"
  "ss_waiterMu (set_fn v f s) = ss_waiterMu s" "ss_waiterMu (set_result v r s) = ss_waiterMu s"
  "ss_refused (spawn T s) = ss_refused s" "ss_refused (without t s) = ss_refused s"
  "ss_refused (set_fn v f s) = ss_refused s" "ss_refused (set_result v r s) = ss_refused s"
  "ss_tasks (spawn T s) = ss_tasks s + T" "ss_tasks (without t s) = ss_tasks s - {# t #}"
  "ss_tasks (set_fn v f s) = ss_tasks s" "ss_tasks (set_result v r s) = ss_tasks s"
  by (simp_all add: spawn_def without_def set_fn_def set_result_def)

lemma waiter_simps [simp]:
  "w_keys (ss_waiters (set_fn v f s) ! w) = w_keys (ss_waiters s ! w)"
  "w_keys (ss_waiters (set_result v r s) ! w) = w_keys (ss_waiters s ! w)"
  "w_fn (ss_waiters (set_result v r s) ! w) = w_fn (ss_waiters s ! w)"
  "w_result (ss_waiters (set_fn v f s) ! w) = w_result (ss_waiters s ! w)"
  "v < length (ss_waiters s) \<Longrightarrow>
     w_fn (ss_waiters (set_fn v f s) ! w) = (if w = v then f else w_fn (ss_waiters s ! w))"
  "v < length (ss_waiters s) \<Longrightarrow>
     w_result (ss_waiters (set_result v r s) ! w) = (if w = v then r else w_result (ss_waiters s ! w))"
  by (simp_all add: set_fn_def set_result_def nth_upd_if)

lemma task_ok_simps [simp]:
  "task_ok (spawn T s) t = task_ok s t" "task_ok (without u s) t = task_ok s t"
  "task_ok (set_fn v f s) t = task_ok s t" "task_ok (set_result v r s) t = task_ok s t"
  "task_ok (s\<lparr>ss_waiterMu := b\<rparr>) t = task_ok s t" "task_ok (s\<lparr>ss_refused := b\<rparr>) t = task_ok s t"
  by (cases t; simp)+

lemma queue_ok_simps [simp]:
  "queue_ok (spawn T s) = queue_ok s" "queue_ok (without u s) = queue_ok s"
  "queue_ok (set_fn v f s) = queue_ok s" "queue_ok (set_result v r s) = queue_ok s"
  "queue_ok (s\<lparr>ss_waiterMu := b\<rparr>) = queue_ok s" "queue_ok (s\<lparr>ss_refused := b\<rparr>) = queue_ok s"
  by (simp_all add: queue_ok_def)

lemma on_list_mono: "\<lbrakk>on_list T w; set_mset T \<subseteq> set_mset T'\<rbrakk> \<Longrightarrow> on_list T' w"
  unfolding on_list_def by blast

lemma owned_no_fn:
  assumes "sset_invar s" "t \<in># ss_tasks s" "owner t = Some w"
  shows "w < length (ss_waiters s)" "w_fn (ss_waiters s ! w) = None" "inq s w" "owners s w = 1"
proof -
  have "task_ok s t" using assms by (simp add: sset_invar_def tasks_ok_def)
  then show w: "w < length (ss_waiters s)" using assms(3) by (cases t) auto
  have "0 < owners s w" using assms(2,3) by (auto simp: owners_def multiset_eq_iff nonempty_has_size [symmetric])
  moreover have "of_bool (w_fn (ss_waiters s ! w) \<noteq> None) + owners s w = of_bool (inq s w)"
    using assms(1) w by (simp add: sset_invar_def own_ok_def)
  ultimately show "w_fn (ss_waiters s ! w) = None" "inq s w" "owners s w = 1"
    by (auto simp: of_bool_def split: if_splits)
qed

text \<open>
  The frame of a step that replaces the tasks \<open>D\<close> by the tasks \<open>T\<close> and changes the function and
  status of the waiter \<open>w\<close> only: what remains to be shown is about \<open>w\<close>, \<open>D\<close> and \<open>T\<close>.
\<close>

definition replaces :: "'k sset \<Rightarrow> task multiset \<Rightarrow> task multiset \<Rightarrow> 'k sset \<Rightarrow> bool" where
  "replaces s D T s' \<longleftrightarrow> (\<exists>R. ss_tasks s = D + R \<and> ss_tasks s' = R + T)"

lemma replaces_single: "\<lbrakk>t \<in># ss_tasks s; ss_tasks s' = ss_tasks s - {# t #} + T\<rbrakk> \<Longrightarrow> replaces s {# t #} T s'"
  unfolding replaces_def by (intro exI [of _ "ss_tasks s - {# t #}"]) simp

definition same_but :: "nat \<Rightarrow> 'k sset \<Rightarrow> 'k sset \<Rightarrow> bool" where
  "same_but w s s' \<longleftrightarrow> ss_queue s' = ss_queue s \<and> length (ss_waiters s') = length (ss_waiters s)
     \<and> (ss_refused s \<longrightarrow> ss_refused s')
     \<and> (\<forall>v. w_keys (ss_waiters s' ! v) = w_keys (ss_waiters s ! v)
          \<and> (v \<noteq> w \<longrightarrow> w_fn (ss_waiters s' ! v) = w_fn (ss_waiters s ! v)
               \<and> w_result (ss_waiters s' ! v) = w_result (ss_waiters s ! v)))"

lemma same_butD:
  assumes "same_but w s s'"
  shows "inq s' v = inq s v" "adm s' v = adm s v" "ishd s' v = ishd s v"
    "length (ss_waiters s') = length (ss_waiters s)" "ss_queue s' = ss_queue s"
    "w_keys (ss_waiters s' ! v) = w_keys (ss_waiters s ! v)" "ss_refused s \<Longrightarrow> ss_refused s'"
    "v \<noteq> w \<Longrightarrow> w_fn (ss_waiters s' ! v) = w_fn (ss_waiters s ! v)"
    "v \<noteq> w \<Longrightarrow> w_result (ss_waiters s' ! v) = w_result (ss_waiters s ! v)"
  using assms by (simp_all add: same_but_def inq_def adm_def ishd_def)

lemma same_but_task_ok: "same_but w s s' \<Longrightarrow> task_ok s' u = task_ok s u"
  by (cases u) (simp_all add: same_butD)

text \<open>A waiter stays awake when the step takes away nothing that it relies on.\<close>

lemma on_list_empty [simp]: "\<not> on_list {#} v"
  by (simp add: on_list_def)

lemma on_list_single [simp]:
  "on_list {# u #} v \<longleftrightarrow> (case u of TStart w c \<Rightarrow> w = v | TPeek n \<Rightarrow> v \<in> set n | TGet h n \<Rightarrow> v \<in> set n
     | TSet h n \<Rightarrow> h = v \<or> v \<in> set n | TRestore w \<Rightarrow> w = v | _ \<Rightarrow> False)"
  by (cases u) (auto simp: on_list_def)

lemma on_list_union: "on_list (S + T) v \<longleftrightarrow> on_list S v \<or> on_list T v"
  unfolding on_list_def union_iff by blast

lemma on_list_starts: "on_list (mset (map (\<lambda>w. TStart w c) n)) v \<longleftrightarrow> v \<in> set n"
  by (auto simp: on_list_def)

lemma on_list_starts_mset [simp]: "on_list (image_mset (\<lambda>w. TStart w c) (mset n)) v \<longleftrightarrow> v \<in> set n"
  by (auto simp: on_list_def)

lemma awake_step:
  assumes aw: "awake s v" and sb: "same_but w s s'" and re: "replaces s D T s'"
    and res: "w_result (ss_waiters s' ! v) = w_result (ss_waiters s ! v)"
    and on: "on_list D v \<Longrightarrow> on_list T v"
    and peek: "\<And>n. \<lbrakk>TPeek n \<in># D; ishd s v\<rbrakk> \<Longrightarrow> \<exists>m. TGet v m \<in># T"
    and get: "\<And>n. \<lbrakk>TGet v n \<in># D; w_result (ss_waiters s ! v) = retryRequested\<rbrakk> \<Longrightarrow> on_list T v"
  shows "awake s' v"
proof -
  obtain R where R: "ss_tasks s = D + R" "ss_tasks s' = R + T" using re by (auto simp: replaces_def)
  note hd = same_butD(3) [OF sb, of v]
  consider "on_list (ss_tasks s) v"
    | "w_result (ss_waiters s ! v) = retryRequested" "\<not> ishd s v"
    | n where "w_result (ss_waiters s ! v) = retryRequested" "ishd s v" "TPeek n \<in># ss_tasks s"
    | n where "w_result (ss_waiters s ! v) = retryRequested" "TGet v n \<in># ss_tasks s"
    using aw unfolding awake_def by blast
  then show ?thesis
  proof cases
    case 1
    then show ?thesis using on by (auto simp: awake_def R on_list_union)
  next
    case 2
    then show ?thesis using res hd by (simp add: awake_def)
  next
    case 3
    then show ?thesis using res peek [of n] by (auto simp: awake_def R)
  next
    case 4
    then show ?thesis using res get [of n] by (auto simp: awake_def R on_list_union)
  qed
qed

lemma local_step:
  assumes inv: "sset_invar s" and re: "replaces s D T s'" and sb: "same_but w s s'"
    and own: "\<And>v. v < length (ss_waiters s) \<Longrightarrow>
        of_bool (w_fn (ss_waiters s' ! v) \<noteq> None) + size (filter_mset (\<lambda>t. owner t = Some v) T)
        = of_bool (w_fn (ss_waiters s ! v) \<noteq> None) + size (filter_mset (\<lambda>t. owner t = Some v) D)"
    and mu: "size (filter_mset is_restore T) + of_bool (ss_waiterMu s)
        = of_bool (ss_waiterMu s') + size (filter_mset is_restore D)"
    and ok: "\<And>u. u \<in># T \<Longrightarrow> task_ok s u"
    and restore: "\<And>v. TRestore v \<in># T \<or> v = w \<and> TRestore v \<in># ss_tasks s \<and> TRestore v \<in># ss_tasks s' \<Longrightarrow>
        w_fn (ss_waiters s' ! v) \<noteq> None \<and> adm s v
        \<and> (ss_refused s' \<or> ishd s v \<or> w_result (ss_waiters s' ! v) = retryRequested)"
    and on: "\<And>v. \<lbrakk>v \<noteq> w; on_list D v\<rbrakk> \<Longrightarrow> on_list T v"
    and peek: "\<And>v n. \<lbrakk>v \<noteq> w; TPeek n \<in># D; ishd s v\<rbrakk> \<Longrightarrow> \<exists>m. TGet v m \<in># T"
    and get: "\<And>v n. \<lbrakk>v \<noteq> w; TGet v n \<in># D; w_result (ss_waiters s ! v) = retryRequested\<rbrakk> \<Longrightarrow> on_list T v"
    and wake: "\<lbrakk>\<not> ss_refused s'; adm s w; w_fn (ss_waiters s' ! w) \<noteq> None\<rbrakk> \<Longrightarrow> awake s' w"
  shows "sset_invar s'"
proof -
  note view = same_butD [OF sb] and tok = same_but_task_ok [OF sb]
  obtain R where R: "ss_tasks s = D + R" "ss_tasks s' = R + T" using re by (auto simp: replaces_def)
  have "own_ok s'"
    unfolding own_ok_def view
  proof (intro allI impI)
    fix v assume v: "v < length (ss_waiters s)"
    then have "of_bool (w_fn (ss_waiters s ! v) \<noteq> None) + owners s v = of_bool (inq s v)"
      using inv by (simp add: sset_invar_def own_ok_def)
    with own [OF v] show "of_bool (w_fn (ss_waiters s' ! v) \<noteq> None) + owners s' v = of_bool (inq s v)"
      by (simp add: owners_def R)
  qed
  moreover have "queue_ok s'" using inv by (simp add: sset_invar_def queue_ok_def view)
  moreover have "mu_ok s'" using inv mu by (simp add: sset_invar_def mu_ok_def R)
  moreover have "tasks_ok s'" using inv ok by (auto simp: sset_invar_def tasks_ok_def tok R)
  moreover have "restore_ok s'"
    unfolding restore_ok_def view
  proof (intro allI impI)
    fix v assume "TRestore v \<in># ss_tasks s'"
    then consider "TRestore v \<in># T \<or> v = w \<and> TRestore v \<in># ss_tasks s \<and> TRestore v \<in># ss_tasks s'"
      | "v \<noteq> w" "TRestore v \<in># ss_tasks s" by (auto simp: R)
    then show "w_fn (ss_waiters s' ! v) \<noteq> None \<and> adm s v
      \<and> (ss_refused s' \<or> ishd s v \<or> w_result (ss_waiters s' ! v) = retryRequested)"
      using restore inv by cases (auto simp: sset_invar_def restore_ok_def view(7,8,9))
  qed
  moreover have "wake_ok s'"
    unfolding wake_ok_def view
  proof (intro impI allI)
    fix v assume a: "\<not> ss_refused s'" "v < length (ss_waiters s)"
      "adm s v \<and> w_fn (ss_waiters s' ! v) \<noteq> None"
    then have "v \<noteq> w \<longrightarrow> awake s v"
      using inv view(7,8) by (auto simp: sset_invar_def wake_ok_def)
    then show "awake s' v"
      using wake a awake_step [OF _ sb re, of v] view(9) on peek get by (cases "v = w") auto
  qed
  ultimately show ?thesis by (simp add: sset_invar_def)
qed

lemma no_restore: "\<lbrakk>sset_invar s; \<not> ss_waiterMu s\<rbrakk> \<Longrightarrow> TRestore w \<notin># ss_tasks s"
  by (auto simp: sset_invar_def mu_ok_def filter_mset_eq_mempty_iff)

lemma owned_no_restore:
  "\<lbrakk>sset_invar s; t \<in># ss_tasks s; owner t = Some w\<rbrakk> \<Longrightarrow> TRestore w \<notin># ss_tasks s"
  using owned_no_fn(2) [of s t w] by (auto simp: sset_invar_def restore_ok_def)

lemma invar_task_ok: "\<lbrakk>sset_invar s; t \<in># ss_tasks s\<rbrakk> \<Longrightarrow> task_ok s t"
  by (simp add: sset_invar_def tasks_ok_def)

lemma invar_IsHead: "sset_invar s \<Longrightarrow> IsHead (ss_queue s) (Some w) = ishd s w"
  by (simp add: sset_invar_def queue_ok_def IsHead_iff ishd_def)

lemma start_invar:
  assumes inv: "sset_invar s" and t: "TStart w c \<in># ss_tasks s" and mu: "\<not> ss_waiterMu s"
  shows "sset_invar (work_start w c (without (TStart w c) s))"
proof -
  define s' where "s' = work_start w c (without (TStart w c) s)"
  have w: "w < length (ss_waiters s)" "\<not> c \<and> inq s w \<longrightarrow> adm s w"
    using invar_task_ok [OF inv t] by auto
  note hd = invar_IsHead [OF inv] and nr = no_restore [OF inv mu]
  let ?T = "case w_fn (ss_waiters s ! w) of None \<Rightarrow> {#} | Some f \<Rightarrow> {# TTaken w f (ishd s w) c #}"
  have re: "replaces s {# TStart w c #} ?T s'"
    unfolding s'_def by (rule replaces_single [OF t]) (simp add: work_start_def hd split: option.splits)
  have sb: "same_but w s s'"
    using w by (auto simp: same_but_def work_start_def s'_def split: option.splits)
  have s': "w_fn (ss_waiters s' ! v) = (if v = w then None else w_fn (ss_waiters s ! v))"
    "ss_waiterMu s' = ss_waiterMu s" for v
    using w by (auto simp: work_start_def s'_def split: option.splits)
  have "sset_invar s'"
    by (rule local_step [OF inv re sb]) (use w nr s' in \<open>auto simp: ishd_adm split: option.splits\<close>)
  then show ?thesis by (simp add: s'_def)
qed

lemma call_invar:
  assumes inv: "sset_invar s" and t: "TTaken w f h c \<in># ss_tasks s"
  shows "sset_invar (work_call w f h c (without (TTaken w f h c) s))"
proof -
  define s' where "s' = work_call w f h c (without (TTaken w f h c) s)"
  note w = owned_no_fn [OF inv t, simplified] and ok = invar_task_ok [OF inv t]
    and nr = owned_no_restore [OF inv t, simplified]
  have re: "replaces s {# TTaken w f h c #}
      {# if c then TReturned w f h (CbErr Canceled) else TRun w f h #} s'"
    unfolding s'_def by (rule replaces_single [OF t]) (simp add: work_call_def)
  have sb: "same_but w s s'" using w by (auto simp: same_but_def work_call_def s'_def)
  have s': "w_fn (ss_waiters s' ! v) = w_fn (ss_waiters s ! v)" "ss_waiterMu s' = ss_waiterMu s" for v
    by (auto simp: work_call_def s'_def)
  have "sset_invar s'"
    by (rule local_step [OF inv re sb]) (use w ok nr s' in \<open>auto simp: wants_retry_def split: if_splits\<close>)
  then show ?thesis by (simp add: s'_def)
qed

lemma return_invar:
  assumes inv: "sset_invar s" and t: "TRun w f h \<in># ss_tasks s"
  shows "sset_invar (work_return w f h out (without (TRun w f h) s))"
proof -
  define s' where "s' = work_return w f h out (without (TRun w f h) s)"
  note w = owned_no_fn [OF inv t, simplified] and ok = invar_task_ok [OF inv t]
    and nr = owned_no_restore [OF inv t, simplified]
  have re: "replaces s {# TRun w f h #} {# TReturned w f h (tryCall out) #} s'"
    unfolding s'_def by (rule replaces_single [OF t]) (simp add: work_return_def)
  have sb: "same_but w s s'" by (auto simp: same_but_def work_return_def s'_def)
  have s': "w_fn (ss_waiters s' ! v) = w_fn (ss_waiters s ! v)" "ss_waiterMu s' = ss_waiterMu s" for v
    by (auto simp: work_return_def s'_def)
  have "sset_invar s'"
    by (rule local_step [OF inv re sb]) (use w ok nr s' in auto)
  then show ?thesis by (simp add: s'_def)
qed

lemma switch_done_invar:
  assumes inv: "sset_invar s" and t: "TReturned w f h r \<in># ss_tasks s"
  shows "sset_invar (spawn {# TDequeue w #} (set_result w st (without (TReturned w f h r) s)))"
proof -
  define s' where "s' = spawn {# TDequeue w #} (set_result w st (without (TReturned w f h r) s))"
  note w = owned_no_fn [OF inv t, simplified] and nr = owned_no_restore [OF inv t, simplified]
  have re: "replaces s {# TReturned w f h r #} {# TDequeue w #} s'"
    unfolding s'_def by (rule replaces_single [OF t]) simp
  have sb: "same_but w s s'" using w by (auto simp: same_but_def s'_def)
  have s': "w_fn (ss_waiters s' ! v) = w_fn (ss_waiters s ! v)" "ss_waiterMu s' = ss_waiterMu s" for v
    by (auto simp: s'_def)
  have "sset_invar s'"
    by (rule local_step [OF inv re sb]) (use w nr s' in auto)
  then show ?thesis by (simp add: s'_def)
qed

lemma switch_retry_invar:
  assumes inv: "sset_invar s" and t: "TReturned w f h r \<in># ss_tasks s" and r: "wants_retry r"
    and mu: "\<not> ss_waiterMu s"
  shows "sset_invar (spawn {# TRestore w #}
    ((set_result w retryRequested (set_fn w (Some f) (without (TReturned w f h r) s)))\<lparr>ss_waiterMu := True\<rparr>))"
proof -
  define s' where "s' = spawn {# TRestore w #}
    ((set_result w retryRequested (set_fn w (Some f) (without (TReturned w f h r) s)))\<lparr>ss_waiterMu := True\<rparr>)"
  note w = owned_no_fn [OF inv t, simplified] and nr = no_restore [OF inv mu]
    and ok = invar_task_ok [OF inv t]
  have re: "replaces s {# TReturned w f h r #} {# TRestore w #} s'"
    unfolding s'_def by (rule replaces_single [OF t]) simp
  have sb: "same_but w s s'" using w by (auto simp: same_but_def s'_def)
  have s': "w_fn (ss_waiters s' ! v) = (if v = w then Some f else w_fn (ss_waiters s ! v))" "ss_waiterMu s'"
    "w_result (ss_waiters s' ! w) = retryRequested" "TRestore w \<in># ss_tasks s'" for v
    using w by (auto simp: s'_def)
  have "sset_invar s'"
    by (rule local_step [OF inv re sb]) (use w nr s' ok r mu in \<open>auto simp: awake_def on_list_def\<close>)
  then show ?thesis by (simp add: s'_def)
qed

lemma switch_invar:
  assumes inv: "sset_invar s" and t: "TReturned w f h r \<in># ss_tasks s"
    and mu: "wants_retry r \<and> \<not> h \<longrightarrow> \<not> ss_waiterMu s"
  shows "sset_invar (work_switch w f h r (without (TReturned w f h r) s))"
  using switch_done_invar [OF inv t] switch_retry_invar [OF inv t] mu
  by (auto simp: work_switch_def wants_retry_def split: cb_result.splits)

lemma adm_bound: "\<lbrakk>sset_invar s; inq s w\<rbrakk> \<Longrightarrow> w < length (ss_waiters s)"
  by (force simp: sset_invar_def queue_ok_def inq_def aq_values_def)

lemma restored_invar:
  assumes inv: "sset_invar s" and t: "TRestore w \<in># ss_tasks s"
  shows "sset_invar (work_restored w (without (TRestore w) s))"
proof -
  define s' where "s' = work_restored w (without (TRestore w) s)"
  have ok: "w_fn (ss_waiters s ! w) \<noteq> None" "adm s w"
    "ss_refused s \<or> ishd s w \<or> w_result (ss_waiters s ! w) = retryRequested"
    using inv t by (auto simp: sset_invar_def restore_ok_def)
  have mu: "ss_waiterMu s" using no_restore [OF inv] t by blast
  note b = invar_task_ok [OF inv t] and hd = invar_IsHead [OF inv]
  have re: "replaces s {# TRestore w #} (if ishd s w then {# TStart w False #} else {#}) s'"
    unfolding s'_def by (rule replaces_single [OF t]) (simp add: work_restored_def hd Let_def)
  have sb: "same_but w s s'" by (auto simp: same_but_def work_restored_def Let_def s'_def)
  have s': "w_fn (ss_waiters s' ! v) = w_fn (ss_waiters s ! v)" "\<not> ss_waiterMu s'"
    "w_result (ss_waiters s' ! v) = w_result (ss_waiters s ! v)" "ss_refused s' = ss_refused s"
    "ishd s w \<Longrightarrow> TStart w False \<in># ss_tasks s'" for v
    by (auto simp: work_restored_def Let_def hd s'_def)
  have "sset_invar s'"
    by (rule local_step [OF inv re sb])
      (use ok b s' mu same_butD(3) [OF sb] in \<open>auto simp: awake_def on_list_def split: if_splits\<close>)
  then show ?thesis by (simp add: s'_def)
qed

text \<open>Steps that change no waiter: the frame at an index that is no waiter.\<close>

lemma quiet_step:
  assumes inv: "sset_invar s" and re: "replaces s D T s'"
    and s': "ss_queue s' = ss_queue s" "ss_waiters s' = ss_waiters s" "ss_refused s' = ss_refused s"
      "ss_waiterMu s' = ss_waiterMu s"
    and D: "filter_mset (\<lambda>t. owner t \<noteq> None \<or> is_restore t) (D + T) = {#}"
    and ok: "\<And>u. u \<in># T \<Longrightarrow> task_ok s u"
    and on: "\<And>v. on_list D v \<Longrightarrow> on_list T v"
    and peek: "\<And>v n. \<lbrakk>TPeek n \<in># D; ishd s v\<rbrakk> \<Longrightarrow> \<exists>m. TGet v m \<in># T"
    and get: "\<And>v n. \<lbrakk>TGet v n \<in># D; w_result (ss_waiters s ! v) = retryRequested\<rbrakk> \<Longrightarrow> on_list T v"
  shows "sset_invar s'"
proof -
  let ?w = "length (ss_waiters s)"
  have sb: "same_but ?w s s'" using s' by (simp add: same_but_def)
  have "\<forall>t \<in># D + T. owner t = None \<and> \<not> is_restore t"
    using D by (auto simp: filter_mset_eq_mempty_iff)
  then have fD: "filter_mset (\<lambda>t. owner t = Some v) D = {#}" "filter_mset (\<lambda>t. owner t = Some v) T = {#}"
    "filter_mset is_restore D = {#}" "filter_mset is_restore T = {#}" "TRestore v \<notin># T" for v
    by (force simp: filter_mset_eq_mempty_iff)+
  have "\<not> adm s ?w" "TRestore ?w \<notin># ss_tasks s"
    using adm_bound [OF inv, of ?w] adm_inq [of s ?w] invar_task_ok [OF inv, of "TRestore ?w"] by auto
  then show ?thesis
    by (intro local_step [OF inv re sb]) (auto simp: s' fD ok on peek intro: get)
qed

lemma task_ok_start: "\<lbrakk>sset_invar s; adm s w \<or> w < length (ss_waiters s) \<and> \<not> inq s w\<rbrakk> \<Longrightarrow> task_ok s (TStart w False)"
  using adm_bound [of s w] adm_inq [of s w] by auto

lemma peek_invar:
  assumes inv: "sset_invar s" and t: "TPeek n \<in># ss_tasks s"
  shows "sset_invar (work_peek n (without (TPeek n) s))"
proof -
  define s' where "s' = work_peek n (without (TPeek n) s)"
  have q: "queue_invar (ss_queue s)" using inv by (simp add: sset_invar_def queue_ok_def)
  note ok = invar_task_ok [OF inv t]
  show ?thesis
  proof (cases "queue_abs (ss_queue s)")
    case Nil
    then have eq: "work_peek n (without (TPeek n) s) = dispatch n (without (TPeek n) s)"
      using PeekHead_eq [OF q, of None] by (simp add: work_peek_def)
    have re: "replaces s {# TPeek n #} (mset (map (\<lambda>w. TStart w False) n)) (dispatch n (without (TPeek n) s))"
      by (rule replaces_single [OF t]) (simp add: dispatch_def)
    show ?thesis unfolding eq
      by (rule quiet_step [OF inv re]) (use ok Nil in \<open>auto simp: dispatch_def ishd_def filter_mset_eq_mempty_iff\<close>)
  next
    case (Cons p ps)
    then obtain h where h: "fst p = Some h" "h < length (ss_waiters s)"
      using inv by (auto simp: sset_invar_def queue_ok_def)
    have eq: "work_peek n (without (TPeek n) s) = spawn {# TGet h n #} (without (TPeek n) s)"
      using PeekHead_eq [OF q, of None] Cons h by (simp add: work_peek_def)
    have re: "replaces s {# TPeek n #} {# TGet h n #} (spawn {# TGet h n #} (without (TPeek n) s))"
      by (rule replaces_single [OF t]) simp
    have "ishd s v \<longleftrightarrow> v = h" for v using Cons h by (auto simp: ishd_def)
    then show ?thesis unfolding eq
      by (intro quiet_step [OF inv re]) (use ok h in auto)
  qed
qed

lemma get_invar:
  assumes inv: "sset_invar s" and t: "TGet h n \<in># ss_tasks s"
  shows "sset_invar (work_get h n (without (TGet h n) s))"
proof -
  note ok = invar_task_ok [OF inv t]
  show ?thesis
  proof (cases "w_result (ss_waiters s ! h) = retryRequested")
    case True
    have re: "replaces s {# TGet h n #} {# TSet h n #} (spawn {# TSet h n #} (without (TGet h n) s))"
      by (rule replaces_single [OF t]) simp
    have "sset_invar (spawn {# TSet h n #} (without (TGet h n) s))"
      by (rule quiet_step [OF inv re]) (use ok in auto)
    then show ?thesis using True by (simp add: work_get_def)
  next
    case False
    have re: "replaces s {# TGet h n #} (mset (map (\<lambda>w. TStart w False) n)) (dispatch n (without (TGet h n) s))"
      by (rule replaces_single [OF t]) (simp add: dispatch_def)
    have "sset_invar (dispatch n (without (TGet h n) s))"
      by (rule quiet_step [OF inv re]) (use ok False in \<open>auto simp: dispatch_def filter_mset_eq_mempty_iff\<close>)
    then show ?thesis using False by (simp add: work_get_def)
  qed
qed

lemma set_invar:
  assumes inv: "sset_invar s" and t: "TSet h n \<in># ss_tasks s"
  shows "sset_invar (work_set h n (without (TSet h n) s))"
proof -
  define s' where "s' = work_set h n (without (TSet h n) s)"
  note ok = invar_task_ok [OF inv t]
  let ?T = "mset (map (\<lambda>w. TStart w False) (n @ [h]))"
  have re: "replaces s {# TSet h n #} ?T s'"
    unfolding s'_def by (rule replaces_single [OF t]) (simp add: work_set_def dispatch_def)
  have sb: "same_but h s s'" using ok by (auto simp: same_but_def work_set_def dispatch_def s'_def)
  have s': "w_fn (ss_waiters s' ! v) = w_fn (ss_waiters s ! v)" "ss_waiterMu s' = ss_waiterMu s"
    "TStart h False \<in># ss_tasks s'" for v
    by (auto simp: work_set_def dispatch_def s'_def)
  have ro: "w_fn (ss_waiters s ! h) \<noteq> None \<and> adm s h \<and> ishd s h" if "TRestore h \<in># ss_tasks s"
    using inv that ok adm_inq by (auto simp: sset_invar_def restore_ok_def)
  have none: "size (filter_mset (\<lambda>t. owner t = Some v) ?T) = 0" "size (filter_mset is_restore ?T) = 0" for v
    by (auto simp: filter_mset_eq_mempty_iff)
  have "sset_invar s'"
  proof (rule local_step [OF inv re sb])
    fix u assume "u \<in># ?T"
    then show "task_ok s u" using ok ishd_adm by auto
  next
    fix v assume "v \<noteq> h" "on_list {# TSet h n #} v"
    then show "on_list ?T v" unfolding on_list_starts by auto
  qed (use none s' ro in \<open>auto simp: awake_def on_list_def\<close>)
  then show ?thesis by (simp add: s'_def)
qed

lemma cancel_invar:
  assumes inv: "sset_invar s" and w: "w < length (ss_waiters s)" and mu: "\<not> ss_waiterMu s"
  shows "sset_invar (cancel w s)"
proof (cases "w_fn (ss_waiters s ! w)")
  case None
  then show ?thesis using inv by (simp add: cancel_def)
next
  case (Some f)
  define s' where "s' = spawn {# TStart w True #} (set_fn w (Some CanceledFn) s)"
  have re: "replaces s {#} {# TStart w True #} s'" by (simp add: replaces_def s'_def)
  have sb: "same_but w s s'" using w by (auto simp: same_but_def s'_def)
  have s': "w_fn (ss_waiters s' ! v) = (if v = w then Some CanceledFn else w_fn (ss_waiters s ! v))"
    "ss_waiterMu s' = ss_waiterMu s" "TStart w True \<in># ss_tasks s'" for v
    using w by (auto simp: s'_def)
  have "sset_invar s'"
    by (rule local_step [OF inv re sb])
      (use Some w s' no_restore [OF inv mu] in \<open>auto simp: awake_def on_list_def\<close>)
  then show ?thesis using Some by (simp add: cancel_def s'_def)
qed

lemma refuse_invar:
  assumes inv: "sset_invar s" and t: "TStart w c \<in># ss_tasks s"
  shows "sset_invar (refuse w (without (TStart w c) s))"
proof -
  define s' where "s' = refuse w (without (TStart w c) s)"
  note ok = invar_task_ok [OF inv t]
  have re: "replaces s {# TStart w c #} {#} s'"
    unfolding s'_def by (rule replaces_single [OF t]) (simp add: refuse_def)
  have sb: "same_but w s s'" using ok by (auto simp: same_but_def refuse_def s'_def)
  have s': "w_fn (ss_waiters s' ! v) = w_fn (ss_waiters s ! v)" "ss_waiterMu s' = ss_waiterMu s" "ss_refused s'" for v
    by (auto simp: refuse_def s'_def)
  have "w_fn (ss_waiters s ! w) \<noteq> None \<and> adm s w" if "TRestore w \<in># ss_tasks s"
    using inv that by (auto simp: sset_invar_def restore_ok_def)
  then have "sset_invar s'"
    by (intro local_step [OF inv re sb]) (use s' in auto)
  then show ?thesis by (simp add: s'_def)
qed

section \<open>Steps that change the queue\<close>

lemma hd_dequeue: "\<lbrakk>s \<noteq> []; fst (hd s) \<noteq> v\<rbrakk> \<Longrightarrow> aq_dequeue v s \<noteq> [] \<and> hd (aq_dequeue v s) = hd s"
  by (cases s) (auto simp: aq_dequeue_def)

lemma dequeue_invar:
  assumes inv: "sset_invar s" and t: "TDequeue w \<in># ss_tasks s"
  shows "\<exists>s'. work_dequeue w (without (TDequeue w) s) = Inr s' \<and> sset_invar s'"
proof -
  have q: "queue_invar (ss_queue s)" using inv by (simp add: sset_invar_def queue_ok_def)
  obtain q' ret where D: "Dequeue None (ss_queue s) (Some w) = Inr (q', ret, Some w \<in> aq_values (queue_abs (ss_queue s)))"
    and q': "queue_invar q'" "queue_abs q' = aq_dequeue (Some w) (queue_abs (ss_queue s))"
    and ret: "set ret = {u. admitted (queue_abs q') u \<and> \<not> admitted (queue_abs (ss_queue s)) u}"
    using Dequeue_law [OF q, of None "Some w"] by blast
  define n where "n = map the ret"
  define s' where "s' = spawn {# TPeek n #} ((without (TDequeue w) s)\<lparr>ss_queue := q'\<rparr>)"
  note own = owned_no_fn [OF inv t, simplified] and nr = owned_no_restore [OF inv t, simplified]
  have inq': "inq s' v \<longleftrightarrow> inq s v \<and> v \<noteq> w" for v by (auto simp: inq_def s'_def q'(2))
  have adm': "adm s' v" if "adm s v" "v \<noteq> w" for v
    using that admitted_dequeue [of "queue_abs (ss_queue s)" "Some v" "Some w"] by (simp add: adm_def s'_def q'(2))
  have ishd': "ishd s' v" if "ishd s v" "v \<noteq> w" for v
    using that hd_dequeue [of "queue_abs (ss_queue s)" "Some w"] by (auto simp: ishd_def s'_def q'(2))
  have wt: "ss_waiters s' = ss_waiters s" "ss_refused s' = ss_refused s" "ss_waiterMu s' = ss_waiterMu s"
    "ss_tasks s' = ss_tasks s - {# TDequeue w #} + {# TPeek n #}"
    by (simp_all add: s'_def spawn_def without_def)
  have some: "\<exists>v < length (ss_waiters s). u = Some v" if "u \<in> aq_values (queue_abs (ss_queue s))" for u
    using inv that by (fastforce simp: sset_invar_def queue_ok_def aq_values_def)
  have n: "v \<in> set n \<longleftrightarrow> adm s' v \<and> \<not> adm s v" for v
  proof -
    have "Some v \<in> set ret \<longleftrightarrow> v \<in> set n"
      using some admitted_value [of "queue_abs q'"] ret q'(2) by (force simp: n_def image_iff)
    then show ?thesis unfolding ret by (simp add: adm_def s'_def)
  qed
  have tok: "task_ok s' u" if "task_ok s u" for u
    using that by (cases u) (auto simp: inq' wt adm' ishd')
  have sz: "size (filter_mset P (ss_tasks s)) = size (filter_mset P (ss_tasks s - {# TDequeue w #})) + of_bool (P (TDequeue w))" for P
    by (rule size_filter_remove [OF t])
  have "queue_ok s'"
    using inv q' by (auto simp: sset_invar_def queue_ok_def wt s'_def aq_dequeue_def)
  moreover have "own_ok s'"
    unfolding own_ok_def wt
  proof (intro allI impI)
    fix v assume v: "v < length (ss_waiters s)"
    have "owners s v = owners s' v + of_bool (v = w)"
      using sz [of "\<lambda>t. owner t = Some v"] by (auto simp: owners_def wt)
    moreover have "of_bool (w_fn (ss_waiters s ! v) \<noteq> None) + owners s v = of_bool (inq s v)"
      using inv v by (simp add: sset_invar_def own_ok_def)
    ultimately show "of_bool (w_fn (ss_waiters s ! v) \<noteq> None) + owners s' v = of_bool (inq s' v)"
      using own by (cases "v = w") (auto simp: inq')
  qed
  moreover have "mu_ok s'"
  proof -
    have "size (filter_mset is_restore (ss_tasks s - {# TDequeue w #})) = of_bool (ss_waiterMu s)"
      using inv sz [of is_restore] unfolding sset_invar_def mu_ok_def by (simp only: is_restore.simps of_bool_eq add_0_right)
    then show ?thesis unfolding mu_ok_def wt by simp
  qed
  moreover have "tasks_ok s'"
    unfolding tasks_ok_def
  proof
    fix u assume "u \<in># ss_tasks s'"
    then consider "u \<in># ss_tasks s" | "u = TPeek n" by (auto simp: wt dest: in_diffD)
    then show "task_ok s' u"
    proof cases
      case 1
      then show ?thesis using tok invar_task_ok [OF inv] by blast
    next
      case 2
      have "v < length (ss_waiters s)" if "v \<in> set n" for v
        using that n adm_inq [of s' v] inq' [of v] adm_bound [OF inv, of v] by blast
      then show ?thesis using 2 n by (simp add: wt)
    qed
  qed
  moreover have "restore_ok s'"
    unfolding restore_ok_def
  proof (intro allI impI)
    fix v assume "TRestore v \<in># ss_tasks s'"
    then have v: "TRestore v \<in># ss_tasks s" by (auto simp: wt dest: in_diffD)
    then have "v \<noteq> w" using nr by blast
    with v show "w_fn (ss_waiters s' ! v) \<noteq> None \<and> adm s' v
      \<and> (ss_refused s' \<or> ishd s' v \<or> w_result (ss_waiters s' ! v) = retryRequested)"
      using inv adm' ishd' by (auto simp: sset_invar_def restore_ok_def wt)
  qed
  moreover have "wake_ok s'"
    unfolding wake_ok_def wt
  proof (intro impI allI)
    fix v assume v: "\<not> ss_refused s" "v < length (ss_waiters s)" "adm s' v \<and> w_fn (ss_waiters s ! v) \<noteq> None"
    show "awake s' v"
    proof (cases "adm s v")
      case True
      then have "awake s v" using inv v by (auto simp: sset_invar_def wake_ok_def)
      moreover have "on_list (ss_tasks s - {# TDequeue w #}) v" if "on_list (ss_tasks s) v"
        using that on_list_union [of "{# TDequeue w #}" "ss_tasks s - {# TDequeue w #}" v] t by simp
      ultimately show ?thesis unfolding awake_def wt on_list_union by auto
    next
      case False
      then have "on_list {# TPeek n #} v" using n v by simp
      then show ?thesis unfolding awake_def wt on_list_union by blast
    qed
  qed
  ultimately have "sset_invar s'" by (simp add: sset_invar_def)
  moreover have "work_dequeue w (without (TDequeue w) s) = Inr s'"
    using D by (simp add: work_dequeue_def s'_def n_def)
  ultimately show ?thesis by blast
qed

lemma schedule_invar:
  assumes inv: "sset_invar s"
  shows "sset_invar (Schedule keys fn s)"
proof -
  define w where "w = length (ss_waiters s)"
  define wt where "wt = ss_waiters s @ [\<lparr>w_fn = Some (UserFn fn), w_keys = dedup keys, w_result = queued\<rparr>]"
  have q: "queue_invar (ss_queue s)" using inv by (simp add: sset_invar_def queue_ok_def)
  have new: "Some w \<notin> aq_values (queue_abs (ss_queue s))"
    using adm_bound [OF inv, of w] by (auto simp: inq_def w_def)
  obtain q' where E: "Enqueue (ss_queue s) (dedup keys) (Some w) = (q', Inr (admitted (queue_abs q') (Some w)))"
    and q': "queue_invar q'" "queue_abs q' = aq_enqueue (set keys) (Some w) (queue_abs (ss_queue s))"
    using Enqueue_law [OF q new, of "dedup keys"] by auto
  define T where "T = (if admitted (queue_abs q') (Some w) then {# TStart w False #} else {#})"
  define s' where "s' = s\<lparr>ss_waiters := wt, ss_queue := q', ss_tasks := ss_tasks s + T\<rparr>"
  have eq: "Schedule keys fn s = s'"
    using E by (simp add: Schedule_def Let_def w_def [symmetric] wt_def s'_def T_def spawn_def)
  have inq': "inq s' v \<longleftrightarrow> inq s v \<or> v = w" for v by (auto simp: inq_def s'_def q'(2))
  have adm': "adm s' v = adm s v" if "v \<noteq> w" for v
    using that admitted_enqueue [of "Some v" "Some w" "set keys" "queue_abs (ss_queue s)"]
    by (simp add: adm_def s'_def q'(2))
  have ishd': "ishd s' v = ishd s v" if "v \<noteq> w" for v
    using that by (cases "queue_abs (ss_queue s)") (auto simp: ishd_def s'_def q'(2) aq_enqueue_def)
  have old: "wt ! v = ss_waiters s ! v" if "v < w" for v using that by (simp add: wt_def nth_append w_def)
  have fresh: "wt ! w = \<lparr>w_fn = Some (UserFn fn), w_keys = dedup keys, w_result = queued\<rparr>" "length wt = Suc w"
    by (simp_all add: wt_def nth_append w_def)
  have fs: "ss_waiters s' = wt" "ss_refused s' = ss_refused s" "ss_tasks s' = ss_tasks s + T"
    "ss_waiterMu s' = ss_waiterMu s" "length (ss_waiters s) = w"
    by (simp_all add: s'_def w_def)
  have tok: "task_ok s' u" if "task_ok s u" for u
    using that by (cases u) (auto simp: inq' adm' ishd' fs fresh)
  have admw: "adm s' w = admitted (queue_abs q') (Some w)" by (simp add: adm_def s'_def)
  have bnd: "owner u \<noteq> Some w \<and> u \<noteq> TRestore w" if "u \<in># ss_tasks s" for u
    using invar_task_ok [OF inv that] by (cases u) (auto simp: w_def)
  have "queue_ok s'"
    using inv q' old fresh unfolding sset_invar_def queue_ok_def
    by (fastforce simp: s'_def aq_enqueue_def w_def [symmetric])
  moreover have "own_ok s'"
    unfolding own_ok_def
  proof (intro allI impI)
    fix v assume "v < length (ss_waiters s')"
    then consider "v < w" | "v = w" by (auto simp: fs fresh less_Suc_eq)
    then show "of_bool (w_fn (ss_waiters s' ! v) \<noteq> None) + owners s' v = of_bool (inq s' v)"
    proof cases
      case 1
      then show ?thesis using inv old by (auto simp: sset_invar_def own_ok_def fs inq' T_def owners_def)
    next
      case 2
      then have "owners s' v = 0" using bnd by (auto simp: owners_def fs T_def filter_mset_eq_mempty_iff)
      then show ?thesis using 2 inq' fresh by (simp add: fs)
    qed
  qed
  moreover have "mu_ok s'" using inv by (simp add: sset_invar_def mu_ok_def fs T_def)
  moreover have "tasks_ok s'"
    using inv tok fresh admw by (auto simp: sset_invar_def tasks_ok_def fs T_def split: if_splits)
  moreover have "restore_ok s'"
    unfolding restore_ok_def
  proof (intro allI impI)
    fix v assume "TRestore v \<in># ss_tasks s'"
    then have v: "TRestore v \<in># ss_tasks s" by (auto simp: fs T_def split: if_splits)
    then have "v < w" "v \<noteq> w" using invar_task_ok [OF inv v] by (auto simp: fs)
    then show "w_fn (ss_waiters s' ! v) \<noteq> None \<and> adm s' v
      \<and> (ss_refused s' \<or> ishd s' v \<or> w_result (ss_waiters s' ! v) = retryRequested)"
      using inv v old adm' ishd' by (auto simp: sset_invar_def restore_ok_def fs)
  qed
  moreover have "wake_ok s'"
    unfolding wake_ok_def
  proof (intro impI allI)
    fix v assume v: "\<not> ss_refused s'" "v < length (ss_waiters s')" "adm s' v \<and> w_fn (ss_waiters s' ! v) \<noteq> None"
    then consider "v < w" "v \<noteq> w" | "v = w" by (auto simp: fs fresh less_Suc_eq)
    then show "awake s' v"
    proof cases
      case 1
      then have "awake s v"
        using inv v adm' old by (auto simp: sset_invar_def wake_ok_def fs)
      then show ?thesis using ishd' [OF 1(2)] old [OF 1(1)] by (auto simp: awake_def fs on_list_union)
    next
      case 2
      then show ?thesis using v admw by (auto simp: awake_def fs T_def on_list_def)
    qed
  qed
  ultimately show ?thesis unfolding eq by (simp add: sset_invar_def)
qed

section \<open>Reachable states\<close>

lemma work_step_invar: "\<lbrakk>work_step s s'; sset_invar s\<rbrakk> \<Longrightarrow> sset_invar s'"
proof (induction rule: work_step.induct)
  case (dequeue w s s')
  then show ?case using dequeue_invar [of s w] by auto
qed (simp_all add: start_invar call_invar return_invar switch_invar restored_invar peek_invar get_invar set_invar)

lemma reach_invar: "reach s \<Longrightarrow> sset_invar s"
proof (induction rule: reach.induct)
  case (step s s')
  from step.hyps(2) step.IH show ?case
    by (cases rule: sched_step.cases) (auto intro: schedule_invar cancel_invar refuse_invar work_step_invar)
qed (rule NewSet_invar)

text \<open>Every task can take a step, unless it waits for the mutex, whose holder can.\<close>

lemma task_enabled:
  assumes inv: "sset_invar s" and t: "t \<in># ss_tasks s"
  shows "\<exists>s'. work_step s s'"
proof (cases "ss_waiterMu s")
  case True
  then have "size (filter_mset is_restore (ss_tasks s)) \<noteq> 0"
    using inv unfolding sset_invar_def mu_ok_def by simp
  then obtain u where "u \<in># ss_tasks s" "is_restore u" by (auto simp: filter_mset_eq_mempty_iff)
  then obtain w where "TRestore w \<in># ss_tasks s" by (cases u) auto
  then show ?thesis by (blast intro: work_step.restored)
next
  case False
  show ?thesis
  proof (cases t)
    case (TRun w f h)
    have "\<exists>out. may_return f out" by (cases f) auto
    then show ?thesis using TRun t work_step.return by blast
  next
    case (TDequeue w)
    then show ?thesis using dequeue_invar [OF inv, of w] t work_step.dequeue by blast
  qed (use t False in \<open>blast intro: work_step.intros\<close>)+
qed

lemma quiescent_empty:
  assumes inv: "sset_invar s" and nr: "\<not> ss_refused s" and nt: "ss_tasks s = {#}"
  shows "queue_abs (ss_queue s) = []"
proof (rule ccontr)
  assume ne: "queue_abs (ss_queue s) \<noteq> []"
  then have "\<exists>w < length (ss_waiters s). fst (hd (queue_abs (ss_queue s))) = Some w"
    using inv by (force simp: sset_invar_def queue_ok_def)
  then obtain w where w: "w < length (ss_waiters s)" "ishd s w" using ne by (auto simp: ishd_def)
  then have a: "adm s w" by (intro ishd_adm)
  have "of_bool (w_fn (ss_waiters s ! w) \<noteq> None) + owners s w = of_bool (inq s w)"
    using inv w by (simp add: sset_invar_def own_ok_def)
  then have "w_fn (ss_waiters s ! w) \<noteq> None"
    using adm_inq [OF a] nt by (auto simp: owners_def of_bool_def split: if_splits)
  then have "awake s w" using inv a w nr by (auto simp: sset_invar_def wake_ok_def)
  then show False using nt w by (simp add: awake_def)
qed

section \<open>Running a schedule\<close>

text \<open>An interpreter of the step relation, to exhibit concrete interleavings.\<close>

datatype 'k act = ASchedule "'k list" nat | ATask task cb_outcome | ARefuse nat bool

definition run_task :: "task \<Rightarrow> cb_outcome \<Rightarrow> 'k sset \<Rightarrow> 'k sset option" where
  "run_task t out s =
     (let s0 = without t s in
      case t of
        TStart w c \<Rightarrow> if ss_waiterMu s then None else Some (work_start w c s0)
      | TTaken w f h c \<Rightarrow> Some (work_call w f h c s0)
      | TRun w f h \<Rightarrow> if may_return f out then Some (work_return w f h out s0) else None
      | TReturned w f h r \<Rightarrow>
          if wants_retry r \<and> \<not> h \<and> ss_waiterMu s then None else Some (work_switch w f h r s0)
      | TRestore w \<Rightarrow> Some (work_restored w s0)
      | TDequeue w \<Rightarrow> (case work_dequeue w s0 of Inl _ \<Rightarrow> None | Inr s' \<Rightarrow> Some s')
      | TPeek n \<Rightarrow> Some (work_peek n s0)
      | TGet h n \<Rightarrow> Some (work_get h n s0)
      | TSet h n \<Rightarrow> Some (work_set h n s0))"

fun run_acts :: "'k act list \<Rightarrow> 'k sset \<Rightarrow> 'k sset option" where
  "run_acts [] s = Some s"
| "run_acts (ASchedule ks f # as) s = run_acts as (Schedule ks f s)"
| "run_acts (ATask t out # as) s =
     (if t \<in># ss_tasks s
      then (case run_task t out s of None \<Rightarrow> None | Some s' \<Rightarrow> run_acts as s') else None)"
| "run_acts (ARefuse w c # as) s =
     (if TStart w c \<in># ss_tasks s then run_acts as (refuse w (without (TStart w c) s)) else None)"

lemma run_task_step: "\<lbrakk>t \<in># ss_tasks s; run_task t out s = Some s'\<rbrakk> \<Longrightarrow> work_step s s'"
  by (cases t) (auto simp: run_task_def Let_def intro: work_step.intros split: if_splits sum.splits)

lemma run_acts_reach: "\<lbrakk>run_acts as s = Some s'; reach s\<rbrakk> \<Longrightarrow> reach s'"
proof (induction as s rule: run_acts.induct)
  case (2 ks f as s)
  then show ?case using reach.step sched_step.schedule by fastforce
next
  case (3 t out as s)
  then show ?case
    using run_task_step sched_step.work reach.step by (fastforce split: if_splits option.splits)
next
  case (4 w c as s)
  then show ?case using sched_step.refused reach.step by (fastforce split: if_splits)
qed simp

section \<open>Properties\<close>

text \<open>
  C4: mutual exclusion of the scheduler. In every reachable state, under every interleaving and with
  retries and cancellations, two callbacks that are executing belong to different waiters, and the
  key sets of these waiters are disjoint.
\<close>

theorem executing_callbacks_exclusive:
  assumes "reach s" "{# TRun u f h, TRun v g j #} \<subseteq># ss_tasks s"
  shows "u \<noteq> v \<and> set (w_keys (ss_waiters s ! u)) \<inter> set (w_keys (ss_waiters s ! v)) = {}"
proof -
  have inv: "sset_invar s" using assms(1) by (rule reach_invar)
  obtain M where M: "ss_tasks s = {# TRun u f h, TRun v g j #} + M"
    using assms(2) by (metis subset_mset.add_diff_inverse)
  then have t: "TRun u f h \<in># ss_tasks s" "TRun v g j \<in># ss_tasks s" by auto
  note u = owned_no_fn [OF inv t(1), simplified] and v = owned_no_fn [OF inv t(2), simplified]
  have ne: "u \<noteq> v" using u(4) by (auto simp: owners_def M)
  have adm: "admitted_after {} (queue_abs (ss_queue s)) (Some u)" "admitted_after {} (queue_abs (ss_queue s)) (Some v)"
    using invar_task_ok [OF inv t(1)] invar_task_ok [OF inv t(2)] u v by (auto simp: adm_def admitted_def)
  have q: "queue_invar (ss_queue s)" using inv by (simp add: sset_invar_def queue_ok_def)
  have mem: "(Some x, set (w_keys (ss_waiters s ! x))) \<in> set (queue_abs (ss_queue s))" if "inq s x" for x
    using that inv by (fastforce simp: inq_def aq_values_def sset_invar_def queue_ok_def)
  have "set (w_keys (ss_waiters s ! u)) \<inter> set (w_keys (ss_waiters s ! v)) = {}"
    by (rule admitted_exclusive [OF distinct_abs [OF q] adm]) (use ne mem u v in auto)
  with ne show ?thesis by blast
qed

text \<open>Witness for C4: two waiters on different keys execute together.\<close>

theorem executing_callbacks_exclusive_witness:
  "\<exists>s. reach s \<and> {# TRun 0 (UserFn 7) True, TRun 1 (UserFn 8) False #} \<subseteq># ss_tasks s
     \<and> set (w_keys (ss_waiters s ! 0)) \<inter> set (w_keys (ss_waiters s ! 1)) = ({} :: nat set)"
proof -
  let ?r = "run_acts [ASchedule [1 :: nat, 2] 7, ASchedule [3] 8, ATask (TStart 0 False) (Return CbNil),
    ATask (TStart 1 False) (Return CbNil), ATask (TTaken 0 (UserFn 7) True False) (Return CbNil),
    ATask (TTaken 1 (UserFn 8) False False) (Return CbNil)] NewSet"
  have ev: "case ?r of None \<Rightarrow> False | Some s \<Rightarrow>
      ss_tasks s = {# TRun 0 (UserFn 7) True, TRun 1 (UserFn 8) False #}"
    by code_simp
  obtain s where s: "?r = Some s" "ss_tasks s = {# TRun 0 (UserFn 7) True, TRun 1 (UserFn 8) False #}"
    using case_SomeD [OF ev] by blast
  have r: "reach s" by (rule run_acts_reach [OF s(1) reach.init])
  have "{# TRun 0 (UserFn 7) True, TRun 1 (UserFn 8) False #} \<subseteq># ss_tasks s" unfolding s(2) by simp
  with r executing_callbacks_exclusive [OF r this] show ?thesis by blast
qed

text \<open>
  C5: no lost wake-ups. While the runner accepts its tasks, a scheduler with queued waiters can always
  take a step of its own: also when waiters asked to be retried at the head of the queue, someone is
  about to run the head. When no task is left, every scheduled waiter has been dequeued.
\<close>

theorem scheduler_never_stuck:
  assumes "reach s" "\<not> ss_refused s" "queue_abs (ss_queue s) \<noteq> []"
  shows "\<exists>s'. work_step s s'"
proof -
  have inv: "sset_invar s" using assms(1) by (rule reach_invar)
  then have "ss_tasks s \<noteq> {#}" using quiescent_empty assms(2,3) by blast
  then obtain t where "t \<in># ss_tasks s" by auto
  then show ?thesis by (rule task_enabled [OF inv])
qed

text \<open>Witness for C5: one scheduled waiter.\<close>

theorem scheduler_never_stuck_witness:
  "\<exists>s'. work_step (Schedule [1 :: nat] 7 NewSet) s'"
proof (rule scheduler_never_stuck)
  show "reach (Schedule [1 :: nat] 7 NewSet)" by (blast intro: reach.intros sched_step.schedule)
  show "\<not> ss_refused (Schedule [1 :: nat] 7 NewSet)" by code_simp
  show "queue_abs (ss_queue (Schedule [1 :: nat] 7 NewSet)) \<noteq> []" by code_simp
qed

text \<open>
  A completed waiter can lose its outcome. The task that dequeued the previous head reads the
  status \<open>retryRequested\<close> of the new head and sets \<open>retryQueued\<close> in two separate accesses. When the
  retry, started by the waiter itself, completes in between, the late write replaces \<open>success\<close>: the
  queue is empty, no task is left, and \<open>Wait\<close> on the outcome blocks for ever.
\<close>

theorem outcome_overwritten_by_retryQueued:
  "\<exists>s. reach s \<and> \<not> ss_refused s \<and> ss_tasks s = {#} \<and> queue_abs (ss_queue (s :: nat sset)) = []
     \<and> map w_result (ss_waiters s) = [success, retryQueued] \<and> Wait (map w_result (ss_waiters s)) = None"
proof -
  let ?r = "run_acts [ASchedule [1 :: nat] 7, ASchedule [2] 8, ATask (TStart 0 False) (Return CbNil),
    ATask (TStart 1 False) (Return CbNil), ATask (TTaken 0 (UserFn 7) True False) (Return CbNil),
    ATask (TTaken 1 (UserFn 8) False False) (Return CbNil),
    ATask (TRun 0 (UserFn 7) True) (Return CbNil), ATask (TReturned 0 (UserFn 7) True CbNil) (Return CbNil),
    ATask (TDequeue 0) (Return CbNil), ATask (TRun 1 (UserFn 8) False) (Return (CbRetry None)),
    ATask (TReturned 1 (UserFn 8) False (CbRetry None)) (Return CbNil),
    ATask (TPeek []) (Return CbNil), ATask (TGet 1 []) (Return CbNil), ATask (TRestore 1) (Return CbNil),
    ATask (TStart 1 False) (Return CbNil), ATask (TTaken 1 (UserFn 8) True False) (Return CbNil),
    ATask (TRun 1 (UserFn 8) True) (Return CbNil), ATask (TReturned 1 (UserFn 8) True CbNil) (Return CbNil),
    ATask (TDequeue 1) (Return CbNil), ATask (TPeek []) (Return CbNil), ATask (TSet 1 []) (Return CbNil),
    ATask (TStart 1 False) (Return CbNil)] NewSet"
  have ev: "case ?r of None \<Rightarrow> False | Some s \<Rightarrow> \<not> ss_refused s \<and> ss_tasks s = {#} \<and> queue_abs (ss_queue s) = []
     \<and> map w_result (ss_waiters s) = [success, retryQueued]"
    by code_simp
  obtain s where r: "?r = Some s" and s: "\<not> ss_refused s \<and> ss_tasks s = {#} \<and> queue_abs (ss_queue s) = []
     \<and> map w_result (ss_waiters s) = [success, retryQueued]"
    by (rule exE [OF case_SomeD [OF ev]]) (erule conjE)
  have "reach s" by (rule run_acts_reach [OF r reach.init])
  moreover have "Wait (map w_result (ss_waiters s)) = None"
    using s by (simp add: Status_Success_def Status_Err_def)
  ultimately show ?thesis using s by (intro exI [of _ s]) simp
qed

text \<open>
  A refused waiter keeps its locks. When the runner refuses to start the closure, the waiter's
  outcome is the error but the waiter is never dequeued: later waiters on its keys stay blocked
  with no task left to release them.
\<close>

theorem refused_waiter_blocks_keys:
  "\<exists>s. reach s \<and> ss_tasks s = {#} \<and> map fst (queue_abs (ss_queue (s :: nat sset))) = [Some 0, Some 1]
     \<and> map w_result (ss_waiters s) = [StatusErr RunnerErr, queued]"
proof -
  let ?r = "run_acts [ASchedule [1 :: nat] 7, ASchedule [1] 8, ARefuse 0 False] NewSet"
  have ev: "case ?r of None \<Rightarrow> False | Some s \<Rightarrow> ss_tasks s = {#}
     \<and> map fst (queue_abs (ss_queue s)) = [Some 0, Some 1]
     \<and> map w_result (ss_waiters s) = [StatusErr RunnerErr, queued]"
    by code_simp
  obtain s where r: "?r = Some s" and s: "ss_tasks s = {#} \<and> map fst (queue_abs (ss_queue s)) = [Some 0, Some 1]
     \<and> map w_result (ss_waiters s) = [StatusErr RunnerErr, queued]"
    by (rule exE [OF case_SomeD [OF ev]]) (erule conjE)
  have "reach s" by (rule run_acts_reach [OF r reach.init])
  with s show ?thesis by (intro exI [of _ s]) simp
qed

end
