(* ===== verification/GoLib.thy ===== *)
theory GoLib
  imports Prelude
begin

text \<open>
  The parts of Go's standard library that the modelled code calls: \<open>strings.Split\<close> on a
  one-character separator, \<open>strconv.ParseInt\<close> with base 0 and base 10, \<open>strconv.Atoi\<close>, and the
  decimal formats \<open>%d\<close> and \<open>%010d\<close> of \<open>fmt\<close>. A string is its list of bytes.
\<close>

section \<open>Dynamically typed values\<close>

text \<open>
  Values of the type \<open>any\<close> by the dynamic types that the code distinguishes: integers of any width, floats by their bits, instants
  by their nanoseconds, numbers of the JSON decoder, and any other value by a handle.
\<close>

datatype go_any =
    GNil | GBool bool | GString string | GInt int | GUint int | GFloat32 int | GFloat64 int | GTime int
  | GRawMessage string | GBytes string | GNumber string | GOther nat

section \<open>Division\<close>

text \<open>Integer division truncates toward zero.\<close>

definition go_div :: "int \<Rightarrow> int \<Rightarrow> int" where
  "go_div a b = sgn a * sgn b * (\<bar>a\<bar> div \<bar>b\<bar>)"

lemma go_div_pos: "0 \<le> a \<Longrightarrow> 0 < b \<Longrightarrow> go_div a b = a div b"
  by (cases "a = 0") (simp_all add: go_div_def)

section \<open>Splitting\<close>

fun Split :: "string \<Rightarrow> char \<Rightarrow> string list" where
  "Split [] c = [[]]"
| "Split (x # xs) c =
     (if x = c then [] # Split xs c
      else (case Split xs c of [] \<Rightarrow> [[x]] | s # ss \<Rightarrow> (x # s) # ss))"

section \<open>Parsing integers\<close>

datatype num_error = ErrSyntax | ErrRange

definition is_digit :: "char \<Rightarrow> bool" where
  "is_digit c \<longleftrightarrow> 48 \<le> (of_char c :: nat) \<and> (of_char c :: nat) \<le> 57"

text \<open>\<open>lower\<close> of \<open>strconv\<close> sets bit 5; on a letter it gives the lower-case letter.\<close>

definition byte_lower :: "char \<Rightarrow> nat" where
  "byte_lower c = (let n = of_char c in if 65 \<le> n \<and> n \<le> 90 then n + 32 else n)"

definition digit_value :: "char \<Rightarrow> nat option" where
  "digit_value c =
     (if is_digit c then Some (of_char c - 48)
      else if 97 \<le> byte_lower c \<and> byte_lower c \<le> 122 then Some (byte_lower c - 87)
      else None)"

text \<open>The digit loop of \<open>ParseUint\<close>: the value so far, and whether an underscore was seen.\<close>

fun parse_digits :: "nat \<Rightarrow> bool \<Rightarrow> string \<Rightarrow> nat \<Rightarrow> bool \<Rightarrow> (num_error, nat \<times> bool) result" where
  "parse_digits base base0 [] n us = Inr (n, us)"
| "parse_digits base base0 (c # cs) n us =
     (if c = CHR ''_'' \<and> base0 then parse_digits base base0 cs n True
      else case digit_value c of
        None \<Rightarrow> Inl ErrSyntax
      | Some d \<Rightarrow>
          if base \<le> d then Inl ErrSyntax
          else if 2 ^ 64 \<le> n * base + d then Inl ErrRange
          else parse_digits base base0 cs (n * base + d) us)"

fun underscore_scan :: "bool \<Rightarrow> char \<Rightarrow> string \<Rightarrow> bool" where
  "underscore_scan hex i [] = (i \<noteq> CHR ''_'')"
| "underscore_scan hex i (c # cs) =
     (if is_digit c \<or> hex \<and> 97 \<le> byte_lower c \<and> byte_lower c \<le> 102
      then underscore_scan hex (CHR ''0'') cs
      else if c = CHR ''_''
      then (if i \<noteq> CHR ''0'' then False else underscore_scan hex (CHR ''_'') cs)
      else if i = CHR ''_'' then False
      else underscore_scan hex (CHR ''!'') cs)"

definition is_base_letter :: "char \<Rightarrow> bool" where
  "is_base_letter c \<longleftrightarrow> byte_lower c = 98 \<or> byte_lower c = 111 \<or> byte_lower c = 120"

fun underscoreOK :: "string \<Rightarrow> bool" where
  "underscoreOK s0 =
     (let s = (case s0 of c # cs \<Rightarrow> if c = CHR ''-'' \<or> c = CHR ''+'' then cs else s0 | [] \<Rightarrow> [])
      in case s of
           z # b # rest \<Rightarrow>
             if z = CHR ''0'' \<and> is_base_letter b
             then underscore_scan (byte_lower b = 120) (CHR ''0'') rest
             else underscore_scan False (CHR ''^'') s
         | _ \<Rightarrow> underscore_scan False (CHR ''^'') s)"

text \<open>The base and the digits that follow the prefix, for a literal in base 0.\<close>

fun base_prefix :: "string \<Rightarrow> nat \<times> string" where
  "base_prefix s =
     (case s of
        c # cs \<Rightarrow>
          if c = CHR ''0'' then
            (case cs of
               b # d # ds \<Rightarrow>
                 if byte_lower b = 98 then (2, d # ds)
                 else if byte_lower b = 111 then (8, d # ds)
                 else if byte_lower b = 120 then (16, d # ds)
                 else (8, cs)
             | _ \<Rightarrow> (8, cs))
          else (10, s)
      | [] \<Rightarrow> (10, s))"

definition ParseUint :: "string \<Rightarrow> bool \<Rightarrow> (num_error, nat) result" where
  "ParseUint s base0 =
     (if s = [] then Inl ErrSyntax
      else let (base, ds) = (if base0 then base_prefix s else (10, s)) in
        case parse_digits base base0 ds 0 False of
          Inl e \<Rightarrow> Inl e
        | Inr (n, us) \<Rightarrow> if us \<and> \<not> underscoreOK s then Inl ErrSyntax else Inr n)"

text \<open>\<open>ParseInt s b\<close> is \<open>strconv.ParseInt(s, 0, 64)\<close> when \<open>b\<close> holds and base 10 otherwise.\<close>

definition ParseInt :: "string \<Rightarrow> bool \<Rightarrow> (num_error, int) result" where
  "ParseInt s base0 =
     (case s of
        [] \<Rightarrow> Inl ErrSyntax
      | c # cs \<Rightarrow>
          let neg = (c = CHR ''-''); rest = (if c = CHR ''+'' \<or> c = CHR ''-'' then cs else s)
          in case ParseUint rest base0 of
               Inl e \<Rightarrow> Inl e
             | Inr un \<Rightarrow>
                 if \<not> neg \<and> 2 ^ 63 \<le> un then Inl ErrRange
                 else if neg \<and> 2 ^ 63 < un then Inl ErrRange
                 else Inr (if neg then - int un else int un))"

text \<open>
  \<open>strconv.Atoi\<close> returns a number beside the error: zero on a syntax error, the nearest
  representable number on a range error.
\<close>

definition Atoi :: "string \<Rightarrow> int \<times> num_error option" where
  "Atoi s = (case ParseInt s False of
     Inr n \<Rightarrow> (n, None)
   | Inl ErrSyntax \<Rightarrow> (0, Some ErrSyntax)
   | Inl ErrRange \<Rightarrow>
       ((case s of c # _ \<Rightarrow> if c = CHR ''-'' then - (2 ^ 63) else 2 ^ 63 - 1 | [] \<Rightarrow> 0),
        Some ErrRange))"

section \<open>Printing integers\<close>

definition digit_char :: "nat \<Rightarrow> char" where
  "digit_char d = char_of (48 + d)"

fun show_nat :: "nat \<Rightarrow> string" where
  "show_nat n = (if n < 10 then [digit_char n] else show_nat (n div 10) @ [digit_char (n mod 10)])"

declare show_nat.simps [simp del]

definition show_int :: "int \<Rightarrow> string" where
  "show_int z = (if z < 0 then CHR ''-'' # show_nat (nat (- z)) else show_nat (nat z))"

definition pad_zero :: "nat \<Rightarrow> string \<Rightarrow> string" where
  "pad_zero w s = replicate (w - length s) CHR ''0'' @ s"

text \<open>\<open>%0wd\<close>: the sign counts towards the width and stays in front of the padding.\<close>

definition show_int_pad :: "nat \<Rightarrow> int \<Rightarrow> string" where
  "show_int_pad w z =
     (if z < 0 then CHR ''-'' # pad_zero (w - 1) (show_nat (nat (- z)))
      else pad_zero w (show_nat (nat z)))"

section \<open>UTF-8\<close>

text \<open>
  \<open>utf8.DecodeRuneInString\<close>: the first rune and its width. Ill-formed input gives the replacement
  rune with width 1, the empty string the replacement rune with width 0.
\<close>

definition RuneError :: nat where
  "RuneError = 65533"

definition cont_byte :: "nat \<Rightarrow> nat \<Rightarrow> char \<Rightarrow> bool" where
  "cont_byte lo hi c \<longleftrightarrow> lo \<le> (of_char c :: nat) \<and> (of_char c :: nat) \<le> hi"

definition rune_len :: "nat \<Rightarrow> nat" where
  "rune_len b0 =
     (if b0 < 128 then 1 else if b0 < 194 then 0 else if b0 < 224 then 2 else if b0 < 240 then 3
      else if b0 \<le> 244 then 4 else 0)"

text \<open>The second byte has a range of its own after E0, ED, F0 and F4.\<close>

definition conts_ok :: "nat \<Rightarrow> string \<Rightarrow> bool" where
  "conts_ok b0 cs =
     (case cs of
        [] \<Rightarrow> True
      | c1 # rest \<Rightarrow>
          cont_byte (if b0 = 224 then 160 else if b0 = 240 then 144 else 128)
                    (if b0 = 237 then 159 else if b0 = 244 then 143 else 191) c1
          \<and> list_all (cont_byte 128 191) rest)"

definition rune_value :: "nat \<Rightarrow> string \<Rightarrow> nat" where
  "rune_value b0 cs =
     foldl (\<lambda>a c. a * 64 + (of_char c - 128))
       (b0 - (case rune_len b0 of Suc (Suc 0) \<Rightarrow> 192 | Suc (Suc (Suc 0)) \<Rightarrow> 224 | Suc (Suc (Suc (Suc 0))) \<Rightarrow> 240 | _ \<Rightarrow> 0))
       cs"

fun DecodeRune :: "string \<Rightarrow> nat \<times> nat" where
  "DecodeRune [] = (RuneError, 0)"
| "DecodeRune (c0 # cs) =
     (let b0 = of_char c0; n = rune_len b0 in
      if n = 0 \<or> length cs < n - 1 \<or> \<not> conts_ok b0 (take (n - 1) cs) then (RuneError, 1)
      else (rune_value b0 (take (n - 1) cs), n))"

section \<open>Strings\<close>

text \<open>\<open>strings.ToLower\<close> on the letters A to Z; other bytes are left alone.\<close>

definition lower_char :: "char \<Rightarrow> char" where
  "lower_char c = (if 65 \<le> (of_char c :: nat) \<and> (of_char c :: nat) \<le> 90 then char_of (of_char c + 32 :: nat) else c)"

definition ToLower :: "string \<Rightarrow> string" where
  "ToLower s = map lower_char s"

text \<open>\<open>strings.Compare\<close>: bytewise, a proper prefix first.\<close>

fun StringsCompare :: "string \<Rightarrow> string \<Rightarrow> int" where
  "StringsCompare [] [] = 0"
| "StringsCompare [] (_ # _) = - 1"
| "StringsCompare (_ # _) [] = 1"
| "StringsCompare (a # as) (b # bs) =
     (if (of_char a :: nat) < of_char b then - 1
      else if (of_char b :: nat) < of_char a then 1
      else StringsCompare as bs)"

text \<open>\<open>strings.ReplaceAll(s, q, qq)\<close> and \<open>strings.ReplaceAll(s, qq, q)\<close> for the double quote \<open>q\<close>.\<close>

definition dquote :: char where
  "dquote = CHR 0x22"

fun escape_quotes :: "string \<Rightarrow> string" where
  "escape_quotes [] = []"
| "escape_quotes (c # cs) = (if c = dquote then [dquote, dquote] else [c]) @ escape_quotes cs"

fun unescape_quotes :: "string \<Rightarrow> string" where
  "unescape_quotes (c # d # cs) =
     (if c = dquote \<and> d = dquote then dquote # unescape_quotes cs else c # unescape_quotes (d # cs))"
| "unescape_quotes s = s"

section \<open>Sorting\<close>

text \<open>
  \<open>sort.Slice\<close> and \<open>sort.Sort\<close> with a comparison function. The library does not promise stability;
  the model is a stable insertion sort, one of the permitted results. Where no two elements compare
  equal the result is unique.
\<close>

fun insort_by :: "('a \<Rightarrow> 'a \<Rightarrow> bool) \<Rightarrow> 'a \<Rightarrow> 'a list \<Rightarrow> 'a list" where
  "insort_by lt x [] = [x]"
| "insort_by lt x (y # ys) = (if lt x y then x # y # ys else y # insort_by lt x ys)"

definition SortSlice :: "('a \<Rightarrow> 'a \<Rightarrow> bool) \<Rightarrow> 'a list \<Rightarrow> 'a list" where
  "SortSlice lt xs = fold (insort_by lt) xs []"

lemma mset_insort_by [simp]: "mset (insort_by lt x ys) = add_mset x (mset ys)"
  by (induction ys) auto

lemma mset_fold_insort: "mset (fold (insort_by lt) xs acc) = mset xs + mset acc"
  by (induction xs arbitrary: acc) auto

lemma mset_SortSlice [simp]: "mset (SortSlice lt xs) = mset xs"
  by (simp add: SortSlice_def mset_fold_insort)

lemma set_SortSlice [simp]: "set (SortSlice lt xs) = set xs"
  by (metis mset_SortSlice set_mset_mset)

lemma length_SortSlice [simp]: "length (SortSlice lt xs) = length xs"
  by (metis mset_SortSlice size_mset)

lemma distinct_SortSlice [simp]: "distinct (SortSlice lt xs) = distinct xs"
  by (metis mset_SortSlice mset_eq_imp_distinct_iff)

lemma distinct_map_SortSlice: "distinct (map f (SortSlice lt xs)) = distinct (map f xs)"
proof -
  have "mset (map f (SortSlice lt xs)) = mset (map f xs)" by simp
  then show ?thesis by (rule mset_eq_imp_distinct_iff)
qed

lemma sum_list_SortSlice:
  fixes f :: "'a \<Rightarrow> 'b :: comm_monoid_add"
  shows "sum_list (map f (SortSlice lt xs)) = sum_list (map f xs)"
  by (simp only: sum_mset_sum_list [symmetric] mset_map mset_SortSlice)

text \<open>A strict weak order on the elements of a list: what \<open>sort\<close> asks of \<open>Less\<close>.\<close>

definition weak_order_on :: "'a set \<Rightarrow> ('a \<Rightarrow> 'a \<Rightarrow> bool) \<Rightarrow> bool" where
  "weak_order_on A lt \<longleftrightarrow>
     (\<forall>x \<in> A. \<forall>y \<in> A. lt x y \<longrightarrow> \<not> lt y x)
     \<and> (\<forall>x \<in> A. \<forall>y \<in> A. \<forall>z \<in> A. \<not> lt x y \<longrightarrow> \<not> lt y z \<longrightarrow> \<not> lt x z)"

lemma sorted_insort_by:
  assumes "weak_order_on A lt" "insert x (set ys) \<subseteq> A" "sorted_wrt (\<lambda>a b. \<not> lt b a) ys"
  shows "sorted_wrt (\<lambda>a b. \<not> lt b a) (insort_by lt x ys)"
  using assms(2,3)
proof (induction ys)
  case (Cons y ys)
  have set: "set (insort_by lt x ys) = insert x (set ys)"
    by (metis mset_insort_by set_mset_add_mset_insert set_mset_mset)
  show ?case
  proof (cases "lt x y")
    case True
    then have "\<not> lt y x" using assms(1) Cons.prems(1) by (auto simp: weak_order_on_def)
    moreover have "\<not> lt z x" if "z \<in> set ys" for z
    proof -
      have "\<not> lt z y" "z \<in> A" "y \<in> A" "x \<in> A" using Cons.prems that by auto
      then show ?thesis using assms(1) \<open>\<not> lt y x\<close> unfolding weak_order_on_def by blast
    qed
    ultimately show ?thesis using True Cons.prems by auto
  next
    case False
    then show ?thesis using Cons set by auto
  qed
qed simp

lemma sorted_SortSlice:
  assumes "weak_order_on (set xs) lt"
  shows "sorted_wrt (\<lambda>a b. \<not> lt b a) (SortSlice lt xs)"
proof -
  have "sorted_wrt (\<lambda>a b. \<not> lt b a) (fold (insort_by lt) ys acc)"
    if "set ys \<union> set acc \<subseteq> set xs" "sorted_wrt (\<lambda>a b. \<not> lt b a) acc" for ys acc
    using that
  proof (induction ys arbitrary: acc)
    case (Cons y ys)
    have "set (insort_by lt y acc) = insert y (set acc)"
      by (metis mset_insort_by set_mset_add_mset_insert set_mset_mset)
    then show ?case
      using Cons sorted_insort_by [OF assms, of y acc] by auto
  qed simp
  then show ?thesis by (simp add: SortSlice_def)
qed

section \<open>Facts about strings\<close>

lemma lower_char_idem [simp]: "lower_char (lower_char c) = lower_char c"
  by (auto simp: lower_char_def)

lemma ToLower_idem [simp]: "ToLower (ToLower s) = ToLower s"
  by (simp add: ToLower_def)

lemma ToLower_empty [simp]: "ToLower s = [] \<longleftrightarrow> s = []" "[] = ToLower s \<longleftrightarrow> s = []"
  by (auto simp: ToLower_def)

lemma StringsCompare_eq [simp]: "StringsCompare a b = 0 \<longleftrightarrow> a = b"
  by (induction a b rule: StringsCompare.induct) (auto dest: not_less_iff_gr_or_eq [THEN iffD1])

lemma StringsCompare_self [simp]: "StringsCompare a a = 0"
  by simp

lemma StringsCompare_antisym: "StringsCompare b a = - StringsCompare a b"
  by (induction a b rule: StringsCompare.induct) auto

lemma StringsCompare_trans:
  "\<lbrakk>StringsCompare a b < 0; StringsCompare b c < 0\<rbrakk> \<Longrightarrow> StringsCompare a c < 0"
proof (induction a b arbitrary: c rule: StringsCompare.induct)
  case (2 v va)
  then show ?case by (cases c) auto
next
  case (4 a as b bs)
  obtain d ds where c: "c = d # ds" using "4.prems"(2) by (cases c) auto
  have "(of_char a :: nat) < of_char b \<or> \<not> (of_char b :: nat) < of_char a \<and> StringsCompare as bs < 0"
    "(of_char b :: nat) < of_char d \<or> \<not> (of_char d :: nat) < of_char b \<and> StringsCompare bs ds < 0"
    using "4.prems" unfolding c by (simp_all split: if_splits)
  then have "(of_char a :: nat) < of_char d \<or> \<not> (of_char d :: nat) < of_char a \<and> StringsCompare as ds < 0"
    using "4.IH" [of ds] by linarith
  then show ?case unfolding c by auto
qed auto

lemma weak_order_strings: "weak_order_on A (\<lambda>x y. StringsCompare (f x) (f y) < 0)"
  unfolding weak_order_on_def
proof (intro conjI ballI impI)
  show "\<not> StringsCompare (f y) (f x) < 0" if "StringsCompare (f x) (f y) < 0" for x y
    using that StringsCompare_antisym [of "f x" "f y"] by simp
next
  fix x y z
  assume a: "\<not> StringsCompare (f x) (f y) < 0" "\<not> StringsCompare (f y) (f z) < 0"
  have "StringsCompare (f y) (f x) < 0 \<or> f x = f y" "StringsCompare (f z) (f y) < 0 \<or> f y = f z"
    using a StringsCompare_antisym [of "f x" "f y"] StringsCompare_antisym [of "f y" "f z"]
      StringsCompare_eq [of "f x" "f y"] StringsCompare_eq [of "f y" "f z"] by linarith+
  then have "StringsCompare (f z) (f x) < 0 \<or> f x = f z"
    using StringsCompare_trans [of "f z" "f y" "f x"] by auto
  then show "\<not> StringsCompare (f x) (f z) < 0"
    using StringsCompare_antisym [of "f x" "f z"] by auto
qed

lemma unescape_escape [simp]: "unescape_quotes (escape_quotes s) = s"
proof (induction s)
  case (Cons c cs)
  then show ?case
  proof (cases "c = dquote")
    case False
    then have "unescape_quotes (c # t) = c # unescape_quotes t" for t by (cases t) auto
    with False Cons show ?thesis by simp
  qed simp
qed simp

lemma escape_append: "escape_quotes (s @ t) = escape_quotes s @ escape_quotes t"
  by (induction s) auto

lemma escape_id: "dquote \<notin> set s \<Longrightarrow> escape_quotes s = s"
  by (induction s) auto

text \<open>A decoded rune does not depend on what follows it, and only an ASCII rune has ASCII bytes.\<close>

lemma DecodeRune_width: "s \<noteq> [] \<Longrightarrow> 0 < snd (DecodeRune s) \<and> snd (DecodeRune s) \<le> length s"
  by (cases s) (auto simp: Let_def)

lemma DecodeRune_drop_pos: "\<lbrakk>idx < length s; (nxt, sz) = DecodeRune (drop idx s)\<rbrakk> \<Longrightarrow> 0 < sz"
  using DecodeRune_width [of "drop idx s"] by (metis drop_eq_Nil2 leD snd_conv)

lemma DecodeRune_drop_less:
  "\<lbrakk>idx < length s; (nxt, sz) = DecodeRune (drop idx s)\<rbrakk> \<Longrightarrow> length s - (idx + sz) < length s - idx"
  using DecodeRune_drop_pos by fastforce

lemma DecodeRune_prefix:
  assumes "fst (DecodeRune s) \<noteq> RuneError"
  shows "DecodeRune (take (snd (DecodeRune s)) s @ t) = DecodeRune s"
proof (cases s)
  case (Cons c cs)
  let ?n = "rune_len (of_char c)"
  have ok: "?n \<noteq> 0" "\<not> length cs < ?n - 1" "conts_ok (of_char c) (take (?n - 1) cs)"
    using assms Cons by (auto simp: Let_def split: if_splits)
  then have n: "snd (DecodeRune s) = ?n" using Cons by (simp add: Let_def)
  have "take ?n (c # cs) @ t = c # (take (?n - 1) cs @ t)" using ok(1) by (cases ?n) auto
  then show ?thesis using ok n Cons by (auto simp: Let_def min_def)
qed (use assms in simp)

lemma cont_byte_ge: "conts_ok b cs \<Longrightarrow> c \<in> set cs \<Longrightarrow> 128 \<le> (of_char c :: nat)"
  by (auto simp: conts_ok_def cont_byte_def list_all_iff split: list.splits if_splits)

lemma DecodeRune_ascii: "(of_char c :: nat) < 128 \<Longrightarrow> DecodeRune (c # s) = (of_char c, 1)"
  by (simp add: Let_def rune_len_def conts_ok_def rune_value_def)

lemma DecodeRune_bytes:
  assumes "fst (DecodeRune s) \<noteq> RuneError" "c \<in> set (take (snd (DecodeRune s)) s)" "(of_char c :: nat) < 128"
  shows "fst (DecodeRune s) = of_char c \<and> take (snd (DecodeRune s)) s = [c] \<and> snd (DecodeRune s) = 1"
proof (cases s)
  case (Cons d cs)
  let ?n = "rune_len (of_char d)"
  have ok: "?n \<noteq> 0" "conts_ok (of_char d) (take (?n - 1) cs)"
    using assms(1) Cons by (auto simp: Let_def split: if_splits)
  then have n: "snd (DecodeRune s) = ?n" using assms(1) Cons by (auto simp: Let_def split: if_splits)
  have "c \<in> set (d # take (?n - 1) cs)" using assms(2) ok(1) n Cons by (cases ?n) auto
  then have "c = d" using cont_byte_ge [OF ok(2)] assms(3) by fastforce
  then show ?thesis using assms(3) Cons DecodeRune_ascii [of d cs] by simp
qed (use assms in simp)

lemma foldl_shift_ge: "(a :: nat) \<le> foldl (\<lambda>a c. a * 64 + (of_char c - 128)) a cs"
proof (induction cs arbitrary: a)
  case (Cons c cs)
  have "a \<le> a * 64 + (of_char c - 128)" by simp
  also have "\<dots> \<le> foldl (\<lambda>a c. a * 64 + (of_char c - 128)) (a * 64 + (of_char c - 128)) cs" by (rule Cons.IH)
  finally show ?case by simp
qed simp

lemma rune_value_ge:
  assumes n: "1 < rune_len b0" "length cs = rune_len b0 - 1" and ok: "conts_ok b0 cs"
  shows "128 \<le> rune_value b0 cs"
proof -
  obtain c1 rest where cs: "cs = c1 # rest" using n by (cases cs) auto
  define f where "f = (\<lambda>a c. a * 64 + (of_char c - 128) :: nat)"
  consider "rune_len b0 = 2" "194 \<le> b0" "b0 < 224" | "rune_len b0 = 3" "224 \<le> b0" "b0 < 240"
    | "rune_len b0 = 4" "240 \<le> b0" "b0 \<le> 244"
    using n(1) by (auto simp: rune_len_def split: if_splits)
  then show ?thesis
  proof cases
    case 1
    then have "rune_value b0 cs = (b0 - 192) * 64 + (of_char c1 - 128)"
      using n cs by (simp add: rune_value_def)
    then show ?thesis using 1 by simp
  next
    case 2
    obtain c2 where r: "rest = [c2]" using n(2) 2(1) cs by (cases rest) auto
    have "32 \<le> (b0 - 224) * 64 + (of_char c1 - 128 :: nat)"
      using ok 2 cs by (cases "b0 = 224") (auto simp: conts_ok_def cont_byte_def)
    then show ?thesis using 2 cs r by (simp add: rune_value_def)
  next
    case 3
    have "16 \<le> (b0 - 240) * 64 + (of_char c1 - 128 :: nat)"
      using ok 3 cs by (cases "b0 = 240") (auto simp: conts_ok_def cont_byte_def)
    moreover obtain c2 c3 where r: "rest = [c2, c3]" using n(2) 3(1) cs by (cases rest; cases "tl rest") auto
    ultimately show ?thesis using 3 cs by (simp add: rune_value_def)
  qed
qed

lemma DecodeRune_small:
  assumes "fst (DecodeRune s) < 128"
  shows "\<exists>c t. s = c # t \<and> (of_char c :: nat) = fst (DecodeRune s) \<and> snd (DecodeRune s) = 1"
proof (cases s)
  case Nil
  then show ?thesis using assms by (simp add: RuneError_def)
next
  case (Cons c cs)
  let ?n = "rune_len (of_char c)"
  show ?thesis
  proof (cases "(of_char c :: nat) < 128")
    case True
    then show ?thesis using Cons DecodeRune_ascii [of c cs] by simp
  next
    case False
    then have "?n \<noteq> 1" by (simp add: rune_len_def)
    moreover have ok: "?n \<noteq> 0" "\<not> length cs < ?n - 1" "conts_ok (of_char c) (take (?n - 1) cs)"
      using assms Cons by (auto simp: Let_def RuneError_def split: if_splits)
    ultimately have "128 \<le> rune_value (of_char c) (take (?n - 1) cs)"
      by (intro rune_value_ge) auto
    then show ?thesis using assms ok Cons by (simp add: Let_def)
  qed
qed

section \<open>Facts about splitting\<close>

lemma Split_nonempty [simp]: "Split s c \<noteq> []"
  by (induction s c rule: Split.induct) (auto split: list.splits)

lemma Split_no_sep [simp]: "c \<notin> set s \<Longrightarrow> Split s c = [s]"
  by (induction s c rule: Split.induct) auto

lemma Split_append_sep: "c \<notin> set s \<Longrightarrow> Split (s @ c # t) c = s # Split t c"
  by (induction s) auto

section \<open>Facts about digits\<close>

lemma of_char_digit_char [simp]: "d < 10 \<Longrightarrow> (of_char (digit_char d) :: nat) = 48 + d"
  by (simp add: digit_char_def)

lemma digit_char_0 [simp]: "digit_char 0 = CHR ''0''"
  by (simp add: digit_char_def char_of_def bit_Suc_0_iff)

lemma is_digit_digit_char [simp]: "d < 10 \<Longrightarrow> is_digit (digit_char d)"
  by (simp add: is_digit_def)

lemma digit_value_digit_char [simp]: "d < 10 \<Longrightarrow> digit_value (digit_char d) = Some d"
  by (simp add: digit_value_def)

lemma is_digit_not_punct:
  assumes "is_digit c"
  shows "c \<noteq> CHR ''-''" "c \<noteq> CHR ''+''" "c \<noteq> CHR ''.''" "c \<noteq> CHR ''_''" "c \<noteq> CHR ''x''"
  using assms by (auto simp: is_digit_def)

lemma is_digit_zero [simp]: "is_digit CHR ''0''"
  by (simp add: is_digit_def)

lemma digit_value_is_digit: "is_digit c \<Longrightarrow> \<exists>d < 10. digit_value c = Some d"
  by (auto simp: digit_value_def is_digit_def)

lemma show_nat_nonempty [simp]: "show_nat n \<noteq> []"
  by (subst show_nat.simps) simp

lemma show_nat_digits: "c \<in> set (show_nat n) \<Longrightarrow> is_digit c"
proof (induction n rule: show_nat.induct)
  case (1 n)
  then show ?case by (subst (asm) (2) show_nat.simps) (auto split: if_splits)
qed

lemma show_nat_hd_zero: "hd (show_nat n) = CHR ''0'' \<longleftrightarrow> n = 0"
proof (induction n rule: show_nat.induct)
  case (1 n)
  show ?case
  proof (cases "n < 10")
    case True
    then have "show_nat n = [digit_char n]" by (subst show_nat.simps) simp
    moreover have "digit_char n = CHR ''0'' \<longleftrightarrow> n = 0"
    proof
      assume "digit_char n = CHR ''0''"
      then have "(of_char (digit_char n) :: nat) = of_char CHR ''0''" by simp
      with True show "n = 0" by simp
    qed simp
    ultimately show ?thesis by simp
  next
    case False
    then have "show_nat n = show_nat (n div 10) @ [digit_char (n mod 10)]"
      by (subst show_nat.simps) simp
    with False 1 show ?thesis by (simp add: hd_append)
  qed
qed

lemma parse_digits_append:
  "parse_digits base b (xs @ ys) n us =
     (case parse_digits base b xs n us of Inl e \<Rightarrow> Inl e | Inr (m, v) \<Rightarrow> parse_digits base b ys m v)"
  by (induction base b xs n us rule: parse_digits.induct) (auto split: option.splits)

lemma digit_char_not_underscore [simp]: "d < 10 \<Longrightarrow> digit_char d \<noteq> CHR ''_''"
  using is_digit_not_punct(4) is_digit_digit_char by blast

lemma parse_digits_show_nat:
  "n < 2 ^ 64 \<Longrightarrow> parse_digits 10 b (show_nat n) 0 us = Inr (n, us)"
proof (induction n rule: show_nat.induct)
  case (1 n)
  show ?case
  proof (cases "n < 10")
    case True
    then have "show_nat n = [digit_char n]" by (subst show_nat.simps) simp
    with True show ?thesis by simp
  next
    case False
    then have "show_nat n = show_nat (n div 10) @ [digit_char (n mod 10)]"
      by (subst show_nat.simps) simp
    moreover have "parse_digits 10 b (show_nat (n div 10)) 0 us = Inr (n div 10, us)"
      using 1 False by simp
    ultimately show ?thesis using 1(2) by (simp add: parse_digits_append)
  qed
qed

lemma parse_digits_zeros:
  "parse_digits 10 b (replicate k CHR ''0'' @ s) 0 us = parse_digits 10 b s 0 us"
proof -
  have "digit_value CHR ''0'' = Some 0"
    by (simp add: digit_value_def is_digit_def)
  then show ?thesis by (induction k) auto
qed

lemma ParseUint_show_nat:
  assumes "n < 2 ^ 64"
  shows "ParseUint (show_nat n) b = Inr n"
proof (cases "n = 0")
  case True
  have "show_nat 0 = ''0''" by (subst show_nat.simps) simp
  then show ?thesis using True
    by (simp add: ParseUint_def digit_value_def is_digit_def)
next
  case False
  obtain c cs where c: "show_nat n = c # cs" by (cases "show_nat n") auto
  then have "c \<noteq> CHR ''0''" using show_nat_hd_zero [of n] False by auto
  then have "(if b then base_prefix (show_nat n) else (10, show_nat n)) = (10, show_nat n)"
    using c by simp
  then show ?thesis
    using parse_digits_show_nat [OF assms] by (simp add: ParseUint_def del: base_prefix.simps)
qed

lemma ParseUint_pad:
  "n < 2 ^ 64 \<Longrightarrow> ParseUint (pad_zero w (show_nat n)) False = Inr n"
  by (simp add: ParseUint_def pad_zero_def parse_digits_zeros parse_digits_show_nat)

lemma pad_zero_digits: "c \<in> set (pad_zero w (show_nat n)) \<Longrightarrow> is_digit c"
  by (auto simp: pad_zero_def dest: show_nat_digits)

lemma pad_zero_show_nonempty [simp]: "pad_zero w (show_nat n) \<noteq> []"
  by (simp add: pad_zero_def)

lemma ParseInt_unsigned:
  assumes "\<And>c. c \<in> set s \<Longrightarrow> is_digit c" "s \<noteq> []" "ParseUint s b = Inr n" "n < 2 ^ 63"
  shows "ParseInt s b = Inr (int n)"
proof (cases s)
  case (Cons c cs)
  then have "is_digit c" using assms(1) by simp
  then have "c \<noteq> CHR ''-''" "c \<noteq> CHR ''+''" by (rule is_digit_not_punct)+
  then show ?thesis using assms Cons by (simp add: ParseInt_def)
qed (use assms in simp)

lemma ParseInt_show_int_nonneg:
  "\<lbrakk>0 \<le> z; z < 2 ^ 63\<rbrakk> \<Longrightarrow> ParseInt (show_int z) b = Inr z"
  using ParseInt_unsigned [of "show_nat (nat z)" b "nat z", OF show_nat_digits] ParseUint_show_nat [of "nat z" b]
  by (simp add: show_int_def nat_less_iff)

lemma ParseInt_pad_nonneg:
  "\<lbrakk>0 \<le> z; z < 2 ^ 63\<rbrakk> \<Longrightarrow> ParseInt (show_int_pad w z) False = Inr z"
  using ParseInt_unsigned [of "pad_zero w (show_nat (nat z))" False "nat z", OF pad_zero_digits] ParseUint_pad [of "nat z" w]
  by (simp add: show_int_pad_def nat_less_iff)

lemma ParseInt_pad_neg:
  "\<lbrakk>z < 0; - (2 ^ 63) \<le> z\<rbrakk> \<Longrightarrow> ParseInt (show_int_pad w z) False = Inr z"
  using ParseUint_pad [of "nat (- z)" "w - 1"]
  by (simp add: show_int_pad_def ParseInt_def nat_less_iff)

lemma ParseInt_in_int64: "ParseInt s b = Inr z \<Longrightarrow> in_int64 z"
  by (auto simp: ParseInt_def in_int64_def Let_def split: list.splits sum.splits if_splits)

lemma Atoi_show_int_pad:
  "in_int64 z \<Longrightarrow> Atoi (show_int_pad w z) = (z, None)"
  using ParseInt_pad_nonneg [of z w] ParseInt_pad_neg [of z w]
  by (cases "0 \<le> z") (auto simp: Atoi_def in_int64_def)

lemma Atoi_in_int64: "Atoi s = (n, e) \<Longrightarrow> in_int64 n"
  by (auto simp: Atoi_def in_int64_def ParseInt_in_int64 [unfolded in_int64_def]
      split: sum.splits num_error.splits list.splits if_splits dest!: ParseInt_in_int64 [unfolded in_int64_def])

lemma show_nat_length: "n < 10 ^ k \<Longrightarrow> 0 < k \<Longrightarrow> length (show_nat n) \<le> k"
proof (induction n arbitrary: k rule: show_nat.induct)
  case (1 n)
  show ?case
  proof (cases "n < 10")
    case True
    then show ?thesis using 1(3) by (subst show_nat.simps) simp
  next
    case False
    then have k: "1 < k" using 1(2,3) by (cases k; cases "k - 1") auto
    then have "n div 10 < 10 ^ (k - 1)"
      using 1(2) by (simp add: div_less_iff_less_mult flip: power_Suc2)
    then have "length (show_nat (n div 10)) \<le> k - 1" using 1(1) False k by simp
    then show ?thesis using False k by (subst show_nat.simps) simp
  qed
qed

lemma length_show_int_pad_10:
  assumes "- (10 ^ 9) < z" "z < 10 ^ 10"
  shows "length (show_int_pad 10 z) = 10"
proof (cases "z < 0")
  case True
  then have "length (show_nat (nat (- z))) \<le> 9"
    using show_nat_length [of "nat (- z)" 9] assms by (simp add: nat_less_iff)
  then show ?thesis using True by (simp add: show_int_pad_def pad_zero_def)
next
  case False
  then have "length (show_nat (nat z)) \<le> 10"
    using show_nat_length [of "nat z" 10] assms by (simp add: nat_less_iff)
  then show ?thesis using False by (simp add: show_int_pad_def pad_zero_def)
qed

lemma dot_notin_digits: "(\<And>c. c \<in> set s \<Longrightarrow> is_digit c) \<Longrightarrow> CHR ''.'' \<notin> set s"
  using is_digit_not_punct(3) by blast

lemma dot_notin_show [simp]: "CHR ''.'' \<notin> set (show_int z)"
  using dot_notin_digits [of "show_nat n" for n, OF show_nat_digits] by (simp add: show_int_def)

lemma dot_notin_show_pad [simp]: "CHR ''.'' \<notin> set (show_int_pad w z)"
  using dot_notin_digits [of "pad_zero v (show_nat n)" for v n, OF pad_zero_digits]
  by (simp add: show_int_pad_def)

section \<open>Substrings\<close>

text \<open>\<open>strings.Contains\<close>, \<open>strings.HasSuffix\<close> and \<open>strings.ReplaceAll\<close> for a pattern that is not empty.\<close>

fun Contains :: "string \<Rightarrow> string \<Rightarrow> bool" where
  "Contains [] sub \<longleftrightarrow> sub = []"
| "Contains (c # s) sub \<longleftrightarrow> take (length sub) (c # s) = sub \<or> Contains s sub"

definition HasSuffix :: "string \<Rightarrow> string \<Rightarrow> bool" where
  "HasSuffix s suf \<longleftrightarrow> length suf \<le> length s \<and> drop (length s - length suf) s = suf"

function ReplaceAll :: "string \<Rightarrow> string \<Rightarrow> string \<Rightarrow> string" where
  "ReplaceAll s old new =
     (if s = [] \<or> old = [] then s
      else if take (length old) s = old then new @ ReplaceAll (drop (length old) s) old new
      else hd s # ReplaceAll (tl s) old new)"
  by pat_completeness auto
termination by (relation "measure (\<lambda>(s, _, _). length s)") auto

declare ReplaceAll.simps [simp del]

lemma ReplaceAll_absent: "\<lbrakk>\<not> Contains s old; old \<noteq> []\<rbrakk> \<Longrightarrow> ReplaceAll s old new = s"
  by (induction s) (subst ReplaceAll.simps, simp)+

end
