(* ===== verification/Ident.thy ===== *)
theory Ident
  imports GoLib
begin

text \<open>
  SQL identifiers: \<open>src/internal/util/ident\<close> and the canonicalizing map of \<open>src/internal/util/cmap\<close>.
  The code interns atoms, arrays and qualified names, so that equal names are equal pointers; here
  a name is its content and nil pointers are constructors. The canonical form is the lower-cased
  name.

  The theory models names, comparison, quoting and parsing of dotted names and the
  case-insensitive, case-preserving maps. Printing and parsing are inverse, the comparison is a
  total order on canonical names, and the maps fulfil the contract \<open>canonical\_map\<close>.
\<close>

section \<open>Identifiers, schemas and tables\<close>

datatype Ident = NilIdent | Ident string

definition ident_New :: "string \<Rightarrow> Ident" where
  "ident_New raw = Ident raw"

fun Ident_Raw :: "Ident \<Rightarrow> string" where
  "Ident_Raw NilIdent = []"
| "Ident_Raw (Ident r) = r"

definition Ident_Empty :: "Ident \<Rightarrow> bool" where
  "Ident_Empty a \<longleftrightarrow> a = NilIdent \<or> Ident_Raw a = []"

fun Ident_String :: "Ident \<Rightarrow> string" where
  "Ident_String NilIdent = [dquote, dquote]"
| "Ident_String (Ident r) = dquote # escape_quotes r @ [dquote]"

fun Ident_Canonical :: "Ident \<Rightarrow> Ident" where
  "Ident_Canonical NilIdent = NilIdent"
| "Ident_Canonical (Ident r) = Ident (ToLower r)"

text \<open>The array behind a schema has room for two atoms.\<close>

definition maxArrayLength :: nat where
  "maxArrayLength = 2"

datatype Schema = NilSchema | Schema Ident Ident

datatype ident_error =
    EmptyString | StartsWithSeparator | MalformedUTF8 | NoTrailingQuote | ExpectingSeparator
  | TooManyParts nat | TooManySchemaParts nat nat | EmptyTableName

fun NewSchema :: "Ident list \<Rightarrow> (ident_error, Schema) result" where
  "NewSchema [] = Inr NilSchema"
| "NewSchema [a] = Inr (Schema a NilIdent)"
| "NewSchema [a, b] = Inr (Schema a b)"
| "NewSchema parts = Inl (TooManyParts (length parts))"

text \<open>Lowering an array stops at the first nil atom.\<close>

fun Schema_Canonical :: "Schema \<Rightarrow> Schema" where
  "Schema_Canonical NilSchema = NilSchema"
| "Schema_Canonical (Schema a b) =
     (if a = NilIdent then Schema NilIdent NilIdent
      else Schema (Ident_Canonical a) (Ident_Canonical b))"

fun Schema_Empty :: "Schema \<Rightarrow> bool" where
  "Schema_Empty NilSchema \<longleftrightarrow> True"
| "Schema_Empty (Schema a b) \<longleftrightarrow> Ident_Empty a \<and> Ident_Empty b"

fun Schema_Idents :: "Schema \<Rightarrow> Ident list" where
  "Schema_Idents NilSchema = []"
| "Schema_Idents (Schema a b) =
     (if Schema_Empty (Schema a b) then []
      else takeWhile (\<lambda>i. i \<noteq> NilIdent) [a, b])"

datatype Table = NilTable | Table Schema Ident

definition NewTable :: "Schema \<Rightarrow> Ident \<Rightarrow> Table" where
  "NewTable enclosing name =
     (if Schema_Empty enclosing \<and> Ident_Empty name then NilTable else Table enclosing name)"

fun Table_Empty :: "Table \<Rightarrow> bool" where
  "Table_Empty NilTable \<longleftrightarrow> True"
| "Table_Empty (Table ns t) \<longleftrightarrow> Schema_Empty ns \<and> Ident_Empty t"

fun Table_Canonical :: "Table \<Rightarrow> Table" where
  "Table_Canonical NilTable = NilTable"
| "Table_Canonical (Table ns t) = Table (Schema_Canonical ns) (Ident_Canonical t)"

fun Table_Schema :: "Table \<Rightarrow> Schema" where
  "Table_Schema NilTable = NilSchema"
| "Table_Schema (Table ns t) = ns"

fun Table_Table :: "Table \<Rightarrow> Ident" where
  "Table_Table NilTable = NilIdent"
| "Table_Table (Table ns t) = t"

fun Table_Idents :: "Table \<Rightarrow> Ident list" where
  "Table_Idents NilTable = []"
| "Table_Idents (Table ns t) = (if Table_Empty (Table ns t) then [] else Schema_Idents ns @ [t])"

text \<open>\<open>Join\<close> with the separator; the representation is the raw or the quoted text.\<close>

definition separator :: char where
  "separator = CHR ''.''"

fun Join :: "(Ident \<Rightarrow> string) \<Rightarrow> Ident list \<Rightarrow> string" where
  "Join rep [] = []"
| "Join rep [p] = rep p"
| "Join rep (p # q # ps) = rep p @ separator # Join rep (q # ps)"

definition Schema_Raw :: "Schema \<Rightarrow> string" where
  "Schema_Raw s = Join Ident_Raw (Schema_Idents s)"

definition Schema_String :: "Schema \<Rightarrow> string" where
  "Schema_String s = Join Ident_String (Schema_Idents s)"

definition Table_Raw :: "Table \<Rightarrow> string" where
  "Table_Raw t = Join Ident_Raw (Table_Idents t)"

definition Table_String :: "Table \<Rightarrow> string" where
  "Table_String t = Join Ident_String (Table_Idents t)"

lemma of_char_separator_less: "(of_char separator :: nat) < 128"
  by (simp add: separator_def)

section \<open>Comparison\<close>

text \<open>The interface \<open>Identifier\<close> by its implementations; \<open>empty\<close> is the nil atom.\<close>

datatype Identifier = IdAtom Ident | IdArray Schema | IdTable Table

fun Identifier_Empty :: "Identifier \<Rightarrow> bool" where
  "Identifier_Empty (IdAtom a) = Ident_Empty a"
| "Identifier_Empty (IdArray s) = Schema_Empty s"
| "Identifier_Empty (IdTable t) = Table_Empty t"

fun Split_Array :: "Schema \<Rightarrow> Ident \<times> Identifier" where
  "Split_Array NilSchema = (NilIdent, IdAtom NilIdent)"
| "Split_Array (Schema a b) =
     (if Schema_Empty (Schema a b) then (NilIdent, IdAtom NilIdent)
      else (a, IdArray (Schema b NilIdent)))"

fun Split_Table :: "Table \<Rightarrow> Ident \<times> Identifier" where
  "Split_Table NilTable = (NilIdent, IdAtom NilIdent)"
| "Split_Table (Table ns t) =
     (if Table_Empty (Table ns t) then (NilIdent, IdAtom NilIdent)
      else if Schema_Empty ns then (t, IdAtom NilIdent)
      else (case ns of
              NilSchema \<Rightarrow> (t, IdAtom NilIdent)
            | Schema a b \<Rightarrow>
                (a, IdArray (if b = NilIdent then Schema t NilIdent else Schema b t))))"

fun Identifier_Split :: "Identifier \<Rightarrow> Ident \<times> Identifier" where
  "Identifier_Split (IdAtom a) = (a, IdAtom NilIdent)"
| "Identifier_Split (IdArray s) = Split_Array s"
| "Identifier_Split (IdTable t) = Split_Table t"

text \<open>The number of splits until an identifier is empty, for termination.\<close>

fun id_parts :: "Identifier \<Rightarrow> nat" where
  "id_parts (IdAtom a) = (if Ident_Empty a then 0 else 1)"
| "id_parts (IdArray NilSchema) = 0"
| "id_parts (IdArray (Schema a b)) =
     (if Ident_Empty b then if Ident_Empty a then 0 else 1 else 2)"
| "id_parts (IdTable t) = (if Table_Empty t then 0 else 3)"

lemma Ident_Empty_Nil [simp]: "Ident_Empty NilIdent"
  by (simp add: Ident_Empty_def)

lemma id_parts_Split: "\<not> Identifier_Empty a \<Longrightarrow> id_parts (snd (Identifier_Split a)) < id_parts a"
proof (cases a)
  case (IdArray s)
  moreover assume "\<not> Identifier_Empty a"
  ultimately show ?thesis by (cases s) auto
next
  case (IdTable t)
  moreover assume "\<not> Identifier_Empty a"
  ultimately show ?thesis by (cases t) (auto split: Schema.splits)
qed auto

function ident_Compare :: "Identifier \<Rightarrow> Identifier \<Rightarrow> int" where
  "ident_Compare a b =
     (if \<not> Identifier_Empty a \<and> \<not> Identifier_Empty b then
        (let aPart = fst (Identifier_Split a); bPart = fst (Identifier_Split b);
             c = StringsCompare (Ident_Raw (Ident_Canonical aPart)) (Ident_Raw (Ident_Canonical bPart))
         in if c \<noteq> 0 then c else ident_Compare (snd (Identifier_Split a)) (snd (Identifier_Split b)))
      else if Identifier_Empty a then (if Identifier_Empty b then 0 else - 1)
      else 1)"
  by pat_completeness auto
termination
  by (relation "measure (\<lambda>(a, b). id_parts a)") (auto dest: id_parts_Split)

declare ident_Compare.simps [simp del]

definition ident_Equal :: "Identifier \<Rightarrow> Identifier \<Rightarrow> bool" where
  "ident_Equal a b \<longleftrightarrow> ident_Compare a b = 0"

text \<open>\<open>Schema.Contains\<close> compares the parts of the schema with a prefix of those of the table.\<close>

definition Schema_Contains :: "Schema \<Rightarrow> Table \<Rightarrow> bool" where
  "Schema_Contains s table =
     (let sParts = Schema_Idents s; tParts = Table_Idents table
      in if length sParts = 0 then False
         else if length sParts \<ge> length tParts then False
         else list_all2 (\<lambda>x y. ident_Equal (IdAtom x) (IdAtom y)) sParts (take (length sParts) tParts))"

datatype Qualification = TableOnly | PartialSchema | FullyQualified

definition Schema_Relative :: "Schema \<Rightarrow> Ident list \<Rightarrow> (ident_error, Schema \<times> Qualification) result" where
  "Schema_Relative s parts =
     (let existing = Schema_Idents s
      in if length parts > length existing then Inl (TooManySchemaParts (length existing) (length parts))
         else if length parts = length existing then
           (case NewSchema parts of Inl e \<Rightarrow> Inl e | Inr ret \<Rightarrow> Inr (ret, FullyQualified))
         else
           (case NewSchema (take (length existing - length parts) existing @ parts) of
              Inl e \<Rightarrow> Inl e | Inr ret \<Rightarrow> Inr (ret, PartialSchema)))"

section \<open>Parsing\<close>

text \<open>
  The scan for the closing quote. \<open>lastq\<close> is \<open>lastQuoteIdx\<close>, with \<open>None\<close> for -1; \<open>prev\<close> is the
  previous rune. The quote is the rune 34.
\<close>

function parse_quoted_loop :: "string \<Rightarrow> nat \<Rightarrow> nat option \<Rightarrow> nat \<Rightarrow> (ident_error, nat option) result" where
  "parse_quoted_loop s idx lastq prev =
     (if idx < length s then
        (case DecodeRune (drop idx s) of (nxt, sz) \<Rightarrow>
           if nxt = RuneError then Inl MalformedUTF8
           else if nxt = 34 then
             if prev = 34 then parse_quoted_loop s (idx + sz) None 0
             else parse_quoted_loop s (idx + sz) (Some idx) nxt
           else if prev = 34 then Inr lastq
           else parse_quoted_loop s (idx + sz) lastq nxt)
      else Inr lastq)"
  by pat_completeness auto
termination
  by (relation "measure (\<lambda>(s, idx, _, _). length s - idx)") (auto intro: DecodeRune_drop_less)

declare parse_quoted_loop.simps [simp del]

definition parseQuotedIdent :: "string \<Rightarrow> (ident_error, Ident \<times> string) result" where
  "parseQuotedIdent s =
     (case parse_quoted_loop s 1 None 0 of
        Inl e \<Rightarrow> Inl e
      | Inr None \<Rightarrow> Inl NoTrailingQuote
      | Inr (Some lastQuoteIdx) \<Rightarrow>
          Inr (ident_New (unescape_quotes (drop 1 (take lastQuoteIdx s))), drop (lastQuoteIdx + 1) s))"

function parse_unquoted_loop :: "string \<Rightarrow> nat \<Rightarrow> (ident_error, nat) result" where
  "parse_unquoted_loop s idx =
     (if idx < length s then
        (case DecodeRune (drop idx s) of (nxt, sz) \<Rightarrow>
           if nxt = of_char separator then Inr idx
           else if nxt = RuneError then Inl MalformedUTF8
           else parse_unquoted_loop s (idx + sz))
      else Inr idx)"
  by pat_completeness auto
termination
  by (relation "measure (\<lambda>(s, idx). length s - idx)") (auto intro: DecodeRune_drop_less)

declare parse_unquoted_loop.simps [simp del]

definition parseUnquotedIdent :: "string \<Rightarrow> (ident_error, Ident \<times> string) result" where
  "parseUnquotedIdent s =
     (case parse_unquoted_loop s 0 of
        Inl e \<Rightarrow> Inl e
      | Inr idx \<Rightarrow> Inr (ident_New (take idx s), drop idx s))"

definition ParseIdent :: "string \<Rightarrow> (ident_error, Ident \<times> string) result" where
  "ParseIdent s =
     (case s of
        [] \<Rightarrow> Inl EmptyString
      | c # _ \<Rightarrow>
          if c = separator then Inl StartsWithSeparator
          else if c = dquote then parseQuotedIdent s
          else parseUnquotedIdent s)"

lemma parse_unquoted_ge: "parse_unquoted_loop s idx = Inr n \<Longrightarrow> idx \<le> n"
proof (induction s idx rule: parse_unquoted_loop.induct)
  case (1 s idx)
  obtain nxt sz where d: "DecodeRune (drop idx s) = (nxt, sz)" by force
  show ?case
    using 1 d by (subst (asm) (2) parse_unquoted_loop.simps) (fastforce split: if_splits)
qed

lemma parse_unquoted_pos:
  assumes "s = c # t" "c \<noteq> separator" "parse_unquoted_loop s 0 = Inr n"
  shows "0 < n"
proof -
  obtain nxt sz where d: "DecodeRune s = (nxt, sz)" by force
  have "0 < sz" using DecodeRune_width [of s] assms(1) d by simp
  moreover have "nxt \<noteq> of_char separator"
    using DecodeRune_small [of s] d assms(1,2)
    by (metis (no_types, lifting) fst_conv list.inject of_char_eq_iff of_char_separator_less)
  ultimately show ?thesis
    using assms d parse_unquoted_ge [of s sz n]
    by (subst (asm) parse_unquoted_loop.simps) (auto split: if_splits)
qed

lemma ParseIdent_shorter: "ParseIdent s = Inr (i, rest) \<Longrightarrow> length rest < length s"
proof (cases s)
  case (Cons c t)
  assume "ParseIdent s = Inr (i, rest)"
  then show ?thesis
    using Cons parse_unquoted_pos [of s c t]
    by (auto simp: ParseIdent_def parseQuotedIdent_def parseUnquotedIdent_def
        split: if_splits sum.splits option.splits)
qed (simp add: ParseIdent_def)

text \<open>The loop of \<open>parseDottedIdent\<close>; one trailing separator is accepted.\<close>

function parseDottedIdent :: "string \<Rightarrow> (ident_error, Ident list) result" where
  "parseDottedIdent s =
     (if s = [] then Inr []
      else case ParseIdent s of
        Inl e \<Rightarrow> Inl e
      | Inr (part, remaining) \<Rightarrow>
          (case remaining of
             [] \<Rightarrow> Inr [part]
           | c # s' \<Rightarrow>
               if c \<noteq> separator then Inl ExpectingSeparator
               else (case parseDottedIdent s' of Inl e \<Rightarrow> Inl e | Inr parts \<Rightarrow> Inr (part # parts))))"
  by pat_completeness auto
termination
  by (relation "measure length") (auto dest!: ParseIdent_shorter)

declare parseDottedIdent.simps [simp del]

definition ParseSchema :: "string \<Rightarrow> (ident_error, Schema) result" where
  "ParseSchema s = (case parseDottedIdent s of Inl e \<Rightarrow> Inl e | Inr parts \<Rightarrow> NewSchema parts)"

definition ParseTable :: "string \<Rightarrow> (ident_error, Table) result" where
  "ParseTable s =
     (case parseDottedIdent s of
        Inl e \<Rightarrow> Inl e
      | Inr parts \<Rightarrow>
          if parts = [] then Inr NilTable
          else (case NewSchema (butlast parts) of
                  Inl e \<Rightarrow> Inl e
                | Inr sch \<Rightarrow> Inr (Table sch (last parts))))"

definition ParseTableRelative :: "string \<Rightarrow> Schema \<Rightarrow> (ident_error, Table \<times> Qualification) result" where
  "ParseTableRelative s relativeTo =
     (case parseDottedIdent s of
        Inl e \<Rightarrow> Inl e
      | Inr parts \<Rightarrow>
          (case parts of
             [] \<Rightarrow> Inl EmptyTableName
           | [p] \<Rightarrow> Inr (NewTable relativeTo p, TableOnly)
           | _ \<Rightarrow>
               (case Schema_Relative relativeTo (butlast parts) of
                  Inl e \<Rightarrow> Inl e
                | Inr (sch, qual) \<Rightarrow> Inr (NewTable sch (last parts), qual))))"

section \<open>Case-insensitive maps\<close>

text \<open>
  \<open>cmap.impl\<close> stores an entry, the original key with the value, under the canonical key. Here the
  entries are a list; the order of a Go map is unspecified and that of the list is one of the
  possible orders. \<open>canon\<close> is the mapper.
\<close>

type_synonym ('i, 'v) imap = "('i \<times> 'v) list"

fun imap_Match :: "('i \<Rightarrow> 'i) \<Rightarrow> ('i, 'v) imap \<Rightarrow> 'i \<Rightarrow> ('i \<times> 'v) option" where
  "imap_Match canon [] key = None"
| "imap_Match canon ((k, v) # m) key =
     (if canon k = canon key then Some (k, v) else imap_Match canon m key)"

definition imap_Get :: "('i \<Rightarrow> 'i) \<Rightarrow> ('i, 'v) imap \<Rightarrow> 'i \<Rightarrow> 'v option" where
  "imap_Get canon m key = map_option snd (imap_Match canon m key)"

text \<open>\<open>GetZero\<close>, with the zero value of the value type.\<close>

definition imap_GetZero :: "'v \<Rightarrow> ('i \<Rightarrow> 'i) \<Rightarrow> ('i, 'v) imap \<Rightarrow> 'i \<Rightarrow> 'v" where
  "imap_GetZero z canon m key = (case imap_Get canon m key of None \<Rightarrow> z | Some v \<Rightarrow> v)"

fun imap_Put :: "('i \<Rightarrow> 'i) \<Rightarrow> 'i \<Rightarrow> 'v \<Rightarrow> ('i, 'v) imap \<Rightarrow> ('i, 'v) imap" where
  "imap_Put canon key value [] = [(key, value)]"
| "imap_Put canon key value ((k, v) # m) =
     (if canon k = canon key then (key, value) # m else (k, v) # imap_Put canon key value m)"

definition imap_Delete :: "('i \<Rightarrow> 'i) \<Rightarrow> 'i \<Rightarrow> ('i, 'v) imap \<Rightarrow> ('i, 'v) imap" where
  "imap_Delete canon key m = filter (\<lambda>e. canon (fst e) \<noteq> canon key) m"

definition imap_Len :: "('i, 'v) imap \<Rightarrow> nat" where
  "imap_Len m = length m"

text \<open>\<open>Range\<close> stops at the first error of the callback, which threads a state of the caller.\<close>

fun imap_Range :: "('i \<Rightarrow> 'v \<Rightarrow> 's \<Rightarrow> ('e, 's) result) \<Rightarrow> ('i, 'v) imap \<Rightarrow> 's \<Rightarrow> ('e, 's) result" where
  "imap_Range fn [] st = Inr st"
| "imap_Range fn ((k, v) # m) st =
     (case fn k v st of Inl e \<Rightarrow> Inl e | Inr st' \<Rightarrow> imap_Range fn m st')"

fun imap_CopyInto :: "('i \<Rightarrow> 'i) \<Rightarrow> ('i, 'v) imap \<Rightarrow> ('i, 'v) imap \<Rightarrow> ('i, 'v) imap" where
  "imap_CopyInto canon [] dest = dest"
| "imap_CopyInto canon ((k, v) # m) dest = imap_CopyInto canon m (imap_Put canon k v dest)"

text \<open>\<open>cmap.Equal\<close>: the same length, and every entry of the first has a match in the second.\<close>

definition cmap_Equal :: "('i \<Rightarrow> 'i) \<Rightarrow> ('v \<Rightarrow> 'v \<Rightarrow> bool) \<Rightarrow> ('i, 'v) imap \<Rightarrow> ('i, 'v) imap \<Rightarrow> bool" where
  "cmap_Equal canon cmp a b \<longleftrightarrow>
     imap_Len a = imap_Len b
     \<and> list_all (\<lambda>(k, v). case imap_Get canon b k of None \<Rightarrow> False | Some v' \<Rightarrow> cmp v v') a"

definition imap_invar :: "('i \<Rightarrow> 'i) \<Rightarrow> ('i, 'v) imap \<Rightarrow> bool" where
  "imap_invar canon m \<longleftrightarrow> distinct (map (canon \<circ> fst) m)"

section \<open>The contract of a canonicalizing map\<close>

locale canonical_map =
  fixes canon :: "'i \<Rightarrow> 'i"
    and invar :: "'m \<Rightarrow> bool"
    and empty_map :: 'm
    and get :: "'m \<Rightarrow> 'i \<Rightarrow> 'v option"
    and put :: "'i \<Rightarrow> 'v \<Rightarrow> 'm \<Rightarrow> 'm"
    and delete :: "'i \<Rightarrow> 'm \<Rightarrow> 'm"
  assumes invar_laws: "invar empty_map" "invar m \<Longrightarrow> invar (put k v m)" "invar m \<Longrightarrow> invar (delete k m)"
    and get_empty: "get empty_map k = None"
    and get_put: "invar m \<Longrightarrow> get (put k v m) k' = (if canon k = canon k' then Some v else get m k')"
    and get_delete: "invar m \<Longrightarrow> get (delete k m) k' = (if canon k = canon k' then None else get m k')"
begin

text \<open>A map built by a sequence of puts answers with the last value put under an equivalent key.\<close>

lemma get_puts:
  "invar m \<Longrightarrow> get (fold (\<lambda>(k, v). put k v) kvs m) k
     = (case filter (\<lambda>e. canon (fst e) = canon k) kvs of [] \<Rightarrow> get m k | e # es \<Rightarrow> Some (snd (last (e # es))))"
proof (induction kvs arbitrary: m)
  case (Cons e kvs)
  obtain j v where e: "e = (j, v)" by force
  have "invar (put j v m)" using Cons.prems by (rule invar_laws)
  then show ?case
    using Cons.IH [of "put j v m"] Cons.prems
    by (auto simp: e get_put split: list.splits)
qed simp

lemma invar_puts: "invar m \<Longrightarrow> invar (fold (\<lambda>(k, v). put k v) kvs m)"
  by (induction kvs arbitrary: m) (auto simp: invar_laws split: prod.splits)

end

lemma imap_Get_simps [simp]:
  "imap_Get canon [] k = None"
  "imap_Get canon ((j, v) # m) k = (if canon j = canon k then Some v else imap_Get canon m k)"
  by (simp_all add: imap_Get_def)

lemma imap_keys_Put:
  "set (map (canon \<circ> fst) (imap_Put canon k v m)) = insert (canon k) (set (map (canon \<circ> fst) m))"
  by (induction canon k v m rule: imap_Put.induct) auto

lemma imap_invar_Put: "imap_invar canon m \<Longrightarrow> imap_invar canon (imap_Put canon k v m)"
proof (induction canon k v m rule: imap_Put.induct)
  case (2 canon key "value" k v m)
  have "canon k \<notin> set (map (canon \<circ> fst) (imap_Put canon key value m))" if "canon k \<noteq> canon key"
    unfolding imap_keys_Put using 2(2) that by (auto simp: imap_invar_def)
  then show ?case using 2 by (force simp: imap_invar_def)
qed (simp add: imap_invar_def)

lemma imap_invar_Delete: "imap_invar canon m \<Longrightarrow> imap_invar canon (imap_Delete canon k m)"
  unfolding imap_invar_def imap_Delete_def by (rule distinct_map_filter)

lemma imap_Get_Put: "imap_Get canon (imap_Put canon k v m) k' = (if canon k = canon k' then Some v else imap_Get canon m k')"
  by (induction canon k v m rule: imap_Put.induct) auto

lemma imap_Get_Delete: "imap_Get canon (imap_Delete canon k m) k' = (if canon k = canon k' then None else imap_Get canon m k')"
  unfolding imap_Delete_def by (induction m) auto

interpretation ident_map: canonical_map canon "imap_invar canon" "[] :: ('i, 'v) imap" "imap_Get canon" "imap_Put canon"
  "imap_Delete canon" for canon :: "'i \<Rightarrow> 'i"
  by unfold_locales
     (simp_all add: imap_invar_Put imap_invar_Delete imap_Get_Put imap_Get_Delete, simp add: imap_invar_def)

lemma imap_Match_Put: "imap_Match canon (imap_Put canon k v m) k = Some (k, v)"
  by (induction canon k v m rule: imap_Put.induct) auto

lemma imap_Get_mem: "\<lbrakk>imap_invar canon m; (k, v) \<in> set m\<rbrakk> \<Longrightarrow> imap_Get canon m k = Some v"
  by (induction m) (force simp: imap_invar_def)+

lemma imap_Get_SomeD: "imap_Get canon m k = Some v \<Longrightarrow> \<exists>j. (j, v) \<in> set m \<and> canon j = canon k"
  by (induction m) (auto split: if_splits)

section \<open>Comparison is an order on canonical names\<close>

lemma Ident_Canonical_Nil [simp]:
  "Ident_Canonical a = NilIdent \<longleftrightarrow> a = NilIdent" "NilIdent = Ident_Canonical a \<longleftrightarrow> a = NilIdent"
  by (cases a; simp)+

text \<open>The canonical raw parts of an identifier, in the order in which \<open>Compare\<close> visits them.\<close>

function canon_parts :: "Identifier \<Rightarrow> string list" where
  "canon_parts a =
     (if Identifier_Empty a then []
      else Ident_Raw (Ident_Canonical (fst (Identifier_Split a))) # canon_parts (snd (Identifier_Split a)))"
  by pat_completeness auto
termination by (relation "measure id_parts") (auto dest: id_parts_Split)

declare canon_parts.simps [simp del]

fun parts_compare :: "string list \<Rightarrow> string list \<Rightarrow> int" where
  "parts_compare [] [] = 0"
| "parts_compare [] (_ # _) = - 1"
| "parts_compare (_ # _) [] = 1"
| "parts_compare (x # xs) (y # ys) =
     (if StringsCompare x y \<noteq> 0 then StringsCompare x y else parts_compare xs ys)"

lemma canon_parts_empty: "Identifier_Empty a \<Longrightarrow> canon_parts a = []"
  by (subst canon_parts.simps) simp

lemma canon_parts_step:
  "\<not> Identifier_Empty a \<Longrightarrow>
   canon_parts a = Ident_Raw (Ident_Canonical (fst (Identifier_Split a))) # canon_parts (snd (Identifier_Split a))"
  by (subst canon_parts.simps) simp

lemma ident_Compare_parts: "ident_Compare a b = parts_compare (canon_parts a) (canon_parts b)"
proof (induction a b rule: ident_Compare.induct)
  case (1 a b)
  show ?case
  proof (cases "Identifier_Empty a \<or> Identifier_Empty b")
    case True
    then show ?thesis
      by (subst ident_Compare.simps) (auto simp: canon_parts_empty canon_parts_step)
  next
    case False
    then show ?thesis
      using 1 by (subst ident_Compare.simps) (auto simp: canon_parts_step Let_def)
  qed
qed

lemma parts_compare_eq: "parts_compare xs ys = 0 \<longleftrightarrow> xs = ys"
  by (induction xs ys rule: parts_compare.induct) auto

lemma parts_compare_antisym: "parts_compare ys xs = - parts_compare xs ys"
proof (induction xs ys rule: parts_compare.induct)
  case (4 x xs y ys)
  then show ?case using StringsCompare_antisym [of y x] by auto
qed auto

lemma parts_compare_trans:
  "\<lbrakk>parts_compare xs ys < 0; parts_compare ys zs < 0\<rbrakk> \<Longrightarrow> parts_compare xs zs < 0"
proof (induction xs ys arbitrary: zs rule: parts_compare.induct)
  case (2 v va)
  then show ?case by (cases zs) auto
next
  case (4 x xs y ys)
  obtain z zs' where zs: "zs = z # zs'" using "4.prems"(2) by (cases zs) auto
  show ?case
  proof (cases "x = y")
    case True
    then show ?thesis using 4 by (auto simp: zs split: if_splits)
  next
    case False
    then have xy: "StringsCompare x y < 0" using "4.prems"(1) by auto
    have "StringsCompare y z < 0 \<or> y = z" using "4.prems"(2) by (auto simp: zs split: if_splits)
    then have "StringsCompare x z < 0" using StringsCompare_trans [OF xy] xy by auto
    then show ?thesis by (auto simp: zs)
  qed
qed auto

text \<open>Names as programs build them: no nil and no empty part.\<close>

fun wf_schema :: "Schema \<Rightarrow> bool" where
  "wf_schema NilSchema \<longleftrightarrow> True"
| "wf_schema (Schema a b) \<longleftrightarrow> \<not> Ident_Empty a \<and> (b = NilIdent \<or> \<not> Ident_Empty b)"

fun wf_table :: "Table \<Rightarrow> bool" where
  "wf_table NilTable \<longleftrightarrow> False"
| "wf_table (Table ns t) \<longleftrightarrow> wf_schema ns \<and> \<not> Ident_Empty t"

lemma Ident_Empty_Ident [simp]: "Ident_Empty (Ident r) \<longleftrightarrow> r = []"
  by (simp add: Ident_Empty_def)

lemma canon_parts_atom: "canon_parts (IdAtom a) = (if Ident_Empty a then [] else [Ident_Raw (Ident_Canonical a)])"
  by (simp add: canon_parts_empty canon_parts_step)

lemma canon_parts_array:
  "canon_parts (IdArray (Schema a b)) =
     (if Ident_Empty a \<and> Ident_Empty b then []
      else Ident_Raw (Ident_Canonical a) # (if Ident_Empty b then [] else [Ident_Raw (Ident_Canonical b)]))"
  by (simp add: canon_parts_empty canon_parts_step)

lemma canon_parts_table:
  "wf_table (Table ns t) \<Longrightarrow> canon_parts (IdTable (Table ns t)) =
     map (Ident_Raw \<circ> Ident_Canonical) (Schema_Idents ns) @ [Ident_Raw (Ident_Canonical t)]"
  by (cases ns) (auto simp: canon_parts_step canon_parts_array canon_parts_empty Ident_Empty_def)

lemma Canonical_eq_iff:
  "\<lbrakk>\<not> Ident_Empty a; \<not> Ident_Empty b\<rbrakk> \<Longrightarrow>
   Ident_Canonical a = Ident_Canonical b \<longleftrightarrow> Ident_Raw (Ident_Canonical a) = Ident_Raw (Ident_Canonical b)"
  by (cases a; cases b) auto

lemma table_parts_eq_iff:
  assumes "wf_table t" "wf_table u"
  shows "canon_parts (IdTable t) = canon_parts (IdTable u) \<longleftrightarrow> Table_Canonical t = Table_Canonical u"
proof -
  obtain ns x ms y where t: "t = Table ns x" and u: "u = Table ms y"
    using assms by (cases t; cases u) auto
  show ?thesis
    using assms unfolding t u
    by (cases ns; cases ms) (auto simp: canon_parts_table Canonical_eq_iff Ident_Empty_def)
qed

section \<open>Quoting and parsing are inverse\<close>

text \<open>Strings that decode without the replacement rune.\<close>

function utf8_ok :: "string \<Rightarrow> bool" where
  "utf8_ok s =
     (if s = [] then True else if fst (DecodeRune s) = RuneError then False
      else utf8_ok (drop (snd (DecodeRune s)) s))"
  by pat_completeness auto
termination
  by (relation "measure length") (use DecodeRune_width in \<open>auto simp: diff_less\<close>)

declare utf8_ok.simps [simp del]

lemma of_char_dquote [simp]: "(of_char dquote :: nat) = 34"
  by (simp add: dquote_def)

lemma dquote_not_separator [simp]: "dquote \<noteq> separator" "separator \<noteq> dquote"
  by (simp_all add: dquote_def separator_def)

lemma of_char_34: "(of_char c :: nat) = 34 \<longleftrightarrow> c = dquote"
  by (metis of_char_dquote of_char_eq_iff)

lemma RuneError_not_34 [simp]: "34 \<noteq> RuneError" "RuneError \<noteq> 34"
  by (simp_all add: RuneError_def)

lemma utf8_ok_empty [simp]: "utf8_ok []"
  by (subst utf8_ok.simps) simp

lemma utf8_ok_ascii [simp]: "(of_char c :: nat) < 128 \<Longrightarrow> utf8_ok (c # s) = utf8_ok s"
  by (subst utf8_ok.simps) (simp add: DecodeRune_ascii RuneError_def del: DecodeRune.simps)

lemma loop_quote:
  assumes "idx < length s" "drop idx s = dquote # t"
  shows "parse_quoted_loop s idx l prev =
    (if prev = 34 then parse_quoted_loop s (idx + 1) None 0 else parse_quoted_loop s (idx + 1) (Some idx) 34)"
proof -
  have d: "DecodeRune (drop idx s) = (34, 1)" unfolding assms(2) by (subst DecodeRune_ascii) simp_all
  show ?thesis using assms(1) by (subst parse_quoted_loop.simps) (simp add: d)
qed

lemma loop_close:
  assumes "s = pre @ dquote # rest" "rest = [] \<or> hd rest = separator" "prev \<noteq> 34"
  shows "parse_quoted_loop s (length pre) l prev = Inr (Some (length pre))"
proof -
  have "parse_quoted_loop s (length pre) l prev = parse_quoted_loop s (length pre + 1) (Some (length pre)) 34"
    using assms by (subst loop_quote [where t = rest]) auto
  also have "\<dots> = Inr (Some (length pre))"
  proof (cases rest)
    case Nil
    then show ?thesis using assms(1) by (subst parse_quoted_loop.simps) simp
  next
    case (Cons c t)
    then have d: "DecodeRune (c # t) = (46, 1)"
      using assms(2) DecodeRune_ascii [of c t] by (simp add: separator_def)
    show ?thesis using assms(1) Cons
      by (subst parse_quoted_loop.simps) (simp add: d RuneError_def del: DecodeRune.simps)
  qed
  finally show ?thesis .
qed

lemma take_drop_rune:
  assumes "raw \<noteq> []" "fst (DecodeRune raw) \<noteq> RuneError" "fst (DecodeRune raw) \<noteq> 34"
  shows "escape_quotes raw = take (snd (DecodeRune raw)) raw @ escape_quotes (drop (snd (DecodeRune raw)) raw)"
proof -
  let ?n = "snd (DecodeRune raw)"
  have "dquote \<notin> set (take ?n raw)"
    using DecodeRune_bytes [OF assms(2), of dquote] assms(3) by auto
  then have "escape_quotes (take ?n raw @ drop ?n raw) = take ?n raw @ escape_quotes (drop ?n raw)"
    unfolding escape_append by (simp add: escape_id)
  then show ?thesis by simp
qed

lemma parse_quoted_loop_escaped:
  assumes "utf8_ok raw" "s = pre @ escape_quotes raw @ dquote # rest" "rest = [] \<or> hd rest = separator" "prev \<noteq> 34"
  shows "parse_quoted_loop s (length pre) l prev = Inr (Some (length pre + length (escape_quotes raw)))"
  using assms
proof (induction raw arbitrary: pre l prev rule: utf8_ok.induct)
  case (1 raw)
  show ?case
  proof (cases "raw = []")
    case True
    then show ?thesis using loop_close [of s pre rest prev l] 1(3-5) by simp
  next
    case False
    let ?n = "snd (DecodeRune raw)" and ?r = "fst (DecodeRune raw)"
    have ok: "?r \<noteq> RuneError" "utf8_ok (drop ?n raw)"
      using 1(2) utf8_ok.simps [of raw] False by (simp_all split: if_splits)
    note n = DecodeRune_width [OF False]
    show ?thesis
    proof (cases "?r = 34")
      case True
      then obtain t where t: "raw = dquote # t" "?n = 1"
        using DecodeRune_small [of raw] by (auto simp: of_char_34)
      have s: "s = pre @ dquote # dquote # escape_quotes t @ dquote # rest" using 1(3) t by simp
      have dt: "drop ?n raw = t" using t by simp
      have "parse_quoted_loop s (length pre) l prev = parse_quoted_loop s (length (pre @ [dquote])) (Some (length pre)) 34"
        using 1(5) s by (subst loop_quote [where t = "dquote # escape_quotes t @ dquote # rest"]) auto
      also have "\<dots> = parse_quoted_loop s (length (pre @ [dquote, dquote])) None 0"
        using s by (subst loop_quote [where t = "escape_quotes t @ dquote # rest"]) auto
      also have "\<dots> = Inr (Some (length (pre @ [dquote, dquote]) + length (escape_quotes t)))"
        by (rule 1(1) [OF False ok(1), unfolded dt]) (use ok(2) dt s 1(4) in auto)
      finally show ?thesis using t by simp
    next
      case False2: False
      note e = take_drop_rune [OF False ok(1) False2]
      have s: "s = (pre @ take ?n raw) @ escape_quotes (drop ?n raw) @ dquote # rest" using 1(3) e by simp
      have "drop (length pre) s = take ?n raw @ escape_quotes (drop ?n raw) @ dquote # rest" using s by simp
      then have d: "DecodeRune (drop (length pre) s) = (?r, ?n)"
        using DecodeRune_prefix [OF ok(1)] by simp
      have "parse_quoted_loop s (length pre) l prev = parse_quoted_loop s (length (pre @ take ?n raw)) l ?r"
        using s n ok(1) False2 1(5) d by (subst parse_quoted_loop.simps) (simp add: split_beta)
      also have "\<dots> = Inr (Some (length (pre @ take ?n raw) + length (escape_quotes (drop ?n raw))))"
        by (rule 1(1) [OF False]) (use ok s 1(4) False2 in auto)
      finally show ?thesis using arg_cong [OF e, of length] by simp
    qed
  qed
qed

lemma ParseIdent_String:
  assumes "utf8_ok raw" "rest = [] \<or> hd rest = separator"
  shows "ParseIdent (Ident_String (Ident raw) @ rest) = Inr (Ident raw, rest)"
proof -
  let ?s = "dquote # escape_quotes raw @ dquote # rest"
  have "parse_quoted_loop ?s (length [dquote]) None 0 = Inr (Some (length [dquote] + length (escape_quotes raw)))"
    by (rule parse_quoted_loop_escaped [OF assms(1) _ assms(2)]) auto
  then show ?thesis by (simp add: ParseIdent_def parseQuotedIdent_def ident_New_def)
qed

definition nice_ident :: "Ident \<Rightarrow> bool" where
  "nice_ident i \<longleftrightarrow> i \<noteq> NilIdent \<and> utf8_ok (Ident_Raw i)"

lemma parseDottedIdent_Join:
  "\<forall>i \<in> set parts. nice_ident i \<Longrightarrow> parseDottedIdent (Join Ident_String parts) = Inr parts"
proof (induction Ident_String parts rule: Join.induct)
  case 1
  then show ?case by (subst parseDottedIdent.simps) simp
next
  case (2 p)
  then obtain r where p: "p = Ident r" "utf8_ok r" by (cases p) (auto simp: nice_ident_def)
  then show ?case
    using ParseIdent_String [of r "[]"] by (subst parseDottedIdent.simps) simp
next
  case (3 p q ps)
  then obtain r where p: "p = Ident r" "utf8_ok r" by (cases p) (auto simp: nice_ident_def)
  then show ?case
    using 3 ParseIdent_String [of r "separator # Join Ident_String (q # ps)"]
    by (subst parseDottedIdent.simps) simp
qed

fun nice_table :: "Table \<Rightarrow> bool" where
  "nice_table t \<longleftrightarrow> wf_table t \<and> (\<forall>i \<in> set (Table_Idents t). nice_ident i)"

lemma NewSchema_Idents: "wf_schema ns \<Longrightarrow> NewSchema (Schema_Idents ns) = Inr ns"
  by (cases ns) auto

section \<open>Properties\<close>

text \<open>
  C39: a table name printed in its quoted form is read back as the same table, whatever its parts
  contain: quotes, separators or multi-byte runes. The parts are well-formed UTF-8 and not empty.
\<close>

theorem ParseTable_String_roundtrip:
  assumes "nice_table t"
  shows "ParseTable (Table_String t) = Inr t"
proof -
  obtain ns x where t: "t = Table ns x" "wf_schema ns" "\<not> Ident_Empty x" using assms by (cases t) auto
  have ids: "Table_Idents t = Schema_Idents ns @ [x]" using t by simp
  have "parseDottedIdent (Table_String t) = Inr (Table_Idents t)"
    unfolding Table_String_def using assms by (intro parseDottedIdent_Join) simp
  then show ?thesis using t NewSchema_Idents [OF t(2)] by (simp add: ParseTable_def ids)
qed

text \<open>Witness for C39: a dot and a quote inside a name.\<close>

theorem ParseTable_String_roundtrip_witness:
  "ParseTable (Table_String (Table (Schema (Ident ''my.db'') (Ident ''public'')) (Ident [CHR ''a'', dquote, CHR ''b''])))
   = Inr (Table (Schema (Ident ''my.db'') (Ident ''public'')) (Ident [CHR ''a'', dquote, CHR ''b'']))"
  by (rule ParseTable_String_roundtrip) (simp add: nice_ident_def)

text \<open>
  Two well-formed tables are \<open>Equal\<close> exactly when they have the same canonical form, the key under
  which the case-insensitive maps store them, and \<open>Compare\<close> is an order: antisymmetric in sign and
  transitive.
\<close>

theorem ident_Compare_order:
  assumes "wf_table t" "wf_table u" "wf_table v"
  shows "(ident_Equal (IdTable t) (IdTable u) \<longleftrightarrow> Table_Canonical t = Table_Canonical u)
    \<and> ident_Compare (IdTable u) (IdTable t) = - ident_Compare (IdTable t) (IdTable u)
    \<and> (ident_Compare (IdTable t) (IdTable u) < 0 \<longrightarrow> ident_Compare (IdTable u) (IdTable v) < 0
         \<longrightarrow> ident_Compare (IdTable t) (IdTable v) < 0)"
  using table_parts_eq_iff [OF assms(1,2)] parts_compare_trans parts_compare_antisym
  unfolding ident_Equal_def ident_Compare_parts parts_compare_eq by blast

text \<open>A concrete instance.\<close>

theorem ident_Compare_order_witness:
  "ident_Equal (IdTable (Table (Schema (Ident ''DB'') NilIdent) (Ident ''Orders''))) (IdTable (Table (Schema (Ident ''db'') NilIdent) (Ident ''ORDERS'')))
   \<and> ident_Compare (IdTable (Table (Schema (Ident ''DB'') NilIdent) (Ident ''Orders''))) (IdTable (Table NilSchema (Ident ''z''))) < 0"
  using ident_Compare_order [of "Table (Schema (Ident ''DB'') NilIdent) (Ident ''Orders'')"
      "Table (Schema (Ident ''db'') NilIdent) (Ident ''ORDERS'')" "Table NilSchema (Ident ''z'')"]
  by code_simp

text \<open>
  The case-insensitive map. After any sequence of puts, looking up a key gives the value of the last
  put under a key that is equal up to case, and \<open>Match\<close> gives the spelling of the last put.
\<close>

theorem ident_map_last_put_wins:
  "imap_Get canon (fold (\<lambda>(k, v). imap_Put canon k v) kvs []) k
     = (case filter (\<lambda>e. canon (fst e) = canon k) kvs of [] \<Rightarrow> None | e # es \<Rightarrow> Some (snd (last (e # es))))
   \<and> imap_Match canon (imap_Put canon k v m) k = Some (k, v)"
  using ident_map.get_puts [of canon "[]" kvs k] imap_Match_Put [of canon k v m]
  by (simp add: imap_invar_def split: list.splits)

text \<open>
  The text form of a table is its raw form, which is not quoted: two different tables have the same
  text, so a table whose name contains a dot is not read back from it.
\<close>

theorem Table_text_not_injective:
  "Table_Raw (Table (Schema (Ident ''a'') NilIdent) (Ident ''b.c''))
   = Table_Raw (Table (Schema (Ident ''a'') (Ident ''b'')) (Ident ''c''))"
  by (simp add: Table_Raw_def separator_def)

end
