(* ===== verification/Retry.thy ===== *)
theory Retry
  imports Prelude
begin

text \<open>
  The database retry loop of \<open>src/internal/util/retry/retry.go\<close>. The callback threads a state of the
  caller and the side-effect marker; whether an error is retryable is a function of the pool.
\<close>

section \<open>The loop\<close>

datatype 'e loop_error = Aborted 'e | MaxAttemptsExceeded nat 'e

definition maxAttempts :: nat where
  "maxAttempts = 10"

text \<open>A callback: the state and the marker before, the error, the state and the marker after.\<close>

type_synonym ('e, 's) loop_fn = "'s \<Rightarrow> bool \<Rightarrow> 'e option \<times> 's \<times> bool"

function loop_from :: "('e \<Rightarrow> bool) \<Rightarrow> ('e, 's) loop_fn \<Rightarrow> nat \<Rightarrow> 's \<Rightarrow> bool \<Rightarrow> 'e loop_error option \<times> 's" where
  "loop_from shouldRetry fn attempt s marker =
     (case fn s marker of
        (None, s', m') \<Rightarrow> (None, s')
      | (Some err, s', m') \<Rightarrow>
          if m' then (Some (Aborted err), s')
          else if \<not> shouldRetry err then (Some (Aborted err), s')
          else if Suc attempt \<ge> maxAttempts then (Some (MaxAttemptsExceeded maxAttempts err), s')
          else loop_from shouldRetry fn (Suc attempt) s' m')"
  by pat_completeness auto
termination by (relation "measure (\<lambda>(_, _, attempt, _). maxAttempts - attempt)") auto

declare loop_from.simps [simp del]

text \<open>
  \<open>Loop\<close> runs its callback once, with the marker of the enclosing loop, when it is called inside
  another loop; the error is then left to the outer loop.
\<close>

definition Loop ::
  "bool option \<Rightarrow> ('e \<Rightarrow> bool) \<Rightarrow> ('e, 's) loop_fn \<Rightarrow> 's \<Rightarrow> 'e loop_error option \<times> 's \<times> bool option" where
  "Loop outerMarker shouldRetry fn s =
     (case outerMarker of
        Some m \<Rightarrow> (case fn s m of (err, s', m') \<Rightarrow> (map_option Aborted err, s', Some m'))
      | None \<Rightarrow> (case loop_from shouldRetry fn 0 s False of (err, s') \<Rightarrow> (err, s', None)))"

definition Retry :: "bool option \<Rightarrow> ('e \<Rightarrow> bool) \<Rightarrow> ('s \<Rightarrow> 'e option \<times> 's) \<Rightarrow> 's \<Rightarrow> 'e loop_error option \<times> 's" where
  "Retry outerMarker shouldRetry idempotent s =
     (case Loop outerMarker shouldRetry (\<lambda>s m. case idempotent s of (err, s') \<Rightarrow> (err, s', m)) s of
        (err, s', _) \<Rightarrow> (err, s'))"

section \<open>Database statements\<close>

text \<open>The fate of one statement: it returns, it fails without effect, it fails after its effect.\<close>

datatype 'e fate = Returns | FailsBefore 'e | FailsAfter 'e

fun apply_fate :: "'e fate \<Rightarrow> ('t \<Rightarrow> 't \<times> 'a) \<Rightarrow> 't \<Rightarrow> 't \<times> ('e, 'a) result" where
  "apply_fate Returns stmt tbl = (case stmt tbl of (tbl', a) \<Rightarrow> (tbl', Inr a))"
| "apply_fate (FailsBefore e) stmt tbl = (tbl, Inl e)"
| "apply_fate (FailsAfter e) stmt tbl = (fst (stmt tbl), Inl e)"

text \<open>
  One statement under the retry loop: its attempts meet fates one after the other; the state is the
  table, the fates still to come and the result of the last attempt.
\<close>

definition stmt_attempt ::
  "('t \<Rightarrow> 't \<times> 'a) \<Rightarrow> 'e \<Rightarrow> 't \<times> 'e fate list \<times> 'a option \<Rightarrow> 'e option \<times> 't \<times> 'e fate list \<times> 'a option" where
  "stmt_attempt stmt gone s =
     (case s of
        (tbl, [], out) \<Rightarrow> (Some gone, tbl, [], None)
      | (tbl, fate # fates, out) \<Rightarrow>
          (case apply_fate fate stmt tbl of
             (tbl', Inl e) \<Rightarrow> (Some e, tbl', fates, None)
           | (tbl', Inr a) \<Rightarrow> (None, tbl', fates, Some a)))"

definition retry_stmt ::
  "('e \<Rightarrow> bool) \<Rightarrow> 'e \<Rightarrow> 'e fate list \<Rightarrow> ('t \<Rightarrow> 't \<times> 'a) \<Rightarrow> 't \<Rightarrow> 't \<times> ('e loop_error, 'a) result" where
  "retry_stmt shouldRetry gone fates stmt tbl =
     (case Retry None shouldRetry (stmt_attempt stmt gone) (tbl, fates, None) of
        (Some e, tbl', _, _) \<Rightarrow> (tbl', Inl e)
      | (None, tbl', _, Some a) \<Rightarrow> (tbl', Inr a)
      | (None, tbl', _, None) \<Rightarrow> (tbl', Inl (Aborted gone)))"

section \<open>What the loop does\<close>


text \<open>The attempts of a loop: \<open>n\<close> of them failed with a retryable error and left the marker clear.\<close>

inductive failed_attempts ::
  "('e \<Rightarrow> bool) \<Rightarrow> ('e, 's) loop_fn \<Rightarrow> nat \<Rightarrow> 's \<Rightarrow> 's \<Rightarrow> bool"
  for shouldRetry and fn where
  no_attempt: "failed_attempts shouldRetry fn 0 s s"
| one_more: "\<lbrakk>failed_attempts shouldRetry fn n s s'; fn s' False = (Some err, s'', False); shouldRetry err\<rbrakk>
   \<Longrightarrow> failed_attempts shouldRetry fn (Suc n) s s''"

lemma loop_from_result:
  assumes "attempt < maxAttempts" "failed_attempts shouldRetry fn attempt s0 s"
  shows "case loop_from shouldRetry fn attempt s False of
      (None, s') \<Rightarrow> \<exists>n s1 m. n < maxAttempts \<and> failed_attempts shouldRetry fn n s0 s1 \<and> fn s1 False = (None, s', m)
    | (Some (Aborted err), s') \<Rightarrow> \<exists>n s1 m. n < maxAttempts \<and> failed_attempts shouldRetry fn n s0 s1
         \<and> fn s1 False = (Some err, s', m) \<and> (m \<or> \<not> shouldRetry err)
    | (Some (MaxAttemptsExceeded k err), s') \<Rightarrow> k = maxAttempts \<and> failed_attempts shouldRetry fn maxAttempts s0 s'"
  using assms
proof (induction "maxAttempts - attempt" arbitrary: attempt s rule: less_induct)
  case less
  obtain err s' m' where fn: "fn s False = (err, s', m')" by (metis prod_cases3)
  show ?case
  proof (cases "\<exists>e. err = Some e \<and> \<not> m' \<and> shouldRetry e")
    case False
    then have eq: "loop_from shouldRetry fn attempt s False = (map_option Aborted err, s')"
      unfolding loop_from.simps [of _ _ attempt] by (auto simp: fn split: option.splits)
    show ?thesis unfolding eq using less.prems False fn by (cases err) auto
  next
    case True
    then obtain e where e: "err = Some e" "\<not> m'" "shouldRetry e" by blast
    have more: "failed_attempts shouldRetry fn (Suc attempt) s0 s'"
      using one_more [OF less.prems(2)] fn e by auto
    show ?thesis
    proof (cases "Suc attempt \<ge> maxAttempts")
      case True
      then have "Suc attempt = maxAttempts" using less.prems(1) by linarith
      then show ?thesis using more e by (subst loop_from.simps) (auto simp: fn)
    next
      case False
      then have "loop_from shouldRetry fn attempt s False = loop_from shouldRetry fn (Suc attempt) s' False"
        using e by (subst loop_from.simps) (simp add: fn)
      then show ?thesis using less.hyps [of "Suc attempt" s'] False more less.prems(1) by simp
    qed
  qed
qed

lemma Retry_first: "idempotent s = (None, s') \<Longrightarrow> Retry outerMarker shouldRetry idempotent s = (None, s')"
  by (cases outerMarker) (simp_all add: Retry_def Loop_def loop_from.simps)

lemma Retry_NoneE:
  assumes "Retry outerMarker shouldRetry f s = (None, s')"
  obtains s1 where "f s1 = (None, s')"
proof (cases outerMarker)
  case None
  let ?fn = "\<lambda>s m. case f s of (err, s') \<Rightarrow> (err, s', m :: bool)"
  have "loop_from shouldRetry ?fn 0 s False = (None, s')"
    using assms None by (auto simp: Retry_def Loop_def split: prod.splits)
  with loop_from_result [of 0 shouldRetry ?fn s s]
  obtain s1 m where "?fn s1 False = (None, s', m)"
    by (auto simp: maxAttempts_def failed_attempts.no_attempt)
  then show ?thesis using that by (auto split: prod.splits)
next
  case (Some m)
  then show ?thesis using assms that by (auto simp: Retry_def Loop_def split: prod.splits)
qed

text \<open>
  What a statement under the retry loop leaves behind: repetitions of the statement, and one more when
  it reports a result. A statement that is idempotent is applied once.
\<close>

lemma failed_attempts_invariant:
  assumes "failed_attempts shouldRetry fn n s0 s" "P s0" "\<And>s err s' m. \<lbrakk>P s; fn s False = (err, s', m)\<rbrakk> \<Longrightarrow> P s'"
  shows "P s"
  using assms by (induction rule: failed_attempts.induct) blast+

lemma Retry_invariant:
  assumes res: "Retry None shouldRetry f s = (err, s')" and P: "P s" and step: "\<And>s. P s \<Longrightarrow> P (snd (f s))"
  shows "P s' \<and> (err = None \<longrightarrow> (\<exists>s1. P s1 \<and> f s1 = (None, s')))"
proof -
  let ?fn = "\<lambda>s m. case f s of (err, s') \<Rightarrow> (err, s', m :: bool)"
  have st: "P s'" if "P s" "?fn s False = (err, s', m)" for s err s' m
    using step [OF that(1)] that(2) by (auto split: prod.splits)
  have inv: "P s1" if "failed_attempts shouldRetry ?fn n s s1" for n s1
    by (rule failed_attempts_invariant [where P = P, OF that P st])
  have "loop_from shouldRetry ?fn 0 s False = (err, s')"
    using res by (auto simp: Retry_def Loop_def split: prod.splits)
  note lr = loop_from_result [of 0 shouldRetry ?fn s s, unfolded this, simplified maxAttempts_def failed_attempts.no_attempt, simplified]
  show ?thesis
  proof (cases err)
    case None
    with lr obtain n s1 m where "failed_attempts shouldRetry ?fn n s s1" "?fn s1 False = (None, s', m)" by auto
    then have "P s1" "f s1 = (None, s')" using inv by (auto split: prod.splits)
    then show ?thesis using step [of s1] by auto
  next
    case (Some e)
    show ?thesis
    proof (cases e)
      case (Aborted x)
      with lr Some obtain n s1 m where "failed_attempts shouldRetry ?fn n s s1" "?fn s1 False = (Some x, s', m)" by auto
      then have "P s1" "f s1 = (Some x, s')" using inv by (auto split: prod.splits)
      then show ?thesis using step [of s1] Some by auto
    next
      case (MaxAttemptsExceeded k x)
      with lr Some inv show ?thesis by auto
    qed
  qed
qed

lemma retry_stmt_iterates:
  assumes "retry_stmt shouldRetry gone fates stmt tbl = (tbl', r)"
  shows "\<exists>n. tbl' = ((fst \<circ> stmt) ^^ n) tbl" and "r = Inr a \<Longrightarrow> \<exists>n. stmt (((fst \<circ> stmt) ^^ n) tbl) = (tbl', a)"
proof -
  let ?P = "\<lambda>s. \<exists>n. fst s = ((fst \<circ> stmt) ^^ n) tbl"
  obtain err s where s: "Retry None shouldRetry (stmt_attempt stmt gone) (tbl, fates, None) = (err, s)"
    by (cases "Retry None shouldRetry (stmt_attempt stmt gone) (tbl, fates, None)") simp
  have step: "?P (snd (stmt_attempt stmt gone s))" if P: "?P s" for s
  proof -
    from P obtain n where n: "fst s = ((fst \<circ> stmt) ^^ n) tbl" by blast
    have "fst (snd (stmt_attempt stmt gone s)) \<in> {((fst \<circ> stmt) ^^ n) tbl, ((fst \<circ> stmt) ^^ Suc n) tbl}"
      using n by (cases s; cases "fst (snd s)"; cases "hd (fst (snd s))")
        (auto simp: stmt_attempt_def split: prod.splits sum.splits)
    then show ?thesis by blast
  qed
  have "?P (tbl, fates, None)" by (intro exI [of _ 0]) simp
  from Retry_invariant [where P = ?P, OF s this step]
  have inv: "?P s" "err = None \<Longrightarrow> \<exists>s1. ?P s1 \<and> stmt_attempt stmt gone s1 = (None, s)" by auto
  show "\<exists>n. tbl' = ((fst \<circ> stmt) ^^ n) tbl"
    using assms inv(1) by (auto simp: retry_stmt_def s split: prod.splits option.splits)
  show "\<exists>n. stmt (((fst \<circ> stmt) ^^ n) tbl) = (tbl', a)" if "r = Inr a"
  proof -
    have e: "err = None" "fst s = tbl'" "snd (snd s) = Some a"
      using assms that by (auto simp: retry_stmt_def s split: prod.splits option.splits)
    obtain s1 where s1: "?P s1" "stmt_attempt stmt gone s1 = (None, s)" using inv(2) [OF e(1)] by blast
    obtain t fs out where t: "s1 = (t, fs, out)" by (metis prod_cases3)
    have "stmt t = (tbl', a)"
      using s1(2) e by (cases fs; cases "hd fs") (auto simp: t stmt_attempt_def split: prod.splits)
    then show ?thesis using s1(1) t by auto
  qed
qed

lemma retry_stmt_idempotent:
  assumes "retry_stmt shouldRetry gone fates stmt tbl = (tbl', Inr a)"
    and "fst (stmt (fst (stmt tbl))) = fst (stmt tbl)"
  shows "tbl' = fst (stmt tbl)"
proof -
  have *: "((fst \<circ> stmt) ^^ Suc n) tbl = fst (stmt tbl)" for n
    using assms(2) by (induction n) auto
  obtain n where "stmt (((fst \<circ> stmt) ^^ n) tbl) = (tbl', a)" using retry_stmt_iterates(2) [OF assms(1)] by blast
  then have "tbl' = ((fst \<circ> stmt) ^^ Suc n) tbl" by simp
  then show ?thesis using * by simp
qed

section \<open>Properties\<close>

text \<open>
  C40: outside another loop, \<open>Loop\<close> returns nil exactly after an attempt that returned nil, preceded by
  at most nine attempts with retryable errors and no side effect; it passes an error on at once when
  the callback has marked a side effect or the error is not retryable, and it gives up after exactly
  ten failed attempts.
\<close>

theorem Loop_attempts:
  "case Loop None shouldRetry fn s0 of
      (None, s', _) \<Rightarrow> \<exists>n s1 m. n < 10 \<and> failed_attempts shouldRetry fn n s0 s1 \<and> fn s1 False = (None, s', m)
    | (Some (Aborted err), s', _) \<Rightarrow> \<exists>n s1 m. n < 10 \<and> failed_attempts shouldRetry fn n s0 s1
         \<and> fn s1 False = (Some err, s', m) \<and> (m \<or> \<not> shouldRetry err)
    | (Some (MaxAttemptsExceeded k err), s', _) \<Rightarrow> k = 10 \<and> failed_attempts shouldRetry fn 10 s0 s'"
  using loop_from_result [of 0 shouldRetry fn s0 s0]
  by (auto simp: Loop_def maxAttempts_def failed_attempts.no_attempt
      split: prod.splits option.splits loop_error.splits)

text \<open>Witness for C40: a callback that fails twice and then succeeds.\<close>

definition fail_twice :: "(nat, nat) loop_fn" where
  "fail_twice s m = (if s < 2 then (Some s, Suc s, m) else (None, s, m))"

theorem Loop_attempts_witness:
  "Loop None (\<lambda>_. True) fail_twice 0 = (None, 2, None)
   \<and> (\<exists>n s1 m. n < 10 \<and> failed_attempts (\<lambda>_. True) fail_twice n 0 s1 \<and> fail_twice s1 False = (None, 2, m))"
proof -
  have "Loop None (\<lambda>_. True) fail_twice 0 = (None, 2, None)"
    unfolding Loop_def by (simp add: loop_from.simps fail_twice_def maxAttempts_def)
  then show ?thesis using Loop_attempts [of "\<lambda>_. True" fail_twice 0] by simp
qed

end
