(* ===== verification/Leases.thy ===== *)
theory Leases
  imports Ident Retry
begin

text \<open>
  Leases on singleton activities: \<open>src/internal/staging/leases/leases.go\<close>. The lease table is a map
  from names to rows, and the three SQL statements are functions on it. Instants and durations are
  integers in nanoseconds. A database call may fail before or after its effect; nonces come from the
  database (\<open>gen_random_uuid\<close>) and are an argument.
\<close>

section \<open>Configuration\<close>

definition Second :: int where
  "Second = 1000000000"

definition Millisecond :: int where
  "Millisecond = 1000000"

definition defaultLifetime :: int where
  "defaultLifetime = 60 * Second"

definition defaultPoll :: int where
  "defaultPoll = Second"

definition defaultRetry :: int where
  "defaultRetry = Second"

record Config =
  cfg_Pool :: bool
  cfg_Target :: Table
  cfg_Guard :: int
  cfg_Lifetime :: int
  cfg_Poll :: int
  cfg_RetryDelay :: int

datatype lease_cfg_error = PoolNil | TargetNotSet

definition sanitize :: "Config \<Rightarrow> (lease_cfg_error, Config) result" where
  "sanitize c =
     (if \<not> cfg_Pool c then Inl PoolNil
      else if Table_Empty (cfg_Target c) then Inl TargetNotSet
      else Inr (c\<lparr>cfg_Lifetime := (if cfg_Lifetime c = 0 then defaultLifetime else cfg_Lifetime c),
                  cfg_Poll := (if cfg_Poll c = 0 then defaultPoll else cfg_Poll c),
                  cfg_RetryDelay := (if cfg_RetryDelay c = 0 then defaultRetry else cfg_RetryDelay c)\<rparr>))"

section \<open>The lease table\<close>

record lease =
  l_expires :: int
  l_name :: string
  l_nonce :: nat

record lease_row =
  r_expires :: int
  r_nonce :: nat
  r_hostname :: string

type_synonym lease_table = "string \<rightharpoonup> lease_row"

text \<open>
  A timestamp column keeps microseconds. The statements below store their timestamps through this
  function.
\<close>

definition timestamp :: "int \<Rightarrow> int" where
  "timestamp t = t - t mod 1000"

text \<open>\<open>acquireTemplate\<close>: the blocking expiration, or the nonce of the row that was written.\<close>

definition acquireTemplate ::
  "string \<Rightarrow> int \<Rightarrow> string \<Rightarrow> int \<Rightarrow> nat \<Rightarrow> lease_table \<Rightarrow> lease_table \<times> int option \<times> nat option" where
  "acquireTemplate name expires hostname now nonce tbl =
     (case tbl name of
        Some x \<Rightarrow>
          if r_expires x > timestamp now then (tbl, Some (r_expires x), None)
          else (tbl(name \<mapsto> \<lparr>r_expires = timestamp expires, r_nonce = nonce, r_hostname = hostname\<rparr>), None, Some nonce)
      | None \<Rightarrow>
          (tbl(name \<mapsto> \<lparr>r_expires = timestamp expires, r_nonce = nonce, r_hostname = hostname\<rparr>), None, Some nonce))"

text \<open>\<open>releaseTemplate\<close> and \<open>renewTemplate\<close>, with the number of rows affected.\<close>

definition releaseTemplate :: "string \<Rightarrow> nat \<Rightarrow> lease_table \<Rightarrow> lease_table \<times> nat" where
  "releaseTemplate name nonce tbl =
     (case tbl name of
        Some x \<Rightarrow> if r_nonce x = nonce then (tbl(name := None), 1) else (tbl, 0)
      | None \<Rightarrow> (tbl, 0))"

definition renewTemplate :: "int \<Rightarrow> string \<Rightarrow> nat \<Rightarrow> lease_table \<Rightarrow> lease_table \<times> nat" where
  "renewTemplate expires name nonce tbl =
     (case tbl name of
        Some x \<Rightarrow> if r_nonce x = nonce then (tbl(name \<mapsto> x\<lparr>r_expires := timestamp expires\<rparr>), 1) else (tbl, 0)
      | None \<Rightarrow> (tbl, 0))"

section \<open>Single attempts\<close>

definition Truncate :: "int \<Rightarrow> int \<Rightarrow> int" where
  "Truncate t d = t - t mod d"

definition zero_lease :: lease where
  "zero_lease = \<lparr>l_expires = 0, l_name = [], l_nonce = 0\<rparr>"

definition tryAcquire ::
  "Config \<Rightarrow> string \<Rightarrow> 'e fate \<Rightarrow> nat \<Rightarrow> string \<Rightarrow> int \<Rightarrow> lease_table
   \<Rightarrow> lease_table \<times> lease \<times> bool \<times> 'e option" where
  "tryAcquire cfg hostname fate nonce name now0 tbl =
     (let now = Truncate now0 Millisecond; expires = now + cfg_Lifetime cfg in
      case apply_fate fate (acquireTemplate name expires hostname now nonce) tbl of
        (tbl', Inl e) \<Rightarrow> (tbl', zero_lease, False, Some e)
      | (tbl', Inr (Some blockedUntil, _)) \<Rightarrow>
          (tbl', \<lparr>l_expires = blockedUntil, l_name = name, l_nonce = 0\<rparr>, False, None)
      | (tbl', Inr (None, n)) \<Rightarrow>
          (tbl', \<lparr>l_expires = expires, l_name = name, l_nonce = (case n of Some k \<Rightarrow> k | None \<Rightarrow> 0)\<rparr>, True, None))"

definition tryRelease :: "'e fate \<Rightarrow> lease \<Rightarrow> lease_table \<Rightarrow> lease_table \<times> bool \<times> 'e option" where
  "tryRelease fate rel tbl =
     (case apply_fate fate (releaseTemplate (l_name rel) (l_nonce rel)) tbl of
        (tbl', Inl e) \<Rightarrow> (tbl', False, Some e)
      | (tbl', Inr rows) \<Rightarrow> (tbl', rows \<noteq> 0, None))"

definition tryRenew ::
  "Config \<Rightarrow> 'e fate \<Rightarrow> lease \<Rightarrow> int \<Rightarrow> lease_table \<Rightarrow> lease_table \<times> lease \<times> bool \<times> 'e option" where
  "tryRenew cfg fate tgt now tbl =
     (let expires = now + cfg_Lifetime cfg in
      case apply_fate fate (renewTemplate expires (l_name tgt) (l_nonce tgt)) tbl of
        (tbl', Inl e) \<Rightarrow> (tbl', tgt, False, Some e)
      | (tbl', Inr rows) \<Rightarrow>
          if rows = 0 then (tbl', tgt, False, None) else (tbl', tgt\<lparr>l_expires := expires\<rparr>, True, None))"

section \<open>Attempts under the retry loop\<close>

text \<open>
  The statements of the attempts meet fates, nonces and clock readings one after the other: the
  state of the retry loop is the table, what is still to come and the captured results.
\<close>

record 'e attempts =
  at_table :: lease_table
  at_env :: "('e fate \<times> nat \<times> int) list"
  at_lease :: lease
  at_ok :: bool

definition acquire_attempt :: "Config \<Rightarrow> string \<Rightarrow> string \<Rightarrow> 'e \<Rightarrow> 'e attempts \<Rightarrow> 'e option \<times> 'e attempts" where
  "acquire_attempt cfg hostname name gone s =
     (case at_env s of
        [] \<Rightarrow> (Some gone, s\<lparr>at_lease := zero_lease, at_ok := False\<rparr>)
      | (fate, nonce, now) # env \<Rightarrow>
          (case tryAcquire cfg hostname fate nonce name now (at_table s) of
             (tbl, l, ok, err) \<Rightarrow> (err, \<lparr>at_table = tbl, at_env = env, at_lease = l, at_ok = ok\<rparr>)))"

definition acquire ::
  "Config \<Rightarrow> string \<Rightarrow> ('e \<Rightarrow> bool) \<Rightarrow> string \<Rightarrow> 'e \<Rightarrow> ('e fate \<times> nat \<times> int) list \<Rightarrow> lease_table
   \<Rightarrow> lease_table \<times> lease \<times> bool \<times> 'e loop_error option" where
  "acquire cfg hostname shouldRetry name gone env tbl =
     (case Retry None shouldRetry (acquire_attempt cfg hostname name gone)
             \<lparr>at_table = tbl, at_env = env, at_lease = zero_lease, at_ok = False\<rparr> of
        (err, s) \<Rightarrow> (at_table s, at_lease s, at_ok s, err))"

definition renew_attempt :: "Config \<Rightarrow> lease \<Rightarrow> 'e \<Rightarrow> 'e attempts \<Rightarrow> 'e option \<times> 'e attempts" where
  "renew_attempt cfg tgt gone s =
     (case at_env s of
        [] \<Rightarrow> (Some gone, s\<lparr>at_lease := tgt, at_ok := False\<rparr>)
      | (fate, _, now) # env \<Rightarrow>
          (case tryRenew cfg fate tgt now (at_table s) of
             (tbl, l, ok, err) \<Rightarrow> (err, \<lparr>at_table = tbl, at_env = env, at_lease = l, at_ok = ok\<rparr>)))"

definition renew ::
  "Config \<Rightarrow> ('e \<Rightarrow> bool) \<Rightarrow> lease \<Rightarrow> 'e \<Rightarrow> ('e fate \<times> nat \<times> int) list \<Rightarrow> lease_table
   \<Rightarrow> lease_table \<times> lease \<times> bool \<times> 'e loop_error option" where
  "renew cfg shouldRetry tgt gone env tbl =
     (case Retry None shouldRetry (renew_attempt cfg tgt gone)
             \<lparr>at_table = tbl, at_env = env, at_lease = zero_lease, at_ok = False\<rparr> of
        (err, s) \<Rightarrow> (at_table s, at_lease s, at_ok s, err))"

definition release_attempt :: "lease \<Rightarrow> 'e \<Rightarrow> 'e attempts \<Rightarrow> 'e option \<times> 'e attempts" where
  "release_attempt rel gone s =
     (case at_env s of
        [] \<Rightarrow> (Some gone, s\<lparr>at_ok := False\<rparr>)
      | (fate, _, _) # env \<Rightarrow>
          (case tryRelease fate rel (at_table s) of
             (tbl, ok, err) \<Rightarrow> (err, s\<lparr>at_table := tbl, at_env := env, at_ok := ok\<rparr>)))"

definition release ::
  "('e \<Rightarrow> bool) \<Rightarrow> lease \<Rightarrow> 'e \<Rightarrow> ('e fate \<times> nat \<times> int) list \<Rightarrow> lease_table
   \<Rightarrow> lease_table \<times> bool \<times> 'e loop_error option" where
  "release shouldRetry rel gone env tbl =
     (case Retry None shouldRetry (release_attempt rel gone)
             \<lparr>at_table = tbl, at_env = env, at_lease = rel, at_ok = False\<rparr> of
        (err, s) \<Rightarrow> (at_table s, at_ok s, err))"

section \<open>Keeping a lease alive\<close>

text \<open>
  \<open>keepRenewedOnce\<close> up to its wait: give up, or the delay before the renewal. The second half takes
  what the renewal returned; \<open>canceled\<close> tells whether an error is \<open>context.Canceled\<close>.
\<close>

definition keepRenewed_delay :: "Config \<Rightarrow> lease \<Rightarrow> int \<Rightarrow> int option" where
  "keepRenewed_delay cfg tgt now =
     (let remaining = l_expires tgt - now in
      if remaining < cfg_Guard cfg then None
      else let delay = remaining div 2 in Some (if delay < cfg_Poll cfg then cfg_Poll cfg else delay))"

definition keepRenewed_result :: "('x \<Rightarrow> bool) \<Rightarrow> lease \<Rightarrow> bool \<Rightarrow> 'x option \<Rightarrow> lease \<times> bool" where
  "keepRenewed_result canceled tgt ok err =
     (case err of
        Some e \<Rightarrow> (tgt, \<not> canceled e)
      | None \<Rightarrow> (tgt, ok))"

definition keepRenewedOnce ::
  "Config \<Rightarrow> ('e \<Rightarrow> bool) \<Rightarrow> ('e loop_error \<Rightarrow> bool) \<Rightarrow> lease \<Rightarrow> int \<Rightarrow> bool \<Rightarrow> 'e \<Rightarrow> ('e fate \<times> nat \<times> int) list
   \<Rightarrow> lease_table \<Rightarrow> lease_table \<times> lease \<times> bool" where
  "keepRenewedOnce cfg shouldRetry canceled tgt now ctxDone gone env tbl =
     (case keepRenewed_delay cfg tgt now of
        None \<Rightarrow> (tbl, tgt, False)
      | Some delay \<Rightarrow>
          if ctxDone then (tbl, tgt, False)
          else case renew cfg shouldRetry tgt gone env tbl of
            (tbl', tgt', ok, err) \<Rightarrow> (tbl', keepRenewed_result canceled tgt' ok err))"

text \<open>
  \<open>keepRenewed\<close> over its rounds: the clock reading of each, whether the context is done during the
  wait, and what the statements of the renewal meet. \<open>None\<close>: the rounds given do not end it.
\<close>

fun keepRenewed ::
  "Config \<Rightarrow> ('e \<Rightarrow> bool) \<Rightarrow> ('e loop_error \<Rightarrow> bool) \<Rightarrow> 'e \<Rightarrow> lease \<Rightarrow> (int \<times> bool \<times> ('e fate \<times> nat \<times> int) list) list
   \<Rightarrow> lease_table \<Rightarrow> lease_table \<times> lease option" where
  "keepRenewed cfg shouldRetry canceled gone tgt [] tbl = (tbl, None)"
| "keepRenewed cfg shouldRetry canceled gone tgt ((now, ctxDone, env) # rounds) tbl =
     (case keepRenewedOnce cfg shouldRetry canceled tgt now ctxDone gone env tbl of
        (tbl', tgt', again) \<Rightarrow>
          if again then keepRenewed cfg shouldRetry canceled gone tgt' rounds tbl' else (tbl', Some tgt'))"

section \<open>Singletons\<close>

text \<open>What \<open>Acquire\<close> and the callback of one iteration return.\<close>

datatype 'e acquire_outcome = Acquired | LeaseBusy int | AcquireErr 'e
datatype callback_outcome = CallbackNil | CancelSingleton | ContextCanceled | CallbackError

definition Acquire_outcome :: "lease \<times> bool \<times> 'x option \<Rightarrow> 'x acquire_outcome" where
  "Acquire_outcome r =
     (case r of (leaseRow, ok, err) \<Rightarrow>
        (case err of Some e \<Rightarrow> AcquireErr e
         | None \<Rightarrow> if \<not> ok then LeaseBusy (l_expires leaseRow) else Acquired))"

definition loopBehavior :: "Config \<Rightarrow> 'x acquire_outcome \<Rightarrow> callback_outcome \<Rightarrow> int \<Rightarrow> int" where
  "loopBehavior cfg acq fn jitter =
     (case acq of
        LeaseBusy _ \<Rightarrow> cfg_Poll cfg + jitter * Millisecond
      | AcquireErr _ \<Rightarrow> cfg_RetryDelay cfg
      | Acquired \<Rightarrow>
          if fn = CancelSingleton \<or> fn = ContextCanceled then - 1 else cfg_RetryDelay cfg)"

text \<open>
  The iterations of \<open>Singleton\<close>: the number of calls of the callback, and whether the loop returned.
  The last component of an iteration tells whether the context ends during the delay.
\<close>

fun Singleton :: "Config \<Rightarrow> ('x acquire_outcome \<times> callback_outcome \<times> int \<times> bool) list \<Rightarrow> nat \<Rightarrow> nat \<times> bool" where
  "Singleton cfg [] calls = (calls, False)"
| "Singleton cfg ((acq, fn, jitter, ctxDone) # its) calls =
     (let calls' = (if acq = Acquired then Suc calls else calls) in
      if loopBehavior cfg acq fn jitter < 0 then (calls', True)
      else if ctxDone then (calls', True)
      else Singleton cfg its calls')"

text \<open>\<open>waitToAcquire\<close>: per round, whether the context is done, or what \<open>acquire\<close> returned.\<close>

fun waitToAcquire :: "(lease \<times> bool \<times> 'x option) option list \<Rightarrow> (lease \<times> bool) option" where
  "waitToAcquire [] = None"
| "waitToAcquire (None # rounds) = Some (zero_lease, False)"
| "waitToAcquire (Some (ret, ok, err) # rounds) =
     (if err \<noteq> None then waitToAcquire rounds
      else if ok then Some (ret, True)
      else waitToAcquire rounds)"

section \<open>The lease protocol\<close>

text \<open>
  The world of all processes: the true time, the lease table, one entry per call of \<open>Acquire\<close> that returned a
  lease, and the nonces handed out so far. An entry keeps the lease as its goroutine in \<open>keepRenewed\<close> knows it, the
  last reading of the clock of its process, and how far the facade has got: its context is live, it is live while
  \<open>Release\<close> is at work on the row, or it is canceled. The function that \<open>Release\<close> calls deletes the row first and
  cancels the context after, so these are two steps; the goroutine goes on renewing until it notices.

  Every process has a clock of its own, which does not go back and is ahead of the true time by at most \<open>skew\<close>. Every
  step is one statement with the reading its process took before, which may be stale by any amount of time.
\<close>

datatype facade_phase = Live | Releasing | Canceled

record held =
  h_lease :: lease
  h_read :: int
  h_phase :: facade_phase

record world =
  w_now :: int
  w_table :: lease_table
  w_held :: "held list"
  w_used :: "nat set"

definition world0 :: "int \<Rightarrow> world" where
  "world0 t = \<lparr>w_now = t, w_table = Map.empty, w_held = [], w_used = {}\<rparr>"

definition releasing :: "facade_phase \<Rightarrow> facade_phase" where
  "releasing ph = (if ph = Live then Releasing else ph)"

inductive lease_step :: "Config \<Rightarrow> int \<Rightarrow> world \<Rightarrow> world \<Rightarrow> bool" for cfg skew where
  tick: "0 \<le> d \<Longrightarrow> lease_step cfg skew s (s\<lparr>w_now := w_now s + d\<rparr>)"
| do_acquire: "\<lbrakk>now \<le> w_now s + skew; nonce \<notin> w_used s;
     tryAcquire cfg hostname (fate :: string fate) nonce name now (w_table s) = (tbl, l, ok, err)\<rbrakk>
   \<Longrightarrow> lease_step cfg skew s (s\<lparr>w_table := tbl, w_used := insert nonce (w_used s),
         w_held := (if ok then w_held s @ [\<lparr>h_lease = l, h_read = now, h_phase = Live\<rparr>] else w_held s)\<rparr>)"
| do_renew: "\<lbrakk>i < length (w_held s); w_held s ! i = e; h_read e \<le> now; now \<le> w_now s + skew;
     tryRenew cfg (fate :: string fate) (h_lease e) now (w_table s) = (tbl, l, ok, err)\<rbrakk>
   \<Longrightarrow> lease_step cfg skew s (s\<lparr>w_table := tbl, w_held := (w_held s)[i := e\<lparr>h_lease := l, h_read := now\<rparr>]\<rparr>)"
| do_release: "\<lbrakk>i < length (w_held s); w_held s ! i = e;
     tryRelease (fate :: string fate) (h_lease e) (w_table s) = (tbl, ok, err)\<rbrakk>
   \<Longrightarrow> lease_step cfg skew s (s\<lparr>w_table := tbl, w_held := (w_held s)[i := e\<lparr>h_phase := releasing (h_phase e)\<rparr>]\<rparr>)"
| do_cancel: "\<lbrakk>i < length (w_held s); w_held s ! i = e\<rbrakk>
   \<Longrightarrow> lease_step cfg skew s (s\<lparr>w_held := (w_held s)[i := e\<lparr>h_phase := Canceled\<rparr>]\<rparr>)"

inductive lease_reach :: "Config \<Rightarrow> int \<Rightarrow> world \<Rightarrow> bool" for cfg skew where
  start: "lease_reach cfg skew (world0 t)"
| step: "\<lbrakk>lease_reach cfg skew s; lease_step cfg skew s s'\<rbrakk> \<Longrightarrow> lease_reach cfg skew s'"

text \<open>
  The lease of an entry that nobody releases owns its row, or its published expiration has passed by the clock that
  is most ahead. What the process knows of its expiration is at most one lifetime after its last reading.
\<close>

definition owns :: "lease_table \<Rightarrow> lease \<Rightarrow> bool" where
  "owns tbl l \<longleftrightarrow> (\<exists>row. tbl (l_name l) = Some row \<and> r_nonce row = l_nonce l \<and> timestamp (l_expires l) \<le> r_expires row)"

abbreviation h_nonce :: "held \<Rightarrow> nat" where
  "h_nonce e \<equiv> l_nonce (h_lease e)"

definition entry_ok :: "Config \<Rightarrow> int \<Rightarrow> lease_table \<Rightarrow> held \<Rightarrow> bool" where
  "entry_ok cfg latest tbl e \<longleftrightarrow> l_expires (h_lease e) \<le> h_read e + cfg_Lifetime cfg
     \<and> (h_phase e = Live \<longrightarrow> owns tbl (h_lease e) \<or> timestamp (l_expires (h_lease e)) \<le> latest)"

definition lease_invar :: "Config \<Rightarrow> int \<Rightarrow> world \<Rightarrow> bool" where
  "lease_invar cfg skew s \<longleftrightarrow> distinct (map h_nonce (w_held s)) \<and> h_nonce ` set (w_held s) \<subseteq> w_used s
     \<and> (\<forall>name row. w_table s name = Some row \<longrightarrow> r_nonce row \<in> w_used s)
     \<and> (\<forall>e \<in> set (w_held s). entry_ok cfg (w_now s + skew) (w_table s) e)"

lemma timestamp_le [simp]: "timestamp t \<le> t"
  by (simp add: timestamp_def)

lemma timestamp_mono: "s \<le> t \<Longrightarrow> timestamp s \<le> timestamp t"
proof -
  assume "s \<le> t"
  then have "1000 * (s div 1000) \<le> 1000 * (t div 1000)" by (simp add: zdiv_mono1)
  then show ?thesis by (simp add: timestamp_def minus_mod_eq_mult_div)
qed

lemma Truncate_le [simp]: "Truncate t Millisecond \<le> t"
  by (simp add: Truncate_def Millisecond_def)

text \<open>The three statements as the protocol sees them, whatever their fate.\<close>

lemma tryAcquire_cases:
  assumes "tryAcquire cfg hostname fate nonce name now tbl = (tbl', l, ok, err)"
  obtains (same) "tbl' = tbl" "\<not> ok"
  | (wrote) row where "tbl' = tbl(name \<mapsto> row)" "r_nonce row = nonce"
      "\<forall>x. tbl name = Some x \<longrightarrow> r_expires x \<le> now"
      "ok \<Longrightarrow> l_name l = name \<and> l_nonce l = nonce \<and> timestamp (l_expires l) \<le> r_expires row
         \<and> l_expires l \<le> now + cfg_Lifetime cfg"
proof -
  let ?now = "Truncate now Millisecond"
  have le: "timestamp ?now \<le> now" using timestamp_le [of ?now] Truncate_le [of now] by linarith
  show ?thesis
  proof (cases "\<exists>x. tbl name = Some x \<and> r_expires x > timestamp ?now")
    case True
    then show ?thesis
      using assms by (intro same; cases fate; auto simp: tryAcquire_def acquireTemplate_def Let_def)
  next
    case False
    let ?row = "\<lparr>r_expires = timestamp (?now + cfg_Lifetime cfg), r_nonce = nonce, r_hostname = hostname\<rparr>"
    have st: "acquireTemplate name (?now + cfg_Lifetime cfg) hostname ?now nonce tbl = (tbl(name \<mapsto> ?row), None, Some nonce)"
      using False by (auto simp: acquireTemplate_def split: option.splits)
    have old: "\<forall>x. tbl name = Some x \<longrightarrow> r_expires x \<le> now" using False le by force
    show ?thesis
    proof (cases fate)
      case (FailsBefore e)
      then show ?thesis using assms same by (auto simp: tryAcquire_def Let_def)
    next
      case Returns
      then show ?thesis using assms old by (intro wrote [of ?row]) (auto simp: tryAcquire_def Let_def st)
    next
      case (FailsAfter e)
      then show ?thesis using assms old by (intro wrote [of ?row]) (auto simp: tryAcquire_def Let_def st)
    qed
  qed
qed

lemma tryRenew_cases:
  assumes "tryRenew cfg fate tgt now tbl = (tbl', l, ok, err)"
  obtains (same) "tbl' = tbl" "l = tgt"
  | (wrote) row where "tbl (l_name tgt) = Some row" "r_nonce row = l_nonce tgt"
      "tbl' = tbl(l_name tgt \<mapsto> row\<lparr>r_expires := timestamp (now + cfg_Lifetime cfg)\<rparr>)"
      "l = tgt \<or> l = tgt\<lparr>l_expires := now + cfg_Lifetime cfg\<rparr>"
proof (cases "\<exists>row. tbl (l_name tgt) = Some row \<and> r_nonce row = l_nonce tgt")
  case True
  then obtain row where row: "tbl (l_name tgt) = Some row" "r_nonce row = l_nonce tgt" by blast
  have st: "renewTemplate e (l_name tgt) (l_nonce tgt) tbl = (tbl(l_name tgt \<mapsto> row\<lparr>r_expires := timestamp e\<rparr>), 1)" for e
    using row by (simp add: renewTemplate_def)
  show ?thesis
  proof (cases fate)
    case (FailsBefore e)
    then show ?thesis using assms by (intro same) (auto simp: tryRenew_def Let_def)
  next
    case Returns
    then show ?thesis using assms row by (intro wrote [of row]) (auto simp: tryRenew_def Let_def st)
  next
    case (FailsAfter e)
    then show ?thesis using assms row by (intro wrote [of row]) (auto simp: tryRenew_def Let_def st)
  qed
next
  case False
  then have st: "renewTemplate e (l_name tgt) (l_nonce tgt) tbl = (tbl, 0)" for e
    by (auto simp: renewTemplate_def split: option.splits)
  show ?thesis using assms by (intro same; cases fate) (auto simp: tryRenew_def Let_def st)
qed

lemma tryRelease_cases:
  assumes "tryRelease fate tgt tbl = (tbl', ok, err)"
  obtains (same) "tbl' = tbl"
  | (deleted) row where "tbl (l_name tgt) = Some row" "r_nonce row = l_nonce tgt" "tbl' = tbl(l_name tgt := None)"
proof -
  have "tbl' = tbl \<or> tbl' = fst (releaseTemplate (l_name tgt) (l_nonce tgt) tbl)"
    using assms by (cases fate) (auto simp: tryRelease_def split: prod.splits)
  then show ?thesis using same deleted by (auto simp: releaseTemplate_def split: option.splits if_splits)
qed

text \<open>One entry changes and keeps its nonce; the table changes as one of the statements may change it.\<close>

lemma held_other:
  assumes "lease_invar cfg skew s" "i < length (w_held s)" "j < length (w_held s)" "i \<noteq> j"
  shows "h_nonce (w_held s ! j) \<noteq> h_nonce (w_held s ! i)"
  using assms by (simp add: lease_invar_def distinct_conv_nth)

lemma lease_invar_update:
  assumes inv: "lease_invar cfg skew s" and i: "i < length (w_held s)" and n: "h_nonce e' = h_nonce (w_held s ! i)"
    and used: "\<And>name row. tbl name = Some row \<Longrightarrow> r_nonce row \<in> w_used s"
    and new: "entry_ok cfg (w_now s + skew) tbl e'"
    and others: "\<And>e. \<lbrakk>e \<in> set (w_held s); h_nonce e \<noteq> h_nonce (w_held s ! i); entry_ok cfg (w_now s + skew) (w_table s) e\<rbrakk>
      \<Longrightarrow> entry_ok cfg (w_now s + skew) tbl e"
  shows "lease_invar cfg skew (s\<lparr>w_table := tbl, w_held := (w_held s)[i := e']\<rparr>)"
proof -
  have nonces: "map h_nonce ((w_held s)[i := e']) = map h_nonce (w_held s)"
    using i n by (simp add: map_update list_update_same_conv)
  then have set_nonces: "h_nonce ` set ((w_held s)[i := e']) = h_nonce ` set (w_held s)" by (metis list.set_map)
  have "entry_ok cfg (w_now s + skew) tbl e" if "e \<in> set ((w_held s)[i := e'])" for e
  proof -
    obtain j where j: "j < length (w_held s)" "e = (if j = i then e' else w_held s ! j)"
      using \<open>e \<in> set ((w_held s)[i := e'])\<close> by (auto simp: in_set_conv_nth nth_list_update)
    show ?thesis
    proof (cases "j = i")
      case True
      then show ?thesis using j new by simp
    next
      case False
      then show ?thesis using j others [of e] held_other [OF inv i j(1)] inv by (auto simp: lease_invar_def)
    qed
  qed
  then show ?thesis using inv used nonces set_nonces by (auto simp: lease_invar_def)
qed

lemma lease_step_invar:
  assumes "lease_step cfg skew s s'" "lease_invar cfg skew s"
  shows "lease_invar cfg skew s'"
  using assms(1)
proof (cases rule: lease_step.cases)
  case (tick d)
  then show ?thesis using assms(2) by (fastforce simp: lease_invar_def entry_ok_def)
next
  case (do_acquire now nonce hostname fate name tbl l ok err)
  from do_acquire(4) show ?thesis
  proof (cases rule: tryAcquire_cases)
    case same
    then show ?thesis using assms(2) unfolding do_acquire(1) by (auto simp: lease_invar_def)
  next
    case (wrote row)
    have old: "entry_ok cfg (w_now s + skew) tbl e" if "e \<in> set (w_held s)" for e
    proof -
      have "entry_ok cfg (w_now s + skew) (w_table s) e" using that assms(2) by (simp add: lease_invar_def)
      then show ?thesis using wrote(1,3) do_acquire(2) by (fastforce simp: entry_ok_def owns_def)
    qed
    have new: "entry_ok cfg (w_now s + skew) tbl \<lparr>h_lease = l, h_read = now, h_phase = Live\<rparr>" if ok
      using that wrote by (auto simp: entry_ok_def owns_def)
    have n: "l_nonce l = nonce" if ok using wrote(4) that by simp
    show ?thesis
      using assms(2) do_acquire(3) wrote(1,2) old new n unfolding do_acquire(1) by (auto simp: lease_invar_def)
  qed
next
  case (do_renew i e now fate tbl l ok err)
  have e: "entry_ok cfg (w_now s + skew) (w_table s) e" using assms(2) do_renew(2,3) by (auto simp: lease_invar_def)
  have used: "r_nonce row \<in> w_used s" if "w_table s name = Some row" for name row
    using assms(2) that by (auto simp: lease_invar_def)
  show ?thesis unfolding do_renew(1)
  proof (rule lease_invar_update [OF assms(2) do_renew(2)])
    show "h_nonce (e\<lparr>h_lease := l, h_read := now\<rparr>) = h_nonce (w_held s ! i)"
      using do_renew(6,3) by (cases rule: tryRenew_cases) auto
    show "r_nonce row \<in> w_used s" if "tbl name = Some row" for name row
      using do_renew(6) that used by (cases rule: tryRenew_cases) (fastforce split: if_splits)+
    show "entry_ok cfg (w_now s + skew) tbl (e\<lparr>h_lease := l, h_read := now\<rparr>)"
      using do_renew(6)
    proof (cases rule: tryRenew_cases)
      case same
      then show ?thesis using e do_renew(4) by (auto simp: entry_ok_def)
    next
      case (wrote row)
      have "timestamp (l_expires (h_lease e)) \<le> timestamp (now + cfg_Lifetime cfg)"
        using e do_renew(4) by (intro timestamp_mono) (simp add: entry_ok_def)
      then show ?thesis using e wrote do_renew(4) by (auto simp: entry_ok_def owns_def)
    qed
    show "entry_ok cfg (w_now s + skew) tbl h"
      if "h_nonce h \<noteq> h_nonce (w_held s ! i)" "entry_ok cfg (w_now s + skew) (w_table s) h" for h
      using do_renew(6) that do_renew(3) by (cases rule: tryRenew_cases) (auto simp: entry_ok_def owns_def)
  qed
next
  case (do_release i e fate tbl ok err)
  have e: "entry_ok cfg (w_now s + skew) (w_table s) e" using assms(2) do_release(2,3) by (auto simp: lease_invar_def)
  have used: "r_nonce row \<in> w_used s" if "w_table s name = Some row" for name row
    using assms(2) that by (auto simp: lease_invar_def)
  show ?thesis unfolding do_release(1)
  proof (rule lease_invar_update [OF assms(2) do_release(2)])
    show "r_nonce row \<in> w_used s" if "tbl name = Some row" for name row
      using do_release(4) that used by (cases rule: tryRelease_cases) (auto split: if_splits)
    show "entry_ok cfg (w_now s + skew) tbl h"
      if "h_nonce h \<noteq> h_nonce (w_held s ! i)" "entry_ok cfg (w_now s + skew) (w_table s) h" for h
      using do_release(4) that do_release(3) by (cases rule: tryRelease_cases) (auto simp: entry_ok_def owns_def)
  qed (use e do_release(3) in \<open>auto simp: entry_ok_def releasing_def\<close>)
next
  case (do_cancel i e)
  have e: "entry_ok cfg (w_now s + skew) (w_table s) e" using assms(2) do_cancel(2,3) by (auto simp: lease_invar_def)
  have "lease_invar cfg skew (s\<lparr>w_table := w_table s, w_held := (w_held s)[i := e\<lparr>h_phase := Canceled\<rparr>]\<rparr>)"
    using assms(2) do_cancel(3) e by (intro lease_invar_update [OF assms(2) do_cancel(2)]) (auto simp: lease_invar_def entry_ok_def)
  then show ?thesis unfolding do_cancel(1) by simp
qed

lemma world0_invar: "lease_invar cfg skew (world0 t)"
  by (simp add: lease_invar_def world0_def)

lemma lease_reach_invar: "lease_reach cfg skew s \<Longrightarrow> lease_invar cfg skew s"
  by (induction rule: lease_reach.induct) (fact world0_invar, rule lease_step_invar)

section \<open>Properties\<close>

text \<open>
  C14: at no reachable moment are there two different leases of one name whose contexts are live, on which nobody has
  called \<open>Release\<close>, and whose published expirations are both later than the true time plus the skew of the clocks,
  whatever statements fail before or after their effect and however the processes interleave.
\<close>

theorem lease_mutual_exclusion:
  assumes "lease_reach cfg skew s" "a \<in> set (w_held s)" "b \<in> set (w_held s)" "h_phase a = Live" "h_phase b = Live"
    "l_name (h_lease a) = l_name (h_lease b)"
    "w_now s + skew < timestamp (l_expires (h_lease a))" "w_now s + skew < timestamp (l_expires (h_lease b))"
  shows "a = b"
proof -
  have inv: "lease_invar cfg skew s" using assms(1) by (rule lease_reach_invar)
  then have "owns (w_table s) (h_lease a)" "owns (w_table s) (h_lease b)"
    using assms(2-) by (force simp: lease_invar_def entry_ok_def)+
  then have "h_nonce a = h_nonce b" using assms(6) by (auto simp: owns_def)
  then show ?thesis using inv assms(2,3) by (auto simp: lease_invar_def distinct_map inj_on_def)
qed

definition demo_cfg :: Config where
  "demo_cfg = \<lparr>cfg_Pool = True, cfg_Target = Table (Schema (Ident ''db'') NilIdent) (Ident ''leases''), cfg_Guard = 0,
     cfg_Lifetime = defaultLifetime, cfg_Poll = defaultPoll, cfg_RetryDelay = defaultRetry\<rparr>"

definition demo_lease :: lease where
  "demo_lease = \<lparr>l_expires = defaultLifetime, l_name = ''x'', l_nonce = 7\<rparr>"

definition demo_held :: "facade_phase \<Rightarrow> nat \<Rightarrow> held" where
  "demo_held ph n = \<lparr>h_lease = demo_lease\<lparr>l_nonce := n\<rparr>, h_read = 0, h_phase = ph\<rparr>"

definition demo_world :: "nat option \<Rightarrow> held list \<Rightarrow> nat set \<Rightarrow> world" where
  "demo_world row hs used = \<lparr>w_now = 0, w_table = (case row of None \<Rightarrow> Map.empty
     | Some n \<Rightarrow> [''x'' \<mapsto> \<lparr>r_expires = defaultLifetime, r_nonce = n, r_hostname = ''h''\<rparr>]), w_held = hs, w_used = used\<rparr>"

lemma demo_acquire:
  "n \<notin> used \<Longrightarrow> lease_step demo_cfg 0 (demo_world None hs used) (demo_world (Some n) (hs @ [demo_held Live n]) (insert n used))"
proof -
  assume n: "n \<notin> used"
  have "tryAcquire demo_cfg ''h'' Returns n ''x'' 0 (w_table (demo_world None hs used)) =
      (w_table (demo_world (Some n) [] {}), demo_lease\<lparr>l_nonce := n\<rparr>, True, None)"
    by (simp add: tryAcquire_def acquireTemplate_def demo_world_def demo_cfg_def demo_lease_def Truncate_def
        timestamp_def defaultLifetime_def Second_def)
  from lease_step.do_acquire [OF _ _ this, of 0] n show ?thesis by (simp add: demo_world_def demo_held_def)
qed

lemma demo_release:
  "lease_step demo_cfg 0 (demo_world (Some n) [demo_held Live n] used) (demo_world None [demo_held Releasing n] used)"
proof -
  have "tryRelease Returns (h_lease (demo_held Live n)) (w_table (demo_world (Some n) [demo_held Live n] used)) =
      (w_table (demo_world None [] {}), True, None)"
    by (simp add: tryRelease_def releaseTemplate_def demo_world_def demo_held_def demo_lease_def)
  from lease_step.do_release [OF _ _ this, of 0] show ?thesis by (simp add: demo_world_def demo_held_def releasing_def)
qed

lemma demo_lease_reach:
  "lease_reach demo_cfg 0 (demo_world (Some 7) [demo_held Live 7] {7})"
  "lease_reach demo_cfg 0 (demo_world (Some 8) [demo_held Releasing 7, demo_held Live 8] {7, 8})"
proof -
  have "demo_world None [] {} = world0 0" by (simp add: demo_world_def world0_def)
  then have "lease_reach demo_cfg 0 (demo_world None [] {})" by (simp add: lease_reach.start)
  from lease_reach.step [OF this demo_acquire [of 7]]
  show one: "lease_reach demo_cfg 0 (demo_world (Some 7) [demo_held Live 7] {7})" by simp
  from lease_reach.step [OF lease_reach.step [OF one demo_release] demo_acquire [of 8]]
  show "lease_reach demo_cfg 0 (demo_world (Some 8) [demo_held Releasing 7, demo_held Live 8] {7, 8})"
    by (simp add: insert_commute)
qed

text \<open>Witness for C14: one process releases its lease, another has acquired it; theirs is the only live lease.\<close>

theorem lease_mutual_exclusion_witness:
  "\<exists>s. lease_reach demo_cfg 0 s \<and> length (w_held s) = 2
     \<and> {e \<in> set (w_held s). h_phase e = Live \<and> l_name (h_lease e) = ''x'' \<and> w_now s + 0 < timestamp (l_expires (h_lease e))}
       = {demo_held Live 8}"
proof -
  let ?s = "demo_world (Some 8) [demo_held Releasing 7, demo_held Live 8] {7, 8}"
  have b: "demo_held Live 8 \<in> set (w_held ?s)" "h_phase (demo_held Live 8) = Live" "l_name (h_lease (demo_held Live 8)) = ''x''"
    "w_now ?s + 0 < timestamp (l_expires (h_lease (demo_held Live 8)))"
    by (simp_all add: demo_world_def demo_held_def demo_lease_def timestamp_def defaultLifetime_def Second_def)
  have "e = demo_held Live 8" if "e \<in> set (w_held ?s)" "h_phase e = Live" "l_name (h_lease e) = ''x''"
    "w_now ?s + 0 < timestamp (l_expires (h_lease e))" for e
    using lease_mutual_exclusion [OF demo_lease_reach(2) that(1) b(1) that(2) b(2) _ that(4) b(4)] that(3) b(3) by simp
  then have "{e \<in> set (w_held ?s). h_phase e = Live \<and> l_name (h_lease e) = ''x'' \<and> w_now ?s + 0 < timestamp (l_expires (h_lease e))}
       = {demo_held Live 8}" using b by blast
  moreover have "length (w_held ?s) = 2" by (simp add: demo_world_def)
  ultimately show ?thesis using demo_lease_reach(2) by blast
qed

text \<open>
  \<open>Release\<close> deletes the row before it cancels the context. So there is a reachable moment at which the contexts of two
  leases of one name are both live, both before their published expirations, with exact clocks and no failure.
\<close>

theorem release_before_cancel:
  "\<exists>s a b. lease_reach demo_cfg 0 s \<and> a \<in> set (w_held s) \<and> b \<in> set (w_held s) \<and> l_name (h_lease a) = l_name (h_lease b)
     \<and> h_nonce a \<noteq> h_nonce b \<and> h_phase a = Releasing \<and> h_phase b = Live
     \<and> w_now s < timestamp (l_expires (h_lease a)) \<and> w_now s < timestamp (l_expires (h_lease b))"
  using demo_lease_reach(2)
  by (intro exI [of _ "demo_world (Some 8) [demo_held Releasing 7, demo_held Live 8] {7, 8}"] exI [of _ "demo_held Releasing 7"]
      exI [of _ "demo_held Live 8"]) (simp add: demo_world_def demo_held_def demo_lease_def timestamp_def defaultLifetime_def Second_def)



text \<open>
  With the default configuration, whose guard is zero, a holder with half a second left sleeps for
  the whole polling interval with its context live, and another process acquires the lease in the
  meantime.
\<close>

theorem lease_outlived_by_default:
  "\<exists>wake tbl l2. keepRenewed_delay demo_cfg demo_lease (defaultLifetime - Second div 2) = Some Second
     \<and> wake = defaultLifetime - Second div 2 + Second \<and> l_expires demo_lease < wake
     \<and> tryAcquire demo_cfg ''other'' (Returns :: string fate) 8 ''x'' defaultLifetime
          [''x'' \<mapsto> \<lparr>r_expires = defaultLifetime, r_nonce = 7, r_hostname = ''h''\<rparr>] = (tbl, l2, True, None)"
  by (simp add: keepRenewed_delay_def demo_cfg_def demo_lease_def defaultLifetime_def defaultPoll_def Second_def
      tryAcquire_def acquireTemplate_def Truncate_def timestamp_def Millisecond_def Let_def)

text \<open>
  When \<open>acquire\<close> reports a lease without an error, after any number of failed attempts, the lease has
  the name asked for and owns its row of the table.
\<close>

theorem acquire_owns:
  fixes gone :: 'e
  assumes "acquire cfg hostname shouldRetry name gone env tbl = (tbl', l, True, None)"
  shows "l_name l = name \<and> owns tbl' l"
proof -
  from assms obtain s where s: "Retry None shouldRetry (acquire_attempt cfg hostname name gone)
      \<lparr>at_table = tbl, at_env = env, at_lease = zero_lease, at_ok = False\<rparr> = (None, s)"
    "tbl' = at_table s" "l = at_lease s" "at_ok s"
    by (auto simp: acquire_def split: prod.splits)
  from s(1) obtain s1 where "acquire_attempt cfg hostname name gone s1 = (None, s)" by (rule Retry_NoneE)
  then obtain fate :: "'e fate" and nonce now where "tryAcquire cfg hostname fate nonce name now (at_table s1) = (tbl', l, True, None)"
    using s(2-4) by (auto simp: acquire_attempt_def split: list.splits prod.splits)
  then show ?thesis by (cases rule: tryAcquire_cases) (auto simp: owns_def)
qed

text \<open>Witness for The first attempt fails, the second acquires.\<close>

theorem acquire_owns_witness:
  "\<exists>tbl l. acquire demo_cfg ''h'' (\<lambda>_. True) ''x'' ''gone'' [(FailsBefore ''e'', 6, 0), (Returns, 7, 0)] Map.empty
      = (tbl, l, True, None) \<and> owns tbl l"
proof -
  have "\<exists>tbl l. acquire demo_cfg ''h'' (\<lambda>_. True) ''x'' ''gone'' [(FailsBefore ''e'', 6, 0), (Returns, 7, 0)] Map.empty
      = (tbl, l, True, None)"
    by (simp add: acquire_def Retry_def Loop_def loop_from.simps acquire_attempt_def tryAcquire_def acquireTemplate_def
        maxAttempts_def Let_def)
  then show ?thesis using acquire_owns by metis
qed

end
