(* ===== verification/Hlc.thy ===== *)
theory Hlc
  imports GoLib
begin

text \<open>
  Hybrid logical clock timestamps and half-open ranges of them: \<open>src/internal/util/hlc/hlc.go\<close> and
  \<open>range.go\<close>. The comparison is modelled with Go's wrapping subtraction; on the timestamps that
  \<^emph>\<open>valid\_time\<close> describes it is the lexicographic order, and the linear order of the type is
  that order, so that later theories can reason with \<open>\<le>\<close> and \<open><\<close>.
\<close>

section \<open>Timestamps\<close>

datatype Time = Time (Nanos: int) (Logical: int)

datatype hlc_error =
    CantParse string
  | NumError num_error
  | NanosNegative int
  | LogicalDigits string
  | CantScan

text \<open>\<open>Compare\<close>: a difference of nanos, then of logical counters, both wrapping.\<close>

definition Compare :: "Time \<Rightarrow> Time \<Rightarrow> int" where
  "Compare a b =
     (let c = wrap64 (Nanos a - Nanos b)
      in if c \<noteq> 0 then c else wrap64 (Logical a - Logical b))"

definition New :: "int \<Rightarrow> int \<Rightarrow> Time" where
  "New nanos logical = Time nanos logical"

definition Zero :: Time where
  "Zero = Time 0 0"

definition Before :: "Time \<Rightarrow> Time" where
  "Before t =
     (if Logical t > 0 then Time (Nanos t) (wrap64 (Logical t - 1))
      else Time (wrap64 (Nanos t - 1)) MaxInt32)"

definition Next :: "Time \<Rightarrow> Time" where
  "Next t = Time (Nanos t) (wrap64 (Logical t + 1))"

text \<open>The result of \<open>Parse\<close> on success; every error path of the code is an \<open>Inl\<close>.\<close>

definition Parse :: "string \<Rightarrow> (hlc_error, Time) result" where
  "Parse timestamp =
     (case Split timestamp (CHR ''.'') of
        [s0, s1] \<Rightarrow>
          (case ParseInt s0 True of
             Inl e \<Rightarrow> Inl (NumError e)
           | Inr nanos \<Rightarrow>
               if nanos < 0 then Inl (NanosNegative nanos)
               else (case Atoi s1 of (logical, err) \<Rightarrow>
                 if length s1 \<noteq> 10 \<and> logical \<noteq> 0 then Inl (LogicalDigits s1)
                 else (case err of
                         Some e \<Rightarrow> Inl (NumError e)
                       | None \<Rightarrow> Inr (Time nanos logical))))
      | _ \<Rightarrow> Inl (CantParse timestamp))"

text \<open>\<open>String\<close> is the format \<open>%d.%010d\<close>.\<close>

definition String :: "Time \<Rightarrow> string" where
  "String t = show_int (Nanos t) @ CHR ''.'' # show_int_pad 10 (Logical t)"

text \<open>The dynamic type of the argument of \<open>Scan\<close>.\<close>

datatype scan_src = SrcBytes string | SrcString string | SrcOther

text \<open>\<open>Scan\<close> leaves its receiver alone on an error.\<close>

fun Scan :: "Time \<Rightarrow> scan_src \<Rightarrow> Time \<times> hlc_error option" where
  "Scan t (SrcBytes s) =
     (if s = ''0'' then (Zero, None)
      else case Parse s of Inl e \<Rightarrow> (t, Some e) | Inr p \<Rightarrow> (p, None))"
| "Scan t (SrcString s) =
     (if s = ''0'' then (Zero, None)
      else case Parse s of Inl e \<Rightarrow> (t, Some e) | Inr p \<Rightarrow> (p, None))"
| "Scan t SrcOther = (t, Some CantScan)"

section \<open>Ranges\<close>

datatype Range = Range (Range_Min: Time) (Range_Max: Time)

definition RangeEmpty :: Range where
  "RangeEmpty = Range Zero Zero"

definition RangeEmptyAt :: "Time \<Rightarrow> Range" where
  "RangeEmptyAt ts = Range ts ts"

definition RangeExcluding :: "Time \<Rightarrow> Time \<Rightarrow> Range" where
  "RangeExcluding startInclusive endExclusive = Range startInclusive endExclusive"

definition RangeIncluding :: "Time \<Rightarrow> Time \<Rightarrow> Range" where
  "RangeIncluding start end = Range start (Next end)"

definition Range_Contains :: "Range \<Rightarrow> Time \<Rightarrow> bool" where
  "Range_Contains r t \<longleftrightarrow> Compare (Range_Min r) t \<le> 0 \<and> Compare t (Range_Max r) < 0"

definition Range_Empty :: "Range \<Rightarrow> bool" where
  "Range_Empty r \<longleftrightarrow> Compare (Range_Min r) (Range_Max r) \<ge> 0"

definition Range_Extend :: "Range \<Rightarrow> Time \<Rightarrow> Range" where
  "Range_Extend r include =
     (if Compare include (Range_Min r) < 0 then Range include (Range_Max r)
      else if Compare include (Range_Max r) \<ge> 0 then Range (Range_Min r) (Next include)
      else r)"

definition Range_MaxInclusive :: "Range \<Rightarrow> Time" where
  "Range_MaxInclusive r = Before (Range_Max r)"

definition Range_WithMin :: "Range \<Rightarrow> Time \<Rightarrow> Range" where
  "Range_WithMin r mn =
     (if Compare mn (Before (Range_Max r)) \<ge> 0 then RangeEmptyAt mn
      else Range mn (Range_Max r))"

section \<open>The order of timestamps\<close>

instantiation Time :: linorder
begin

definition less_eq_Time :: "Time \<Rightarrow> Time \<Rightarrow> bool" where
  "less_eq_Time a b \<longleftrightarrow> Nanos a < Nanos b \<or> Nanos a = Nanos b \<and> Logical a \<le> Logical b"

definition less_Time :: "Time \<Rightarrow> Time \<Rightarrow> bool" where
  "less_Time a b \<longleftrightarrow> Nanos a < Nanos b \<or> Nanos a = Nanos b \<and> Logical a < Logical b"

instance
  by standard (auto simp: less_eq_Time_def less_Time_def Time.expand)

end

text \<open>
  A timestamp of a running system: nanos since the epoch and a logical counter, none negative.
  \<open>tick_time\<close> are those below the largest logical counter, which have a successor; \<open>clock_time\<close>
  those whose counter fits the 32 bits that CockroachDB gives it.
\<close>

definition valid_time :: "Time \<Rightarrow> bool" where
  "valid_time t \<longleftrightarrow> 0 \<le> Nanos t \<and> Nanos t < 2 ^ 63 \<and> 0 \<le> Logical t \<and> Logical t < 2 ^ 63"

definition tick_time :: "Time \<Rightarrow> bool" where
  "tick_time t \<longleftrightarrow> valid_time t \<and> Logical t < MaxInt64"

definition clock_time :: "Time \<Rightarrow> bool" where
  "clock_time t \<longleftrightarrow> valid_time t \<and> Logical t \<le> MaxInt32"

definition valid_range :: "Range \<Rightarrow> bool" where
  "valid_range r \<longleftrightarrow> valid_time (Range_Min r) \<and> valid_time (Range_Max r)"

lemma clock_tick [intro]: "clock_time t \<Longrightarrow> tick_time t"
  by (simp add: clock_time_def tick_time_def MaxInt32_def MaxInt64_def)

lemma tick_valid [intro, dest]: "tick_time t \<Longrightarrow> valid_time t"
  by (simp add: tick_time_def)

lemma valid_Zero [simp]: "valid_time Zero" "tick_time Zero" "clock_time Zero"
  by (simp_all add: Zero_def valid_time_def tick_time_def clock_time_def MaxInt32_def MaxInt64_def)

lemma Zero_least: "valid_time t \<Longrightarrow> Zero \<le> t"
  by (auto simp: valid_time_def Zero_def less_eq_Time_def)

lemma Compare_valid:
  assumes "valid_time a" "valid_time b"
  shows "Compare a b = (if Nanos a = Nanos b then Logical a - Logical b else Nanos a - Nanos b)"
  using assms by (simp add: Compare_def Let_def valid_time_def in_int64_diff_nonneg)

lemma Compare_order [time_order]:
  assumes "valid_time a" "valid_time b"
  shows "Compare a b < 0 \<longleftrightarrow> a < b" "Compare a b \<le> 0 \<longleftrightarrow> a \<le> b" "Compare a b = 0 \<longleftrightarrow> a = b"
    "Compare a b > 0 \<longleftrightarrow> b < a" "Compare a b \<ge> 0 \<longleftrightarrow> b \<le> a"
  using Compare_valid [OF assms]
  by (auto simp: less_Time_def less_eq_Time_def Time.expand)

lemma Compare_self [simp]: "Compare a a = 0"
  by (simp add: Compare_def wrap64_def)

lemma Next_tick: "tick_time t \<Longrightarrow> Next t = Time (Nanos t) (Logical t + 1)"
  by (simp add: Next_def tick_time_def valid_time_def in_int64_def MaxInt64_def)

lemma valid_Next [intro]: "tick_time t \<Longrightarrow> valid_time (Next t)"
  by (simp add: Next_tick) (simp add: tick_time_def valid_time_def MaxInt64_def)

lemma Next_greater: "tick_time t \<Longrightarrow> t < Next t"
  by (simp add: Next_tick less_Time_def)

lemma less_Next_iff: "tick_time t \<Longrightarrow> x < Next t \<longleftrightarrow> x \<le> t"
  by (auto simp: Next_tick less_Time_def less_eq_Time_def)

lemma Next_le_iff: "tick_time t \<Longrightarrow> Next t \<le> x \<longleftrightarrow> t < x"
  by (auto simp: Next_tick less_Time_def less_eq_Time_def)

lemma Before_Next: "tick_time t \<Longrightarrow> Before (Next t) = t"
  by (simp add: Next_tick Before_def) (simp add: tick_time_def valid_time_def in_int64_def)

lemma Before_less: "\<lbrakk>valid_time t; t \<noteq> Zero\<rbrakk> \<Longrightarrow> Before t < t"
  by (cases t) (auto simp: Before_def less_Time_def valid_time_def in_int64_def Zero_def)

lemma valid_Before: "\<lbrakk>valid_time t; t \<noteq> Zero\<rbrakk> \<Longrightarrow> valid_time (Before t)"
  by (cases t) (auto simp: Before_def valid_time_def in_int64_def Zero_def MaxInt32_def)

text \<open>No clock timestamp lies strictly between \<open>Before t\<close> and \<open>t\<close>.\<close>

lemma le_Before_iff:
  assumes "clock_time x" "valid_time t" "t \<noteq> Zero"
  shows "x \<le> Before t \<longleftrightarrow> x < t"
  using assms
  by (cases t; cases x)
     (auto simp: Before_def less_Time_def less_eq_Time_def clock_time_def valid_time_def
       in_int64_def Zero_def MaxInt32_def)

section \<open>Ranges as sets of timestamps\<close>

lemma Range_Contains_iff [time_order]:
  "\<lbrakk>valid_range r; valid_time t\<rbrakk> \<Longrightarrow> Range_Contains r t \<longleftrightarrow> Range_Min r \<le> t \<and> t < Range_Max r"
  by (simp add: Range_Contains_def valid_range_def time_order)

lemma Range_Empty_iff [time_order]:
  "valid_range r \<Longrightarrow> Range_Empty r \<longleftrightarrow> Range_Max r \<le> Range_Min r"
  by (simp add: Range_Empty_def valid_range_def time_order)

lemma valid_RangeEmpty [simp]: "valid_range RangeEmpty"
  by (simp add: RangeEmpty_def valid_range_def)

lemma Range_Empty_RangeEmptyAt [simp]: "Range_Empty (RangeEmptyAt t)"
  by (simp add: Range_Empty_def RangeEmptyAt_def)

lemma Range_Empty_RangeEmpty [simp]: "Range_Empty RangeEmpty"
  by (simp add: Range_Empty_def RangeEmpty_def)

lemma Range_Empty_Contains:
  "\<lbrakk>valid_range r; Range_Empty r; valid_time t\<rbrakk> \<Longrightarrow> \<not> Range_Contains r t"
  by (auto simp: time_order)

lemma valid_RangeIncluding: "\<lbrakk>valid_time s; tick_time e\<rbrakk> \<Longrightarrow> valid_range (RangeIncluding s e)"
  by (auto simp: valid_range_def RangeIncluding_def)

lemma RangeIncluding_sel [simp]:
  "Range_Min (RangeIncluding s e) = s" "Range_Max (RangeIncluding s e) = Next e"
  by (simp_all add: RangeIncluding_def)

lemma valid_Range_Extend:
  "\<lbrakk>valid_range r; tick_time t\<rbrakk> \<Longrightarrow> valid_range (Range_Extend r t)"
  by (auto simp: valid_range_def Range_Extend_def)

section \<open>Properties\<close>

text \<open>
  On valid timestamps (no negative part), the sign of \<open>Compare\<close> is the lexicographic order on
  (nanos, logical): negative, zero and positive exactly when the first is before, equal to and
  after the second. In particular the subtraction in the code never wraps on them.
\<close>

theorem Compare_is_time_order:
  assumes "valid_time a" "valid_time b"
  shows "sgn (Compare a b) = (if a < b then - 1 else if a = b then 0 else 1)
         \<and> Compare a b = - Compare b a"
proof
  show "sgn (Compare a b) = (if a < b then - 1 else if a = b then 0 else 1)"
    using Compare_order(1,3) [OF assms] by (auto simp: sgn_if)
  show "Compare a b = - Compare b a"
    using assms by (simp add: Compare_valid)
qed

text \<open>Witness for Two nanoseconds apart, with the counters the other way around.\<close>

theorem Compare_is_time_order_witness:
  "sgn (Compare (Time 5 9) (Time 7 0)) = - 1 \<and> Compare (Time 5 9) (Time 7 0) = - Compare (Time 7 0) (Time 5 9)"
  using Compare_is_time_order [of "Time 5 9" "Time 7 0"]
  by (auto simp: valid_time_def less_Time_def)

text \<open>
  \<open>Parse\<close> inverts \<open>String\<close>. Every timestamp with non-negative nanos and a logical counter
  whose decimal form fits the ten characters of the format is read back from its printed form.
\<close>

theorem Parse_String_roundtrip:
  assumes "0 \<le> Nanos t" "Nanos t < 2 ^ 63" "- (10 ^ 9) < Logical t" "Logical t < 10 ^ 10"
  shows "Parse (String t) = Inr t"
proof -
  have "Split (String t) CHR ''.'' = [show_int (Nanos t), show_int_pad 10 (Logical t)]"
    by (simp add: String_def Split_append_sep)
  moreover have "ParseInt (show_int (Nanos t)) True = Inr (Nanos t)"
    using assms by (simp add: ParseInt_show_int_nonneg)
  moreover have "Atoi (show_int_pad 10 (Logical t)) = (Logical t, None)"
    using assms by (intro Atoi_show_int_pad) (simp add: in_int64_def)
  moreover have "length (show_int_pad 10 (Logical t)) = 10"
    using assms by (intro length_show_int_pad_10)
  ultimately show ?thesis using assms by (simp add: Parse_def)
qed

text \<open>A concrete instance.\<close>

theorem Parse_String_roundtrip_witness:
  "Parse (String (Time 1705342567 12)) = Inr (Time 1705342567 12)"
  by (rule Parse_String_roundtrip) simp_all

text \<open>
  \<open>RangeIncluding\<close> is the closed interval, \<open>MaxInclusive\<close> gives its end back, and \<open>Extend\<close> of
  a non-empty range by a timestamp contains exactly the old range, the new timestamp and what lies
  between them.
\<close>

theorem Range_Extend_hull:
  assumes "valid_time s" "tick_time e" "s \<le> e" "tick_time t" "valid_time x"
  shows "(Range_Contains (RangeIncluding s e) x \<longleftrightarrow> s \<le> x \<and> x \<le> e)
         \<and> Range_MaxInclusive (RangeIncluding s e) = e
         \<and> (Range_Contains (Range_Extend (RangeIncluding s e) t) x
              \<longleftrightarrow> min s t \<le> x \<and> x \<le> max e t)"
proof (intro conjI)
  note v = valid_RangeIncluding [OF assms(1,2)]
  have t: "valid_time t" "valid_time (Next e)" "valid_time (Next t)" using assms by auto
  show "Range_Contains (RangeIncluding s e) x \<longleftrightarrow> s \<le> x \<and> x \<le> e"
    using assms v by (simp add: time_order less_Next_iff)
  show "Range_MaxInclusive (RangeIncluding s e) = e"
    using assms by (simp add: Range_MaxInclusive_def Before_Next)
  show "Range_Contains (Range_Extend (RangeIncluding s e) t) x \<longleftrightarrow> min s t \<le> x \<and> x \<le> max e t"
    using assms t valid_Range_Extend [OF v assms(4)]
    by (auto simp: time_order less_Next_iff Next_le_iff Range_Extend_def min_def max_def)
qed

text \<open>An instance.\<close>

theorem Range_Extend_hull_witness:
  "Range_Contains (RangeIncluding (Time 2 0) (Time 4 0)) (Time 3 7)
   \<and> Range_Contains (Range_Extend (RangeIncluding (Time 2 0) (Time 4 0)) (Time 9 1)) (Time 8 0)"
  using Range_Extend_hull [of "Time 2 0" "Time 4 0" "Time 9 1" "Time 3 7"]
    Range_Extend_hull [of "Time 2 0" "Time 4 0" "Time 9 1" "Time 8 0"]
  by (simp add: valid_time_def tick_time_def MaxInt64_def less_eq_Time_def min_def max_def)

text \<open>
  \<open>WithMin\<close> empties the range already when the new minimum is the last instant the range
  contains, one tick before the point its comment names.
\<close>

theorem WithMin_drops_last_instant:
  "Range_Contains (RangeIncluding (Time 1 0) (Time 5 0)) (Time 5 0)
   \<and> Range_Empty (Range_WithMin (RangeIncluding (Time 1 0) (Time 5 0)) (Time 5 0))"
  by (simp add: Range_WithMin_def Range_MaxInclusive_def RangeIncluding_def Next_def Before_def
      Range_Contains_def Range_Empty_def RangeEmptyAt_def Compare_def wrap64_def)

text \<open>
  The comparison is not an order on every pair of 64-bit values: the subtraction wraps when a
  negative time is compared with a large one.
\<close>

theorem Compare_wraps:
  "Compare (Time (- (2 ^ 63)) 0) (Time 1 0) > 0"
  by (simp add: Compare_def wrap64_def)

text \<open>\<open>Parse\<close> accepts a sign in the ten characters of the logical counter.\<close>

theorem Parse_accepts_negative_logical:
  "Parse ''1.-000000001'' = Inr (Time 1 (- 1))"
  by (simp add: Parse_def ParseInt_def ParseUint_def Atoi_def digit_value_def is_digit_def)

end
