(* ===== verification/Batches.thy ===== *)
theory Batches
  imports Hlc Ident
begin

text \<open>
  Mutations and their aggregations: \<open>src/internal/types/types.go\<close> (\<open>Mutation\<close>),
  \<open>src/internal/types/batches.go\<close>, \<open>src/internal/util/msort/msort.go\<close> and the windowing helper of
  \<open>src/internal/util/batches/batches.go\<close>.

  A \<open>MultiBatch\<close> indexes its temporal batches twice, by time and in order, through shared pointers;
  the model has a store of temporal batches and both indexes hold positions in it.
\<close>

section \<open>Mutations\<close>

text \<open>Raw JSON is its bytes; the metadata is a map by name.\<close>

record Mutation =
  mut_Before :: string
  mut_Data :: string
  mut_Key :: string
  mut_Meta :: "(string \<times> go_any) list"
  mut_Time :: Time

definition IsDelete :: "Mutation \<Rightarrow> bool" where
  "IsDelete m \<longleftrightarrow> length (mut_Data m) = 0 \<or> mut_Data m = ''null''"

section \<open>Deduplication (msort)\<close>

datatype msort_panic = EmptyKey

text \<open>
  The loop of \<open>uniqueBy\<close> over a copy \<open>x\<close> of the input, from the last element to the first: the
  argument \<open>n\<close> is \<open>src + 1\<close>, \<open>seen\<close> maps a key to the index of its element.
\<close>

fun unique_loop ::
  "('e \<Rightarrow> ('p, 'c) result) \<Rightarrow> ('e \<Rightarrow> 'e \<Rightarrow> 'e) \<Rightarrow> 'e list \<Rightarrow> nat \<Rightarrow> nat \<Rightarrow> ('c \<Rightarrow> nat option)
   \<Rightarrow> ('p, 'e list) result" where
  "unique_loop keyFn pickFn x 0 dest seen = Inr (drop dest x)"
| "unique_loop keyFn pickFn x (Suc src) dest seen =
     (case keyFn (x ! src) of
        Inl p \<Rightarrow> Inl p
      | Inr key \<Rightarrow>
          (case seen key of
             Some curIdx \<Rightarrow> unique_loop keyFn pickFn (x[curIdx := pickFn (x ! curIdx) (x ! src)]) src dest seen
           | None \<Rightarrow> unique_loop keyFn pickFn (x[dest - 1 := x ! src]) src (dest - 1) (seen(key \<mapsto> dest - 1))))"

definition uniqueBy :: "('e \<Rightarrow> ('p, 'c) result) \<Rightarrow> ('e \<Rightarrow> 'e \<Rightarrow> 'e) \<Rightarrow> 'e list \<Rightarrow> ('p, 'e list) result" where
  "uniqueBy keyFn pickFn x = unique_loop keyFn pickFn x (length x) (length x) (\<lambda>_. None)"

definition by_key :: "Mutation \<Rightarrow> (msort_panic, string) result" where
  "by_key e = (if length (mut_Key e) = 0 then Inl EmptyKey else Inr (mut_Key e))"

definition later_time :: "Mutation \<Rightarrow> Mutation \<Rightarrow> Mutation" where
  "later_time existing matching =
     (if Compare (mut_Time existing) (mut_Time matching) \<ge> 0 then existing else matching)"

definition UniqueByKey :: "Mutation list \<Rightarrow> (msort_panic, Mutation list) result" where
  "UniqueByKey x = uniqueBy by_key later_time x"

definition by_time_key :: "Mutation \<Rightarrow> (msort_panic, string) result" where
  "by_time_key e =
     (if length (mut_Key e) = 0 then Inl EmptyKey
      else Inr (String (mut_Time e) @ CHR '':'' # mut_Key e))"

definition UniqueByTimeKey :: "Mutation list \<Rightarrow> (msort_panic, Mutation list) result" where
  "UniqueByTimeKey x = uniqueBy by_time_key (\<lambda>existing _. existing) x"

section \<open>Windows\<close>

text \<open>
  The loop of \<open>Window\<close>, with the callback threading a state of the caller. \<open>None\<close> is a loop that does
  not end.
\<close>

partial_function (option) window_loop ::
  "(nat \<Rightarrow> nat \<Rightarrow> 's \<Rightarrow> ('e, 's) result) \<Rightarrow> nat \<Rightarrow> nat \<Rightarrow> nat \<Rightarrow> 's \<Rightarrow> ('e, 's) result option" where
  "window_loop fn batchSize cnt idx st =
     (let bs = (if batchSize > cnt then cnt else batchSize) in
      case fn idx (idx + bs) st of
        Inl e \<Rightarrow> Some (Inl e)
      | Inr st' \<Rightarrow>
          if bs = cnt then Some (Inr st')
          else window_loop fn bs (cnt - bs) (idx + bs) st')"

definition Window :: "nat \<Rightarrow> nat \<Rightarrow> (nat \<Rightarrow> nat \<Rightarrow> 's \<Rightarrow> ('e, 's) result) \<Rightarrow> 's \<Rightarrow> ('e, 's) result option" where
  "Window batchSize cnt fn st = window_loop fn batchSize cnt 0 st"

section \<open>Table, temporal and multi batches\<close>

record TableBatch =
  tb_Data :: "Mutation list"
  tb_Table :: Table
  tb_Time :: Time

record TemporalBatch =
  tp_Time :: Time
  tp_Data :: "(Table, TableBatch) imap"

datatype batch_error = EmptyTable | ZeroTime | TimeMismatch Time Time | TableMismatch Table Table

definition TableBatch_Accumulate :: "Table \<Rightarrow> Mutation \<Rightarrow> TableBatch \<Rightarrow> (batch_error, TableBatch) result" where
  "TableBatch_Accumulate table mut b =
     (if Compare (tb_Time b) (mut_Time mut) \<noteq> 0 then Inl (TimeMismatch (mut_Time mut) (tb_Time b))
      else if \<not> ident_Equal (IdTable (tb_Table b)) (IdTable table) then Inl (TableMismatch table (tb_Table b))
      else Inr (b\<lparr>tb_Data := tb_Data b @ [mut]\<rparr>))"

text \<open>An accumulator is a callback that threads a state of the caller.\<close>

type_synonym ('e, 's) accumulator = "Table \<Rightarrow> Mutation \<Rightarrow> 's \<Rightarrow> ('e, 's) result"

fun accumulate_all :: "('e, 's) accumulator \<Rightarrow> Table \<Rightarrow> Mutation list \<Rightarrow> 's \<Rightarrow> ('e, 's) result" where
  "accumulate_all acc table [] st = Inr st"
| "accumulate_all acc table (mut # muts) st =
     (case acc table mut st of Inl e \<Rightarrow> Inl e | Inr st' \<Rightarrow> accumulate_all acc table muts st')"

definition TableBatch_CopyInto :: "('e, 's) accumulator \<Rightarrow> TableBatch \<Rightarrow> 's \<Rightarrow> ('e, 's) result" where
  "TableBatch_CopyInto acc b st =
     accumulate_all acc (tb_Table b)
       (SortSlice (\<lambda>i j. StringsCompare (mut_Key i) (mut_Key j) < 0) (tb_Data b)) st"

definition TableBatch_Count :: "TableBatch \<Rightarrow> nat" where
  "TableBatch_Count b = length (tb_Data b)"

definition TableBatch_Empty :: "TableBatch \<Rightarrow> TableBatch" where
  "TableBatch_Empty b = \<lparr>tb_Data = [], tb_Table = tb_Table b, tb_Time = tb_Time b\<rparr>"

definition TemporalBatch_Accumulate ::
  "Table \<Rightarrow> Mutation \<Rightarrow> TemporalBatch \<Rightarrow> (batch_error, TemporalBatch) result" where
  "TemporalBatch_Accumulate table mut b =
     (if Compare (tp_Time b) (mut_Time mut) \<noteq> 0 then Inl (TimeMismatch (tp_Time b) (mut_Time mut))
      else
        let (key, batch) = (case imap_Match Table_Canonical (tp_Data b) table of
                              Some e \<Rightarrow> e
                            | None \<Rightarrow> (table, \<lparr>tb_Data = [], tb_Table = table, tb_Time = tp_Time b\<rparr>))
        in case TableBatch_Accumulate table mut batch of
             Inl e \<Rightarrow> Inl e
           | Inr batch' \<Rightarrow> Inr (b\<lparr>tp_Data := imap_Put Table_Canonical key batch' (tp_Data b)\<rparr>))"

text \<open>The tables of a temporal batch are visited in the order of their raw names.\<close>

fun copy_tables :: "('e, 's) accumulator \<Rightarrow> TableBatch list \<Rightarrow> 's \<Rightarrow> ('e, 's) result" where
  "copy_tables acc [] st = Inr st"
| "copy_tables acc (b # bs) st =
     (case TableBatch_CopyInto acc b st of Inl e \<Rightarrow> Inl e | Inr st' \<Rightarrow> copy_tables acc bs st')"

definition sorted_tables :: "TemporalBatch \<Rightarrow> (Table \<times> TableBatch) list" where
  "sorted_tables b = SortSlice (\<lambda>i j. StringsCompare (Table_Raw (fst i)) (Table_Raw (fst j)) < 0) (tp_Data b)"

definition TemporalBatch_CopyInto :: "('e, 's) accumulator \<Rightarrow> TemporalBatch \<Rightarrow> 's \<Rightarrow> ('e, 's) result" where
  "TemporalBatch_CopyInto acc b st = copy_tables acc (map snd (sorted_tables b)) st"

definition TemporalBatch_Count :: "TemporalBatch \<Rightarrow> nat" where
  "TemporalBatch_Count b = sum_list (map (TableBatch_Count \<circ> snd) (tp_Data b))"

definition TemporalBatch_Empty :: "TemporalBatch \<Rightarrow> TemporalBatch" where
  "TemporalBatch_Empty b = \<lparr>tp_Time = tp_Time b, tp_Data = []\<rparr>"

record MultiBatch =
  mb_store :: "TemporalBatch list"
  mb_ByTime :: "Time \<Rightarrow> nat option"
  mb_Data :: "nat list"

definition MultiBatch_New :: MultiBatch where
  "MultiBatch_New = \<lparr>mb_store = [], mb_ByTime = (\<lambda>_. None), mb_Data = []\<rparr>"

definition MultiBatch_Less :: "TemporalBatch list \<Rightarrow> nat \<Rightarrow> nat \<Rightarrow> bool" where
  "MultiBatch_Less store i j \<longleftrightarrow> Compare (tp_Time (store ! i)) (tp_Time (store ! j)) < 0"

definition MultiBatch_Accumulate :: "Table \<Rightarrow> Mutation \<Rightarrow> MultiBatch \<Rightarrow> (batch_error, MultiBatch) result" where
  "MultiBatch_Accumulate table mut b =
     (if Table_Empty table then Inl EmptyTable
      else if mut_Time mut = Zero then Inl ZeroTime
      else case mb_ByTime b (mut_Time mut) of
        Some r \<Rightarrow>
          (case TemporalBatch_Accumulate table mut (mb_store b ! r) of
             Inl e \<Rightarrow> Inl e
           | Inr t \<Rightarrow> Inr (b\<lparr>mb_store := (mb_store b)[r := t]\<rparr>))
      | None \<Rightarrow>
          (case TemporalBatch_Accumulate table mut \<lparr>tp_Time = mut_Time mut, tp_Data = []\<rparr> of
             Inl e \<Rightarrow> Inl e
           | Inr t \<Rightarrow>
               let r = length (mb_store b); store = mb_store b @ [t]; refs = mb_Data b @ [r]
               in Inr \<lparr>mb_store = store, mb_ByTime = (mb_ByTime b)(mut_Time mut \<mapsto> r),
                       mb_Data = (if length refs > 1 then SortSlice (MultiBatch_Less store) refs else refs)\<rparr>))"

definition temporal_batches :: "MultiBatch \<Rightarrow> TemporalBatch list" where
  "temporal_batches b = map (\<lambda>r. mb_store b ! r) (mb_Data b)"

fun copy_temporals :: "('e, 's) accumulator \<Rightarrow> TemporalBatch list \<Rightarrow> 's \<Rightarrow> ('e, 's) result" where
  "copy_temporals acc [] st = Inr st"
| "copy_temporals acc (b # bs) st =
     (case TemporalBatch_CopyInto acc b st of Inl e \<Rightarrow> Inl e | Inr st' \<Rightarrow> copy_temporals acc bs st')"

definition MultiBatch_CopyInto :: "('e, 's) accumulator \<Rightarrow> MultiBatch \<Rightarrow> 's \<Rightarrow> ('e, 's) result" where
  "MultiBatch_CopyInto acc b st = copy_temporals acc (temporal_batches b) st"

definition MultiBatch_Count :: "MultiBatch \<Rightarrow> nat" where
  "MultiBatch_Count b = sum_list (map TemporalBatch_Count (temporal_batches b))"

text \<open>A deep copy allocates fresh temporal batches in the order of \<open>Data\<close>.\<close>

definition MultiBatch_Copy :: "MultiBatch \<Rightarrow> MultiBatch" where
  "MultiBatch_Copy b =
     \<lparr>mb_store = temporal_batches b,
      mb_ByTime = map_of (map (\<lambda>(i, t). (tp_Time t, i)) (rev (enumerate 0 (temporal_batches b)))),
      mb_Data = [0..<length (mb_Data b)]\<rparr>"

definition Flatten_acc :: "Table \<Rightarrow> Mutation \<Rightarrow> Mutation list \<Rightarrow> (batch_error, Mutation list) result" where
  "Flatten_acc table mut ret = Inr (ret @ [mut])"

definition Flatten :: "MultiBatch \<Rightarrow> (batch_error, Mutation list) result" where
  "Flatten b = MultiBatch_CopyInto Flatten_acc b []"

definition FlattenByTable_acc ::
  "Table \<Rightarrow> Mutation \<Rightarrow> (Table, Mutation list) imap \<Rightarrow> (batch_error, (Table, Mutation list) imap) result" where
  "FlattenByTable_acc table mut ret =
     Inr (imap_Put Table_Canonical table (imap_GetZero [] Table_Canonical ret table @ [mut]) ret)"

definition FlattenByTable :: "MultiBatch \<Rightarrow> (batch_error, (Table, Mutation list) imap) result" where
  "FlattenByTable b = MultiBatch_CopyInto FlattenByTable_acc b []"

section \<open>Deduplication is correct\<close>

text \<open>The reference: fold the elements from the right, keeping one element per key.\<close>

fun uniq_ref :: "('e \<Rightarrow> 'c) \<Rightarrow> ('e \<Rightarrow> 'e \<Rightarrow> 'e) \<Rightarrow> 'e list \<Rightarrow> 'e list" where
  "uniq_ref key pick [] = []"
| "uniq_ref key pick (x # xs) =
     (let r = uniq_ref key pick xs
      in if key x \<in> key ` set r then map (\<lambda>y. if key y = key x then pick y x else y) r else x # r)"

definition key_stable :: "('e \<Rightarrow> 'c) \<Rightarrow> ('e \<Rightarrow> 'e \<Rightarrow> 'e) \<Rightarrow> bool" where
  "key_stable key pick \<longleftrightarrow> (\<forall>a b. key a = key b \<longrightarrow> key (pick a b) = key a)"

lemma uniq_ref_map_key:
  "key_stable key pick \<Longrightarrow> map key (uniq_ref key pick xs) = remdups (map key xs)"
proof (induction xs)
  case (Cons x xs)
  have "map (key \<circ> (\<lambda>y. if key y = key x then pick y x else y)) r = map key r" for r
    using Cons.prems by (auto simp: key_stable_def)
  moreover have "key ` set (uniq_ref key pick xs) = key ` set xs"
    using Cons by (metis list.set_map set_remdups)
  ultimately show ?case using Cons by (simp add: Let_def del: map_eq_conv)
qed simp

lemma map_update_single:
  assumes "distinct (map key r)" "j < length r"
  shows "map (\<lambda>y. if key y = key (r ! j) then f y else y) r = r[j := f (r ! j)]"
  using assms by (intro nth_equalityI) (auto simp: nth_list_update distinct_conv_nth)

lemma seen_extend:
  assumes seen: "\<And>k i. seen k = Some i \<longleftrightarrow> dest \<le> i \<and> i < length x \<and> key (x ! i) = k"
    and none: "seen (key e) = None" and dest: "0 < dest" "dest \<le> length x"
  shows "(seen(key e \<mapsto> dest - 1)) k = Some j \<longleftrightarrow>
    dest - 1 \<le> j \<and> j < length (x[dest - 1 := e]) \<and> key (x[dest - 1 := e] ! j) = k"
proof (cases "j = dest - 1")
  case True
  have "\<not> dest \<le> j" using True dest by linarith
  then have "seen k \<noteq> Some j" using seen [of k j] by blast
  then show ?thesis using True dest by auto
next
  case False
  then have "dest - 1 \<le> j \<longleftrightarrow> dest \<le> j" by auto
  then show ?thesis using seen [of k j] none False by (cases "k = key e") auto
qed

lemma unique_loop_ref:
  assumes stable: "key_stable key pick"
    and kf: "\<And>e. e \<in> set xs \<Longrightarrow> keyFn e = Inr (key e)"
  shows "\<lbrakk>length x = length xs; n \<le> dest; dest \<le> length x; take n x = take n xs;
      drop dest x = uniq_ref key pick (drop n xs);
      \<And>k i. seen k = Some i \<longleftrightarrow> dest \<le> i \<and> i < length x \<and> key (x ! i) = k\<rbrakk>
    \<Longrightarrow> unique_loop keyFn pick x n dest seen = Inr (uniq_ref key pick xs)"
proof (induction n arbitrary: x dest seen)
  case (Suc src)
  let ?e = "xs ! src" and ?r = "drop dest x"
  have src: "src < length xs" "src < dest" using Suc.prems by auto
  have x_src: "x ! src = ?e" using Suc.prems(4) by (metis lessI nth_take)
  have key: "keyFn (x ! src) = Inr (key ?e)" using kf src x_src by simp
  have d: "drop src xs = ?e # drop (Suc src) xs" using src by (simp add: Cons_nth_drop_Suc)
  have dist: "distinct (map key ?r)"
    unfolding Suc.prems(5) uniq_ref_map_key [OF stable] by simp
  have tk: "take src x = take src xs" using Suc.prems(4) by (metis lessI min.strict_order_iff take_take)
  show ?case
  proof (cases "seen (key ?e)")
    case (Some i)
    then have i: "dest \<le> i" "i < length x" "key (x ! i) = key ?e" using Suc.prems(6) by auto
    let ?x = "x[i := pick (x ! i) ?e]"
    have nth: "?r ! (i - dest) = x ! i" "i - dest < length ?r" using i by auto
    have "drop dest ?x = ?r[i - dest := pick (x ! i) ?e]" using i by (simp add: drop_update_swap)
    also have "\<dots> = map (\<lambda>y. if key y = key ?e then pick y ?e else y) ?r"
      using map_update_single [OF dist nth(2), of "\<lambda>y. pick y ?e"] nth i by simp
    also have "\<dots> = uniq_ref key pick (drop src xs)"
    proof -
      have "key ?e \<in> key ` set ?r" using nth i by (metis image_eqI nth_mem)
      then show ?thesis unfolding d using Suc.prems(5) by (simp add: Let_def)
    qed
    finally have r: "drop dest ?x = uniq_ref key pick (drop src xs)" .
    have "seen k = Some j \<longleftrightarrow> dest \<le> j \<and> j < length ?x \<and> key (?x ! j) = k" for k j
      using Suc.prems(6) [of k j] i stable by (auto simp: nth_upd_if key_stable_def)
    then have "unique_loop keyFn pick ?x src dest seen = Inr (uniq_ref key pick xs)"
      using Suc.prems(1,2,3) src i tk r by (intro Suc.IH) auto
    then show ?thesis using Some key x_src by simp
  next
    case None
    let ?x = "x[dest - 1 := ?e]"
    have "dest - 1 < length x" using src Suc.prems by simp
    then have "drop (dest - 1) ?x = ?x ! (dest - 1) # drop (Suc (dest - 1)) ?x"
      by (simp only: Cons_nth_drop_Suc length_list_update)
    then have "drop (dest - 1) ?x = ?e # ?r" using src Suc.prems by simp
    moreover have "key ?e \<notin> key ` set ?r"
    proof
      assume "key ?e \<in> key ` set ?r"
      then obtain j where "j < length ?r" "key (?r ! j) = key ?e" by (auto simp: in_set_conv_nth)
      then have "seen (key ?e) = Some (dest + j)" using Suc.prems(6) by auto
      then show False using None by simp
    qed
    ultimately have r: "drop (dest - 1) ?x = uniq_ref key pick (drop src xs)"
      unfolding d using Suc.prems(5) by (simp add: Let_def)
    have "(seen(key ?e \<mapsto> dest - 1)) k = Some j \<longleftrightarrow> dest - 1 \<le> j \<and> j < length ?x \<and> key (?x ! j) = k" for k j
      by (rule seen_extend) (use Suc.prems(3,6) None src in auto)
    then have "unique_loop keyFn pick ?x src (dest - 1) (seen(key ?e \<mapsto> dest - 1)) = Inr (uniq_ref key pick xs)"
      using Suc.prems(1,2,3) src tk r by (intro Suc.IH) auto
    then show ?thesis using None key x_src by simp
  qed
qed simp

lemma uniqueBy_ref:
  assumes "key_stable key pick" "\<And>e. e \<in> set xs \<Longrightarrow> keyFn e = Inr (key e)"
  shows "uniqueBy keyFn pick xs = Inr (uniq_ref key pick xs)"
  unfolding uniqueBy_def by (rule unique_loop_ref [OF assms(1)]) (simp_all add: assms(2))

text \<open>Which element represents its key: with the later time, the later position on ties.\<close>

lemma uniq_ref_later:
  assumes "\<And>m. m \<in> set xs \<Longrightarrow> valid_time (mut_Time m)" "y \<in> set (uniq_ref mut_Key later_time xs)"
  shows "\<exists>us vs. xs = us @ y # vs
    \<and> (\<forall>u \<in> set us. mut_Key u = mut_Key y \<longrightarrow> mut_Time u \<le> mut_Time y)
    \<and> (\<forall>v \<in> set vs. mut_Key v = mut_Key y \<longrightarrow> mut_Time v < mut_Time y)"
  using assms
proof (induction xs arbitrary: y)
  case (Cons x xs)
  let ?r = "uniq_ref mut_Key later_time xs"
  have ks: "mut_Key ` set ?r = mut_Key ` set xs"
    using uniq_ref_map_key [of mut_Key later_time xs]
    by (metis (no_types, lifting) key_stable_def later_time_def list.set_map set_remdups)
  show ?case
  proof (cases "mut_Key x \<in> mut_Key ` set ?r")
    case True
    then obtain z where z: "z \<in> set ?r" "y = (if mut_Key z = mut_Key x then later_time z x else z)"
      using Cons.prems(2) by (auto simp: Let_def)
    obtain us vs where uv: "xs = us @ z # vs"
      "\<forall>u \<in> set us. mut_Key u = mut_Key z \<longrightarrow> mut_Time u \<le> mut_Time z"
      "\<forall>v \<in> set vs. mut_Key v = mut_Key z \<longrightarrow> mut_Time v < mut_Time z"
      using Cons.IH [OF _ z(1)] Cons.prems(1) by auto
    have val: "valid_time (mut_Time z)" "valid_time (mut_Time x)" using Cons.prems(1) uv(1) by auto
    show ?thesis
    proof (cases "mut_Key z = mut_Key x \<and> mut_Time z < mut_Time x")
      case True
      then have y: "y = x" using z(2) val by (auto simp: later_time_def time_order)
      have "mut_Time v < mut_Time x" if "v \<in> set xs" "mut_Key v = mut_Key x" for v
        using that True uv by fastforce
      then show ?thesis unfolding y by (intro exI2 [of _ "[]" xs]) auto
    next
      case False
      then have "y = z" using z(2) val by (auto simp: later_time_def time_order)
      then show ?thesis using uv False by (intro exI2 [of _ "x # us" vs]) auto
    qed
  next
    case False
    then consider "y = x" | "y \<in> set ?r" using Cons.prems(2) by (auto simp: Let_def)
    then show ?thesis
    proof cases
      case 1
      have "mut_Key v \<noteq> mut_Key x" if "v \<in> set xs" for v
        using that False unfolding ks by (metis image_eqI)
      then show ?thesis using 1 by (intro exI2 [of _ "[]" xs]) auto
    next
      case 2
      then obtain us vs where uv: "xs = us @ y # vs"
        "\<forall>u \<in> set us. mut_Key u = mut_Key y \<longrightarrow> mut_Time u \<le> mut_Time y"
        "\<forall>v \<in> set vs. mut_Key v = mut_Key y \<longrightarrow> mut_Time v < mut_Time y"
        using Cons.IH [OF _ 2] Cons.prems(1) by auto
      moreover have "mut_Key x \<noteq> mut_Key y" using False 2 by auto
      ultimately show ?thesis by (intro exI2 [of _ "x # us" vs]) auto
    qed
  qed
qed simp

lemma uniq_ref_last:
  assumes "y \<in> set (uniq_ref key (\<lambda>e _. e) xs)"
  shows "\<exists>us vs. xs = us @ y # vs \<and> key y \<notin> key ` set vs"
  using assms
proof (induction xs)
  case (Cons x xs)
  let ?r = "uniq_ref key (\<lambda>e _. e) xs"
  have st: "key_stable key (\<lambda>e _. e)" by (simp add: key_stable_def)
  have ks: "key ` set ?r = key ` set xs"
    using uniq_ref_map_key [OF st, of xs] by (metis list.set_map set_remdups)
  have "y \<in> set ?r \<or> y = x \<and> key x \<notin> key ` set ?r"
    using Cons.prems by (auto simp: Let_def split: if_splits)
  then show ?case
  proof
    assume "y \<in> set ?r"
    then obtain us vs where "xs = us @ y # vs" "key y \<notin> key ` set vs" using Cons.IH by blast
    then show ?thesis by (intro exI2 [of _ "x # us" vs]) auto
  next
    assume "y = x \<and> key x \<notin> key ` set ?r"
    then show ?thesis using ks by (intro exI2 [of _ "[]" xs]) auto
  qed
qed simp

text \<open>The printed time never contains a colon, so the combined key determines both parts.\<close>

lemma String_inj:
  assumes "valid_time t" "valid_time u" "String t = String u"
  shows "t = u"
proof -
  have sp: "Split (String x) CHR ''.'' = [show_int (Nanos x), show_int_pad 10 (Logical x)]" for x
    by (simp add: String_def Split_append_sep)
  have eq: "show_int (Nanos t) = show_int (Nanos u)" "show_int_pad 10 (Logical t) = show_int_pad 10 (Logical u)"
    using sp [of t] sp [of u] assms(3) by simp_all
  have p: "ParseInt (show_int (Nanos x)) True = Inr (Nanos x)" "Atoi (show_int_pad 10 (Logical x)) = (Logical x, None)"
    if "valid_time x" for x
  proof -
    show "ParseInt (show_int (Nanos x)) True = Inr (Nanos x)"
      using that by (intro ParseInt_show_int_nonneg) (simp_all add: valid_time_def)
    show "Atoi (show_int_pad 10 (Logical x)) = (Logical x, None)"
      using that by (intro Atoi_show_int_pad) (simp add: valid_time_def in_int64_def)
  qed
  have "Nanos t = Nanos u" using p(1) [OF assms(1)] p(1) [OF assms(2)] eq(1) by (metis sum.inject(2))
  moreover have "Logical t = Logical u" using p(2) [OF assms(1)] p(2) [OF assms(2)] eq(2) by (metis prod.inject)
  ultimately show ?thesis by (simp add: Time.expand)
qed

lemma colon_notin_String: "valid_time t \<Longrightarrow> CHR '':'' \<notin> set (String t)"
proof -
  assume "valid_time t"
  moreover have "\<not> is_digit CHR '':''" by (simp add: is_digit_def)
  ultimately show ?thesis
    using show_nat_digits pad_zero_digits
    by (auto simp: String_def show_int_def show_int_pad_def valid_time_def)
qed

lemma time_key_inj:
  assumes "valid_time t" "valid_time u"
  shows "String t @ CHR '':'' # k = String u @ CHR '':'' # j \<longleftrightarrow> t = u \<and> k = j"
proof
  assume a: "String t @ CHR '':'' # k = String u @ CHR '':'' # j"
  have split: "takeWhile (\<lambda>c. c \<noteq> CHR '':'') (String x @ CHR '':'' # l) = String x"
    "dropWhile (\<lambda>c. c \<noteq> CHR '':'') (String x @ CHR '':'' # l) = CHR '':'' # l" if "valid_time x" for x l
    using colon_notin_String [OF that] by (subst takeWhile_append2 dropWhile_append2; auto)+
  have "String t = String u" "k = j"
    using split [OF assms(1), of k] split [OF assms(2), of j] a by auto
  then show "t = u \<and> k = j" using String_inj [OF assms] by simp
qed simp

section \<open>Windows cover the range\<close>

definition record_window :: "nat \<Rightarrow> nat \<Rightarrow> (nat \<times> nat) list \<Rightarrow> ('e, (nat \<times> nat) list) result" where
  "record_window b e ws = Inr (ws @ [(b, e)])"

lemma window_loop_covers:
  assumes "0 < bs"
  shows "\<exists>ws. window_loop record_window bs cnt idx acc = Some (Inr (acc @ ws) :: ('e, (nat \<times> nat) list) result)
    \<and> concat (map (\<lambda>(b, e). [b..<e]) ws) = [idx..<idx + cnt]
    \<and> (\<forall>(b, e) \<in> set ws. e - b \<le> bs \<and> b \<le> e)"
  using assms
proof (induction cnt arbitrary: bs idx acc rule: less_induct)
  case (less cnt)
  show ?case
  proof (cases "bs < cnt")
    case True
    obtain ws where ws: "window_loop record_window bs (cnt - bs) (idx + bs) (acc @ [(idx, idx + bs)])
        = Some (Inr ((acc @ [(idx, idx + bs)]) @ ws) :: ('e, (nat \<times> nat) list) result)"
      "concat (map (\<lambda>(b, e). [b..<e]) ws) = [idx + bs..<idx + bs + (cnt - bs)]"
      "\<forall>(b, e) \<in> set ws. e - b \<le> bs \<and> b \<le> e"
      using less.IH [of "cnt - bs" bs "idx + bs" "acc @ [(idx, idx + bs)]"] True less.prems by auto
    have "[idx..<idx + cnt] = [idx..<idx + bs] @ [idx + bs..<idx + bs + (cnt - bs)]"
      using True upt_add_eq_append [of idx "idx + bs" "cnt - bs"] by simp
    then show ?thesis
      using ws True by (subst window_loop.simps)
        (intro exI [of _ "(idx, idx + bs) # ws"], simp add: record_window_def Let_def)
  next
    case False
    then show ?thesis
      by (subst window_loop.simps)
        (intro exI [of _ "[(idx, idx + cnt)]"], simp add: record_window_def Let_def min_def)
  qed
qed

section \<open>Batches keep their order invariants\<close>

definition temporal_ok :: "TemporalBatch \<Rightarrow> bool" where
  "temporal_ok b \<longleftrightarrow> imap_invar Table_Canonical (tp_Data b) \<and> valid_time (tp_Time b)
     \<and> (\<forall>(t, tb) \<in> set (tp_Data b). wf_table t \<and> tb_Table tb = t \<and> tb_Time tb = tp_Time b
          \<and> (\<forall>m \<in> set (tb_Data tb). mut_Time m = tp_Time b))"

text \<open>The mutations of a batch with the canonical names of their tables.\<close>

definition temporal_muts :: "TemporalBatch \<Rightarrow> (Table \<times> Mutation) multiset" where
  "temporal_muts b = (\<Sum>e \<leftarrow> tp_Data b. mset (map (Pair (Table_Canonical (fst e))) (tb_Data (snd e))))"

definition multi_muts :: "MultiBatch \<Rightarrow> (Table \<times> Mutation) multiset" where
  "multi_muts b = (\<Sum>t \<leftarrow> temporal_batches b. temporal_muts t)"

definition multi_ok :: "MultiBatch \<Rightarrow> bool" where
  "multi_ok b \<longleftrightarrow> distinct (mb_Data b) \<and> set (mb_Data b) = {0..<length (mb_store b)}
     \<and> (\<forall>t r. mb_ByTime b t = Some r \<longleftrightarrow> r < length (mb_store b) \<and> tp_Time (mb_store b ! r) = t)
     \<and> sorted_wrt (\<lambda>i j. tp_Time (mb_store b ! i) < tp_Time (mb_store b ! j)) (mb_Data b)
     \<and> (\<forall>t \<in> set (mb_store b). temporal_ok t)"

lemma Match_SomeD: "imap_Match canon m k = Some (j, v) \<Longrightarrow> (j, v) \<in> set m \<and> canon j = canon k"
  by (induction canon m k rule: imap_Match.induct) (auto split: if_splits)

lemma Match_NoneD: "imap_Match canon m k = None \<Longrightarrow> (\<forall>e \<in> set m. canon (fst e) \<noteq> canon k)"
  by (induction canon m k rule: imap_Match.induct) (auto split: if_splits)

lemma imap_Put_new: "(\<forall>e \<in> set m. canon (fst e) \<noteq> canon k) \<Longrightarrow> imap_Put canon k v m = m @ [(k, v)]"
  by (induction canon k v m rule: imap_Put.induct) auto

lemma imap_Put_replace:
  "\<lbrakk>imap_Match canon m k = Some (j, w); canon j = canon i\<rbrakk> \<Longrightarrow>
   \<exists>us vs. m = us @ (j, w) # vs \<and> imap_Put canon i v m = us @ (i, v) # vs"
proof (induction canon m k rule: imap_Match.induct)
  case (2 canon k' v' m key)
  show ?case
  proof (cases "canon k' = canon key")
    case True
    then show ?thesis using 2 by (intro exI2 [of _ "[]" m]) auto
  next
    case False
    then obtain us vs where "m = us @ (j, w) # vs" "imap_Put canon i v m = us @ (i, v) # vs" using 2 by auto
    moreover have "canon k' \<noteq> canon i" using False 2(2,3) Match_SomeD [of canon m key j w] by auto
    ultimately show ?thesis by (intro exI2 [of _ "(k', v') # us" vs]) auto
  qed
qed simp

lemma TemporalBatch_Accumulate_ok:
  assumes ok: "temporal_ok b" and t: "wf_table table" and time: "mut_Time mut = tp_Time b"
  shows "\<exists>b'. TemporalBatch_Accumulate table mut b = Inr b' \<and> temporal_ok b' \<and> tp_Time b' = tp_Time b
    \<and> temporal_muts b' = add_mset (Table_Canonical table, mut) (temporal_muts b)"
proof (cases "imap_Match Table_Canonical (tp_Data b) table")
  case None
  let ?tb = "\<lparr>tb_Data = [mut], tb_Table = table, tb_Time = tp_Time b\<rparr>"
  let ?b = "b\<lparr>tp_Data := tp_Data b @ [(table, ?tb)]\<rparr>"
  note new = Match_NoneD [OF None]
  have "TemporalBatch_Accumulate table mut b = Inr ?b"
    using None time imap_Put_new [OF new] t table_parts_eq_iff [OF t t]
    by (simp add: TemporalBatch_Accumulate_def TableBatch_Accumulate_def ident_Equal_def
        ident_Compare_parts parts_compare_eq)
  moreover have "temporal_ok ?b"
    using ok t time new by (auto simp: temporal_ok_def imap_invar_def)
  moreover have "temporal_muts ?b = add_mset (Table_Canonical table, mut) (temporal_muts b)"
    by (simp add: temporal_muts_def)
  ultimately show ?thesis by auto
next
  case (Some e)
  obtain k tb where e: "e = (k, tb)" by force
  then have m: "(k, tb) \<in> set (tp_Data b)" "Table_Canonical k = Table_Canonical table"
    using Match_SomeD Some by metis+
  have k: "wf_table k" "tb_Table tb = k" "tb_Time tb = tp_Time b" "\<forall>m \<in> set (tb_Data tb). mut_Time m = tp_Time b"
    using ok m(1) by (auto simp: temporal_ok_def)
  let ?tb = "tb\<lparr>tb_Data := tb_Data tb @ [mut]\<rparr>"
  obtain us vs where uv: "tp_Data b = us @ (k, tb) # vs"
    "imap_Put Table_Canonical k ?tb (tp_Data b) = us @ (k, ?tb) # vs"
    using imap_Put_replace [OF Some [unfolded e], of k ?tb] by auto
  let ?b = "b\<lparr>tp_Data := us @ (k, ?tb) # vs\<rparr>"
  have "TemporalBatch_Accumulate table mut b = Inr ?b"
    using Some e time k m(2) uv(2) table_parts_eq_iff [OF k(1) t]
    by (simp add: TemporalBatch_Accumulate_def TableBatch_Accumulate_def ident_Equal_def
        ident_Compare_parts parts_compare_eq)
  moreover have "temporal_ok ?b"
    using ok k time by (auto simp: temporal_ok_def imap_invar_def uv(1))
  moreover have "temporal_muts ?b = add_mset (Table_Canonical table, mut) (temporal_muts b)"
    by (simp add: temporal_muts_def uv(1) m(2))
  ultimately show ?thesis by auto
qed

lemma multi_okD:
  assumes "multi_ok b"
  shows "distinct (mb_Data b)" "set (mb_Data b) = {0..<length (mb_store b)}"
    "mb_ByTime b t = Some r \<longleftrightarrow> r < length (mb_store b) \<and> tp_Time (mb_store b ! r) = t"
    "sorted_wrt (\<lambda>i j. tp_Time (mb_store b ! i) < tp_Time (mb_store b ! j)) (mb_Data b)"
    "i < length (mb_store b) \<Longrightarrow> temporal_ok (mb_store b ! i)"
  using assms unfolding multi_ok_def by auto

lemma multi_ok_mset: "multi_ok b \<Longrightarrow> mset (temporal_batches b) = mset (mb_store b)"
proof -
  assume ok: "multi_ok b"
  have "mset (mb_Data b) = mset [0..<length (mb_store b)]"
    using multi_okD(1,2) [OF ok] mset_set_set [of "mb_Data b"] by simp
  then have "mset (temporal_batches b) = mset (map (\<lambda>r. mb_store b ! r) [0..<length (mb_store b)])"
    unfolding temporal_batches_def by (metis mset_map)
  then show ?thesis by (simp add: map_nth)
qed

lemma multi_muts_store: "multi_ok b \<Longrightarrow> multi_muts b = sum_mset (image_mset temporal_muts (mset (mb_store b)))"
  unfolding multi_muts_def by (metis multi_ok_mset mset_map sum_mset_sum_list)

lemma multi_times_inj:
  assumes "multi_ok b" "i < length (mb_store b)" "j < length (mb_store b)"
    "tp_Time (mb_store b ! i) = tp_Time (mb_store b ! j)"
  shows "i = j"
  using multi_okD(3) [OF assms(1)] assms(2-4) by (metis option.inject)

lemma wf_table_not_empty: "wf_table t \<Longrightarrow> \<not> Table_Empty t"
  by (cases t) auto

lemma MultiBatch_New_ok: "multi_ok MultiBatch_New" "multi_muts MultiBatch_New = {#}"
  by (auto simp: multi_ok_def MultiBatch_New_def multi_muts_def temporal_batches_def)

lemma sort_refs:
  assumes v: "\<And>i. i \<in> set refs \<Longrightarrow> valid_time (tp_Time (store ! i))"
    and d: "distinct refs" "inj_on (\<lambda>i. tp_Time (store ! i)) (set refs)"
  shows "sorted_wrt (\<lambda>i j. tp_Time (store ! i) < tp_Time (store ! j)) (SortSlice (MultiBatch_Less store) refs)"
proof -
  have lt: "MultiBatch_Less store i j \<longleftrightarrow> tp_Time (store ! i) < tp_Time (store ! j)"
    if "i \<in> set refs" "j \<in> set refs" for i j
    using v that by (simp add: MultiBatch_Less_def time_order)
  have "weak_order_on (set refs) (MultiBatch_Less store)"
    unfolding weak_order_on_def
  proof (intro conjI ballI impI)
    show "\<not> MultiBatch_Less store j i" if "i \<in> set refs" "j \<in> set refs" "MultiBatch_Less store i j" for i j
      using that lt [of i j] lt [of j i] by simp
    show "\<not> MultiBatch_Less store i k"
      if "i \<in> set refs" "j \<in> set refs" "k \<in> set refs" "\<not> MultiBatch_Less store i j" "\<not> MultiBatch_Less store j k" for i j k
      using that lt [of i j] lt [of j k] lt [of i k] by simp
  qed
  then have "sorted_wrt (\<lambda>a b. \<not> MultiBatch_Less store b a) (SortSlice (MultiBatch_Less store) refs)"
    by (rule sorted_SortSlice)
  then have "sorted_wrt (\<lambda>i j. tp_Time (store ! i) \<le> tp_Time (store ! j)) (SortSlice (MultiBatch_Less store) refs)"
    by (rule sorted_wrt_mono_rel [rotated]) (simp add: lt not_less)
  moreover have "distinct (SortSlice (MultiBatch_Less store) refs)"
    using d(1) by (metis mset_SortSlice mset_eq_imp_distinct_iff)
  ultimately show ?thesis
    using d(2) sorted_wrt_strict [of "\<lambda>i. tp_Time (store ! i)"] by simp
qed

lemma MultiBatch_Accumulate_ok:
  assumes ok: "multi_ok b" and t: "wf_table table" and m: "valid_time (mut_Time mut)" "mut_Time mut \<noteq> Zero"
  shows "\<exists>b'. MultiBatch_Accumulate table mut b = Inr b' \<and> multi_ok b'
    \<and> multi_muts b' = add_mset (Table_Canonical table, mut) (multi_muts b)"
proof (cases "mb_ByTime b (mut_Time mut)")
  case (Some r)
  note r = multi_okD(3) [OF ok, THEN iffD1, OF Some]
  obtain u where u: "TemporalBatch_Accumulate table mut (mb_store b ! r) = Inr u" "temporal_ok u"
    "tp_Time u = tp_Time (mb_store b ! r)"
    "temporal_muts u = add_mset (Table_Canonical table, mut) (temporal_muts (mb_store b ! r))"
    using TemporalBatch_Accumulate_ok [OF multi_okD(5) [OF ok] t] r by metis
  let ?b = "b\<lparr>mb_store := (mb_store b)[r := u]\<rparr>"
  have time: "tp_Time ((mb_store b)[r := u] ! i) = tp_Time (mb_store b ! i)" for i
    using u(3) by (simp add: nth_upd_if)
  have "multi_ok ?b"
    using ok u(2) unfolding multi_ok_def by (auto simp: time dest!: set_update_subset_insert [THEN subsetD])
  moreover have "multi_muts ?b = add_mset (Table_Canonical table, mut) (multi_muts b)"
  proof -
    have "mset (mb_store b) = add_mset (mb_store b ! r) (mset (mb_store b) - {# mb_store b ! r #})"
      using r by simp
    then have "multi_muts b = temporal_muts (mb_store b ! r)
        + sum_mset (image_mset temporal_muts (mset (mb_store b) - {# mb_store b ! r #}))"
      unfolding multi_muts_store [OF ok] by (metis image_mset_add_mset sum_mset.insert)
    moreover have "multi_muts ?b = temporal_muts u
        + sum_mset (image_mset temporal_muts (mset (mb_store b) - {# mb_store b ! r #}))"
      using multi_muts_store [OF \<open>multi_ok ?b\<close>] r by (simp add: mset_update)
    ultimately show ?thesis by (simp add: u(4))
  qed
  moreover have "MultiBatch_Accumulate table mut b = Inr ?b"
    using Some u(1) m wf_table_not_empty [OF t] by (simp add: MultiBatch_Accumulate_def)
  ultimately show ?thesis by blast
next
  case None
  obtain u where u: "TemporalBatch_Accumulate table mut \<lparr>tp_Time = mut_Time mut, tp_Data = []\<rparr> = Inr u"
    "temporal_ok u" "tp_Time u = mut_Time mut" "temporal_muts u = {# (Table_Canonical table, mut) #}"
    using TemporalBatch_Accumulate_ok [of "\<lparr>tp_Time = mut_Time mut, tp_Data = []\<rparr>" table mut] t m(1)
    by (auto simp: temporal_ok_def imap_invar_def temporal_muts_def)
  define n where "n = length (mb_store b)"
  define store where "store = mb_store b @ [u]"
  define refs where "refs = mb_Data b @ [n]"
  define data where "data = (if length refs > 1 then SortSlice (MultiBatch_Less store) refs else refs)"
  let ?b = "\<lparr>mb_store = store, mb_ByTime = (mb_ByTime b)(mut_Time mut \<mapsto> n), mb_Data = data\<rparr>"
  have eq: "MultiBatch_Accumulate table mut b = Inr ?b"
    using None u(1) m wf_table_not_empty [OF t]
    by (simp add: MultiBatch_Accumulate_def Let_def n_def store_def refs_def data_def)
  have refs: "distinct refs" "set refs = {0..<Suc n}"
    using multi_okD(1,2) [OF ok] by (auto simp: refs_def n_def)
  have old: "store ! i = mb_store b ! i" if "i < n" for i using that by (simp add: store_def n_def nth_append)
  have nu: "store ! n = u" by (simp add: store_def n_def)
  have fresh: "tp_Time (mb_store b ! i) \<noteq> mut_Time mut" if "i < n" for i
    using multi_okD(3) [OF ok, of "mut_Time mut" i] None that by (auto simp: n_def)
  have inj: "inj_on (\<lambda>i. tp_Time (store ! i)) (set refs)"
    unfolding refs(2)
  proof (rule inj_onI)
    fix i j assume a: "i \<in> {0..<Suc n}" "j \<in> {0..<Suc n}" "tp_Time (store ! i) = tp_Time (store ! j)"
    then consider "i < n" "j < n" | "i = n" "j = n" | "i < n" "j = n" | "i = n" "j < n" by force
    then show "i = j"
      using a(3) old nu fresh u(3) multi_times_inj [OF ok] by cases (auto simp: n_def)
  qed
  have val: "valid_time (tp_Time (store ! i))" if "i \<in> set refs" for i
    using that multi_okD(5) [OF ok, of i] old [of i] nu u(2) unfolding refs(2)
    by (cases "i = n") (auto simp: temporal_ok_def n_def less_Suc_eq)
  have data: "distinct data" "set data = {0..<Suc n}"
    "sorted_wrt (\<lambda>i j. tp_Time (store ! i) < tp_Time (store ! j)) data"
  proof -
    show "distinct data" using refs(1) by (simp add: data_def)
    show "set data = {0..<Suc n}" by (simp add: data_def refs(2))
    show "sorted_wrt (\<lambda>i j. tp_Time (store ! i) < tp_Time (store ! j)) data"
    proof (cases "length refs > 1")
      case True
      then show ?thesis using sort_refs [OF val refs(1) inj] by (simp add: data_def)
    next
      case False
      then show ?thesis by (simp add: data_def refs_def)
    qed
  qed
  have bytime: "((mb_ByTime b)(mut_Time mut \<mapsto> n)) x = Some r \<longleftrightarrow> r < length store \<and> tp_Time (store ! r) = x" for x r
  proof -
    have "mb_ByTime b x = Some r \<longleftrightarrow> r < n \<and> tp_Time (mb_store b ! r) = x"
      using multi_okD(3) [OF ok] by (simp add: n_def)
    moreover have "length store = Suc n" by (simp add: store_def n_def)
    ultimately show ?thesis
      using old [of r] nu u(3) fresh [of r] by (cases "r = n") (auto simp: less_Suc_eq)
  qed
  have "multi_ok ?b"
    unfolding multi_ok_def using data bytime ok u(2) by (auto simp: store_def n_def multi_ok_def)
  moreover have "multi_muts ?b = add_mset (Table_Canonical table, mut) (multi_muts b)"
    using multi_muts_store [OF \<open>multi_ok ?b\<close>] multi_muts_store [OF ok] u(4) by (simp add: store_def)
  ultimately show ?thesis using eq by blast
qed

section \<open>Copying visits the mutations in order\<close>

text \<open>The mutations of a batch, with their tables, in the order in which \<open>CopyInto\<close> visits them.\<close>

definition key_less :: "Mutation \<Rightarrow> Mutation \<Rightarrow> bool" where
  "key_less i j \<longleftrightarrow> StringsCompare (mut_Key i) (mut_Key j) < 0"

definition table_list :: "TableBatch \<Rightarrow> (Table \<times> Mutation) list" where
  "table_list b = map (Pair (tb_Table b)) (SortSlice key_less (tb_Data b))"

definition temporal_list :: "TemporalBatch \<Rightarrow> (Table \<times> Mutation) list" where
  "temporal_list b = concat (map (table_list \<circ> snd) (sorted_tables b))"

definition multi_list :: "MultiBatch \<Rightarrow> (Table \<times> Mutation) list" where
  "multi_list b = concat (map temporal_list (temporal_batches b))"

fun run_acc :: "('e, 's) accumulator \<Rightarrow> (Table \<times> Mutation) list \<Rightarrow> 's \<Rightarrow> ('e, 's) result" where
  "run_acc acc [] st = Inr st"
| "run_acc acc ((t, m) # ms) st = (case acc t m st of Inl e \<Rightarrow> Inl e | Inr st' \<Rightarrow> run_acc acc ms st')"

lemma run_acc_append:
  "run_acc acc (xs @ ys) st = (case run_acc acc xs st of Inl e \<Rightarrow> Inl e | Inr st' \<Rightarrow> run_acc acc ys st')"
  by (induction acc xs st rule: run_acc.induct) (auto split: sum.splits)

lemma accumulate_all_run: "accumulate_all acc t ms st = run_acc acc (map (Pair t) ms) st"
  by (induction acc t ms st rule: accumulate_all.induct) (auto split: sum.splits)

lemma TableBatch_CopyInto_run: "TableBatch_CopyInto acc b st = run_acc acc (table_list b) st"
  by (simp add: TableBatch_CopyInto_def accumulate_all_run table_list_def key_less_def [abs_def])

lemma copy_tables_run: "copy_tables acc bs st = run_acc acc (concat (map table_list bs)) st"
  by (induction acc bs st rule: copy_tables.induct)
     (auto simp: TableBatch_CopyInto_run run_acc_append split: sum.splits)

lemma TemporalBatch_CopyInto_run: "TemporalBatch_CopyInto acc b st = run_acc acc (temporal_list b) st"
  by (simp add: TemporalBatch_CopyInto_def copy_tables_run temporal_list_def o_def)

lemma copy_temporals_run: "copy_temporals acc bs st = run_acc acc (concat (map temporal_list bs)) st"
  by (induction acc bs st rule: copy_temporals.induct)
     (auto simp: TemporalBatch_CopyInto_run run_acc_append split: sum.splits)

lemma MultiBatch_CopyInto_run: "MultiBatch_CopyInto acc b st = run_acc acc (multi_list b) st"
  by (simp add: MultiBatch_CopyInto_def copy_temporals_run multi_list_def)

lemma Flatten_eq: "Flatten b = Inr (map snd (multi_list b))"
proof -
  have "run_acc Flatten_acc ms st = Inr (st @ map snd ms)" for ms st
    by (induction Flatten_acc ms st rule: run_acc.induct) (auto simp: Flatten_acc_def)
  then show ?thesis by (simp add: Flatten_def MultiBatch_CopyInto_run)
qed

text \<open>The order of the visits: by time, then by the raw table name, then by key within a table.\<close>

definition visits_before :: "Table \<times> Mutation \<Rightarrow> Table \<times> Mutation \<Rightarrow> bool" where
  "visits_before p q \<longleftrightarrow> mut_Time (snd p) < mut_Time (snd q)
     \<or> mut_Time (snd p) = mut_Time (snd q)
       \<and> \<not> StringsCompare (Table_Raw (fst q)) (Table_Raw (fst p)) < 0
       \<and> (fst p = fst q \<longrightarrow> \<not> key_less (snd q) (snd p))"

lemma sorted_table_list:
  assumes "\<forall>m \<in> set (tb_Data b). mut_Time m = t"
  shows "sorted_wrt visits_before (table_list b)"
proof -
  have "sorted_wrt (\<lambda>a b. \<not> key_less b a) (SortSlice key_less (tb_Data b))"
    by (rule sorted_SortSlice) (simp add: key_less_def [abs_def] weak_order_strings)
  then show ?thesis
    unfolding table_list_def sorted_wrt_map
    by (rule sorted_wrt_mono_rel [rotated]) (use assms in \<open>auto simp: visits_before_def\<close>)
qed

lemma sorted_temporal_list:
  assumes ok: "temporal_ok b"
  shows "sorted_wrt visits_before (temporal_list b)"
proof -
  let ?lt = "\<lambda>i j. StringsCompare (Table_Raw (fst i)) (Table_Raw (fst j)) < 0"
  have s: "sorted_wrt (\<lambda>a b. \<not> ?lt b a) (sorted_tables b)"
    unfolding sorted_tables_def by (rule sorted_SortSlice) (rule weak_order_strings)
  have set: "set (sorted_tables b) = set (tp_Data b)" by (simp add: sorted_tables_def)
  have "distinct (map fst (sorted_tables b))"
  proof -
    have "distinct (map fst (tp_Data b))"
      using ok by (metis distinct_map imap_invar_def map_map temporal_ok_def)
    then show ?thesis by (simp add: sorted_tables_def distinct_map_SortSlice)
  qed
  then have d: "sorted_wrt (\<lambda>a b. fst a \<noteq> fst b) (sorted_tables b)"
    by (simp add: distinct_sorted_wrt sorted_wrt_map)
  have tb: "tb_Table (snd e) = fst e" "\<forall>m \<in> set (tb_Data (snd e)). mut_Time m = tp_Time b" if "e \<in> set (tp_Data b)" for e
    using ok that by (auto simp: temporal_ok_def)
  have "sorted_wrt (\<lambda>x y. \<forall>p \<in> set (table_list (snd x)). \<forall>q \<in> set (table_list (snd y)). visits_before p q) (sorted_tables b)"
    by (rule sorted_wrt_mono_rel [OF _ sorted_wrt_conj [OF s d]])
       (auto simp: table_list_def visits_before_def tb set)
  then show ?thesis
    unfolding temporal_list_def sorted_wrt_concat
    by (auto simp: sorted_wrt_map set intro!: sorted_table_list [OF tb(2)])
qed

lemma sorted_multi_list:
  assumes ok: "multi_ok b"
  shows "sorted_wrt visits_before (multi_list b)"
proof -
  have tok: "temporal_ok (mb_store b ! r)" if "r \<in> set (mb_Data b)" for r
    using multi_okD(2,5) [OF ok] that by auto
  have time: "mut_Time (snd p) = tp_Time t" if "temporal_ok t" "p \<in> set (temporal_list t)" for t p
    using that by (auto simp: temporal_list_def table_list_def sorted_tables_def temporal_ok_def)
  have "sorted_wrt (\<lambda>i j. \<forall>p \<in> set (temporal_list (mb_store b ! i)). \<forall>q \<in> set (temporal_list (mb_store b ! j)). visits_before p q) (mb_Data b)"
    by (rule sorted_wrt_mono_rel [OF _ multi_okD(4) [OF ok]]) (simp add: visits_before_def time [OF tok])
  then show ?thesis
    unfolding multi_list_def temporal_batches_def sorted_wrt_concat
    using sorted_temporal_list tok by (auto simp: sorted_wrt_map)
qed

lemma mset_temporal_list:
  assumes "temporal_ok b"
  shows "image_mset (\<lambda>p. (Table_Canonical (fst p), snd p)) (mset (temporal_list b)) = temporal_muts b"
proof -
  have "image_mset (\<lambda>p. (Table_Canonical (fst p), snd p)) (mset (concat (map (table_list \<circ> snd) es)))
      = (\<Sum>e \<leftarrow> es. mset (map (Pair (Table_Canonical (fst e))) (tb_Data (snd e))))"
    if "\<forall>e \<in> set es. tb_Table (snd e) = fst e" for es
    using that by (induction es) (auto simp: table_list_def image_mset.compositionality o_def)
  moreover have "\<forall>e \<in> set (sorted_tables b). tb_Table (snd e) = fst e"
    using assms by (auto simp: temporal_ok_def sorted_tables_def)
  moreover have "(\<Sum>e \<leftarrow> sorted_tables b. f e) = (\<Sum>e \<leftarrow> tp_Data b. f e)" for f :: "_ \<Rightarrow> (Table \<times> Mutation) multiset"
    unfolding sorted_tables_def by (rule sum_list_SortSlice)
  ultimately show ?thesis by (simp add: temporal_list_def temporal_muts_def)
qed

lemma mset_multi_list:
  assumes ok: "multi_ok b"
  shows "image_mset (\<lambda>p. (Table_Canonical (fst p), snd p)) (mset (multi_list b)) = multi_muts b"
proof -
  have "image_mset (\<lambda>p. (Table_Canonical (fst p), snd p)) (mset (concat (map temporal_list ts)))
      = (\<Sum>t \<leftarrow> ts. temporal_muts t)" if "\<forall>t \<in> set ts. temporal_ok t" for ts
    using that by (induction ts) (auto simp: mset_temporal_list)
  moreover have "\<forall>t \<in> set (temporal_batches b). temporal_ok t"
    using multi_okD(2,5) [OF ok] by (auto simp: temporal_batches_def)
  ultimately show ?thesis by (simp add: multi_list_def multi_muts_def)
qed

lemma multi_list_snd: "multi_ok b \<Longrightarrow> mset (map snd (multi_list b)) = image_mset snd (multi_muts b)"
  unfolding mset_multi_list [symmetric] by (simp add: image_mset.compositionality o_def)

lemma TemporalBatch_Count_muts: "TemporalBatch_Count t = size (temporal_muts t)"
proof -
  have "sum_list (map (TableBatch_Count \<circ> snd) es)
      = size (\<Sum>e \<leftarrow> es. mset (map (Pair (Table_Canonical (fst e))) (tb_Data (snd e))))" for es
    by (induction es) (auto simp: TableBatch_Count_def)
  then show ?thesis by (simp add: TemporalBatch_Count_def temporal_muts_def)
qed

lemma MultiBatch_Count_muts: "MultiBatch_Count b = size (multi_muts b)"
proof -
  have "sum_list (map TemporalBatch_Count ts) = size (\<Sum>t \<leftarrow> ts. temporal_muts t)" for ts
    by (induction ts) (auto simp: TemporalBatch_Count_muts)
  then show ?thesis by (simp add: MultiBatch_Count_def multi_muts_def)
qed

text \<open>Mutations that a batch accepts: a well-formed table and a valid time other than zero.\<close>

definition good_mut :: "Table \<times> Mutation \<Rightarrow> bool" where
  "good_mut p \<longleftrightarrow> wf_table (fst p) \<and> valid_time (mut_Time (snd p)) \<and> mut_Time (snd p) \<noteq> Zero"

definition good_batch :: "MultiBatch \<Rightarrow> bool" where
  "good_batch b \<longleftrightarrow> multi_ok b \<and> list_all good_mut (multi_list b)"

lemma accumulate_seq_ok:
  "\<lbrakk>multi_ok b; \<forall>p \<in> set ms. good_mut p\<rbrakk> \<Longrightarrow>
   \<exists>b'. run_acc MultiBatch_Accumulate ms b = Inr b' \<and> multi_ok b'
     \<and> multi_muts b' = multi_muts b + mset (map (\<lambda>p. (Table_Canonical (fst p), snd p)) ms)"
proof (induction ms arbitrary: b)
  case (Cons p ms)
  obtain t m where p: "p = (t, m)" by force
  obtain b1 where b1: "MultiBatch_Accumulate t m b = Inr b1" "multi_ok b1"
    "multi_muts b1 = add_mset (Table_Canonical t, m) (multi_muts b)"
    using MultiBatch_Accumulate_ok [OF Cons.prems(1), of t m] Cons.prems(2) by (auto simp: p good_mut_def)
  obtain b2 where "run_acc MultiBatch_Accumulate ms b1 = Inr b2" "multi_ok b2"
    "multi_muts b2 = multi_muts b1 + mset (map (\<lambda>p. (Table_Canonical (fst p), snd p)) ms)"
    using Cons.IH [OF b1(2)] Cons.prems(2) by auto
  then show ?case using b1 by (simp add: p)
qed simp

lemma FlattenByTable_get:
  "\<exists>st'. run_acc FlattenByTable_acc ms st = Inr st'
     \<and> (\<forall>t. imap_GetZero [] Table_Canonical st' t
          = imap_GetZero [] Table_Canonical st t
            @ map snd (filter (\<lambda>p. Table_Canonical (fst p) = Table_Canonical t) ms))"
proof (induction ms arbitrary: st)
  case (Cons p ms)
  obtain t m where p: "p = (t, m)" by force
  let ?st = "imap_Put Table_Canonical t (imap_GetZero [] Table_Canonical st t @ [m]) st"
  have "imap_GetZero [] Table_Canonical ?st u =
      imap_GetZero [] Table_Canonical st u @ (if Table_Canonical t = Table_Canonical u then [m] else [])" for u
  proof -
    have "imap_Get Table_Canonical st t = imap_Get Table_Canonical st u" if "Table_Canonical t = Table_Canonical u"
      using that by (induction st) auto
    then show ?thesis by (simp add: imap_GetZero_def imap_Get_Put)
  qed
  then show ?case using Cons.IH [of ?st] by (auto simp: p FlattenByTable_acc_def)
qed simp

text \<open>The pairs that \<open>UniqueByTimeKey\<close> distinguishes, and its result in terms of them.\<close>

definition time_key :: "Mutation \<Rightarrow> Time \<times> string" where
  "time_key m = (mut_Time m, mut_Key m)"

lemma UniqueByTimeKey_result:
  assumes "\<forall>m \<in> set xs. valid_time (mut_Time m) \<and> mut_Key m \<noteq> []"
  shows "\<exists>ys. UniqueByTimeKey xs = Inr ys \<and> distinct (map time_key ys) \<and> time_key ` set ys = time_key ` set xs
    \<and> (\<forall>y \<in> set ys. \<exists>us vs. xs = us @ y # vs \<and> time_key y \<notin> time_key ` set vs)"
proof -
  let ?key = "\<lambda>m. String (mut_Time m) @ CHR '':'' # mut_Key m"
  let ?ys = "uniq_ref ?key (\<lambda>e _. e) xs"
  have st: "key_stable ?key (\<lambda>e _. e)" by (simp add: key_stable_def)
  have eq: "UniqueByTimeKey xs = Inr ?ys"
    unfolding UniqueByTimeKey_def by (rule uniqueBy_ref [OF st]) (use assms in \<open>simp add: by_time_key_def\<close>)
  have sub: "y \<in> set xs" if "y \<in> set ?ys" for y using uniq_ref_last [OF that] by auto
  have kk: "?key y = ?key m \<longleftrightarrow> time_key y = time_key m" if "y \<in> set xs" "m \<in> set xs" for y m
    using time_key_inj [of "mut_Time y" "mut_Time m"] that assms by (simp add: time_key_def)
  have map: "map ?key ?ys = remdups (map ?key xs)" by (rule uniq_ref_map_key [OF st])
  have "distinct (map ?key ?ys)" unfolding map by simp
  then have "distinct (map time_key ?ys)" by (auto simp: distinct_map inj_on_def time_key_def)
  moreover have "time_key ` set ?ys = time_key ` set xs"
  proof
    show "time_key ` set ?ys \<subseteq> time_key ` set xs" using sub by blast
    show "time_key ` set xs \<subseteq> time_key ` set ?ys"
    proof
      fix p assume "p \<in> time_key ` set xs"
      then obtain m where m: "m \<in> set xs" "p = time_key m" by blast
      have "?key m \<in> set (map ?key ?ys)" unfolding map using m(1) by simp
      then obtain y where y: "y \<in> set ?ys" "?key y = ?key m" by fastforce
      have "time_key y = p" using kk [OF sub [OF y(1)] m(1)] y(2) m(2) by simp
      then show "p \<in> time_key ` set ?ys" using y(1) by blast
    qed
  qed
  moreover have "\<exists>us vs. xs = us @ y # vs \<and> time_key y \<notin> time_key ` set vs" if y: "y \<in> set ?ys" for y
  proof -
    obtain us vs where uv: "xs = us @ y # vs" "?key y \<notin> ?key ` set vs" using uniq_ref_last [OF y] by blast
    then have "time_key y \<notin> time_key ` set vs" by (simp add: image_iff time_key_def) metis
    then show ?thesis using uv(1) by blast
  qed
  ultimately show ?thesis using eq by blast
qed

section \<open>Properties\<close>

text \<open>
  C24: a multi-batch built by any sequence of \<open>Accumulate\<close> calls with well-formed tables and valid times
  contains exactly the accumulated mutations, and \<open>CopyInto\<close> hands all of them to the accumulator
  ordered by time, then by table name, then by key. Both indexes stay consistent throughout.
\<close>

theorem MultiBatch_accumulate_then_copy:
  assumes "\<forall>p \<in> set ms. good_mut p"
  shows "\<exists>b. run_acc MultiBatch_Accumulate ms MultiBatch_New = Inr b \<and> multi_ok b
    \<and> MultiBatch_Count b = length ms
    \<and> (\<forall>acc (st :: 's). (MultiBatch_CopyInto acc b st :: ('e, 's) result) = run_acc acc (multi_list b) st)
    \<and> image_mset (\<lambda>p. (Table_Canonical (fst p), snd p)) (mset (multi_list b))
        = image_mset (\<lambda>p. (Table_Canonical (fst p), snd p)) (mset ms)
    \<and> sorted_wrt visits_before (multi_list b)"
proof -
  obtain b where b: "run_acc MultiBatch_Accumulate ms MultiBatch_New = Inr b" "multi_ok b"
    "multi_muts b = mset (map (\<lambda>p. (Table_Canonical (fst p), snd p)) ms)"
    using accumulate_seq_ok [OF MultiBatch_New_ok(1) assms] by (auto simp: MultiBatch_New_ok)
  then show ?thesis
    using mset_multi_list [OF b(2)] sorted_multi_list [OF b(2)] MultiBatch_Count_muts [of b]
    by (intro exI [of _ b]) (simp add: MultiBatch_CopyInto_run)
qed

text \<open>Witness for C24: two tables and two times, accumulated out of order.\<close>

definition demo_mut :: "string \<Rightarrow> int \<Rightarrow> Mutation" where
  "demo_mut key n = \<lparr>mut_Before = [], mut_Data = ''{}'', mut_Key = key, mut_Meta = [], mut_Time = Time n 0\<rparr>"

definition demo_table :: "string \<Rightarrow> Table" where
  "demo_table name = Table (Schema (Ident ''db'') NilIdent) (Ident name)"

theorem MultiBatch_accumulate_then_copy_witness:
  "\<exists>b. run_acc MultiBatch_Accumulate
      [(demo_table ''t'', demo_mut ''[2]'' 9), (demo_table ''T'', demo_mut ''[1]'' 9), (demo_table ''s'', demo_mut ''[3]'' 5)]
      MultiBatch_New = Inr b \<and> MultiBatch_Count b = 3 \<and> sorted_wrt visits_before (multi_list b)"
proof -
  let ?ms = "[(demo_table ''t'', demo_mut ''[2]'' 9), (demo_table ''T'', demo_mut ''[1]'' 9), (demo_table ''s'', demo_mut ''[3]'' 5)]"
  have good: "\<forall>p \<in> set ?ms. good_mut p"
    by (simp add: good_mut_def demo_table_def demo_mut_def valid_time_def Zero_def)
  have "length ?ms = 3" by simp
  then show ?thesis using MultiBatch_accumulate_then_copy [OF good] by metis
qed

text \<open>A concrete batch of one table.\<close>

definition demo_multi :: "(string \<times> int) list \<Rightarrow> MultiBatch" where
  "demo_multi kts =
     (case run_acc MultiBatch_Accumulate (map (\<lambda>(k, n). (demo_table ''t'', demo_mut k n)) kts) MultiBatch_New of
        Inr b \<Rightarrow> b | Inl _ \<Rightarrow> MultiBatch_New)"

lemma demo_multi_good:
  "good_batch (demo_multi [(''[1]'', 1)])" "good_batch (demo_multi [(''[1]'', 2), (''[2]'', 2)])"
proof -
  have ok: "multi_ok (demo_multi kts)" if "\<forall>(k, n) \<in> set kts. n > 0 \<and> n < 100" for kts
  proof -
    have "\<forall>q \<in> set (map (\<lambda>(k, n). (demo_table ''t'', demo_mut k n)) kts). good_mut q"
      using that by (auto simp: good_mut_def demo_table_def demo_mut_def valid_time_def Zero_def)
    from accumulate_seq_ok [OF MultiBatch_New_ok(1) this] show ?thesis
      by (auto simp: demo_multi_def)
  qed
  have lists: "multi_list (demo_multi [(''[1]'', 1)]) = [(demo_table ''t'', demo_mut ''[1]'' 1)]"
    "multi_list (demo_multi [(''[1]'', 2), (''[2]'', 2)]) = [(demo_table ''t'', demo_mut ''[1]'' 2), (demo_table ''t'', demo_mut ''[2]'' 2)]"
    by code_simp+
  show "good_batch (demo_multi [(''[1]'', 1)])" "good_batch (demo_multi [(''[1]'', 2), (''[2]'', 2)])"
    using ok [of "[(''[1]'', 1)]"] ok [of "[(''[1]'', 2), (''[2]'', 2)]"] lists
    by (simp_all add: good_batch_def good_mut_def demo_table_def demo_mut_def valid_time_def Zero_def)
qed

text \<open>
  C27: \<open>UniqueByKey\<close> keeps one mutation per key, in the order of last occurrence: the one with the latest
  time and, among those, the last in the input. It panics exactly when a key is empty.
\<close>

theorem UniqueByKey_keeps_latest:
  assumes "\<forall>m \<in> set xs. valid_time (mut_Time m) \<and> mut_Key m \<noteq> []"
  shows "\<exists>ys. UniqueByKey xs = Inr ys \<and> map mut_Key ys = remdups (map mut_Key xs)
    \<and> (\<forall>y \<in> set ys. \<exists>us vs. xs = us @ y # vs
         \<and> (\<forall>u \<in> set us. mut_Key u = mut_Key y \<longrightarrow> mut_Time u \<le> mut_Time y)
         \<and> (\<forall>v \<in> set vs. mut_Key v = mut_Key y \<longrightarrow> mut_Time v < mut_Time y))"
proof -
  have st: "key_stable mut_Key later_time" by (simp add: key_stable_def later_time_def)
  have "UniqueByKey xs = Inr (uniq_ref mut_Key later_time xs)"
    unfolding UniqueByKey_def by (rule uniqueBy_ref [OF st]) (use assms in \<open>simp add: by_key_def\<close>)
  then show ?thesis
    using uniq_ref_map_key [OF st, of xs] uniq_ref_later [of xs] assms by blast
qed

text \<open>Witness for C27: the same key at times 3, 8 and 5.\<close>

theorem UniqueByKey_keeps_latest_witness:
  "\<exists>ys. UniqueByKey [demo_mut ''[1]'' 3, demo_mut ''[1]'' 8, demo_mut ''[2]'' 4, demo_mut ''[1]'' 5] = Inr ys
     \<and> map mut_Key ys = [''[2]'', ''[1]'']"
  using UniqueByKey_keeps_latest [of "[demo_mut ''[1]'' 3, demo_mut ''[1]'' 8, demo_mut ''[2]'' 4, demo_mut ''[1]'' 5]"]
  by (auto simp: demo_mut_def valid_time_def)

text \<open>
  \<open>UniqueByTimeKey\<close> keeps the last mutation of every (time, key) pair and nothing else; the textual
  key it builds never identifies different pairs.
\<close>

theorem UniqueByTimeKey_keeps_last:
  assumes "\<forall>m \<in> set xs. valid_time (mut_Time m) \<and> mut_Key m \<noteq> []"
  shows "\<exists>ys. UniqueByTimeKey xs = Inr ys
    \<and> (\<forall>m \<in> set xs. \<exists>y \<in> set ys. mut_Time y = mut_Time m \<and> mut_Key y = mut_Key m)
    \<and> (\<forall>y \<in> set ys. \<exists>us vs. xs = us @ y # vs \<and> (\<forall>v \<in> set vs. (mut_Time v, mut_Key v) \<noteq> (mut_Time y, mut_Key y)))"
proof -
  obtain ys where ys: "UniqueByTimeKey xs = Inr ys" "time_key ` set ys = time_key ` set xs"
    "\<forall>y \<in> set ys. \<exists>us vs. xs = us @ y # vs \<and> time_key y \<notin> time_key ` set vs"
    using UniqueByTimeKey_result [OF assms] by blast
  have "\<exists>y \<in> set ys. mut_Time y = mut_Time m \<and> mut_Key y = mut_Key m" if "m \<in> set xs" for m
  proof -
    have "time_key m \<in> time_key ` set ys" using that ys(2) by simp
    then show ?thesis by (auto simp: time_key_def)
  qed
  moreover have "\<exists>us vs. xs = us @ y # vs \<and> (\<forall>v \<in> set vs. (mut_Time v, mut_Key v) \<noteq> (mut_Time y, mut_Key y))"
    if "y \<in> set ys" for y
  proof -
    obtain us vs where "xs = us @ y # vs" "time_key y \<notin> time_key ` set vs" using ys(3) \<open>y \<in> set ys\<close> by blast
    then show ?thesis by (intro exI2 [of _ us vs]) (auto simp: time_key_def image_iff)
  qed
  ultimately show ?thesis using ys(1) by blast
qed

text \<open>An instance.\<close>

theorem UniqueByTimeKey_keeps_last_witness:
  "\<exists>ys. UniqueByTimeKey [demo_mut ''[1]'' 3, demo_mut ''[1]'' 3, demo_mut ''[1]'' 5] = Inr ys \<and> ys \<noteq> []"
  using UniqueByTimeKey_keeps_last [of "[demo_mut ''[1]'' 3, demo_mut ''[1]'' 3, demo_mut ''[1]'' 5]"]
  by (auto simp: demo_mut_def valid_time_def)

text \<open>
  With a positive batch size, \<open>Window\<close> returns after calling its callback on consecutive windows that
  cover the range from zero to the count exactly once, none larger than the batch size.
\<close>

theorem Window_covers_range:
  assumes "0 < batchSize"
  shows "\<exists>ws. Window batchSize cnt record_window [] = Some (Inr ws)
    \<and> concat (map (\<lambda>(b, e). [b..<e]) ws) = [0..<cnt] \<and> (\<forall>(b, e) \<in> set ws. e - b \<le> batchSize)"
  using window_loop_covers [OF assms, of cnt 0 "[]"] unfolding Window_def by fastforce

text \<open>A concrete instance.\<close>

theorem Window_covers_range_witness:
  "\<exists>ws. Window 100 250 record_window [] = Some (Inr ws) \<and> concat (map (\<lambda>(b, e). [b..<e]) ws) = [0..<250]"
  using Window_covers_range [of 100 250] by auto

text \<open>A zero batch size over a non-empty range never returns.\<close>

lemma window_zero_diverges:
  fixes fn :: "nat \<Rightarrow> nat \<Rightarrow> 's \<Rightarrow> ('e, 's) result"
  assumes fn: "\<And>b e s. \<exists>s'. fn b e s = Inr s'"
  shows "0 < cnt \<Longrightarrow> window_loop fn 0 cnt idx st = None"
proof -
  have "0 < cnt \<longrightarrow> bs = 0 \<longrightarrow> (\<forall>b e s. \<exists>s'. f b e s = Inr s') \<longrightarrow> False" if "window_loop f bs cnt idx st = Some r"
    for f :: "nat \<Rightarrow> nat \<Rightarrow> 's \<Rightarrow> ('e, 's) result" and bs cnt idx st r
    by (rule window_loop.raw_induct [OF _ that, where P = "\<lambda>f bs cnt _ _ _. 0 < cnt \<longrightarrow> bs = 0 \<longrightarrow> (\<forall>b e s. \<exists>s'. f b e s = Inr s') \<longrightarrow> False"])
      (auto split: sum.splits if_splits, (metis sum.distinct(1))+)
  then show "0 < cnt \<Longrightarrow> window_loop fn 0 cnt idx st = None"
    using fn by (cases "window_loop fn 0 cnt idx st") blast+
qed

end
