(* ===== verification/Staging.thy ===== *)
theory Staging
  imports Batches Retry
begin

text \<open>
  Staging tables for mutations: \<open>src/internal/staging/stage/stage.go\<close> and \<open>gzip.go\<close>. A staging table is
  a list of rows with the primary key (time, key) and the SQL statements are functions on it. The
  compressor of the standard library is an argument.
\<close>

section \<open>Names and compression\<close>

fun Join_with :: "char \<Rightarrow> string list \<Rightarrow> string" where
  "Join_with sep [] = []"
| "Join_with sep [p] = p"
| "Join_with sep (p # q # ps) = p @ sep # Join_with sep (q # ps)"

definition stagingTable :: "Schema \<Rightarrow> Table \<Rightarrow> Table" where
  "stagingTable stagingDB target =
     NewTable stagingDB (ident_New (Join_with (CHR ''_'') (map Ident_Raw (Table_Idents (Table_Canonical target)))))"

definition gzipMinSize :: nat where
  "gzipMinSize = 1024"

definition maybeGZip :: "(string \<Rightarrow> string) \<Rightarrow> string \<Rightarrow> string" where
  "maybeGZip gzip data =
     (if length data \<le> gzipMinSize then data
      else let buf = gzip data in if length buf < length data then buf else data)"

definition maybeGunzip :: "(string \<Rightarrow> ('e, string) result) \<Rightarrow> string \<Rightarrow> ('e, string) result" where
  "maybeGunzip gunzip data =
     (if length data < 2 \<or> data ! 0 \<noteq> CHR 0x1f \<or> data ! 1 \<noteq> CHR 0x8b then Inr data else gunzip data)"

section \<open>The staging table\<close>

definition stubSentinel :: string where
  "stubSentinel = [CHR ''{'', dquote] @ ''__stub__'' @ [dquote] @ '':true}''"

record st_row =
  sr_time :: Time
  sr_key :: string
  sr_mut :: string
  sr_before :: string
  sr_applied :: bool
  sr_applied_at :: "int option"

type_synonym st_table = "st_row list"

definition pk :: "st_row \<Rightarrow> Time \<times> string" where
  "pk r = (sr_time r, sr_key r)"

fun st_get :: "st_table \<Rightarrow> Time \<times> string \<Rightarrow> st_row option" where
  "st_get [] p = None"
| "st_get (r # rs) p = (if pk r = p then Some r else st_get rs p)"

text \<open>The arguments of the insert statements: time, key, data and before.\<close>

type_synonym st_args = "Time \<times> string \<times> string \<times> string"

definition pack_one :: "(string \<Rightarrow> string) \<Rightarrow> Mutation \<Rightarrow> st_args" where
  "pack_one gzip mut =
     (mut_Time mut, mut_Key mut, (if IsDelete mut then ''null'' else maybeGZip gzip (mut_Data mut)), maybeGZip gzip (mut_Before mut))"

definition packArgs :: "(string \<Rightarrow> string) \<Rightarrow> Mutation list \<Rightarrow> st_args list" where
  "packArgs gzip muts = map (pack_one gzip) muts"

fun staged_row :: "st_args \<Rightarrow> st_row" where
  "staged_row (t, k, d, b) = \<lparr>sr_time = t, sr_key = k, sr_mut = d, sr_before = b, sr_applied = False, sr_applied_at = None\<rparr>"

text \<open>\<open>INSERT ... ON CONFLICT DO NOTHING\<close>, with the number of rows inserted.\<close>

definition insert_row :: "st_row \<Rightarrow> st_table \<Rightarrow> st_table" where
  "insert_row r tbl = (if st_get tbl (pk r) = None then tbl @ [r] else tbl)"

definition stageTemplate :: "st_args list \<Rightarrow> st_table \<Rightarrow> st_table \<times> nat" where
  "stageTemplate args tbl =
     (let tbl' = fold (\<lambda>a. insert_row (staged_row a)) args tbl in (tbl', length tbl' - length tbl))"

datatype 'e stage_error = StageDb 'e | StageLoop "'e loop_error" | StagePanic msort_panic | AffectsRowTwice | Diverges

definition stageOneBatch :: "(string \<Rightarrow> string) \<Rightarrow> 'e fate \<Rightarrow> Mutation list \<Rightarrow> st_table \<Rightarrow> st_table \<times> 'e stage_error option" where
  "stageOneBatch gzip fate muts tbl =
     (case apply_fate fate (stageTemplate (packArgs gzip muts)) tbl of
        (tbl', Inl e) \<Rightarrow> (tbl', Some (StageDb e))
      | (tbl', Inr n) \<Rightarrow> (tbl', None))"

section \<open>Staging mutations\<close>

text \<open>
  The windows of the input. In a transaction they are staged one after the other and the first error
  ends the loop; on a pool all of them are started and run in any order, and the first error is
  returned at the end. The fate of a window is a function of its begin.
\<close>

definition slice :: "'a list \<Rightarrow> nat \<times> nat \<Rightarrow> 'a list" where
  "slice xs w = (case w of (b, e) \<Rightarrow> take (e - b) (drop b xs))"

text \<open>A sequential window loop that stops at the first error, keeping the table it leaves.\<close>

fun stage_windows ::
  "(string \<Rightarrow> string) \<Rightarrow> (nat \<Rightarrow> 'e fate) \<Rightarrow> Mutation list \<Rightarrow> (nat \<times> nat) list \<Rightarrow> st_table \<Rightarrow> st_table \<times> 'e stage_error option" where
  "stage_windows gzip fates muts [] tbl = (tbl, None)"
| "stage_windows gzip fates muts (w # ws) tbl =
     (case stageOneBatch gzip (fates (fst w)) (slice muts w) tbl of
        (tbl', Some e) \<Rightarrow> (tbl', Some e)
      | (tbl', None) \<Rightarrow> stage_windows gzip fates muts ws tbl')"

fun stage_concurrent ::
  "(string \<Rightarrow> string) \<Rightarrow> (nat \<Rightarrow> 'e fate) \<Rightarrow> Mutation list \<Rightarrow> (nat \<times> nat) list \<Rightarrow> st_table \<Rightarrow> st_table \<times> 'e stage_error option" where
  "stage_concurrent gzip fates muts [] tbl = (tbl, None)"
| "stage_concurrent gzip fates muts (w # ws) tbl =
     (case stageOneBatch gzip (fates (fst w)) (slice muts w) tbl of
        (tbl', err) \<Rightarrow>
          (case stage_concurrent gzip fates muts ws tbl' of
             (tbl'', err') \<Rightarrow> (tbl'', if err \<noteq> None then err else err')))"

text \<open>
  \<open>Stage\<close>: \<open>reorder\<close> is the order in which the concurrent windows happen to run.
\<close>

definition Stage ::
  "nat \<Rightarrow> (string \<Rightarrow> string) \<Rightarrow> bool \<Rightarrow> ((nat \<times> nat) list \<Rightarrow> (nat \<times> nat) list) \<Rightarrow> (nat \<Rightarrow> 'e fate) \<Rightarrow> Mutation list \<Rightarrow> st_table
   \<Rightarrow> st_table \<times> 'e stage_error option" where
  "Stage batchSize gzip isPool reorder fates muts tbl =
     (case UniqueByTimeKey muts of
        Inl p \<Rightarrow> (tbl, Some (StagePanic p))
      | Inr uniq \<Rightarrow>
          (case Window batchSize (length uniq) record_window [] of
             None \<Rightarrow> (tbl, Some Diverges)
           | Some (Inl e) \<Rightarrow> (tbl, Some e)
           | Some (Inr ws) \<Rightarrow>
               if isPool then stage_concurrent gzip fates uniq (reorder ws) tbl
               else stage_windows gzip fates uniq ws tbl))"

section \<open>Staging behind a pending mutation\<close>

text \<open>The keys of the proposed mutations for which an unapplied mutation is staged.\<close>

definition pending_key :: "st_table \<Rightarrow> string \<Rightarrow> bool" where
  "pending_key tbl k \<longleftrightarrow> (\<exists>r \<in> set tbl. sr_key r = k \<and> \<not> sr_applied r)"

text \<open>An upsert of (time, key, data, before) keeps the applied columns of an existing row.\<close>

fun upsert_args :: "st_args \<Rightarrow> st_table \<Rightarrow> st_table" where
  "upsert_args (t, k, d, b) tbl =
     (if st_get tbl (t, k) = None then tbl @ [staged_row (t, k, d, b)]
      else map (\<lambda>r. if pk r = (t, k) then r\<lparr>sr_mut := d, sr_before := b\<rparr> else r) tbl)"

fun args_key :: "st_args \<Rightarrow> string" where
  "args_key (t, k, d, b) = k"

fun args_pk :: "st_args \<Rightarrow> Time \<times> string" where
  "args_pk (t, k, d, b) = (t, k)"

text \<open>\<open>stageIfExistsTemplate\<close>: the new table and the one-based indices that were staged.\<close>

definition stageIfExistsTemplate :: "st_args list \<Rightarrow> st_table \<Rightarrow> st_table \<times> nat list" where
  "stageIfExistsTemplate args tbl =
     (let chosen = filter (\<lambda>a. pending_key tbl (args_key a)) args
      in (fold upsert_args chosen tbl,
          map (\<lambda>p. fst p + 1) (filter (\<lambda>p. pending_key tbl (args_key (snd p))) (enumerate 0 args))))"

definition drop_indices :: "nat set \<Rightarrow> 'a list \<Rightarrow> 'a list" where
  "drop_indices I xs = map snd (filter (\<lambda>p. fst p \<notin> I) (enumerate 0 xs))"

definition StageIfExists ::
  "(string \<Rightarrow> string) \<Rightarrow> 'e fate \<Rightarrow> Mutation list \<Rightarrow> st_table \<Rightarrow> st_table \<times> ('e stage_error, Mutation list) result" where
  "StageIfExists gzip fate muts tbl =
     (let args = packArgs gzip muts in
      if \<not> distinct (map args_pk (filter (\<lambda>a. pending_key tbl (args_key a)) args)) then (tbl, Inl AffectsRowTwice)
      else case apply_fate fate (stageIfExistsTemplate args) tbl of
        (tbl', Inl e) \<Rightarrow> (tbl', Inl (StageDb e))
      | (tbl', Inr idxs) \<Rightarrow> (tbl', Inr (drop_indices ((\<lambda>i. i - 1) ` set idxs) muts)))"

section \<open>Applied mutations\<close>

definition is_applied :: "st_table \<Rightarrow> Mutation \<Rightarrow> bool" where
  "is_applied tbl mut \<longleftrightarrow> (\<exists>r \<in> set tbl. pk r = (mut_Time mut, mut_Key mut) \<and> sr_applied r)"

definition filterAppliedTemplate :: "Mutation list \<Rightarrow> st_table \<Rightarrow> nat list" where
  "filterAppliedTemplate muts tbl = map (\<lambda>p. fst p + 1) (filter (\<lambda>p. is_applied tbl (snd p)) (enumerate 0 muts))"

text \<open>
  \<open>FilterApplied\<close> reads the rows until the iteration ends. \<open>broken\<close> is the number of rows after which
  the connection fails, if it does: the code does not ask for that error.
\<close>

definition FilterApplied ::
  "'e fate \<Rightarrow> nat option \<Rightarrow> Mutation list \<Rightarrow> st_table \<Rightarrow> ('e stage_error, Mutation list) result" where
  "FilterApplied fate broken muts tbl =
     (case snd (apply_fate fate (\<lambda>tbl. (tbl, filterAppliedTemplate muts tbl)) tbl) of
        Inl e \<Rightarrow> Inl (StageDb e)
      | Inr rows \<Rightarrow>
          let idxs = (case broken of None \<Rightarrow> rows | Some n \<Rightarrow> take n rows);
              applied = (\<lambda>i. i - 1) ` set idxs
          in Inr (if idxs = [] then muts else drop_indices applied muts))"

definition mark_row :: "int \<Rightarrow> Mutation \<Rightarrow> st_table \<Rightarrow> st_table" where
  "mark_row now mut tbl =
     (if st_get tbl (mut_Time mut, mut_Key mut) = None
      then tbl @ [\<lparr>sr_time = mut_Time mut, sr_key = mut_Key mut, sr_mut = stubSentinel, sr_before = [],
                   sr_applied = True, sr_applied_at = Some now\<rparr>]
      else map (\<lambda>r. if pk r = (mut_Time mut, mut_Key mut) then r\<lparr>sr_applied := True, sr_applied_at := Some now\<rparr> else r) tbl)"

definition markAppliedTemplate :: "int \<Rightarrow> Mutation list \<Rightarrow> st_table \<Rightarrow> st_table" where
  "markAppliedTemplate now muts tbl = fold (mark_row now) muts tbl"

definition MarkApplied ::
  "int \<Rightarrow> ('e \<Rightarrow> bool) \<Rightarrow> 'e \<Rightarrow> 'e fate list \<Rightarrow> Mutation list \<Rightarrow> st_table \<Rightarrow> st_table \<times> 'e stage_error option" where
  "MarkApplied now shouldRetry gone fates muts tbl =
     (if \<not> distinct (map (\<lambda>m. (mut_Time m, mut_Key m)) muts) then (tbl, Some AffectsRowTwice)
      else case retry_stmt shouldRetry gone fates (\<lambda>tbl. (markAppliedTemplate now muts tbl, ())) tbl of
        (tbl', Inl e) \<Rightarrow> (tbl', Some (StageLoop e))
      | (tbl', Inr _) \<Rightarrow> (tbl', None))"

definition CountUnapplied :: "Time \<Rightarrow> st_table \<Rightarrow> nat" where
  "CountUnapplied before tbl = length (filter (\<lambda>r. sr_time r < before \<and> \<not> sr_applied r) tbl)"

section \<open>Retiring applied mutations\<close>

definition retireLimit :: nat where
  "retireLimit = 10000"

text \<open>\<open>retireTemplate\<close>: delete the first applied rows of the range; the time of the last one, if any.\<close>

definition retire_rows :: "Time \<Rightarrow> Time \<Rightarrow> nat \<Rightarrow> st_table \<Rightarrow> st_table" where
  "retire_rows lo hi limit tbl = take limit (sort_key sr_time (filter (\<lambda>r. lo \<le> sr_time r \<and> sr_time r \<le> hi \<and> sr_applied r) tbl))"

definition retireTemplate :: "Time \<Rightarrow> Time \<Rightarrow> nat \<Rightarrow> st_table \<Rightarrow> st_table \<times> Time option" where
  "retireTemplate lo hi limit tbl =
     (let d = retire_rows lo hi limit tbl
      in (filter (\<lambda>r. pk r \<notin> pk ` set d) tbl, if d = [] then None else Some (sr_time (last d))))"

text \<open>
  The loop of \<open>Retire\<close>: the fates of its statements, the time it got to. A failed statement ends the
  attempt with its error.
\<close>

lemma retireTemplate_shrinks:
  assumes "retireTemplate lo hi limit tbl = (tbl', Some t)" shows "length tbl' < length tbl"
proof -
  let ?d = "retire_rows lo hi limit tbl"
  have "?d \<noteq> []" using assms by (auto simp: retireTemplate_def Let_def split: if_splits)
  then obtain r where r: "r \<in> set ?d" by (cases ?d) auto
  then have "r \<in> set tbl" by (auto simp: retire_rows_def dest: in_set_takeD)
  moreover have "pk r \<in> pk ` set ?d" using r by simp
  ultimately have "length (filter (\<lambda>r. pk r \<notin> pk ` set ?d) tbl) < length tbl" by (metis length_filter_less)
  then show ?thesis using assms by (auto simp: retireTemplate_def Let_def)
qed

function retire_loop :: "Time \<Rightarrow> Time \<Rightarrow> 'e fate list \<Rightarrow> st_table \<Rightarrow> st_table \<times> 'e fate list \<times> ('e, Time) result" where
  "retire_loop from end fates tbl =
     (if Compare from end < 0 then
        (let fate = (case fates of [] \<Rightarrow> Returns | x # _ \<Rightarrow> x);
             (tbl', r) = apply_fate fate (retireTemplate from end retireLimit) tbl
         in case r of
              Inl e \<Rightarrow> (tbl', tl fates, Inl e)
            | Inr None \<Rightarrow> (tbl', tl fates, Inr from)
            | Inr (Some t) \<Rightarrow> retire_loop t end (tl fates) tbl')
      else (tbl, fates, Inr from))"
  by pat_completeness auto
termination
proof (relation "measure (\<lambda>(_, _, _, tbl). length tbl)", goal_cases)
  case (2 lo hi fates tbl x xa tbl' r b t)
  then have "apply_fate x (retireTemplate lo hi retireLimit) tbl = (tbl', Inr (Some t))" by simp
  then have "retireTemplate lo hi retireLimit tbl = (tbl', Some t)"
    by (cases x) (auto split: prod.splits)
  from retireTemplate_shrinks [OF this] show ?case by simp
qed simp

declare retire_loop.simps [simp del]

record 'e retire_state =
  rt_table :: st_table
  rt_from :: Time
  rt_fates :: "'e fate list"

definition retire_attempt :: "Time \<Rightarrow> 'e retire_state \<Rightarrow> 'e option \<times> 'e retire_state" where
  "retire_attempt end s =
     (case retire_loop (rt_from s) end (rt_fates s) (rt_table s) of
        (tbl, fates, Inl e) \<Rightarrow> (Some e, s\<lparr>rt_table := tbl, rt_fates := fates\<rparr>)
      | (tbl, fates, Inr from) \<Rightarrow>
          (None, \<lparr>rt_table = tbl, rt_from = (if Compare from end < 0 then end else from), rt_fates = fates\<rparr>))"

definition Retire :: "('e \<Rightarrow> bool) \<Rightarrow> Time \<Rightarrow> 'e retire_state \<Rightarrow> 'e retire_state \<times> 'e stage_error option" where
  "Retire shouldRetry end s =
     (case Retry None shouldRetry (retire_attempt end) s of (err, s') \<Rightarrow> (s', map_option StageLoop err))"

section \<open>Rows by key\<close>

lemma st_get_None: "st_get tbl p = None \<longleftrightarrow> p \<notin> pk ` set tbl"
  by (induction tbl) auto

lemma st_get_SomeD: "st_get tbl p = Some r \<Longrightarrow> r \<in> set tbl \<and> pk r = p"
  by (induction tbl) (auto split: if_splits)

lemma st_get_append: "st_get (xs @ ys) p = (case st_get xs p of None \<Rightarrow> st_get ys p | Some r \<Rightarrow> Some r)"
  by (induction xs) auto

lemma st_get_mem: "\<lbrakk>distinct (map pk tbl); r \<in> set tbl\<rbrakk> \<Longrightarrow> st_get tbl (pk r) = Some r"
  by (induction tbl) (auto simp: image_iff)

lemma st_get_map: "(\<And>r. pk (f r) = pk r) \<Longrightarrow> st_get (map f tbl) p = map_option f (st_get tbl p)"
  by (induction tbl) auto

lemma st_get_insert_row:
  "st_get (insert_row r tbl) p = (case st_get tbl p of Some x \<Rightarrow> Some x | None \<Rightarrow> if pk r = p then Some r else None)"
  by (auto simp: insert_row_def st_get_append split: option.splits)

lemma staged_row_pk [simp]: "pk (staged_row a) = args_pk a"
  by (cases a) (simp add: pk_def)

lemma pack_one_pk [simp]: "args_pk (pack_one gzip m) = time_key m"
  by (simp add: pack_one_def time_key_def)

definition insert_all :: "st_args list \<Rightarrow> st_table \<Rightarrow> st_table" where
  "insert_all args tbl = fold (\<lambda>a. insert_row (staged_row a)) args tbl"

lemma st_get_insert_all:
  "st_get (insert_all args tbl) p =
     (case st_get tbl p of Some r \<Rightarrow> Some r | None \<Rightarrow> map_option staged_row (find (\<lambda>a. args_pk a = p) args))"
  unfolding insert_all_def
  by (induction args arbitrary: tbl) (auto simp: st_get_insert_row split: option.splits)

lemma insert_all_distinct: "distinct (map pk tbl) \<Longrightarrow> distinct (map pk (insert_all args tbl))"
  unfolding insert_all_def
  by (induction args arbitrary: tbl) (auto simp: insert_row_def st_get_None)

section \<open>Windows cover the input\<close>

lemma slice_upt: "e \<le> length xs \<or> e \<le> b \<Longrightarrow> slice xs (b, e) = map ((!) xs) [b..<e]"
  by (auto simp: slice_def intro!: nth_equalityI)

lemma slices_concat:
  assumes "concat (map (\<lambda>(b, e). [b..<e]) ws) = [0..<length xs]"
  shows "concat (map (slice xs) ws) = xs"
proof -
  have "e \<le> length xs \<or> e \<le> b" if "(b, e) \<in> set ws" for b e
  proof (rule ccontr)
    assume "\<not> ?thesis"
    then have "e - 1 \<in> set [b..<e]" "\<not> e - 1 < length xs" by auto
    then have "e - 1 \<in> set (concat (map (\<lambda>(b, e). [b..<e]) ws))" using that by force
    then show False unfolding assms using \<open>\<not> e - 1 < length xs\<close> by simp
  qed
  then have eq: "map (slice xs) ws = map (map ((!) xs) \<circ> (\<lambda>(b, e). [b..<e])) ws"
    by (auto simp: slice_upt)
  have "concat (map (slice xs) ws) = map ((!) xs) (concat (map (\<lambda>(b, e). [b..<e]) ws))"
    unfolding eq by (simp add: map_concat)
  then show ?thesis by (simp add: assms map_nth)
qed

lemma stageOneBatch_ok:
  "stageOneBatch gzip fate muts tbl = (tbl', None) \<Longrightarrow> tbl' = insert_all (packArgs gzip muts) tbl"
  by (cases fate) (auto simp: stageOneBatch_def stageTemplate_def insert_all_def Let_def)

lemma insert_all_append: "insert_all (xs @ ys) tbl = insert_all ys (insert_all xs tbl)"
  by (simp add: insert_all_def)

lemma stage_windows_ok:
  "stage_windows gzip fates muts ws tbl = (tbl', None) \<Longrightarrow>
   tbl' = insert_all (packArgs gzip (concat (map (slice muts) ws))) tbl"
proof (induction gzip fates muts ws tbl rule: stage_windows.induct)
  case (2 gzip fates muts w ws tbl)
  then show ?case
    by (auto simp: packArgs_def insert_all_append dest: stageOneBatch_ok split: prod.splits option.splits)
qed (simp add: packArgs_def insert_all_def)

lemma stage_concurrent_ok:
  "stage_concurrent gzip fates muts ws tbl = (tbl', None) \<Longrightarrow>
   tbl' = insert_all (packArgs gzip (concat (map (slice muts) ws))) tbl"
proof (induction gzip fates muts ws tbl arbitrary: tbl' rule: stage_concurrent.induct)
  case (2 gzip fates muts w ws tbl)
  obtain t1 where t1: "stageOneBatch gzip (fates (fst w)) (slice muts w) tbl = (t1, None)"
    "stage_concurrent gzip fates muts ws t1 = (tbl', None)"
    using "2.prems" by (auto split: prod.splits if_splits)
  then show ?case
    using "2.IH" [OF t1(1) [symmetric] t1(2)] stageOneBatch_ok [OF t1(1)] by (simp add: packArgs_def insert_all_append)
qed (simp add: packArgs_def insert_all_def)

lemma distinct_find:
  "\<lbrakk>distinct (map f xs); x \<in> set xs\<rbrakk> \<Longrightarrow> find (\<lambda>a. f a = f x) xs = Some x"
  by (induction xs) (auto simp: image_iff)

lemma find_mset:
  assumes "mset xs = mset ys" "distinct (map f ys)"
  shows "find (\<lambda>a. f a = p) xs = find (\<lambda>a. f a = p) ys"
proof (cases "find (\<lambda>a. f a = p) ys")
  case None
  then have "find (\<lambda>a. f a = p) xs = None" using mset_eq_setD [OF assms(1)] by (simp add: find_None_iff)
  then show ?thesis using None by simp
next
  case (Some y)
  then have y: "y \<in> set ys" "f y = p" by (auto simp: find_Some_iff)
  moreover have "distinct (map f xs)" using assms by (metis mset_eq_imp_distinct_iff mset_map)
  ultimately show ?thesis
    using distinct_find [of f xs y] mset_eq_setD [OF assms(1)] Some by auto
qed

text \<open>The last mutation of a list with a given time and key, as \<open>UniqueByTimeKey\<close> finds it.\<close>

definition last_with :: "Time \<times> string \<Rightarrow> Mutation list \<Rightarrow> Mutation option" where
  "last_with p muts = (case filter (\<lambda>m. time_key m = p) muts of [] \<Rightarrow> None | m # ms \<Rightarrow> Some (last (m # ms)))"

lemma last_with_None: "last_with p muts = None \<longleftrightarrow> p \<notin> time_key ` set muts"
proof -
  have "last_with p muts = None \<longleftrightarrow> filter (\<lambda>m. time_key m = p) muts = []" by (auto simp: last_with_def split: list.splits)
  then show ?thesis by (auto simp: filter_empty_conv)
qed

lemma last_with_decomp:
  assumes "xs = us @ y # vs" "time_key y \<notin> time_key ` set vs"
  shows "last_with (time_key y) xs = Some y"
proof -
  have "filter (\<lambda>m. time_key m = time_key y) vs = []" using assms(2) by (simp add: filter_empty_conv) (metis imageI)
  then have "filter (\<lambda>m. time_key m = time_key y) xs = filter (\<lambda>m. time_key m = time_key y) us @ [y]"
    unfolding assms(1) by simp
  then show ?thesis
    by (cases "filter (\<lambda>m. time_key m = time_key y) us") (simp_all add: last_with_def)
qed

lemma find_last_with:
  assumes "distinct (map time_key ys)" "time_key ` set ys = time_key ` set xs"
    "\<forall>y \<in> set ys. \<exists>us vs. xs = us @ y # vs \<and> time_key y \<notin> time_key ` set vs"
  shows "find (\<lambda>m. time_key m = p) ys = last_with p xs"
proof (cases "p \<in> time_key ` set ys")
  case True
  then obtain y where y: "y \<in> set ys" "time_key y = p" by blast
  have "last_with p xs = Some y" using assms(3) y last_with_decomp by blast
  then show ?thesis using distinct_find [OF assms(1) y(1)] y(2) by simp
next
  case False
  then have "find (\<lambda>m. time_key m = p) ys = None" by (auto simp: find_None_iff)
  moreover have "filter (\<lambda>m. time_key m = p) xs = []" using False unfolding assms(2) by (auto simp: filter_empty_conv)
  ultimately show ?thesis by (simp add: last_with_def)
qed

lemma find_map: "find P (map f xs) = map_option f (find (P \<circ> f) xs)"
  by (induction xs) auto

section \<open>Retiring\<close>

lemma retire_rows_mem:
  "r \<in> set (retire_rows lo hi limit tbl) \<Longrightarrow> r \<in> set tbl \<and> lo \<le> sr_time r \<and> sr_time r \<le> hi \<and> sr_applied r"
  by (auto simp: retire_rows_def dest: in_set_takeD)

lemma sorted_take_drop:
  assumes "sorted (map f c)" "x \<in> set (take n c)" "y \<in> set (drop n c)" shows "f x \<le> f y"
proof -
  have "sorted (map f (take n c) @ map f (drop n c))" using assms(1) by (metis append_take_drop_id map_append)
  then show ?thesis using assms(2,3) by (auto simp: sorted_append)
qed

text \<open>A statement of the loop removes applied rows of the range, and all of those before the time it returns.\<close>

lemma retireTemplate_props:
  assumes "retireTemplate lo hi limit tbl = (tbl', t)" and d: "distinct (map pk tbl)" and limit: "0 < limit"
  shows "set tbl' \<subseteq> set tbl" "distinct (map pk tbl')"
    and "\<And>r. \<lbrakk>r \<in> set tbl; \<not> sr_applied r \<or> sr_time r < lo \<or> hi < sr_time r\<rbrakk> \<Longrightarrow> r \<in> set tbl'"
    and "t = Some u \<Longrightarrow> lo \<le> u \<and> u \<le> hi \<and> u \<in> sr_time ` set tbl \<and> (\<forall>r \<in> set tbl'. sr_applied r \<longrightarrow> lo \<le> sr_time r \<longrightarrow> \<not> sr_time r < u)"
    and "t = None \<Longrightarrow> tbl' = tbl \<and> (\<forall>r \<in> set tbl. sr_applied r \<longrightarrow> lo \<le> sr_time r \<longrightarrow> \<not> sr_time r \<le> hi)"
proof -
  let ?c = "sort_key sr_time (filter (\<lambda>r. lo \<le> sr_time r \<and> sr_time r \<le> hi \<and> sr_applied r) tbl)"
  let ?d = "retire_rows lo hi limit tbl"
  have dd: "?d = take limit ?c" by (simp add: retire_rows_def)
  have t': "tbl' = filter (\<lambda>r. pk r \<notin> pk ` set ?d) tbl" and t: "t = (if ?d = [] then None else Some (sr_time (last ?d)))"
    using assms(1) by (auto simp: retireTemplate_def Let_def)
  have inj: "r = r'" if "pk r = pk r'" "r \<in> set tbl" "r' \<in> set tbl" for r r'
    using that d by (auto simp: distinct_map inj_on_def)
  show "set tbl' \<subseteq> set tbl" "distinct (map pk tbl')" unfolding t' using d by (auto simp: distinct_map_filter)
  show "r \<in> set tbl'" if "r \<in> set tbl" "\<not> sr_applied r \<or> sr_time r < lo \<or> hi < sr_time r" for r
    using that retire_rows_mem inj unfolding t' by (fastforce simp: not_less)
  show "lo \<le> u \<and> u \<le> hi \<and> u \<in> sr_time ` set tbl \<and> (\<forall>r \<in> set tbl'. sr_applied r \<longrightarrow> lo \<le> sr_time r \<longrightarrow> \<not> sr_time r < u)" if "t = Some u"
  proof -
    have ne: "?d \<noteq> []" "u = sr_time (last ?d)" using that t by (auto split: if_splits)
    have "\<not> sr_time r < u" if r: "r \<in> set tbl'" "sr_applied r" "lo \<le> sr_time r" for r
    proof
      assume lt: "sr_time r < u"
      have "u \<le> hi" using ne retire_rows_mem [of "last ?d" lo hi limit tbl] by auto
      then have rc: "r \<in> set ?c" using r lt unfolding t' by auto
      have "r \<notin> set ?d" using r(1) unfolding t' by auto
      then have "r \<in> set (drop limit ?c)" using rc unfolding dd by (metis Un_iff append_take_drop_id set_append)
      moreover have "last ?d \<in> set (take limit ?c)" using ne(1) unfolding dd by (rule last_in_set)
      ultimately have "sr_time (last ?d) \<le> sr_time r" by (intro sorted_take_drop [of sr_time ?c]) simp_all
      then show False using lt ne(2) by simp
    qed
    then show ?thesis using ne retire_rows_mem [of "last ?d" lo hi limit tbl] by auto
  qed
  show "tbl' = tbl \<and> (\<forall>r \<in> set tbl. sr_applied r \<longrightarrow> lo \<le> sr_time r \<longrightarrow> \<not> sr_time r \<le> hi)" if "t = None"
  proof -
    have e: "?d = []" using that t by (auto split: if_splits)
    then have "?c = []" using limit unfolding dd by simp
    then have "filter (\<lambda>r. lo \<le> sr_time r \<and> sr_time r \<le> hi \<and> sr_applied r) tbl = []"
      by (metis length_0_conv length_sort)
    then show ?thesis using e unfolding t' by (auto simp: filter_empty_conv)
  qed
qed

text \<open>
  The loop as a whole: it stays inside the range, removes every applied row of it before the time it
  returns, and keeps every other row.
\<close>

definition retired_between :: "Time \<Rightarrow> Time \<Rightarrow> st_table \<Rightarrow> st_table \<Rightarrow> bool" where
  "retired_between lo hi tbl tbl' \<longleftrightarrow> set tbl' \<subseteq> set tbl \<and> distinct (map pk tbl')
     \<and> (\<forall>r \<in> set tbl. \<not> sr_applied r \<or> sr_time r < lo \<or> hi < sr_time r \<longrightarrow> r \<in> set tbl')"

lemma retire_loop_props:
  assumes "retire_loop lo hi fates tbl = (tbl', fates', r)" "distinct (map pk tbl)" "valid_time hi" "valid_time lo"
    "\<forall>r \<in> set tbl. valid_time (sr_time r)"
  shows "retired_between lo hi tbl tbl'
    \<and> (\<forall>t. r = Inr t \<longrightarrow> lo \<le> t \<and> valid_time t \<and> (\<forall>x \<in> set tbl'. sr_applied x \<longrightarrow> lo \<le> sr_time x \<longrightarrow> \<not> sr_time x < hi))"
  using assms
proof (induction lo hi fates tbl arbitrary: tbl' fates' r rule: retire_loop.induct)
  case (1 lo hi fates tbl)
  let ?fate = "case fates of [] \<Rightarrow> Returns | x # _ \<Rightarrow> x"
  obtain t1 r1 where a: "apply_fate ?fate (retireTemplate lo hi retireLimit) tbl = (t1, r1)"
    by (cases "apply_fate ?fate (retireTemplate lo hi retireLimit) tbl") simp
  obtain t2 u where rt: "retireTemplate lo hi retireLimit tbl = (t2, u)" by (cases "retireTemplate lo hi retireLimit tbl") simp
  note p = retireTemplate_props [OF rt "1.prems"(2), unfolded retireLimit_def, simplified]
  have one: "retired_between lo hi tbl t2" "retired_between lo hi tbl tbl"
    using p(1-3) "1.prems"(2) by (auto simp: retired_between_def)
  have lt: "Compare lo hi < 0 \<longleftrightarrow> lo < hi" using "1.prems"(3,4) by (simp add: time_order)
  show ?case
  proof (cases "lo < hi")
    case False
    then show ?thesis using "1.prems" one(2) lt by (auto simp: retire_loop.simps [of lo])
  next
    case True
    show ?thesis
    proof (cases r1)
      case (Inl e)
      then have "tbl' = t1" "r = Inl e" using "1.prems"(1) True lt a by (auto simp: retire_loop.simps [of lo] Let_def)
      moreover have "t1 = tbl \<or> t1 = t2" using a rt by (cases ?fate) auto
      ultimately show ?thesis using one by auto
    next
      case (Inr o1)
      then have o1: "t1 = t2" "o1 = u" using a rt by (cases ?fate; auto)+
      show ?thesis
      proof (cases u)
        case None
        then have "tbl' = t2" "r = Inr lo" using "1.prems"(1) True lt a Inr o1 by (auto simp: retire_loop.simps [of lo] Let_def)
        then show ?thesis using one(1) p(5) [OF None] "1.prems"(4) by (auto simp: not_le)
      next
        case (Some t)
        have a': "apply_fate ?fate (retireTemplate lo hi retireLimit) tbl = (t2, Inr (Some t))"
          using a Inr o1 Some by simp
        have loop: "retire_loop t hi (tl fates) t2 = (tbl', fates', r)"
          using "1.prems"(1) True lt a Inr o1 Some by (auto simp: retire_loop.simps [of lo] Let_def)
        have t: "lo \<le> t" "t \<le> hi" "t \<in> sr_time ` set tbl" "\<forall>r \<in> set t2. sr_applied r \<longrightarrow> lo \<le> sr_time r \<longrightarrow> \<not> sr_time r < t"
          using p(4) [OF Some] by auto
        have vt: "valid_time t" using t(3) "1.prems"(5) by auto
        have IH: "retired_between t hi t2 tbl'
            \<and> (\<forall>u. r = Inr u \<longrightarrow> t \<le> u \<and> valid_time u \<and> (\<forall>x \<in> set tbl'. sr_applied x \<longrightarrow> t \<le> sr_time x \<longrightarrow> \<not> sr_time x < hi))"
          by (rule "1.IH" [OF _ refl a' [symmetric] refl refl refl loop p(2) "1.prems"(3) vt])
             (use True lt p(1) "1.prems"(5) in auto)
        moreover have "retired_between lo hi tbl tbl'"
          using IH one(1) t(1) unfolding retired_between_def by (meson order.strict_trans2 subset_trans)
        moreover have "\<not> sr_time x < hi" if "r = Inr u" "x \<in> set tbl'" "sr_applied x" "lo \<le> sr_time x" for u x
        proof (cases "t \<le> sr_time x")
          case True
          then show ?thesis using IH that by blast
        next
          case False
          have "x \<in> set t2" using IH that(2) by (auto simp: retired_between_def)
          then show ?thesis using False t(4) that(3,4) by auto
        qed
        moreover have "lo \<le> u \<and> valid_time u" if "r = Inr u" for u
          using IH that t(1) by (auto intro: order.trans)
        ultimately show ?thesis by blast
      qed
    qed
  qed
qed

lemma drop_indices_empty: "drop_indices {} xs = xs"
  by (simp add: drop_indices_def)

lemma drop_indices_filter:
  "drop_indices ((\<lambda>i. i - 1) ` set (map (\<lambda>p. fst p + 1) (filter (\<lambda>p. Q (snd p)) (enumerate 0 xs)))) xs = filter (\<lambda>x. \<not> Q x) xs"
proof -
  have idx: "(\<lambda>i. i - 1) ` set (map (\<lambda>p. fst p + 1) (filter (\<lambda>p. Q (snd p)) (enumerate 0 xs))) = {i. i < length xs \<and> Q (xs ! i)}"
    by (force simp: in_set_enumerate_eq image_iff)
  have "map snd (filter (\<lambda>p. fst p \<notin> {i. i < length xs \<and> Q (xs ! i)}) (enumerate 0 xs))
      = map snd (filter (\<lambda>p. \<not> Q (snd p)) (enumerate 0 xs))"
    by (rule arg_cong [where f = "map snd"], rule filter_cong) (auto simp: in_set_enumerate_eq)
  also have "\<dots> = filter (\<lambda>x. \<not> Q x) (map snd (enumerate 0 xs))" by (simp only: filter_map o_def)
  finally show ?thesis unfolding drop_indices_def idx by simp
qed

section \<open>Marking rows\<close>

definition applied_at :: "int \<Rightarrow> Mutation \<Rightarrow> st_row option \<Rightarrow> st_row" where
  "applied_at now m o1 = (case o1 of
      Some r \<Rightarrow> r\<lparr>sr_applied := True, sr_applied_at := Some now\<rparr>
    | None \<Rightarrow> \<lparr>sr_time = mut_Time m, sr_key = mut_Key m, sr_mut = stubSentinel, sr_before = [], sr_applied = True, sr_applied_at = Some now\<rparr>)"

lemma st_get_mark_row:
  "st_get (mark_row now m t) p = (if p = time_key m then Some (applied_at now m (st_get t p)) else st_get t p)"
proof -
  let ?f = "\<lambda>r. if pk r = (mut_Time m, mut_Key m) then r\<lparr>sr_applied := True, sr_applied_at := Some now\<rparr> else r"
  have "st_get (map ?f t) p = map_option ?f (st_get t p)" by (rule st_get_map) (simp add: pk_def)
  then show ?thesis
    by (auto simp: mark_row_def st_get_append time_key_def pk_def applied_at_def split: option.splits dest: st_get_SomeD)
qed

lemma mark_row_distinct: "distinct (map pk t) \<Longrightarrow> distinct (map pk (mark_row now m t))"
proof -
  let ?f = "\<lambda>r. if pk r = (mut_Time m, mut_Key m) then r\<lparr>sr_applied := True, sr_applied_at := Some now\<rparr> else r"
  have "map pk (map ?f t) = map pk t" by (induction t) (auto simp: pk_def)
  then show "distinct (map pk t) \<Longrightarrow> distinct (map pk (mark_row now m t))"
    by (auto simp: mark_row_def st_get_None pk_def simp del: map_map)
qed

lemma marked_distinct: "distinct (map pk t) \<Longrightarrow> distinct (map pk (fold (mark_row now) ms t))"
  by (induction ms arbitrary: t) (auto simp: mark_row_distinct)

lemma marked_other: "p \<notin> time_key ` set ms \<Longrightarrow> st_get (fold (mark_row now) ms t) p = st_get t p"
  by (induction ms arbitrary: t) (auto simp: st_get_mark_row)

lemma marked_applied:
  "(\<exists>r. st_get (fold (mark_row now) ms t) p = Some r \<and> sr_applied r) \<longleftrightarrow>
   p \<in> time_key ` set ms \<or> (\<exists>r. st_get t p = Some r \<and> sr_applied r)"
  by (induction ms arbitrary: t) (auto simp: st_get_mark_row applied_at_def split: option.splits)

lemma is_applied_get:
  "distinct (map pk tbl) \<Longrightarrow> is_applied tbl m \<longleftrightarrow> (\<exists>r. st_get tbl (mut_Time m, mut_Key m) = Some r \<and> sr_applied r)"
  unfolding is_applied_def by (metis st_get_SomeD st_get_mem)

section \<open>Staging\<close>

lemma Stage_result:
  assumes ok: "Stage batchSize gzip isPool reorder fates muts tbl = (tbl', None)"
    and muts: "\<forall>m \<in> set muts. valid_time (mut_Time m) \<and> mut_Key m \<noteq> []"
    and order: "\<And>ws. mset (reorder ws) = mset ws" and size: "0 < batchSize"
  shows "st_get tbl' p = (case st_get tbl p of
      Some r \<Rightarrow> Some r | None \<Rightarrow> map_option (staged_row \<circ> pack_one gzip) (last_with p muts))"
proof -
  obtain uniq where u: "UniqueByTimeKey muts = Inr uniq" "distinct (map time_key uniq)" "time_key ` set uniq = time_key ` set muts"
    "\<forall>y \<in> set uniq. \<exists>us vs. muts = us @ y # vs \<and> time_key y \<notin> time_key ` set vs"
    using UniqueByTimeKey_result [OF muts] by blast
  obtain ws where ws: "Window batchSize (length uniq) record_window [] = Some (Inr ws :: ('a stage_error, _) result)"
    "concat (map (\<lambda>(b, e). [b..<e]) ws) = [0..<length uniq]"
    using window_loop_covers [OF size, of "length uniq" 0 "[]"] unfolding Window_def by fastforce
  have c: "concat (map (slice uniq) ws) = uniq" by (rule slices_concat [OF ws(2)])
  obtain vs where vs: "tbl' = insert_all (packArgs gzip (concat (map (slice uniq) vs))) tbl" "mset vs = mset ws"
    using ok u(1) ws(1) order stage_windows_ok stage_concurrent_ok by (fastforce simp: Stage_def split: if_splits)
  have "mset (concat (map (slice uniq) vs)) = mset uniq"
    using vs(2) c by (metis mset_concat mset_map sum_mset_sum_list)
  then have m: "mset (packArgs gzip (concat (map (slice uniq) vs))) = mset (map (pack_one gzip) uniq)"
    by (simp add: packArgs_def)
  have "find (\<lambda>a. args_pk a = p) (packArgs gzip (concat (map (slice uniq) vs))) = find (\<lambda>a. args_pk a = p) (map (pack_one gzip) uniq)"
    by (rule find_mset [OF m]) (use u(2) in \<open>simp add: o_def\<close>)
  also have "\<dots> = map_option (pack_one gzip) (last_with p muts)"
    using find_last_with [OF u(2-4)] by (simp add: find_map o_def)
  finally show ?thesis unfolding vs(1) st_get_insert_all by (simp add: option.map_comp split: option.splits)
qed

text \<open>Whatever becomes of a \<open>Stage\<close> call, it keeps the rows of the table.\<close>

lemma stageOneBatch_keeps:
  "\<lbrakk>stageOneBatch gzip fate muts tbl = (tbl', err); st_get tbl p = Some r\<rbrakk> \<Longrightarrow> st_get tbl' p = Some r"
  using st_get_insert_all [of "packArgs gzip muts" tbl p]
  by (cases fate) (auto simp: stageOneBatch_def stageTemplate_def insert_all_def Let_def)

lemma stage_loops_keep:
  "\<lbrakk>stage_windows gzip fates muts ws tbl = (tbl', err); st_get tbl p = Some r\<rbrakk> \<Longrightarrow> st_get tbl' p = Some r"
  "\<lbrakk>stage_concurrent gzip fates muts ws tbl = (tbl'', err'); st_get tbl p = Some r\<rbrakk> \<Longrightarrow> st_get tbl'' p = Some r"
  by (induction ws arbitrary: tbl tbl' tbl'' err err')
     (auto split: prod.splits option.splits dest: stageOneBatch_keeps)

lemma Stage_keeps:
  "\<lbrakk>Stage batchSize gzip isPool reorder fates muts tbl = (tbl', err); st_get tbl p = Some r\<rbrakk> \<Longrightarrow> st_get tbl' p = Some r"
  by (auto simp: Stage_def split: sum.splits option.splits if_splits dest: stage_loops_keep)

text \<open>No \<open>Stage\<close> call adds a second row for a time and key.\<close>

lemma stageOneBatch_distinct:
  "\<lbrakk>stageOneBatch gzip fate muts tbl = (tbl', err); distinct (map pk tbl)\<rbrakk> \<Longrightarrow> distinct (map pk tbl')"
  by (cases fate) (auto simp: stageOneBatch_def stageTemplate_def Let_def insert_all_distinct [unfolded insert_all_def])

lemma stage_loops_distinct:
  "\<lbrakk>stage_windows gzip fates muts ws tbl = (tbl', err); distinct (map pk tbl)\<rbrakk> \<Longrightarrow> distinct (map pk tbl')"
  "\<lbrakk>stage_concurrent gzip fates muts ws tbl = (tbl'', err'); distinct (map pk tbl)\<rbrakk> \<Longrightarrow> distinct (map pk tbl'')"
  by (induction ws arbitrary: tbl tbl' tbl'' err err')
     (auto split: prod.splits option.splits dest: stageOneBatch_distinct)

lemma Stage_distinct:
  "\<lbrakk>Stage batchSize gzip isPool reorder fates muts tbl = (tbl', err); distinct (map pk tbl)\<rbrakk> \<Longrightarrow> distinct (map pk tbl')"
  by (auto simp: Stage_def split: sum.splits option.splits if_splits dest: stage_loops_distinct)

lemma st_get_set: "distinct (map pk tbl) \<Longrightarrow> r \<in> set tbl \<longleftrightarrow> st_get tbl (pk r) = Some r"
  using st_get_mem st_get_SomeD by blast

lemma Stage_returns:
  assumes "\<forall>m \<in> set muts. valid_time (mut_Time m) \<and> mut_Key m \<noteq> []" "0 < batchSize"
  shows "\<exists>tbl'. Stage batchSize gzip True reorder (\<lambda>_. Returns :: 'e fate) muts tbl = (tbl', None)"
proof -
  obtain uniq where u: "UniqueByTimeKey muts = Inr uniq" using UniqueByTimeKey_result [OF assms(1)] by blast
  obtain ws where w: "Window batchSize (length uniq) record_window [] = Some (Inr ws :: ('e stage_error, _) result)"
    using window_loop_covers [OF assms(2), of "length uniq" 0 "[]"] unfolding Window_def by fastforce
  have one: "\<exists>t. stageOneBatch gz (Returns :: 'e fate) ms t0 = (t, None)" for gz ms t0
    by (simp add: stageOneBatch_def split: prod.splits)
  have "\<exists>t. stage_concurrent gz (\<lambda>_. Returns :: 'e fate) uniq vs t0 = (t, None)" for gz vs t0
  proof (induction vs arbitrary: t0)
    case (Cons v vs)
    obtain t1 where "stageOneBatch gz (Returns :: 'e fate) (slice uniq v) t0 = (t1, None)" using one by blast
    then show ?case using Cons.IH [of t1] by auto
  qed simp
  then show ?thesis using u w by (fastforce simp: Stage_def)
qed

section \<open>Properties\<close>

text \<open>
  C20: a \<open>Stage\<close> call that reports no error leaves every row that was in the table as it was, adds for each new
  (time, key) pair of the input one unapplied row with the packed data of the last such mutation, and adds nothing
  else; no (time, key) pair has two rows. This is so whatever the window size, the order in which concurrent windows
  run, and the fates.
\<close>

theorem Stage_staged:
  assumes ok: "Stage batchSize gzip isPool reorder fates muts tbl = (tbl', None)"
    and muts: "\<forall>m \<in> set muts. valid_time (mut_Time m) \<and> mut_Key m \<noteq> []"
    and order: "\<And>ws. mset (reorder ws) = mset ws" and size: "0 < batchSize" and key: "distinct (map pk tbl)"
  shows "distinct (map pk tbl') \<and> length tbl' = length tbl + card (time_key ` set muts - pk ` set tbl)
    \<and> (\<forall>p. st_get tbl' p = (case st_get tbl p of
          Some r \<Rightarrow> Some r | None \<Rightarrow> map_option (staged_row \<circ> pack_one gzip) (last_with p muts)))"
proof -
  note get = Stage_result [OF ok muts order size] and d = Stage_distinct [OF ok key]
  have "p \<in> pk ` set tbl' \<longleftrightarrow> p \<in> pk ` set tbl \<union> (time_key ` set muts - pk ` set tbl)" for p
    using get [of p] st_get_None [of tbl' p] st_get_None [of tbl p] last_with_None [of p muts] by (auto split: option.splits)
  then have "pk ` set tbl' = pk ` set tbl \<union> (time_key ` set muts - pk ` set tbl)" by blast
  then have "card (pk ` set tbl') = card (pk ` set tbl) + card (time_key ` set muts - pk ` set tbl)"
    by (simp only:) (rule card_Un_disjoint; auto)
  moreover have "card (pk ` set t) = length t" if "distinct (map pk t)" for t
    using distinct_card [OF that] by simp
  ultimately show ?thesis using get d key by simp
qed

text \<open>Witness for C20: three mutations, two with one time and key, staged on a pool in windows of one, in reverse.\<close>

theorem Stage_staged_witness:
  "\<exists>tbl'. Stage 1 id True rev (\<lambda>_. Returns :: string fate) [demo_mut ''[1]'' 3, demo_mut ''[2]'' 4, demo_mut ''[1]'' 3] [] = (tbl', None)
     \<and> length tbl' = 2 \<and> st_get tbl' (Time 3 0, ''[1]'') = Some (staged_row (pack_one id (demo_mut ''[1]'' 3)))"
proof -
  let ?ms = "[demo_mut ''[1]'' 3, demo_mut ''[2]'' 4, demo_mut ''[1]'' 3]"
  have v: "\<forall>m \<in> set ?ms. valid_time (mut_Time m) \<and> mut_Key m \<noteq> []" by (simp add: demo_mut_def valid_time_def)
  obtain t where t: "Stage 1 id True rev (\<lambda>_. Returns :: string fate) ?ms [] = (t, None)"
    using Stage_returns [OF v] by fastforce
  note st = Stage_staged [OF t v _ _, simplified]
  have "length t = card {(Time 3 0, ''[1]''), (Time 4 0, ''[2]''), (Time 3 0, ''[1]'')}"
    using st by (simp add: time_key_def demo_mut_def)
  also have "\<dots> = 2" by (subst insert_commute) simp
  finally have "length t = 2" .
  moreover have "st_get t (Time 3 0, ''[1]'') = Some (staged_row (pack_one id (demo_mut ''[1]'' 3)))"
    using st by (simp add: last_with_def time_key_def demo_mut_def)
  ultimately show ?thesis using t by blast
qed

text \<open>An upsert keeps what it does not name: the applied columns of a row that exists.\<close>

fun upserted :: "st_args \<Rightarrow> st_row option \<Rightarrow> st_row" where
  "upserted (t, k, d, b) (Some r) = r\<lparr>sr_mut := d, sr_before := b\<rparr>"
| "upserted (t, k, d, b) None = staged_row (t, k, d, b)"

lemma st_get_upsert_args:
  "st_get (upsert_args a tbl) p = (if p = args_pk a then Some (upserted a (st_get tbl p)) else st_get tbl p)"
proof -
  obtain t k d b where a: "a = (t, k, d, b)" by (metis prod_cases4)
  let ?f = "\<lambda>r. if pk r = (t, k) then r\<lparr>sr_mut := d, sr_before := b\<rparr> else r"
  have "st_get (map ?f tbl) p = map_option ?f (st_get tbl p)" by (rule st_get_map) (simp add: pk_def)
  then show ?thesis
    by (auto simp: a st_get_append pk_def split: option.splits dest: st_get_SomeD)
qed

lemma upsert_args_distinct: "distinct (map pk tbl) \<Longrightarrow> distinct (map pk (upsert_args a tbl))"
proof -
  obtain t k d b where a: "a = (t, k, d, b)" by (metis prod_cases4)
  let ?f = "\<lambda>r. if pk r = (t, k) then r\<lparr>sr_mut := d, sr_before := b\<rparr> else r"
  have "map pk (map ?f tbl) = map pk tbl" by (induction tbl) (auto simp: pk_def)
  then show "distinct (map pk tbl) \<Longrightarrow> distinct (map pk (upsert_args a tbl))"
    by (auto simp: a st_get_None pk_def simp del: map_map)
qed

lemma upsert_all_distinct: "distinct (map pk tbl) \<Longrightarrow> distinct (map pk (fold upsert_args as tbl))"
  by (induction as arbitrary: tbl) (simp_all add: upsert_args_distinct)

lemma st_get_upsert_all:
  "distinct (map args_pk as) \<Longrightarrow> st_get (fold upsert_args as tbl) p =
     (case find (\<lambda>a. args_pk a = p) as of None \<Rightarrow> st_get tbl p | Some a \<Rightarrow> Some (upserted a (st_get tbl p)))"
proof (induction as arbitrary: tbl)
  case (Cons a as)
  have d: "distinct (map args_pk as)" using Cons.prems by simp
  show ?case
  proof (cases "args_pk a = p")
    case True
    then have "find (\<lambda>a. args_pk a = p) as = None" using Cons.prems unfolding find_None_iff by (metis distinct.simps(2) image_eqI list.set_map list.simps(9))
    then show ?thesis using Cons.IH [OF d] True by (simp add: st_get_upsert_args)
  next
    case False
    then show ?thesis using Cons.IH [OF d] by (auto simp: st_get_upsert_args split: option.splits)
  qed
qed simp

lemma find_filter_map: "find P (filter Q (map f xs)) = map_option f (find (\<lambda>x. P (f x) \<and> Q (f x)) xs)"
  by (induction xs) auto

text \<open>The indices that the statement returns are those of the pending keys.\<close>

lemma StageIfExists_result:
  assumes "StageIfExists gzip fate muts tbl = (tbl', Inr rest)"
  shows "rest = filter (\<lambda>m. \<not> pending_key tbl (mut_Key m)) muts"
    and "st_get tbl' p = (case find (\<lambda>m. time_key m = p \<and> pending_key tbl (mut_Key m)) muts of
       None \<Rightarrow> st_get tbl p | Some m \<Rightarrow> Some (upserted (pack_one gzip m) (st_get tbl p)))"
    and "distinct (map pk tbl) \<Longrightarrow> distinct (map pk tbl')"
proof -
  let ?args = "packArgs gzip muts"
  let ?chosen = "filter (\<lambda>a. pending_key tbl (args_key a)) ?args"
  have key: "args_key (pack_one gzip m) = mut_Key m" for m by (simp add: pack_one_def)
  have r: "stageIfExistsTemplate ?args tbl = (tbl', map (\<lambda>p. fst p + 1) (filter (\<lambda>p. pending_key tbl (args_key (snd p))) (enumerate 0 ?args)))"
    and rest: "rest = drop_indices ((\<lambda>i. i - 1) ` set (map (\<lambda>p. fst p + 1) (filter (\<lambda>p. pending_key tbl (args_key (snd p))) (enumerate 0 ?args)))) muts"
    and d: "distinct (map args_pk ?chosen)"
    using assms by (cases fate; auto simp: StageIfExists_def stageIfExistsTemplate_def Let_def split: if_splits)+
  have e: "map (\<lambda>p. fst p + 1) (filter (\<lambda>p. pending_key tbl (args_key (snd p))) (enumerate 0 ?args))
      = map (\<lambda>p. fst p + 1) (filter (\<lambda>p. pending_key tbl (mut_Key (snd p))) (enumerate 0 muts))"
    by (simp add: packArgs_def enumerate_map_upt enumerate_eq_zip zip_map2 filter_map o_def key case_prod_unfold)
  have tbl': "tbl' = fold upsert_args ?chosen tbl"
    using r unfolding stageIfExistsTemplate_def Let_def by simp
  show "rest = filter (\<lambda>m. \<not> pending_key tbl (mut_Key m)) muts" unfolding rest e by (rule drop_indices_filter)
  show "distinct (map pk tbl) \<Longrightarrow> distinct (map pk tbl')" unfolding tbl' by (rule upsert_all_distinct)
  show "st_get tbl' p = (case find (\<lambda>m. time_key m = p \<and> pending_key tbl (mut_Key m)) muts of
       None \<Rightarrow> st_get tbl p | Some m \<Rightarrow> Some (upserted (pack_one gzip m) (st_get tbl p)))"
    using st_get_upsert_all [OF d, of tbl p] unfolding tbl' packArgs_def find_filter_map
    by (simp add: key split: option.splits)
qed

text \<open>
  C21: \<open>StageIfExists\<close> returns, in order, exactly the mutations whose keys have no pending (unapplied) mutation in the
  table. The row of every other mutation of the call holds its packed data: it is new and unapplied, or the row that
  was there with its data replaced and its applied columns kept. No other row is added, changed or removed, so none of
  the returned mutations is staged by the call, and no (time, key) pair has two rows.
\<close>

theorem StageIfExists_pending:
  assumes "StageIfExists gzip fate muts tbl = (tbl', Inr rest)" "distinct (map pk tbl)"
  shows "rest = filter (\<lambda>m. \<forall>r \<in> set tbl. sr_key r = mut_Key m \<longrightarrow> sr_applied r) muts \<and> distinct (map pk tbl')
    \<and> (\<forall>p. st_get tbl' p =
         (case find (\<lambda>m. (mut_Time m, mut_Key m) = p \<and> (\<exists>r \<in> set tbl. sr_key r = mut_Key m \<and> \<not> sr_applied r)) muts of
            None \<Rightarrow> st_get tbl p
          | Some m \<Rightarrow> Some (case pack_one gzip m of (t, k, d, b) \<Rightarrow>
              (case st_get tbl p of
                 Some r \<Rightarrow> r\<lparr>sr_mut := d, sr_before := b\<rparr>
               | None \<Rightarrow> \<lparr>sr_time = t, sr_key = k, sr_mut = d, sr_before = b, sr_applied = False, sr_applied_at = None\<rparr>))))"
proof -
  have up: "upserted a o1 = (case a of (t, k, d, b) \<Rightarrow> (case o1 of
                 Some r \<Rightarrow> r\<lparr>sr_mut := d, sr_before := b\<rparr>
               | None \<Rightarrow> \<lparr>sr_time = t, sr_key = k, sr_mut = d, sr_before = b, sr_applied = False, sr_applied_at = None\<rparr>))" for a o1
    by (cases a; cases o1) simp_all
  note res = StageIfExists_result [OF assms(1)]
  have "rest = filter (\<lambda>m. \<forall>r \<in> set tbl. sr_key r = mut_Key m \<longrightarrow> sr_applied r) muts"
    using res(1) by (simp add: pending_key_def)
  then show ?thesis using res(2) [unfolded up pending_key_def time_key_def] res(3) [OF assms(2)] by blast
qed

text \<open>Witness for C21: one key is pending, one is not.\<close>

theorem StageIfExists_pending_witness:
  "\<exists>tbl'. StageIfExists id (Returns :: string fate) [demo_mut ''[1]'' 8, demo_mut ''[2]'' 8] [staged_row (pack_one id (demo_mut ''[1]'' 3))]
      = (tbl', Inr [demo_mut ''[2]'' 8]) \<and> st_get tbl' (Time 8 0, ''[1]'') = Some (staged_row (pack_one id (demo_mut ''[1]'' 8)))
     \<and> st_get tbl' (Time 8 0, ''[2]'') = None"
proof -
  let ?tbl = "[staged_row (pack_one id (demo_mut ''[1]'' 3))]" and ?ms = "[demo_mut ''[1]'' 8, demo_mut ''[2]'' 8]"
  have "\<not> isl (snd (StageIfExists id (Returns :: string fate) ?ms ?tbl))" by code_simp
  then obtain tbl' rest where s: "StageIfExists id (Returns :: string fate) ?ms ?tbl = (tbl', Inr rest)"
    by (metis isl_def prod.collapse sum.exhaust)
  have "distinct (map pk ?tbl)" by simp
  note p = StageIfExists_pending [OF s this]
  have "rest = [demo_mut ''[2]'' 8]" using conjunct1 [OF p] by (simp add: demo_mut_def pack_one_def)
  moreover have "st_get tbl' (Time 8 0, ''[1]'') = Some (staged_row (pack_one id (demo_mut ''[1]'' 8)))"
    "st_get tbl' (Time 8 0, ''[2]'') = None"
    using conjunct2 [OF conjunct2 [OF p]] by (simp_all add: demo_mut_def pack_one_def pk_def)
  ultimately show ?thesis using s by blast
qed

text \<open>
  C22: after \<open>MarkApplied\<close> has returned without an error, \<open>FilterApplied\<close> removes the marked mutations and
  those that were applied before, keeps the others in order, and no other row has changed.
\<close>

theorem MarkApplied_then_FilterApplied:
  assumes "MarkApplied now shouldRetry gone fates muts tbl = (tbl', None)" "distinct (map pk tbl)"
  shows "FilterApplied (Returns :: 'f fate) None ms tbl' =
      Inr (filter (\<lambda>m. \<not> (time_key m \<in> time_key ` set muts \<or> is_applied tbl m)) ms)
    \<and> (\<forall>p. p \<notin> time_key ` set muts \<longrightarrow> st_get tbl' p = st_get tbl p)"
proof -
  have "retry_stmt shouldRetry gone fates (\<lambda>tbl. (markAppliedTemplate now muts tbl, ())) tbl = (tbl', Inr ())"
    using assms(1) by (auto simp: MarkApplied_def split: if_splits prod.splits sum.splits)
  from retry_stmt_iterates(2) [OF this refl] obtain n
    where "tbl' = markAppliedTemplate now muts (((fst \<circ> (\<lambda>tbl. (markAppliedTemplate now muts tbl, ()))) ^^ n) tbl)" by auto
  moreover have "((fst \<circ> (\<lambda>tbl. (markAppliedTemplate now muts tbl, ()))) ^^ n) tbl = fold (mark_row now) (concat (replicate n muts)) tbl"
    by (induction n arbitrary: tbl) (auto simp: markAppliedTemplate_def funpow_swap1 simp del: funpow.simps(2) simp add: funpow_Suc_right)
  ultimately have tbl': "tbl' = fold (mark_row now) (concat (replicate n muts) @ muts) tbl"
    by (simp add: markAppliedTemplate_def)
  have keys: "time_key ` set (concat (replicate n muts) @ muts) = time_key ` set muts" by auto
  have app: "is_applied tbl' m \<longleftrightarrow> time_key m \<in> time_key ` set muts \<or> is_applied tbl m" for m
    unfolding is_applied_get [OF assms(2)] is_applied_get [OF marked_distinct [OF assms(2)], of now, folded tbl'] tbl'
    using marked_applied [of now "concat (replicate n muts) @ muts" tbl] unfolding keys by (simp add: time_key_def)
  have "FilterApplied (Returns :: 'f fate) None ms tbl' = Inr (filter (\<lambda>m. \<not> is_applied tbl' m) ms)"
  proof -
    let ?idxs = "filterAppliedTemplate ms tbl'"
    have "(if ?idxs = [] then ms else drop_indices ((\<lambda>i. i - 1) ` set ?idxs) ms) = drop_indices ((\<lambda>i. i - 1) ` set ?idxs) ms"
      by (cases "?idxs = []") (simp_all add: drop_indices_empty)
    also have "\<dots> = filter (\<lambda>m. \<not> is_applied tbl' m) ms" unfolding filterAppliedTemplate_def by (rule drop_indices_filter)
    finally show ?thesis
      by (simp only: FilterApplied_def apply_fate.simps prod.case snd_conv sum.case option.case Let_def)
  qed
  moreover have "st_get tbl' p = st_get tbl p" if "p \<notin> time_key ` set muts" for p
    unfolding tbl' by (rule marked_other) (simp only: keys that not_False_eq_True)
  ultimately show ?thesis by (simp only: app) blast
qed

text \<open>Witness for C22: a staged and an unknown mutation are marked, a third is not.\<close>

theorem MarkApplied_then_FilterApplied_witness:
  "\<exists>tbl'. MarkApplied 7 (\<lambda>_. True) ''gone'' [Returns] [demo_mut ''[1]'' 3, demo_mut ''[9]'' 3]
       [staged_row (pack_one id (demo_mut ''[1]'' 3)), staged_row (pack_one id (demo_mut ''[2]'' 3))] = (tbl', None)
     \<and> FilterApplied (Returns :: string fate) None [demo_mut ''[1]'' 3, demo_mut ''[2]'' 3, demo_mut ''[9]'' 3] tbl'
       = Inr [demo_mut ''[2]'' 3]"
proof -
  let ?tbl = "[staged_row (pack_one id (demo_mut ''[1]'' 3)), staged_row (pack_one id (demo_mut ''[2]'' 3))]"
  let ?ms = "[demo_mut ''[1]'' 3, demo_mut ''[9]'' 3]"
  obtain tbl' where m: "MarkApplied 7 (\<lambda>_. True) ''gone'' [Returns] ?ms ?tbl = (tbl', None)"
    by (simp add: MarkApplied_def retry_stmt_def Retry_def Loop_def loop_from.simps stmt_attempt_def demo_mut_def)
  have d: "distinct (map pk ?tbl)" by (simp add: time_key_def demo_mut_def)
  have "\<not> is_applied ?tbl m" for m by (simp add: is_applied_def pack_one_def)
  then have "FilterApplied (Returns :: string fate) None [demo_mut ''[1]'' 3, demo_mut ''[2]'' 3, demo_mut ''[9]'' 3] tbl' = Inr [demo_mut ''[2]'' 3]"
    using MarkApplied_then_FilterApplied [OF m d, where 'f = string, of "[demo_mut ''[1]'' 3, demo_mut ''[2]'' 3, demo_mut ''[9]'' 3]"]
    by (simp add: time_key_def demo_mut_def)
  then show ?thesis using m by blast
qed

text \<open>
  C23: \<open>Retire\<close> always returns. When it reports no error, no applied row between the previous marker and
  the end time (exclusive) is left, every unapplied row and every row outside the range is kept, and
  the marker is at the end time or later.
\<close>

theorem Retire_removes_applied:
  assumes "Retire shouldRetry end s = (s', None)" "distinct (map pk (rt_table s))" "valid_time end" "valid_time (rt_from s)"
    "\<forall>r \<in> set (rt_table s). valid_time (sr_time r)"
  shows "end \<le> rt_from s'
    \<and> (\<forall>x \<in> set (rt_table s'). sr_applied x \<longrightarrow> rt_from s \<le> sr_time x \<longrightarrow> \<not> sr_time x < end)
    \<and> set (rt_table s') \<subseteq> set (rt_table s)
    \<and> (\<forall>x \<in> set (rt_table s). \<not> sr_applied x \<or> sr_time x < rt_from s \<or> end < sr_time x \<longrightarrow> x \<in> set (rt_table s'))"
proof -
  let ?done = "\<lambda>u. end \<le> rt_from u \<and> valid_time (rt_from u)
      \<and> (\<forall>x \<in> set (rt_table u). sr_applied x \<longrightarrow> rt_from s \<le> sr_time x \<longrightarrow> \<not> sr_time x < end)"
  let ?P = "\<lambda>u. retired_between (rt_from s) end (rt_table s) (rt_table u) \<and> (rt_from u = rt_from s \<or> ?done u)"
  have retry: "Retry None shouldRetry (retire_attempt end) s = (None, s')"
    using assms(1) by (auto simp: Retire_def split: prod.splits)
  have step: "?P (snd (retire_attempt end u)) \<and> (fst (retire_attempt end u) = None \<longrightarrow> ?done (snd (retire_attempt end u)))"
    if P: "?P u" for u
  proof (cases "end \<le> rt_from u \<and> valid_time (rt_from u)")
    case True
    then have "\<not> Compare (rt_from u) end < 0" using assms(3) by (simp add: time_order not_less)
    then have "retire_attempt end u = (None, u\<lparr>rt_fates := rt_fates u\<rparr>)"
      by (simp add: retire_attempt_def retire_loop.simps)
    then show ?thesis using P True by (auto simp: time_order assms(3))
  next
    case False
    then have fr: "rt_from u = rt_from s" using P by auto
    obtain t fs r where l: "retire_loop (rt_from u) end (rt_fates u) (rt_table u) = (t, fs, r)" by (metis prod_cases3)
    have "distinct (map pk (rt_table u))" "\<forall>r \<in> set (rt_table u). valid_time (sr_time r)"
      using P assms(5) by (auto simp: retired_between_def)
    from retire_loop_props [OF l this(1) assms(3) _ this(2)] fr assms(4)
    have lp: "retired_between (rt_from s) end (rt_table u) t"
      "\<And>v. r = Inr v \<Longrightarrow> valid_time v \<and> (\<forall>x \<in> set t. sr_applied x \<longrightarrow> rt_from s \<le> sr_time x \<longrightarrow> \<not> sr_time x < end)"
      by auto
    have "retired_between (rt_from s) end (rt_table s) t"
      using P lp(1) unfolding retired_between_def by (meson subset_trans)
    then show ?thesis
      using lp(2) fr assms(3) l [unfolded fr] by (cases r) (auto simp: retire_attempt_def time_order)
  qed
  have "?P s" using assms(2) by (simp add: retired_between_def)
  from Retry_invariant [where P = ?P, OF retry this] step
  obtain s1 where s1: "?P s1" "retire_attempt end s1 = (None, s')" by blast
  then show ?thesis using step [OF s1(1)] by (auto simp: retired_between_def)
qed

text \<open>Witness for C23: an applied and an unapplied row, and a first statement that fails.\<close>

theorem Retire_removes_applied_witness:
  "\<exists>s'. Retire (\<lambda>_. True) (Time 9 0)
      \<lparr>rt_table = [(staged_row (pack_one id (demo_mut ''[1]'' 3)))\<lparr>sr_applied := True\<rparr>, staged_row (pack_one id (demo_mut ''[2]'' 3))],
       rt_from = Zero, rt_fates = [FailsBefore ''e'', Returns, Returns]\<rparr> = (s', None)
    \<and> Time 9 0 \<le> rt_from s'"
proof -
  let ?s = "\<lparr>rt_table = [(staged_row (pack_one id (demo_mut ''[1]'' 3)))\<lparr>sr_applied := True\<rparr>, staged_row (pack_one id (demo_mut ''[2]'' 3))],
       rt_from = Zero, rt_fates = [FailsBefore ''e'', Returns, Returns]\<rparr>"
  have "snd (Retire (\<lambda>_. True) (Time 9 0) ?s) = None" by code_simp
  then obtain s' where r: "Retire (\<lambda>_. True) (Time 9 0) ?s = (s', None)" by (metis prod.collapse)
  have "Time 9 0 \<le> rt_from s'"
    using Retire_removes_applied [OF r] by (simp add: pk_def pack_one_def demo_mut_def valid_time_def Zero_def)
  then show ?thesis using r by blast
qed

text \<open>
  Data that is not itself mistaken for compressed data is read back by \<open>maybeGunzip\<close> as it was given
  to \<open>maybeGZip\<close>, for every compressor that writes the magic numbers and inverts.
\<close>

theorem maybeGZip_roundtrip:
  assumes "\<And>d. gunzip (gzip d) = Inr d" "\<And>d. \<exists>rest. gzip d = CHR 0x1f # CHR 0x8b # rest"
    "\<nexists>rest. data = CHR 0x1f # CHR 0x8b # rest"
  shows "maybeGunzip gunzip (maybeGZip gzip data) = Inr data"
proof -
  have raw: "maybeGunzip gunzip data = Inr data"
    using assms(3) by (auto simp: maybeGunzip_def) (metis Cons_nth_drop_Suc One_nat_def Suc_1 Suc_leI drop_0 le_less_trans lessI not_less zero_less_Suc)
  obtain rest where "gzip data = CHR 0x1f # CHR 0x8b # rest" using assms(2) by blast
  then have "maybeGunzip gunzip (gzip data) = Inr data" using assms(1) [of data] by (simp add: maybeGunzip_def)
  then show ?thesis using raw by (simp add: maybeGZip_def Let_def)
qed

text \<open>Witness: a toy codec that only adds the header.\<close>

theorem maybeGZip_roundtrip_witness:
  "maybeGunzip (\<lambda>s. Inr (drop 2 s) :: (unit, string) result) (maybeGZip (\<lambda>d. CHR 0x1f # CHR 0x8b # d) ''abc'') = Inr ''abc''"
  by (rule maybeGZip_roundtrip) auto

text \<open>Two different target tables can have one staging table.\<close>

lemma stagingTable_collides:
  "stagingTable db (Table (Schema (Ident ''a_b'') NilIdent) (Ident ''c'')) = stagingTable db (Table (Schema (Ident ''a'') NilIdent) (Ident ''b_c''))"
proof -
  have "ToLower ''a_b'' = ''a_b''" "ToLower ''c'' = ''c''" "ToLower ''a'' = ''a''" "ToLower ''b_c'' = ''b_c''" by code_simp+
  then show ?thesis by (simp add: stagingTable_def)
qed

text \<open>A connection that fails while the applied rows are read makes \<open>FilterApplied\<close> return an applied mutation.\<close>

lemma FilterApplied_broken:
  "is_applied tbl m \<Longrightarrow> FilterApplied (Returns :: 'e fate) (Some 0) [m] tbl = Inr [m]"
  by (simp add: FilterApplied_def)

end
