(* ===== verification/Reader.thy ===== *)
theory Reader
  imports Staging "HOL-Library.Product_Lexorder" "HOL-Library.List_Lexorder" "HOL-Library.Char_ord"
begin

text \<open>
  The paginated reader of one staging table, \<open>src/internal/staging/stage/table_reader.go\<close>: the query, its
  retries, the cursors that it sends and the main loop. What the loop meets (the contents of the table at
  each attempt of the query, failures, changes of the bounds, a stop) is a list of events.
\<close>

section \<open>The query\<close>

text \<open>\<open>readTableTemplate\<close>: rows after a position, in the order of (nanos, logical, key), up to a limit.\<close>

definition readTableTemplate :: "Time \<Rightarrow> string option \<Rightarrow> Time \<Rightarrow> nat \<Rightarrow> st_table \<Rightarrow> st_row list" where
  "readTableTemplate lo key hi limit tbl =
     take limit (sort_key pk (filter
       (\<lambda>r. (lo, case key of None \<Rightarrow> [] | Some k \<Rightarrow> k) < pk r \<and> sr_time r < hi \<and> \<not> sr_applied r) tbl))"

record tableReader =
  tr_accumulator :: "Mutation list"
  tr_fragmentSize :: nat
  tr_scanBounds :: Range
  tr_scanKey :: "string option"
  tr_table :: Table

definition newTableReader :: "nat \<Rightarrow> Table \<Rightarrow> tableReader" where
  "newTableReader fragmentSize target =
     \<lparr>tr_accumulator = [], tr_fragmentSize = fragmentSize, tr_scanBounds = Range Zero Zero, tr_scanKey = None,
      tr_table = target\<rparr>"

definition row_mutation :: "st_row \<Rightarrow> Mutation" where
  "row_mutation r = \<lparr>mut_Before = sr_before r, mut_Data = sr_mut r, mut_Key = sr_key r, mut_Meta = [], mut_Time = sr_time r\<rparr>"

text \<open>
  The query fails at once, it breaks after some of the rows (a scan error or \<open>rows.Err\<close>), or it returns
  all of them. Rows that were read before the error stay in the accumulator.
\<close>

datatype 'e query_fate = QueryFails 'e | BreaksAfter nat 'e | Completes

definition queryOnce :: "st_table \<Rightarrow> 'e query_fate \<Rightarrow> tableReader \<Rightarrow> 'e option \<times> tableReader" where
  "queryOnce tbl fate r =
     (let rows = readTableTemplate (Range_Min (tr_scanBounds r)) (tr_scanKey r) (Range_Max (tr_scanBounds r))
                   (tr_fragmentSize r) tbl
      in case fate of
           QueryFails e \<Rightarrow> (Some e, r)
         | BreaksAfter n e \<Rightarrow> (Some e, r\<lparr>tr_accumulator := tr_accumulator r @ map row_mutation (take n rows)\<rparr>)
         | Completes \<Rightarrow> (None, r\<lparr>tr_accumulator := tr_accumulator r @ map row_mutation rows\<rparr>))"

section \<open>Cursors\<close>

datatype 'e cursor_error = ReadLoop "'e loop_error" | Gunzip 'e | Accumulate batch_error

record 'e tableCursor =
  tc_Batch :: MultiBatch
  tc_Error :: "'e cursor_error option"
  tc_Fragment :: bool
  tc_Jump :: bool
  tc_Progress :: Range

text \<open>A cursor with only its error set; its batch is not read.\<close>

definition error_cursor :: "'e cursor_error \<Rightarrow> 'e tableCursor" where
  "error_cursor e =
     \<lparr>tc_Batch = MultiBatch_New, tc_Error = Some e, tc_Fragment = False, tc_Jump = False, tc_Progress = Range Zero Zero\<rparr>"

text \<open>Decompression and assembly of the accumulated rows, without the stub entries.\<close>

fun assemble ::
  "(string \<Rightarrow> ('e, string) result) \<Rightarrow> Table \<Rightarrow> Mutation list \<Rightarrow> MultiBatch \<Rightarrow> ('e cursor_error, MultiBatch) result" where
  "assemble gunzip table [] batch = Inr batch"
| "assemble gunzip table (mut # muts) batch =
     (case maybeGunzip gunzip (mut_Before mut) of
        Inl e \<Rightarrow> Inl (Gunzip e)
      | Inr before \<Rightarrow>
          (case maybeGunzip gunzip (mut_Data mut) of
             Inl e \<Rightarrow> Inl (Gunzip e)
           | Inr dat \<Rightarrow>
               if dat = stubSentinel then assemble gunzip table muts batch
               else case MultiBatch_Accumulate table (mut\<lparr>mut_Before := before, mut_Data := dat\<rparr>) batch of
                      Inl e \<Rightarrow> Inl (Accumulate e)
                    | Inr batch' \<Rightarrow> assemble gunzip table muts batch'))"

text \<open>
  One attempt of the query sees the table as it is then. The attempts of a retry loop are a list;
  \<open>gone\<close> is the error of an attempt beyond its end.
\<close>

type_synonym 'e query_attempts = "(st_table \<times> 'e query_fate) list"

definition query_attempt :: "'e \<Rightarrow> tableReader \<times> 'e query_attempts \<Rightarrow> 'e option \<times> tableReader \<times> 'e query_attempts" where
  "query_attempt gone s =
     (case s of
        (r, []) \<Rightarrow> (Some gone, r, [])
      | (r, (tbl, fate) # rest) \<Rightarrow> (case queryOnce tbl fate r of (err, r') \<Rightarrow> (err, r', rest)))"

text \<open>The reader after an error cursor is not used again; its accumulator is left as it is.\<close>

definition nextCursor ::
  "('e \<Rightarrow> bool) \<Rightarrow> 'e \<Rightarrow> (string \<Rightarrow> ('e, string) result) \<Rightarrow> 'e query_attempts \<Rightarrow> tableReader \<Rightarrow> 'e tableCursor \<times> tableReader" where
  "nextCursor shouldRetry gone gunzip attempts r =
     (case Retry None shouldRetry (query_attempt gone) (r, attempts) of
        (Some e, r1, _) \<Rightarrow> (error_cursor (ReadLoop e), r1)
      | (None, r1, _) \<Rightarrow>
          let fragment = (length (tr_accumulator r1) \<ge> tr_fragmentSize r1);
              mx = Range_Max (tr_scanBounds r1);
              r2 = (if fragment
                    then let lastMut = last (tr_accumulator r1)
                         in r1\<lparr>tr_scanBounds := RangeExcluding (mut_Time lastMut) mx, tr_scanKey := Some (mut_Key lastMut)\<rparr>
                    else r1\<lparr>tr_scanBounds := RangeEmptyAt mx, tr_scanKey := None\<rparr>);
              progress = (if fragment then RangeExcluding Zero (Range_Min (tr_scanBounds r2))
                          else RangeExcluding Zero (Range_Max (tr_scanBounds r2)))
          in case assemble gunzip (tr_table r2) (tr_accumulator r2) MultiBatch_New of
               Inl e \<Rightarrow> (error_cursor e, r2)
             | Inr batch \<Rightarrow>
                 (\<lparr>tc_Batch = batch, tc_Error = None, tc_Fragment = fragment, tc_Jump = False, tc_Progress = progress\<rparr>,
                  r2\<lparr>tr_accumulator := []\<rparr>))"

section \<open>The main loop\<close>

definition updateBounds :: "Range \<Rightarrow> tableReader \<Rightarrow> bool \<times> tableReader" where
  "updateBounds proposed r =
     (if Range_Empty (tr_scanBounds r) then (True, r\<lparr>tr_scanBounds := proposed\<rparr>)
      else if Compare (Range_Max proposed) (Range_Max (tr_scanBounds r)) > 0
      then (False, r\<lparr>tr_scanBounds := RangeExcluding (Range_Min (tr_scanBounds r)) (Range_Max proposed)\<rparr>)
      else (False, r))"

text \<open>
  What one iteration meets: the attempts of its query, whether the reader is stopped while it sends, and
  the change of the bounds that it sees at the end. A blocking wait without a change ends with a stop.
\<close>

record 'e iteration =
  it_attempts :: "'e query_attempts"
  it_stopping :: bool
  it_bounds :: "Range option"

definition await_bounds :: "Range option \<Rightarrow> tableReader \<Rightarrow> (Range \<times> bool \<times> tableReader) option" where
  "await_bounds change r =
     (case change of
        None \<Rightarrow> None
      | Some bounds \<Rightarrow> (case updateBounds bounds r of (didJump, r') \<Rightarrow> Some (bounds, didJump, r')))"

definition poll_bounds :: "Range \<Rightarrow> Range option \<Rightarrow> tableReader \<Rightarrow> Range \<times> bool \<times> tableReader" where
  "poll_bounds bounds change r = (case await_bounds change r of None \<Rightarrow> (bounds, False, r) | Some s \<Rightarrow> s)"

definition reader_iteration ::
  "('e \<Rightarrow> bool) \<Rightarrow> 'e \<Rightarrow> (string \<Rightarrow> ('e, string) result) \<Rightarrow> 'e iteration \<Rightarrow> Range \<times> bool \<times> tableReader
   \<Rightarrow> 'e tableCursor list \<times> (Range \<times> bool \<times> tableReader) option" where
  "reader_iteration shouldRetry gone gunzip it s =
     (case s of (bounds, didJump, r) \<Rightarrow>
        if Range_Empty bounds then ([], await_bounds (it_bounds it) r)
        else case nextCursor shouldRetry gone gunzip (it_attempts it) r of
          (c, r') \<Rightarrow>
            let cursor = c\<lparr>tc_Jump := didJump\<rparr> in
            if it_stopping it then ([], None)
            else if tc_Error cursor \<noteq> None then ([cursor], None)
            else if tc_Fragment cursor then ([cursor], Some (poll_bounds bounds (it_bounds it) r'))
            else ([cursor], await_bounds (it_bounds it) r'))"

fun reader_loop ::
  "('e \<Rightarrow> bool) \<Rightarrow> 'e \<Rightarrow> (string \<Rightarrow> ('e, string) result) \<Rightarrow> 'e iteration list \<Rightarrow> Range \<times> bool \<times> tableReader
   \<Rightarrow> 'e tableCursor list" where
  "reader_loop shouldRetry gone gunzip [] s = []"
| "reader_loop shouldRetry gone gunzip (it # its) s =
     (case reader_iteration shouldRetry gone gunzip it s of
        (out, None) \<Rightarrow> out
      | (out, Some s') \<Rightarrow> out @ reader_loop shouldRetry gone gunzip its s')"

text \<open>\<open>run\<close>: the bounds are read once before the loop, and the flag of that first update is dropped.\<close>

definition reader_run ::
  "('e \<Rightarrow> bool) \<Rightarrow> 'e \<Rightarrow> (string \<Rightarrow> ('e, string) result) \<Rightarrow> Range \<Rightarrow> 'e iteration list \<Rightarrow> tableReader \<Rightarrow> 'e tableCursor list" where
  "reader_run shouldRetry gone gunzip bounds its r =
     reader_loop shouldRetry gone gunzip its (bounds, False, snd (updateBounds bounds r))"

section \<open>Positions in a table\<close>

lemma StringsCompare_less: "StringsCompare a b < 0 \<longleftrightarrow> a < b"
  by (induction a b rule: StringsCompare.induct) (auto simp: less_char_def not_less le_less)

text \<open>The rows after a position, in order, and how a page moves the position.\<close>

definition rows_after :: "Time \<times> string \<Rightarrow> Time \<Rightarrow> st_table \<Rightarrow> st_row list" where
  "rows_after p hi tbl = sort_key pk (filter (\<lambda>r. p < pk r \<and> sr_time r < hi \<and> \<not> sr_applied r) tbl)"

definition position :: "Time \<Rightarrow> string option \<Rightarrow> Time \<times> string" where
  "position lo key = (lo, case key of None \<Rightarrow> [] | Some k \<Rightarrow> k)"

lemma readTableTemplate_rows: "readTableTemplate lo key hi limit tbl = take limit (rows_after (position lo key) hi tbl)"
  by (simp add: readTableTemplate_def rows_after_def position_def)

lemma rows_after_sorted: "sorted (map pk (rows_after p hi tbl))"
  by (simp add: rows_after_def)

lemma rows_after_distinct: "distinct (map pk tbl) \<Longrightarrow> distinct (map pk (rows_after p hi tbl))"
  by (auto simp: rows_after_def distinct_map_filter distinct_map intro: inj_on_subset)

lemma filter_drop_sorted:
  assumes "sorted_wrt (\<lambda>a b. f a < (f b :: 'b :: linorder)) xs" "0 < n" "n \<le> length xs"
  shows "filter (\<lambda>x. f (last (take n xs)) < f x) xs = drop n xs"
proof -
  let ?l = "last (take n xs)"
  have ne: "take n xs \<noteq> []" using assms(2,3) by auto
  then have tk: "take n xs = butlast (take n xs) @ [?l]" by simp
  have xs: "xs = (butlast (take n xs) @ [?l]) @ drop n xs" using tk by (metis append_take_drop_id)
  have s: "sorted_wrt (\<lambda>a b. f a < f b) ((butlast (take n xs) @ [?l]) @ drop n xs)" using assms(1) xs by simp
  have "filter (\<lambda>x. f ?l < f x) (take n xs) = []"
    using s by (subst tk) (auto simp: sorted_wrt_append filter_empty_conv dest: less_not_sym)
  moreover have "filter (\<lambda>x. f ?l < f x) (drop n xs) = drop n xs"
    using s by (auto simp: sorted_wrt_append)
  ultimately show ?thesis by (metis append_Nil append_take_drop_id filter_append)
qed

lemma rows_after_strict: "distinct (map pk tbl) \<Longrightarrow> sorted_wrt (\<lambda>a b. pk a < pk b) (rows_after p hi tbl)"
  using rows_after_sorted [of p hi tbl] rows_after_distinct [of tbl p hi] by (simp add: strict_sorted_iff sorted_wrt_map [symmetric])

lemma rows_after_next:
  assumes "distinct (map pk tbl)" "0 < n" "n \<le> length (rows_after p hi tbl)"
  shows "rows_after (pk (last (take n (rows_after p hi tbl)))) hi tbl = drop n (rows_after p hi tbl)"
proof -
  let ?l = "last (take n (rows_after p hi tbl))"
  have "?l \<in> set (rows_after p hi tbl)" using assms(2,3) by (metis in_set_takeD last_in_set length_0_conv not_gr_zero not_less take_eq_Nil)
  then have "p < pk ?l" by (simp add: rows_after_def)
  then have "filter (\<lambda>r. pk ?l < pk r \<and> sr_time r < hi \<and> \<not> sr_applied r) tbl
      = filter (\<lambda>r. pk ?l < pk r) (filter (\<lambda>r. p < pk r \<and> sr_time r < hi \<and> \<not> sr_applied r) tbl)"
    by (auto intro!: filter_cong simp: conj_commute dest: less_trans)
  then have "rows_after (pk ?l) hi tbl = filter (\<lambda>r. pk ?l < pk r) (rows_after p hi tbl)"
    unfolding rows_after_def by (simp only: filter_sort)
  also have "\<dots> = drop n (rows_after p hi tbl)"
    by (rule filter_drop_sorted [OF rows_after_strict [OF assms(1)] assms(2,3)])
  finally show ?thesis .
qed

section \<open>A batch of one table\<close>

lemma temporal_list_entry:
  assumes "temporal_ok t" "p \<in> set (temporal_list t)"
  shows "tp_Time t = mut_Time (snd p) \<and> fst p \<in> fst ` set (tp_Data t)"
proof -
  obtain e m where e: "e \<in> set (tp_Data t)" "p = (tb_Table (snd e), m)" "m \<in> set (tb_Data (snd e))"
    using assms(2) by (auto simp: temporal_list_def table_list_def sorted_tables_def)
  have "tb_Table (snd e) = fst e" "mut_Time m = tp_Time t" using assms(1) e(1,3) by (auto simp: temporal_ok_def)
  then show ?thesis using e by simp
qed

lemma multi_list_one_table:
  assumes ok: "multi_ok b" and one: "\<forall>p \<in># multi_muts b. fst p = c"
  shows "sorted (map time_key (map snd (multi_list b)))"
proof -
  have tok: "\<forall>t \<in> set (temporal_batches b). temporal_ok t"
    using multi_okD(2,5) [OF ok] by (auto simp: temporal_batches_def)
  have canon: "Table_Canonical (fst p) = c" if "p \<in> set (multi_list b)" for p
  proof -
    have "(Table_Canonical (fst p), snd p) \<in># multi_muts b" unfolding mset_multi_list [OF ok, symmetric] using that by auto
    then show ?thesis using one by fastforce
  qed
  have key: "time_key (snd p) \<le> time_key (snd q)"
    if v: "visits_before p q" and m: "p \<in> set (multi_list b)" "q \<in> set (multi_list b)" for p q
  proof (cases "mut_Time (snd p) < mut_Time (snd q)")
    case False
    then have eq: "mut_Time (snd p) = mut_Time (snd q)" using v by (auto simp: visits_before_def)
    have "fst p = fst q"
    proof -
      obtain t u where t: "t \<in> set (temporal_batches b)" "p \<in> set (temporal_list t)"
        and u: "u \<in> set (temporal_batches b)" "q \<in> set (temporal_list u)"
        using m by (auto simp: multi_list_def)
      have pt: "tp_Time t = mut_Time (snd p) \<and> fst p \<in> fst ` set (tp_Data t)"
        by (rule temporal_list_entry) (use t tok in blast)+
      have qu: "tp_Time u = mut_Time (snd q) \<and> fst q \<in> fst ` set (tp_Data u)"
        by (rule temporal_list_entry) (use u tok in blast)+
      obtain i j where ij: "t = mb_store b ! i" "i < length (mb_store b)" "u = mb_store b ! j" "j < length (mb_store b)"
        using t(1) u(1) multi_okD(2) [OF ok] by (auto simp: temporal_batches_def)
      have "mb_ByTime b (mut_Time (snd p)) = Some i" "mb_ByTime b (mut_Time (snd p)) = Some j"
        using multi_okD(3) [OF ok] ij pt qu eq by simp_all
      then have "t = u" using ij by simp
      moreover have "distinct (map (Table_Canonical \<circ> fst) (tp_Data t))" using t(1) tok by (simp add: temporal_ok_def imap_invar_def)
      moreover obtain e e' where "fst p = fst e" "fst q = fst e'" "e \<in> set (tp_Data t)" "e' \<in> set (tp_Data u)" using pt qu by blast
      ultimately show ?thesis using canon [OF m(1)] canon [OF m(2)] inj_onD [of "Table_Canonical \<circ> fst" "set (tp_Data u)" e e']
        by (auto simp: distinct_map)
    qed
    then show ?thesis using v eq by (auto simp: visits_before_def time_key_def key_less_def StringsCompare_less)
  qed (simp add: time_key_def)
  have "sorted_wrt (\<lambda>p q. time_key (snd p) \<le> time_key (snd q)) (multi_list b)"
    by (rule sorted_wrt_mono_rel [OF _ sorted_multi_list [OF ok]]) (rule key)
  then show ?thesis by (simp add: sorted_wrt_map)
qed

lemma Flatten_one_table:
  assumes "multi_ok b" "multi_muts b = mset (map (Pair c) ms)" "sorted_wrt (\<lambda>x y. time_key x < time_key y) ms"
  shows "Flatten b = Inr ms"
proof -
  let ?fs = "map snd (multi_list b)"
  have m: "mset ?fs = mset ms" using multi_list_snd [OF assms(1)] assms(2) by (simp add: image_mset.compositionality o_def)
  have s: "sorted (map time_key ms)" "distinct (map time_key ms)"
    using assms(3) by (simp_all add: sorted_wrt_map [symmetric] strict_sorted_iff)
  have one: "\<forall>p \<in># multi_muts b. fst p = c" using assms(2) by auto
  have d: "distinct (map time_key ?fs)" using m s(2) by (metis mset_map mset_eq_imp_distinct_iff)
  have set: "set ?fs = set ms" using m by (metis mset_eq_setD)
  have "?fs = ms"
    by (rule map_sorted_distinct_set_unique [OF _ multi_list_one_table [OF assms(1) one] d s set])
       (use s(2) set in \<open>simp add: distinct_map\<close>)
  then show ?thesis by (simp add: Flatten_eq)
qed

text \<open>A batch that was accumulated for one table holds no other, and no empty transactions.\<close>

definition one_table :: "Table \<Rightarrow> TemporalBatch \<Rightarrow> bool" where
  "one_table table t \<longleftrightarrow> (\<forall>e \<in> set (tp_Data t). fst e = table) \<and> temporal_muts t \<noteq> {#}"

definition only_table :: "Table \<Rightarrow> MultiBatch \<Rightarrow> bool" where
  "only_table table b \<longleftrightarrow> (\<forall>t \<in> set (mb_store b). one_table table t)"

lemma set_imap_Put: "e \<in> set (imap_Put canon k v m) \<Longrightarrow> e = (k, v) \<or> e \<in> set m"
  by (induction canon k v m rule: imap_Put.induct) (auto split: if_splits)

lemma imap_Put_mem: "(k, v) \<in> set (imap_Put canon k v m)"
  by (induction canon k v m rule: imap_Put.induct) auto

lemma temporal_muts_nonempty: "\<lbrakk>e \<in> set (tp_Data t); tb_Data (snd e) \<noteq> []\<rbrakk> \<Longrightarrow> temporal_muts t \<noteq> {#}"
proof -
  assume e: "e \<in> set (tp_Data t)" "tb_Data (snd e) \<noteq> []"
  have "(\<Sum>e \<leftarrow> es. mset (map (Pair (Table_Canonical (fst e))) (tb_Data (snd e)))) \<noteq> {#}" if "e \<in> set es" for es
    using that e(2) by (induction es) auto
  then show ?thesis using e(1) by (simp add: temporal_muts_def)
qed

lemma TemporalBatch_Accumulate_table:
  assumes "TemporalBatch_Accumulate table m t = Inr t'" "\<forall>e \<in> set (tp_Data t). fst e = table"
  shows "one_table table t'"
proof -
  obtain key batch where kb: "(case imap_Match Table_Canonical (tp_Data t) table of Some e \<Rightarrow> e
      | None \<Rightarrow> (table, \<lparr>tb_Data = [], tb_Table = table, tb_Time = tp_Time t\<rparr>)) = (key, batch)" by force
  have "key = table" using kb assms(2) Match_SomeD by (fastforce split: option.splits)
  moreover obtain batch' where t': "t' = t\<lparr>tp_Data := imap_Put Table_Canonical key batch' (tp_Data t)\<rparr>" "tb_Data batch' \<noteq> []"
    using assms(1) by (auto simp: TemporalBatch_Accumulate_def TableBatch_Accumulate_def kb split: if_splits sum.splits)
  moreover have "temporal_muts t' \<noteq> {#}"
    by (rule temporal_muts_nonempty [of "(key, batch')"]) (simp_all add: t' imap_Put_mem)
  ultimately show ?thesis using assms(2) by (auto simp: one_table_def dest: set_imap_Put)
qed

lemma only_table_Accumulate:
  assumes acc: "MultiBatch_Accumulate table m b = Inr b'" and only: "only_table table b" and ok: "multi_ok b"
  shows "only_table table b'"
proof (cases "mb_ByTime b (mut_Time m)")
  case (Some r)
  then have r: "mb_store b ! r \<in> set (mb_store b)" using multi_okD(3) [OF ok] by simp
  obtain t where t: "TemporalBatch_Accumulate table m (mb_store b ! r) = Inr t" "mb_store b' = (mb_store b)[r := t]"
    using acc Some by (auto simp: MultiBatch_Accumulate_def split: if_splits sum.splits)
  have "one_table table t"
    by (rule TemporalBatch_Accumulate_table [OF t(1)]) (use only r in \<open>simp add: only_table_def one_table_def\<close>)
  then show ?thesis using only set_update_subset_insert [of "mb_store b" r t] unfolding only_table_def t(2) by blast
next
  case None
  obtain t where t: "TemporalBatch_Accumulate table m \<lparr>tp_Time = mut_Time m, tp_Data = []\<rparr> = Inr t" "mb_store b' = mb_store b @ [t]"
    using acc None by (auto simp: MultiBatch_Accumulate_def Let_def split: if_splits sum.splits)
  have "one_table table t" by (rule TemporalBatch_Accumulate_table [OF t(1)]) simp
  then show ?thesis using only unfolding only_table_def t(2) by simp
qed

lemma only_table_run:
  assumes "run_acc MultiBatch_Accumulate (map (Pair table) ms) b = Inr b'" "only_table table b" "multi_ok b"
    "\<forall>m \<in> set ms. good_mut (table, m)"
  shows "only_table table b'"
  using assms
proof (induction ms arbitrary: b)
  case (Cons m ms)
  obtain b1 where b1: "MultiBatch_Accumulate table m b = Inr b1" "multi_ok b1"
    using MultiBatch_Accumulate_ok [OF Cons.prems(3), of table m] Cons.prems(4) by (auto simp: good_mut_def)
  have "run_acc MultiBatch_Accumulate (map (Pair table) ms) b1 = Inr b'" using Cons.prems(1) b1(1) by simp
  then show ?case using Cons.IH only_table_Accumulate [OF b1(1) Cons.prems(2,3)] b1(2) Cons.prems(4) by simp
qed simp

text \<open>The mutation that a row holds.\<close>

definition decoded :: "(string \<Rightarrow> ('e, string) result) \<Rightarrow> st_row \<Rightarrow> Mutation option" where
  "decoded gunzip r =
     (case (maybeGunzip gunzip (sr_before r), maybeGunzip gunzip (sr_mut r)) of
        (Inr before, Inr dat) \<Rightarrow> Some \<lparr>mut_Before = before, mut_Data = dat, mut_Key = sr_key r, mut_Meta = [], mut_Time = sr_time r\<rparr>
      | _ \<Rightarrow> None)"

definition readable :: "(string \<Rightarrow> ('e, string) result) \<Rightarrow> st_row \<Rightarrow> bool" where
  "readable gunzip r \<longleftrightarrow> (\<exists>m. decoded gunzip r = Some m \<and> mut_Data m \<noteq> stubSentinel)
     \<and> valid_time (sr_time r) \<and> sr_time r \<noteq> Zero \<and> sr_key r \<noteq> []"

lemma decoded_fields: "decoded gunzip r = Some m \<Longrightarrow> mut_Time m = sr_time r \<and> mut_Key m = sr_key r \<and> time_key m = pk r"
  by (auto simp: decoded_def time_key_def pk_def split: sum.splits)

lemma assemble_run:
  assumes "map (decoded gunzip) rows = map Some ms" "\<forall>m \<in> set ms. mut_Data m \<noteq> stubSentinel"
  shows "assemble gunzip table (map row_mutation rows) batch =
    (case run_acc MultiBatch_Accumulate (map (Pair table) ms) batch of Inl e \<Rightarrow> Inl (Accumulate e) | Inr b \<Rightarrow> Inr b)"
  using assms
proof (induction rows arbitrary: ms batch)
  case (Cons r rows)
  then obtain m ms' where ms: "ms = m # ms'" "decoded gunzip r = Some m" "map (decoded gunzip) rows = map Some ms'" by auto
  have "assemble gunzip table (map row_mutation (r # rows)) batch =
      (case MultiBatch_Accumulate table m batch of Inl e \<Rightarrow> Inl (Accumulate e) | Inr b \<Rightarrow> assemble gunzip table (map row_mutation rows) b)"
    using ms(2) Cons.prems(2) by (auto simp: ms(1) decoded_def row_mutation_def split: sum.splits)
  then show ?case using Cons.IH [OF ms(3)] Cons.prems(2) by (auto simp: ms(1) split: sum.splits)
qed simp

lemma assemble_rows:
  assumes "\<forall>r \<in> set rows. readable gunzip r" "wf_table table" "sorted_wrt (\<lambda>a b. pk a < pk b) rows"
  shows "\<exists>b ms. assemble gunzip table (map row_mutation rows) MultiBatch_New = Inr b \<and> multi_ok b
    \<and> Flatten b = Inr ms \<and> map (decoded gunzip) rows = map Some ms
    \<and> multi_muts b = mset (map (Pair (Table_Canonical table)) ms) \<and> only_table table b"
proof -
  let ?ms = "map (the \<circ> decoded gunzip) rows"
  have dec: "map (decoded gunzip) rows = map Some ?ms" using assms(1) by (auto simp: readable_def)
  have stub: "\<forall>m \<in> set ?ms. mut_Data m \<noteq> stubSentinel" using assms(1) by (auto simp: readable_def)
  have tk: "time_key (the (decoded gunzip r)) = pk r" if "r \<in> set rows" for r
    using assms(1) that decoded_fields [of gunzip r] by (auto simp: readable_def)
  then have pks: "map time_key ?ms = map pk rows" by simp
  have good: "\<forall>p \<in> set (map (Pair table) ?ms). good_mut p"
    using assms(1,2) by (fastforce simp: readable_def good_mut_def dest: decoded_fields)
  from accumulate_seq_ok [OF MultiBatch_New_ok(1) good] obtain b
    where b: "run_acc MultiBatch_Accumulate (map (Pair table) ?ms) MultiBatch_New = Inr b" "multi_ok b"
      "multi_muts b = mset (map (Pair (Table_Canonical table)) ?ms)"
    by (auto simp: MultiBatch_New_ok o_def)
  have "sorted_wrt (\<lambda>x y. x < y) (map time_key ?ms)" unfolding pks using assms(3) by (simp add: sorted_wrt_map)
  then have "Flatten b = Inr ?ms" by (intro Flatten_one_table [OF b(2,3)]) (simp only: sorted_wrt_map)
  moreover have "only_table table b"
    by (rule only_table_run [OF b(1) _ MultiBatch_New_ok(1)]) (use good in \<open>simp_all add: only_table_def MultiBatch_New_def\<close>)
  ultimately show ?thesis using b dec by (intro exI [of _ b] exI [of _ ?ms]) (simp add: assemble_run [OF dec stub])
qed

section \<open>Pages\<close>

text \<open>The reference: a list cut into pages of \<open>n\<close> elements and a shorter last page.\<close>

function pages :: "nat \<Rightarrow> 'a list \<Rightarrow> 'a list list" where
  "pages n xs = (if n = 0 \<or> length xs < n then [xs] else take n xs # pages n (drop n xs))"
  by pat_completeness auto
termination by (relation "measure (\<lambda>(n, xs). length xs)") auto

declare pages.simps [simp del]

lemma concat_pages: "concat (pages n xs) = xs"
  by (induction n xs rule: pages.induct) (subst pages.simps, simp)

lemma length_pages: "0 < n \<Longrightarrow> length (pages n xs) = Suc (length xs div n)"
proof (induction n xs rule: pages.induct)
  case (1 n xs)
  show ?case
  proof (cases "length xs < n")
    case False
    then have "length (pages n xs) = Suc (Suc (length (drop n xs) div n))" using 1 by (subst pages.simps) simp
    also have "\<dots> = Suc (length xs div n)" using False "1.prems" le_div_geq [of n "length xs"] by simp
    finally show ?thesis .
  qed (subst pages.simps, simp)
qed

text \<open>What the cursor of a page tells.\<close>

definition page_cursor :: "(string \<Rightarrow> ('e, string) result) \<Rightarrow> Table \<Rightarrow> nat \<Rightarrow> Time \<Rightarrow> 'e tableCursor \<Rightarrow> st_row list \<Rightarrow> bool" where
  "page_cursor gunzip table fs hi c page \<longleftrightarrow> tc_Error c = None \<and> multi_ok (tc_Batch c) \<and> only_table table (tc_Batch c)
     \<and> (\<exists>ms. Flatten (tc_Batch c) = Inr ms \<and> map (decoded gunzip) page = map Some ms
           \<and> multi_muts (tc_Batch c) = mset (map (Pair (Table_Canonical table)) ms))
     \<and> (tc_Fragment c \<longleftrightarrow> fs \<le> length page)
     \<and> tc_Progress c = RangeExcluding Zero (if fs \<le> length page then sr_time (last page) else hi)"

lemma nextCursor_page:
  assumes r: "tr_accumulator r = []" "tr_fragmentSize r = fs" "0 < fs" "tr_scanBounds r = Range lo hi" "wf_table (tr_table r)"
    and tbl: "distinct (map pk tbl)" "\<forall>x \<in> set (rows_after (position lo (tr_scanKey r)) hi tbl). readable gunzip x"
    and page: "page = take fs (rows_after (position lo (tr_scanKey r)) hi tbl)"
    and full: "full = (fs \<le> length page)"
  shows "\<exists>c. nextCursor shouldRetry gone gunzip [(tbl, Completes)] r =
        (c, r\<lparr>tr_scanBounds := (if full then RangeExcluding (sr_time (last page)) hi else RangeEmptyAt hi),
              tr_scanKey := (if full then Some (sr_key (last page)) else None)\<rparr>)
     \<and> page_cursor gunzip (tr_table r) fs hi c page \<and> tc_Jump c = False"
proof -
  let ?r1 = "r\<lparr>tr_accumulator := map row_mutation page\<rparr>"
  have q: "query_attempt gone (r, [(tbl, Completes)]) = (None, ?r1, [])"
    using r by (simp add: query_attempt_def queryOnce_def readTableTemplate_rows page)
  have rt: "Retry None shouldRetry (query_attempt gone) (r, [(tbl, Completes)]) = (None, ?r1, [])"
    by (rule Retry_first) (rule q)
  have "\<forall>x \<in> set page. readable gunzip x" using tbl(2) by (auto simp: page dest: in_set_takeD)
  moreover have "sorted_wrt (\<lambda>a b. pk a < pk b) page" unfolding page by (intro sorted_wrt_take rows_after_strict tbl(1))
  ultimately obtain b ms where b: "assemble gunzip (tr_table r) (map row_mutation page) MultiBatch_New = Inr b" "multi_ok b"
    "Flatten b = Inr ms" "map (decoded gunzip) page = map Some ms" "multi_muts b = mset (map (Pair (Table_Canonical (tr_table r))) ms)" "only_table (tr_table r) b"
    using assemble_rows r(5) by blast
  let ?c = "\<lparr>tc_Batch = b, tc_Error = None, tc_Fragment = full, tc_Jump = False,
    tc_Progress = RangeExcluding Zero (if full then sr_time (last page) else hi)\<rparr>"
  have lm: "last (map row_mutation page) = row_mutation (last page)" if full
    using that r(3) unfolding full by (intro last_map) auto
  have "nextCursor shouldRetry gone gunzip [(tbl, Completes)] r =
        (?c, r\<lparr>tr_scanBounds := (if full then RangeExcluding (sr_time (last page)) hi else RangeEmptyAt hi),
              tr_scanKey := (if full then Some (sr_key (last page)) else None)\<rparr>)"
    unfolding nextCursor_def rt using r b(1) lm
    by (simp add: full Let_def row_mutation_def RangeExcluding_def RangeEmptyAt_def)
  then show ?thesis using b by (intro exI [of _ ?c]) (simp add: page_cursor_def full)
qed

text \<open>An iteration that meets a fixed table, no failure and no change of the bounds.\<close>

definition quiet :: "st_table \<Rightarrow> 'e iteration" where
  "quiet tbl = \<lparr>it_attempts = [(tbl, Completes)], it_stopping = False, it_bounds = None\<rparr>"

lemma page_cursor_Jump [simp]: "page_cursor gunzip t fs hi (c\<lparr>tc_Jump := j\<rparr>) page = page_cursor gunzip t fs hi c page"
  by (simp add: page_cursor_def)

lemma reader_loop_pages:
  assumes "tr_accumulator r = []" "tr_fragmentSize r = fs" "0 < fs" "tr_scanBounds r = Range lo hi" "wf_table (tr_table r)"
    and tbl: "distinct (map pk tbl)" and rows: "xs = rows_after (position lo (tr_scanKey r)) hi tbl"
    and ok: "\<forall>x \<in> set xs. readable gunzip x" and ne: "\<not> Range_Empty bounds"
    and n: "length (pages fs xs) \<le> n"
  shows "list_all2 (page_cursor gunzip (tr_table r) fs hi)
           (reader_loop shouldRetry gone gunzip (replicate n (quiet tbl)) (bounds, j, r)) (pages fs xs)"
  using assms(1-5) rows ok n
proof (induction "length xs" arbitrary: xs r lo j n rule: less_induct)
  case less
  note r = less.prems(1-5) and xs = less.prems(6) and ok = less.prems(7) and n = less.prems(8)
  let ?page = "take fs xs" and ?full = "fs \<le> length (take fs xs)"
  have "0 < n" using n length_pages [OF r(3), of xs] by simp
  then obtain k where k: "n = Suc k" by (cases n) auto
  obtain c where c: "nextCursor shouldRetry gone gunzip [(tbl, Completes)] r =
        (c, r\<lparr>tr_scanBounds := (if ?full then RangeExcluding (sr_time (last ?page)) hi else RangeEmptyAt hi),
              tr_scanKey := (if ?full then Some (sr_key (last ?page)) else None)\<rparr>)" (is "_ = (c, ?r')")
      "page_cursor gunzip (tr_table r) fs hi c ?page" "tc_Jump c = False"
    using nextCursor_page [OF r tbl ok [unfolded xs], where page = ?page and full = ?full] unfolding xs by blast
  have err: "tc_Error c = None" "tc_Fragment c \<longleftrightarrow> ?full" using c(2) by (auto simp: page_cursor_def)
  show ?case
  proof (cases ?full)
    case False
    then have p: "pages fs xs = [?page]" by (subst pages.simps) simp
    have "reader_loop shouldRetry gone gunzip (replicate n (quiet tbl)) (bounds, j, r) = [c\<lparr>tc_Jump := j\<rparr>]"
      using ne c(1) err False by (simp add: k reader_iteration_def quiet_def await_bounds_def)
    then show ?thesis using c(2) p by simp
  next
    case True
    then have len: "fs \<le> length xs" by simp
    then have p: "pages fs xs = ?page # pages fs (drop fs xs)" using r(3) by (subst pages.simps) simp
    have r': "tr_accumulator ?r' = []" "tr_fragmentSize ?r' = fs" "tr_scanBounds ?r' = Range (sr_time (last ?page)) hi"
      "wf_table (tr_table ?r')" "tr_table ?r' = tr_table r" "tr_scanKey ?r' = Some (sr_key (last ?page))"
      using r True by (simp_all add: RangeExcluding_def)
    have dr: "drop fs xs = rows_after (position (sr_time (last ?page)) (tr_scanKey ?r')) hi tbl"
      unfolding r'(6) using rows_after_next [OF tbl r(3) len [unfolded xs]] by (simp add: position_def pk_def xs)
    have h: "length (drop fs xs) < length xs" "\<forall>x \<in> set (drop fs xs). readable gunzip x" "length (pages fs (drop fs xs)) \<le> k"
      using ok n p r(3) len k by (auto dest: in_set_dropD)
    have "list_all2 (page_cursor gunzip (tr_table ?r') fs hi)
        (reader_loop shouldRetry gone gunzip (replicate k (quiet tbl)) (bounds, False, ?r')) (pages fs (drop fs xs))"
      by (rule less.hyps [OF h(1) r'(1,2) r(3) r'(3,4) dr h(2,3)])
    moreover have "reader_loop shouldRetry gone gunzip (replicate n (quiet tbl)) (bounds, j, r) =
        c\<lparr>tc_Jump := j\<rparr> # reader_loop shouldRetry gone gunzip (replicate k (quiet tbl)) (bounds, False, ?r')"
      using ne c(1) err True by (simp add: k reader_iteration_def quiet_def await_bounds_def poll_bounds_def)
    ultimately show ?thesis using c(2) p r'(5) by simp
  qed
qed

section \<open>Properties\<close>

lemma rows_after_start:
  assumes "\<forall>r \<in> set tbl. sr_key r \<noteq> []"
  shows "rows_after (position lo None) hi tbl = sort_key pk (filter (\<lambda>r. lo \<le> sr_time r \<and> sr_time r < hi \<and> \<not> sr_applied r) tbl)"
  unfolding rows_after_def position_def using assms
  by (intro arg_cong [of _ _ "sort_key pk"] filter_cong) (auto simp: pk_def less_le)

lemma pages_lengths:
  assumes "0 < n"
  shows "(\<forall>p \<in> set (butlast (pages n xs)). length p = n) \<and> length (last (pages n xs)) < n"
  using assms
proof (induction n xs rule: pages.induct)
  case (1 n xs)
  show ?case
  proof (cases "length xs < n")
    case False
    have ne: "pages n (drop n xs) \<noteq> []" by (subst pages.simps) simp
    have p: "pages n xs = take n xs # pages n (drop n xs)" using False "1.prems" by (subst pages.simps) simp
    have "(\<forall>p \<in> set (butlast (pages n (drop n xs))). length p = n) \<and> length (last (pages n (drop n xs))) < n"
      by (rule "1.IH") (use False "1.prems" in auto)
    moreover have "length (take n xs) = n" using False by simp
    ultimately show ?thesis unfolding p using ne by (simp del: length_take)
  next
    case True
    then have "pages n xs = [xs]" by (subst pages.simps) simp
    then show ?thesis using True by simp
  qed
qed

lemma reader_run_pages:
  assumes "0 < fs" "wf_table target" "distinct (map pk tbl)" "lo < hi" "valid_time lo" "valid_time hi"
    and "\<forall>r \<in> set tbl. sr_key r \<noteq> [] \<and> (\<not> sr_applied r \<longrightarrow> readable gunzip r)"
    and xs: "xs = sort_key pk (filter (\<lambda>r. lo \<le> sr_time r \<and> sr_time r < hi \<and> \<not> sr_applied r) tbl)"
    and n: "Suc (length xs div fs) \<le> n"
  shows "list_all2 (page_cursor gunzip target fs hi)
      (reader_run shouldRetry gone gunzip (Range lo hi) (replicate n (quiet tbl)) (newTableReader fs target)) (pages fs xs)"
proof -
  let ?r = "snd (updateBounds (Range lo hi) (newTableReader fs target))"
  have r: "tr_accumulator ?r = []" "tr_fragmentSize ?r = fs" "tr_scanBounds ?r = Range lo hi" "tr_table ?r = target" "tr_scanKey ?r = None"
    by (simp_all add: updateBounds_def newTableReader_def Range_Empty_def Compare_def)
  have xs': "xs = rows_after (position lo (tr_scanKey ?r)) hi tbl"
    unfolding r(5) xs by (rule rows_after_start [symmetric]) (use assms(7) in blast)
  have ok: "\<forall>x \<in> set xs. readable gunzip x" using assms(7) by (auto simp: xs)
  have ne: "\<not> Range_Empty (Range lo hi)" using assms(4-6) by (simp add: Range_Empty_def Compare_order not_le)
  show ?thesis
    unfolding reader_run_def
    using reader_loop_pages [OF r(1,2) assms(1) r(3) _ assms(3) xs' ok ne, of n] n length_pages [OF assms(1), of xs] assms(2) r(4)
    by simp
qed

text \<open>
  C25: a reader of a table that does not change, without failures, sends all unapplied rows of its bounds
  in the order of time and key, decompressed, in pages of the fragment size: every page but the last one
  is marked as a fragment and its progress excludes the time of its last row, and the last page completes the
  bounds. It does so within one iteration per full page and one more.
\<close>

theorem reader_delivers_pages:
  assumes "0 < fs" "wf_table target" "distinct (map pk tbl)" "lo < hi" "valid_time lo" "valid_time hi"
    and "\<forall>r \<in> set tbl. sr_key r \<noteq> [] \<and> (\<not> sr_applied r \<longrightarrow> readable gunzip r)"
    and "xs = sort_key pk (filter (\<lambda>r. lo \<le> sr_time r \<and> sr_time r < hi \<and> \<not> sr_applied r) tbl)"
    and "Suc (length xs div fs) \<le> n"
  shows "\<exists>pgs. concat pgs = xs \<and> length pgs = Suc (length xs div fs)
    \<and> (\<forall>p \<in> set (butlast pgs). length p = fs) \<and> length (last pgs) < fs
    \<and> list_all2 (\<lambda>c p. tc_Error c = None \<and> (\<exists>ms. Flatten (tc_Batch c) = Inr ms \<and> map (decoded gunzip) p = map Some ms)
           \<and> (tc_Fragment c \<longleftrightarrow> fs \<le> length p)
           \<and> tc_Progress c = RangeExcluding Zero (if fs \<le> length p then sr_time (last p) else hi))
        (reader_run shouldRetry gone gunzip (Range lo hi) (replicate n (quiet tbl)) (newTableReader fs target)) pgs"
proof (intro exI [of _ "pages fs xs"] conjI)
  show "list_all2 (\<lambda>c p. tc_Error c = None \<and> (\<exists>ms. Flatten (tc_Batch c) = Inr ms \<and> map (decoded gunzip) p = map Some ms)
           \<and> (tc_Fragment c \<longleftrightarrow> fs \<le> length p)
           \<and> tc_Progress c = RangeExcluding Zero (if fs \<le> length p then sr_time (last p) else hi))
        (reader_run shouldRetry gone gunzip (Range lo hi) (replicate n (quiet tbl)) (newTableReader fs target)) (pages fs xs)"
    by (rule list_all2_mono [OF reader_run_pages [OF assms]]) (auto simp: page_cursor_def)
qed (use pages_lengths [OF assms(1), of xs] in \<open>simp_all add: concat_pages length_pages [OF assms(1)]\<close>)

text \<open>Witness for C25: three rows, one of them applied, read with pages of one row.\<close>

definition demo_rows :: st_table where
  "demo_rows = [staged_row (pack_one id (demo_mut ''[2]'' 5)), staged_row (pack_one id (demo_mut ''[1]'' 5)),
     (staged_row (pack_one id (demo_mut ''[3]'' 4)))\<lparr>sr_applied := True\<rparr>]"

theorem reader_delivers_pages_witness:
  "\<exists>pgs. concat pgs = [demo_rows ! 1, demo_rows ! 0] \<and> length pgs = 3 \<and>
     list_all2 (\<lambda>c p. tc_Fragment c \<longleftrightarrow> 1 \<le> length p)
        (reader_run (\<lambda>_. True) ''gone'' Inr (Range (Time 1 0) (Time 9 0)) (replicate 3 (quiet demo_rows)) (newTableReader 1 (demo_table ''t''))) pgs"
proof -
  have tbl: "\<forall>r \<in> set demo_rows. sr_key r \<noteq> [] \<and> (\<not> sr_applied r \<longrightarrow> readable (Inr :: string \<Rightarrow> (string, string) result) r)"
    by (simp add: demo_rows_def readable_def decoded_def maybeGunzip_def maybeGZip_def gzipMinSize_def pack_one_def demo_mut_def
        stubSentinel_def valid_time_def Zero_def)
  have xs: "[demo_rows ! 1, demo_rows ! 0] = sort_key pk (filter (\<lambda>r. Time 1 0 \<le> sr_time r \<and> sr_time r < Time 9 0 \<and> \<not> sr_applied r) demo_rows)"
    by code_simp
  have pre: "wf_table (demo_table ''t'')" "distinct (map pk demo_rows)" "Time 1 0 < Time 9 0" "valid_time (Time 1 0)" "valid_time (Time 9 0)"
    by code_simp+
  from reader_delivers_pages [where shouldRetry = "\<lambda>_. True" and gone = "''gone''" and n = 3, OF zero_less_one pre tbl xs] obtain pgs
    where "concat pgs = [demo_rows ! 1, demo_rows ! 0]" "length pgs = 3"
      and a: "list_all2 (\<lambda>c p. tc_Error c = None \<and> (\<exists>ms. Flatten (tc_Batch c) = Inr ms \<and> map (decoded (Inr :: string \<Rightarrow> (string, string) result)) p = map Some ms)
           \<and> (tc_Fragment c \<longleftrightarrow> 1 \<le> length p) \<and> tc_Progress c = RangeExcluding Zero (if 1 \<le> length p then sr_time (last p) else Time 9 0))
        (reader_run (\<lambda>_. True) ''gone'' Inr (Range (Time 1 0) (Time 9 0)) (replicate 3 (quiet demo_rows)) (newTableReader 1 (demo_table ''t''))) pgs"
    by (auto simp: numeral_eq_Suc)
  moreover have "list_all2 (\<lambda>c p. tc_Fragment c \<longleftrightarrow> 1 \<le> length p)
        (reader_run (\<lambda>_. True) ''gone'' Inr (Range (Time 1 0) (Time 9 0)) (replicate 3 (quiet demo_rows)) (newTableReader 1 (demo_table ''t''))) pgs"
    by (rule list_all2_mono [OF a]) simp
  ultimately show ?thesis by blast
qed

text \<open>
  The query is retried with the rows of the failed attempt still in the accumulator. When the connection
  breaks after one of two rows and the second attempt succeeds, the cursor holds three mutations and is
  marked as a fragment, although two rows are less than the fragment size of three.
\<close>

theorem read_retry_duplicates:
  "let rows = demo_rows;
       c = fst (nextCursor (\<lambda>_. True) ''gone'' Inr [(rows, BreaksAfter 1 ''reset''), (rows, Completes)]
             (snd (updateBounds (Range (Time 1 0) (Time 9 0)) (newTableReader 3 (demo_table ''t'')))))
   in length (filter (\<lambda>r. \<not> sr_applied r) rows) = 2 \<and> tc_Error c = None \<and> MultiBatch_Count (tc_Batch c) = 3 \<and> tc_Fragment c"
  by code_simp

end
