(* ===== verification/Merger.thy ===== *)
theory Merger
  imports Reader
begin

text \<open>
  The merge of the readers of a table group into one stream of transactions,
  \<open>src/internal/staging/stage/table_merger.go\<close>. The channel of a reader is the list of the cursors that it
  will still send; a channel whose list is empty is closed.
\<close>

section \<open>Buffers\<close>

record 'e mergeBuffer =
  mg_buffer :: "'e tableCursor option"
  mg_offset :: nat
  mg_source :: "'e tableCursor list"

definition buffered :: "'e mergeBuffer \<Rightarrow> TemporalBatch list" where
  "buffered s = (case mg_buffer s of None \<Rightarrow> [] | Some c \<Rightarrow> temporal_batches (tc_Batch c))"

definition mergeBuffer_Empty :: "'e mergeBuffer \<Rightarrow> bool" where
  "mergeBuffer_Empty s \<longleftrightarrow> mg_buffer s = None \<or> mg_offset s \<ge> length (buffered s)"

definition mergeBuffer_Fragment :: "'e mergeBuffer \<Rightarrow> bool" where
  "mergeBuffer_Fragment s = (case mg_buffer s of None \<Rightarrow> False | Some c \<Rightarrow> tc_Fragment c)"

definition mergeBuffer_Jump :: "'e mergeBuffer \<Rightarrow> bool" where
  "mergeBuffer_Jump s = (case mg_buffer s of None \<Rightarrow> False | Some c \<Rightarrow> tc_Jump c)"

definition Take :: "'e mergeBuffer \<Rightarrow> TemporalBatch option \<times> 'e mergeBuffer" where
  "Take s = (if mergeBuffer_Empty s then (None, s)
             else (Some (buffered s ! mg_offset s), s\<lparr>mg_offset := mg_offset s + 1\<rparr>))"

definition mergeBuffer_Progress :: "'e mergeBuffer \<Rightarrow> Range" where
  "mergeBuffer_Progress s =
     (case mg_buffer s of
        None \<Rightarrow> RangeEmpty
      | Some c \<Rightarrow> if mergeBuffer_Empty s then tc_Progress c
                  else RangeExcluding Zero (tp_Time (buffered s ! mg_offset s)))"

definition ingest :: "'e tableCursor \<Rightarrow> 'e mergeBuffer \<Rightarrow> ('e cursor_error, 'e mergeBuffer) result" where
  "ingest cursor s =
     (case tc_Error cursor of
        Some e \<Rightarrow> Inl e
      | None \<Rightarrow> Inr (s\<lparr>mg_buffer := Some cursor, mg_offset := 0\<rparr>))"

text \<open>
  \<open>received\<close> is false when the select takes its other branch: the default one of a non-blocking refresh,
  the stopping one of a blocking refresh.
\<close>

definition mergeBuffer_Refresh :: "bool \<Rightarrow> 'e mergeBuffer \<Rightarrow> ('e cursor_error, 'e mergeBuffer) result" where
  "mergeBuffer_Refresh received s =
     (if received
      then case mg_source s of
             [] \<Rightarrow> Inr s
           | cursor # rest \<Rightarrow> ingest cursor (s\<lparr>mg_source := rest\<rparr>)
      else Inr s)"

section \<open>One step of the merge\<close>

record 'e StagingCursor =
  sc_Batch :: "TemporalBatch option"
  sc_Error :: "'e cursor_error option"
  sc_Fragment :: bool
  sc_Jump :: bool
  sc_Progress :: Range

text \<open>The search for the least progress: the minimal time, the empty buffers and all buffers at it.\<close>

definition scan_buffer :: "'e mergeBuffer list \<Rightarrow> nat \<Rightarrow> Time \<times> nat list \<times> nat list \<Rightarrow> Time \<times> nat list \<times> nat list" where
  "scan_buffer states i s =
     (case s of (minTime, empties, toSend) \<Rightarrow>
        let buf = states ! i; mx = Range_Max (mergeBuffer_Progress buf); c = Compare mx minTime
        in if c = 0 then (minTime, if mergeBuffer_Empty buf then empties @ [i] else empties, toSend @ [i])
           else if c < 0 then (mx, if mergeBuffer_Empty buf then [i] else [], [i])
           else (minTime, empties, toSend))"

definition scan_buffers :: "'e mergeBuffer list \<Rightarrow> Time \<times> nat list \<times> nat list" where
  "scan_buffers states = fold (scan_buffer states) [0..<length states] (New MaxInt64 MaxInt64, [], [])"

text \<open>The loop that takes one batch from each buffer to send.\<close>

definition add_batch :: "TemporalBatch option \<Rightarrow> TemporalBatch option \<Rightarrow> TemporalBatch option" where
  "add_batch batch acc =
     (case batch of
        None \<Rightarrow> acc
      | Some b \<Rightarrow>
          (case acc of
             None \<Rightarrow> Some b
           | Some a \<Rightarrow> Some (a\<lparr>tp_Data := imap_CopyInto Table_Canonical (tp_Data b) (tp_Data a)\<rparr>)))"

definition send_buffer ::
  "nat \<Rightarrow> 'e StagingCursor \<times> 'e mergeBuffer list \<times> nat list \<Rightarrow> 'e StagingCursor \<times> 'e mergeBuffer list \<times> nat list" where
  "send_buffer i s =
     (case s of (cursor, states, empties) \<Rightarrow>
        case Take (states ! i) of (batch, buf) \<Rightarrow>
          let c1 = cursor\<lparr>sc_Jump := sc_Jump cursor \<or> mergeBuffer_Jump (states ! i),
                          sc_Batch := add_batch batch (sc_Batch cursor)\<rparr>
          in (if mergeBuffer_Empty buf
              then (c1\<lparr>sc_Fragment := sc_Fragment c1 \<or> mergeBuffer_Fragment buf\<rparr>, states[i := buf], empties @ [i])
              else (c1, states[i := buf], empties)))"

definition nextStep ::
  "'e mergeBuffer list \<Rightarrow> 'e StagingCursor option \<times> nat list \<times> bool \<times> 'e mergeBuffer list" where
  "nextStep states =
     (case scan_buffers states of (minTime, empties, toSend) \<Rightarrow>
        let cursor = \<lparr>sc_Batch = None, sc_Error = None, sc_Fragment = False, sc_Jump = False,
                      sc_Progress = RangeExcluding Zero minTime\<rparr>
        in if length empties > 0
           then (if length toSend = length empties then (Some cursor, empties, True, states)
                 else (None, empties, True, states))
           else case fold send_buffer toSend (cursor, states, empties) of
                  (cursor', states', refill) \<Rightarrow> (Some cursor', refill, False, states'))"

section \<open>The main loop\<close>

definition error_StagingCursor :: "'e cursor_error \<Rightarrow> 'e StagingCursor" where
  "error_StagingCursor e =
     \<lparr>sc_Batch = None, sc_Error = Some e, sc_Fragment = False, sc_Jump = False, sc_Progress = Range Zero Zero\<rparr>"

fun refresh_buffers :: "(nat \<Rightarrow> bool) \<Rightarrow> nat list \<Rightarrow> 'e mergeBuffer list \<Rightarrow> ('e cursor_error, 'e mergeBuffer list) result" where
  "refresh_buffers received [] states = Inr states"
| "refresh_buffers received (i # is) states =
     (case mergeBuffer_Refresh (received i) (states ! i) of
        Inl e \<Rightarrow> Inl e
      | Inr buf \<Rightarrow> refresh_buffers received is (states[i := buf]))"

text \<open>
  What one iteration meets: a stop while it sends, a stop while it sends an error, and which channels had
  a cursor for the refresh.
\<close>

record merge_env =
  me_stopping :: bool
  me_stopping_error :: bool
  me_received :: "nat \<Rightarrow> bool"

definition send_error :: "bool \<Rightarrow> 'e cursor_error \<Rightarrow> 'e StagingCursor list" where
  "send_error stopping e = (if stopping then [] else [error_StagingCursor e])"

text \<open>The result is the cursors sent, and the buffers unless the loop has ended.\<close>

definition merge_iteration ::
  "merge_env \<Rightarrow> 'e mergeBuffer list \<Rightarrow> 'e StagingCursor list \<times> 'e mergeBuffer list option" where
  "merge_iteration env states =
     (case nextStep states of (cursor, refill, blocking, states1) \<Rightarrow>
        if cursor \<noteq> None \<and> me_stopping env then ([], None)
        else let out = (case cursor of None \<Rightarrow> [] | Some c \<Rightarrow> [c]) in
             case refresh_buffers (me_received env) refill states1 of
               Inl e \<Rightarrow> (out @ send_error (me_stopping_error env) e, None)
             | Inr states2 \<Rightarrow> (out, Some states2))"

fun merge_loop :: "merge_env list \<Rightarrow> 'e mergeBuffer list \<Rightarrow> 'e StagingCursor list \<times> 'e mergeBuffer list option" where
  "merge_loop [] states = ([], Some states)"
| "merge_loop (env # envs) states =
     (case merge_iteration env states of
        (out, None) \<Rightarrow> (out, None)
      | (out, Some states') \<Rightarrow> (case merge_loop envs states' of (outs, final) \<Rightarrow> (out @ outs, final)))"

definition newTableMerger :: "'e tableCursor list list \<Rightarrow> 'e mergeBuffer list" where
  "newTableMerger sources = map (\<lambda>source. \<lparr>mg_buffer = None, mg_offset = 0, mg_source = source\<rparr>) sources"

definition merge_run ::
  "merge_env \<Rightarrow> merge_env list \<Rightarrow> 'e mergeBuffer list \<Rightarrow> 'e StagingCursor list \<times> 'e mergeBuffer list option" where
  "merge_run env envs states =
     (case refresh_buffers (me_received env) [0..<length states] states of
        Inl e \<Rightarrow> (send_error (me_stopping_error env) e, None)
      | Inr states' \<Rightarrow> merge_loop envs states')"

section \<open>Well-formed streams\<close>

text \<open>
  What the channel of a reader carries: the batches of a cursor have strictly increasing times between the
  progress before and the progress of the cursor, and only a fragment has a batch at its progress time.
\<close>

definition pmax :: "'e tableCursor \<Rightarrow> Time" where
  "pmax c = Range_Max (tc_Progress c)"

definition of_table :: "Table \<Rightarrow> TemporalBatch \<Rightarrow> bool" where
  "of_table table t \<longleftrightarrow> temporal_ok t \<and> (\<forall>e \<in> set (tp_Data t). Table_Canonical (fst e) = Table_Canonical table)"

definition cursor_ok :: "Table \<Rightarrow> Time \<Rightarrow> 'e tableCursor \<Rightarrow> bool" where
  "cursor_ok table lo c \<longleftrightarrow> tc_Error c = None \<and> valid_time (pmax c) \<and> lo \<le> pmax c
     \<and> sorted_wrt (\<lambda>s t. tp_Time s < tp_Time t) (temporal_batches (tc_Batch c))
     \<and> (\<forall>t \<in> set (temporal_batches (tc_Batch c)). of_table table t \<and> lo \<le> tp_Time t \<and> tp_Time t \<le> pmax c
           \<and> (tp_Time t = pmax c \<longrightarrow> tc_Fragment c))"

fun stream_ok :: "Table \<Rightarrow> Time \<Rightarrow> 'e tableCursor list \<Rightarrow> bool" where
  "stream_ok table lo [] = True"
| "stream_ok table lo (c # cs) \<longleftrightarrow> cursor_ok table lo c \<and> stream_ok table (pmax c) cs"

definition buf_ok :: "Table \<Rightarrow> 'e mergeBuffer \<Rightarrow> bool" where
  "buf_ok table s \<longleftrightarrow>
     (case mg_buffer s of
        None \<Rightarrow> mg_offset s = 0 \<and> stream_ok table Zero (mg_source s)
      | Some c \<Rightarrow> (\<exists>lo. cursor_ok table lo c) \<and> stream_ok table (pmax c) (mg_source s))"

text \<open>The batches that a buffer and its channel still hold, and the least time they can have.\<close>

definition source_batches :: "'e tableCursor list \<Rightarrow> TemporalBatch list" where
  "source_batches cs = concat (map (temporal_batches \<circ> tc_Batch) cs)"

definition remaining :: "'e mergeBuffer \<Rightarrow> TemporalBatch list" where
  "remaining s = drop (mg_offset s) (buffered s) @ source_batches (mg_source s)"

definition progress_max :: "'e mergeBuffer \<Rightarrow> Time" where
  "progress_max s = Range_Max (mergeBuffer_Progress s)"

lemma stream_ok_times: "\<lbrakk>stream_ok table lo cs; t \<in> set (source_batches cs)\<rbrakk> \<Longrightarrow> lo \<le> tp_Time t \<and> of_table table t"
proof (induction table lo cs rule: stream_ok.induct)
  case (2 table lo c cs)
  have c: "cursor_ok table lo c" "stream_ok table (pmax c) cs" using "2.prems"(1) by simp_all
  have le: "lo \<le> pmax c" using c(1) by (simp add: cursor_ok_def)
  consider "t \<in> set (temporal_batches (tc_Batch c))" | "t \<in> set (source_batches cs)"
    using "2.prems"(2) by (auto simp: source_batches_def)
  then show ?case
  proof cases
    case 1
    then show ?thesis using c(1) by (simp add: cursor_ok_def)
  next
    case 2
    then show ?thesis using "2.IH" c(2) le by auto
  qed
qed (simp add: source_batches_def)

lemma buffer_None [simp]:
  assumes "mg_buffer s = None"
  shows "mergeBuffer_Empty s" "buffered s = []" "progress_max s = Zero" "\<not> mergeBuffer_Fragment s"
  using assms by (simp_all add: mergeBuffer_Empty_def buffered_def progress_max_def mergeBuffer_Progress_def RangeEmpty_def mergeBuffer_Fragment_def)

lemma Zero_le_valid: "valid_time t \<Longrightarrow> Zero \<le> t"
  by (auto simp: Zero_def valid_time_def less_eq_Time_def)

lemma progress_max_Empty: "mg_buffer s = Some c \<Longrightarrow> mergeBuffer_Empty s \<Longrightarrow> progress_max s = pmax c"
  by (simp add: progress_max_def mergeBuffer_Progress_def pmax_def)

lemma progress_max_head: "\<not> mergeBuffer_Empty s \<Longrightarrow> progress_max s = tp_Time (buffered s ! mg_offset s)"
  by (auto simp: progress_max_def mergeBuffer_Progress_def RangeExcluding_def mergeBuffer_Empty_def split: option.splits)

lemma buf_okE:
  assumes "buf_ok table s" "mg_buffer s = Some c"
  obtains lo where "cursor_ok table lo c" "stream_ok table (pmax c) (mg_source s)" "buffered s = temporal_batches (tc_Batch c)"
  using assms by (auto simp: buf_ok_def buffered_def)

lemma progress_valid: "buf_ok table s \<Longrightarrow> valid_time (progress_max s)"
proof (cases "mg_buffer s")
  case (Some c)
  assume ok: "buf_ok table s"
  obtain lo where c: "cursor_ok table lo c" "buffered s = temporal_batches (tc_Batch c)" using buf_okE [OF ok Some] by blast
  show ?thesis
  proof (cases "mergeBuffer_Empty s")
    case False
    then have "buffered s ! mg_offset s \<in> set (buffered s)" by (simp add: mergeBuffer_Empty_def)
    then show ?thesis using c progress_max_head [OF False] by (auto simp: cursor_ok_def of_table_def temporal_ok_def)
  qed (use c(1) Some in \<open>simp add: progress_max_Empty cursor_ok_def\<close>)
qed simp

lemma remaining_Empty: "mergeBuffer_Empty s \<Longrightarrow> remaining s = source_batches (mg_source s)"
  by (auto simp: remaining_def mergeBuffer_Empty_def)

lemma remaining_times:
  assumes ok: "buf_ok table s" and t: "t \<in> set (remaining s)"
  shows "progress_max s \<le> tp_Time t \<and> of_table table t"
proof (cases "mg_buffer s")
  case None
  then show ?thesis using ok t by (auto simp: buf_ok_def remaining_Empty dest: stream_ok_times)
next
  case (Some c)
  obtain lo where c: "cursor_ok table lo c" "stream_ok table (pmax c) (mg_source s)" "buffered s = temporal_batches (tc_Batch c)"
    using buf_okE [OF ok Some] by blast
  show ?thesis
  proof (cases "mergeBuffer_Empty s")
    case True
    then show ?thesis using c(2) t Some by (auto simp: remaining_Empty progress_max_Empty dest: stream_ok_times)
  next
    case False
    then have o: "mg_offset s < length (buffered s)" by (auto simp: mergeBuffer_Empty_def Some)
    let ?h = "buffered s ! mg_offset s"
    have h: "?h \<in> set (buffered s)" using o by simp
    have le: "tp_Time ?h \<le> pmax c" using c(1,3) h by (simp add: cursor_ok_def)
    have sorted: "sorted_wrt (\<lambda>s t. tp_Time s < tp_Time t) (buffered s)" using c(1,3) by (simp add: cursor_ok_def)
    consider "t \<in> set (drop (mg_offset s) (buffered s))" | "t \<in> set (source_batches (mg_source s))"
      using t by (auto simp: remaining_def)
    then show ?thesis
    proof cases
      case 1
      then obtain k where k: "k < length (buffered s) - mg_offset s" "t = buffered s ! (mg_offset s + k)"
        by (auto simp: in_set_conv_nth)
      have "tp_Time ?h \<le> tp_Time t"
        using sorted_wrt_nth_less [OF sorted, of "mg_offset s" "mg_offset s + k"] k less_diff_conv2 [of "mg_offset s"]
        by (cases k) (auto simp: less_imp_le)
      moreover have "t \<in> set (buffered s)" using 1 by (rule in_set_dropD)
      ultimately show ?thesis using c(1,3) progress_max_head [OF False] by (simp add: cursor_ok_def)
    next
      case 2
      then show ?thesis using stream_ok_times [OF c(2)] le progress_max_head [OF False] by fastforce
    qed
  qed
qed

section \<open>Steps of a buffer\<close>

lemma Take_step:
  assumes ok: "buf_ok table s" and ne: "\<not> mergeBuffer_Empty s" and take: "Take s = (batch, s')"
  shows "\<exists>b. batch = Some b \<and> remaining s = b # remaining s' \<and> tp_Time b = progress_max s \<and> buf_ok table s'
    \<and> progress_max s \<le> progress_max s'
    \<and> ((\<forall>t \<in> set (remaining s'). tp_Time b < tp_Time t) \<or> mergeBuffer_Empty s' \<and> mergeBuffer_Fragment s')
    \<and> (progress_max s < progress_max s' \<or> mergeBuffer_Empty s' \<and> mergeBuffer_Fragment s')"
proof -
  obtain c where sc: "mg_buffer s = Some c" using ne by (cases "mg_buffer s") auto
  obtain lo where c: "cursor_ok table lo c" "stream_ok table (pmax c) (mg_source s)" "buffered s = temporal_batches (tc_Batch c)"
    using buf_okE [OF ok sc] by blast
  let ?o = "mg_offset s"
  have o: "?o < length (buffered s)" using ne by (auto simp: mergeBuffer_Empty_def sc)
  let ?b = "buffered s ! ?o"
  have b: "batch = Some ?b" "s' = s\<lparr>mg_offset := Suc ?o\<rparr>" using take ne by (simp_all add: Take_def)
  have same: "mg_buffer s' = Some c" "buffered s' = buffered s" "mg_source s' = mg_source s" by (simp_all add: b sc buffered_def)
  have rem: "remaining s = ?b # remaining s'" using o by (simp add: remaining_def b(2) same(2) Cons_nth_drop_Suc [symmetric] buffered_def)
  have pm: "progress_max s = tp_Time ?b" by (rule progress_max_head [OF ne])
  have ok': "buf_ok table s'" using ok by (simp add: buf_ok_def b(2) sc)
  have bm: "tp_Time ?b \<le> pmax c" "tp_Time ?b = pmax c \<Longrightarrow> tc_Fragment c" using c(1,3) o by (auto simp: cursor_ok_def)
  have sorted: "sorted_wrt (\<lambda>s t. tp_Time s < tp_Time t) (buffered s)" using c(1,3) by (simp add: cursor_ok_def)
  have p: "progress_max s < progress_max s' \<or> mergeBuffer_Empty s' \<and> mergeBuffer_Fragment s'"
  proof (cases "mergeBuffer_Empty s'")
    case True
    then show ?thesis using bm progress_max_Empty [OF same(1)] pm same(1) by (auto simp: mergeBuffer_Fragment_def le_less)
  next
    case False
    then have "Suc ?o < length (buffered s)" by (auto simp: mergeBuffer_Empty_def same b(2) buffered_def sc)
    then have "tp_Time ?b < tp_Time (buffered s ! Suc ?o)" using sorted_wrt_nth_less [OF sorted, of ?o "Suc ?o"] by simp
    then show ?thesis using progress_max_head [OF False] pm same(2) by (simp add: b(2))
  qed
  have le: "progress_max s \<le> progress_max s'"
    using p bm(1) progress_max_Empty [OF same(1)] pm by (auto simp: less_imp_le)
  have "(\<forall>t \<in> set (remaining s'). tp_Time ?b < tp_Time t) \<or> mergeBuffer_Empty s' \<and> mergeBuffer_Fragment s'"
    using p remaining_times [OF ok'] pm by fastforce
  then show ?thesis using b rem pm ok' le p by (intro exI [of _ ?b] conjI) simp_all
qed

lemma Refresh_step:
  assumes ok: "buf_ok table s" and e: "mergeBuffer_Empty s"
  shows "\<exists>s'. mergeBuffer_Refresh received s = Inr s' \<and> buf_ok table s' \<and> remaining s' = remaining s \<and> progress_max s \<le> progress_max s'"
proof (cases "received \<and> mg_source s \<noteq> []")
  case True
  then obtain c cs where src: "mg_source s = c # cs" by (cases "mg_source s") auto
  let ?s = "s\<lparr>mg_buffer := Some c, mg_offset := 0, mg_source := cs\<rparr>"
  obtain lo where c: "cursor_ok table lo c" "stream_ok table (pmax c) cs" "progress_max s = lo"
  proof (cases "mg_buffer s")
    case None
    then show thesis using ok that [of Zero] by (simp add: buf_ok_def src)
  next
    case (Some d)
    then show thesis using ok that [of "pmax d"] progress_max_Empty [OF Some e] by (auto simp: buf_ok_def src)
  qed
  have r: "mergeBuffer_Refresh received s = Inr ?s" using True c(1) by (simp add: mergeBuffer_Refresh_def src ingest_def cursor_ok_def)
  have ok': "buf_ok table ?s" using c by (auto simp: buf_ok_def)
  have rem: "remaining ?s = remaining s" using remaining_Empty [OF e] by (simp add: remaining_def buffered_def source_batches_def src)
  have "lo \<le> progress_max ?s"
  proof (cases "mergeBuffer_Empty ?s")
    case False
    then show ?thesis using progress_max_head [OF False] c(1) by (auto simp: mergeBuffer_Empty_def buffered_def cursor_ok_def)
  qed (use c(1) in \<open>simp add: progress_max_Empty cursor_ok_def\<close>)
  then show ?thesis using r ok' rem c(3) by blast
next
  case False
  then have "mergeBuffer_Refresh received s = Inr s" by (auto simp: mergeBuffer_Refresh_def split: list.splits)
  then show ?thesis using ok by auto
qed

section \<open>Finding the least progress\<close>

definition scan_result :: "'e mergeBuffer list \<Rightarrow> nat list \<Rightarrow> Time \<times> nat list \<times> nat list \<Rightarrow> bool" where
  "scan_result states is r \<longleftrightarrow>
     (case r of (m, es, ts) \<Rightarrow> valid_time m \<and> (if is = [] then m = New MaxInt64 MaxInt64 else ts \<noteq> []) \<and> (\<forall>i \<in> set is. m \<le> progress_max (states ! i))
        \<and> ts = filter (\<lambda>i. progress_max (states ! i) = m) is
        \<and> es = filter (\<lambda>i. progress_max (states ! i) = m \<and> mergeBuffer_Empty (states ! i)) is)"

lemma scan_buffer_step:
  assumes v: "valid_time (progress_max (states ! i))" and r: "scan_result states is r"
  shows "scan_result states (is @ [i]) (scan_buffer states i r)"
proof -
  obtain m es ts where s: "r = (m, es, ts)" by (metis prod_cases3)
  let ?p = "progress_max (states ! i)"
  have ne: "if is = [] then m = New MaxInt64 MaxInt64 else ts \<noteq> []" using r unfolding scan_result_def s by blast
  have top: "?p \<le> New MaxInt64 MaxInt64" using v by (auto simp: New_def valid_time_def less_eq_Time_def MaxInt64_def)
  have m: "valid_time m" "\<forall>j \<in> set is. m \<le> progress_max (states ! j)"
    and f: "ts = filter (\<lambda>i. progress_max (states ! i) = m) is"
      "es = filter (\<lambda>i. progress_max (states ! i) = m \<and> mergeBuffer_Empty (states ! i)) is"
    using r by (simp_all add: scan_result_def s)
  consider "?p = m" | "?p < m" | "m < ?p" by fastforce
  then show ?thesis
  proof cases
    case 2
    then have "filter (\<lambda>j. progress_max (states ! j) = ?p) is = []"
      "filter (\<lambda>j. progress_max (states ! j) = ?p \<and> mergeBuffer_Empty (states ! j)) is = []"
      using m(2) by (fastforce simp: filter_empty_conv)+
    then show ?thesis
      using 2 v m Compare_order [OF v m(1)] by (auto simp: scan_result_def scan_buffer_def s progress_max_def Let_def)
  next
    case 3
    then have "ts \<noteq> []" using ne top by (auto split: if_splits)
    then show ?thesis
      using 3 v m f Compare_order [OF v m(1)] by (auto simp: scan_result_def scan_buffer_def s progress_max_def Let_def)
  qed (use v m f Compare_order [OF v m(1)] in \<open>auto simp: scan_result_def scan_buffer_def s progress_max_def Let_def\<close>)
qed

lemma scan_buffers_result:
  assumes "\<forall>s \<in> set states. valid_time (progress_max s)"
  shows "scan_result states [0..<length states] (scan_buffers states)"
proof -
  have "scan_result states [0..<n] (fold (scan_buffer states) [0..<n] (New MaxInt64 MaxInt64, [], []))" if "n \<le> length states" for n
    using that
  proof (induction n)
    case 0
    show ?case by (simp add: scan_result_def New_def valid_time_def MaxInt64_def)
  next
    case (Suc n)
    then show ?case using scan_buffer_step [of states n "[0..<n]"] assms by simp
  qed
  then show ?thesis by (simp add: scan_buffers_def)
qed

section \<open>Sending a step\<close>

definition after_take :: "nat list \<Rightarrow> 'e mergeBuffer list \<Rightarrow> 'e mergeBuffer list" where
  "after_take ts states = map (\<lambda>i. if i \<in> set ts then snd (Take (states ! i)) else states ! i) [0..<length states]"

lemma after_take_nth [simp]:
  "length (after_take ts states) = length states"
  "i < length states \<Longrightarrow> after_take ts states ! i = (if i \<in> set ts then snd (Take (states ! i)) else states ! i)"
  by (simp_all add: after_take_def)

lemma send_buffers_eq:
  assumes "distinct ts" "\<forall>i \<in> set ts. i < length states"
  shows "\<exists>c'. fold send_buffer ts (c, states, es) =
      (c', after_take ts states, es @ filter (\<lambda>i. mergeBuffer_Empty (snd (Take (states ! i)))) ts)
    \<and> sc_Error c' = sc_Error c \<and> sc_Progress c' = sc_Progress c
    \<and> sc_Batch c' = fold (\<lambda>i. add_batch (fst (Take (states ! i)))) ts (sc_Batch c)
    \<and> (sc_Fragment c' \<longleftrightarrow> sc_Fragment c
          \<or> (\<exists>i \<in> set ts. mergeBuffer_Empty (snd (Take (states ! i))) \<and> mergeBuffer_Fragment (snd (Take (states ! i)))))"
  using assms
proof (induction ts arbitrary: c states es)
  case Nil
  then show ?case by (simp add: after_take_def map_nth)
next
  case (Cons i ts)
  obtain batch buf where t: "Take (states ! i) = (batch, buf)" by force
  obtain c1 es1 where s: "send_buffer i (c, states, es) = (c1, states[i := buf], es1)"
      "es1 = es @ (if mergeBuffer_Empty buf then [i] else [])"
      "sc_Error c1 = sc_Error c" "sc_Progress c1 = sc_Progress c" "sc_Batch c1 = add_batch batch (sc_Batch c)"
      "sc_Fragment c1 \<longleftrightarrow> sc_Fragment c \<or> mergeBuffer_Empty buf \<and> mergeBuffer_Fragment buf"
    by (cases "mergeBuffer_Empty buf") (simp_all add: send_buffer_def t Let_def)
  have other: "states[i := buf] ! j = states ! j" if "j \<in> set ts" for j
    using that Cons.prems(1) by (cases "i = j") auto
  have at: "after_take ts (states[i := buf]) = after_take (i # ts) states"
    using Cons.prems by (intro nth_equalityI) (auto simp: nth_list_update t other)
  have bt: "fold (\<lambda>j. add_batch (fst (Take (states[i := buf] ! j)))) ts x = fold (\<lambda>j. add_batch (fst (Take (states ! j)))) ts x" for x
    using other by (intro fold_cong) simp_all
  have fl: "filter (\<lambda>j. mergeBuffer_Empty (snd (Take (states[i := buf] ! j)))) ts = filter (\<lambda>j. mergeBuffer_Empty (snd (Take (states ! j)))) ts"
    using other by (intro filter_cong) simp_all
  obtain c' where c': "fold send_buffer ts (c1, states[i := buf], es1) =
      (c', after_take ts (states[i := buf]), es1 @ filter (\<lambda>j. mergeBuffer_Empty (snd (Take (states[i := buf] ! j)))) ts)"
    "sc_Error c' = sc_Error c1" "sc_Progress c' = sc_Progress c1"
    "sc_Batch c' = fold (\<lambda>j. add_batch (fst (Take (states[i := buf] ! j)))) ts (sc_Batch c1)"
    "sc_Fragment c' \<longleftrightarrow> sc_Fragment c1 \<or> (\<exists>j \<in> set ts. mergeBuffer_Empty (snd (Take (states[i := buf] ! j))) \<and> mergeBuffer_Fragment (snd (Take (states[i := buf] ! j))))"
    using Cons.IH [of "states[i := buf]" c1 es1] Cons.prems by auto
  show ?case using c' s other by (intro exI [of _ c']) (simp add: at bt fl t)
qed

text \<open>Adding the batches of different tables loses nothing.\<close>

definition opt_muts :: "TemporalBatch option \<Rightarrow> (Table \<times> Mutation) multiset" where
  "opt_muts b = (case b of None \<Rightarrow> {#} | Some t \<Rightarrow> temporal_muts t)"

lemma CopyInto_disjoint:
  assumes "imap_invar canon m" "\<forall>e \<in> set m. \<forall>e' \<in> set dest. canon (fst e') \<noteq> canon (fst e)"
  shows "imap_CopyInto canon m dest = dest @ m"
  using assms
proof (induction canon m dest rule: imap_CopyInto.induct)
  case (2 canon k v m dest)
  have p: "imap_Put canon k v dest = dest @ [(k, v)]" using "2.prems"(2) by (intro imap_Put_new) simp
  have "imap_invar canon m" using "2.prems"(1) by (simp add: imap_invar_def)
  moreover have "\<forall>e \<in> set m. canon k \<noteq> canon (fst e)" using "2.prems"(1) by (auto simp: imap_invar_def)
  then have "\<forall>e \<in> set m. \<forall>e' \<in> set (imap_Put canon k v dest). canon (fst e') \<noteq> canon (fst e)"
    using "2.prems"(2) by (simp add: p)
  ultimately show ?case using "2.IH" by (simp add: p)
qed simp

definition batch_canons :: "TemporalBatch option \<Rightarrow> Table set" where
  "batch_canons b = (case b of None \<Rightarrow> {} | Some t \<Rightarrow> Table_Canonical ` fst ` set (tp_Data t))"

lemma add_batch_muts:
  assumes "of_table u b" "\<forall>a. acc = Some a \<longrightarrow> tp_Time a = tp_Time b" "Table_Canonical u \<notin> batch_canons acc"
  shows "\<exists>a. add_batch (Some b) acc = Some a \<and> tp_Time a = tp_Time b \<and> opt_muts (Some a) = opt_muts acc + temporal_muts b
    \<and> batch_canons (Some a) \<subseteq> insert (Table_Canonical u) (batch_canons acc)"
proof (cases acc)
  case None
  have "batch_canons (Some b) \<subseteq> {Table_Canonical u}" using assms(1) by (auto simp: of_table_def batch_canons_def)
  then show ?thesis by (auto simp: None add_batch_def opt_muts_def)
next
  case (Some a)
  have canon: "\<forall>e \<in> set (tp_Data b). Table_Canonical (fst e) = Table_Canonical u" using assms(1) by (simp add: of_table_def)
  have "\<forall>e \<in> set (tp_Data a). Table_Canonical (fst e) \<noteq> Table_Canonical u" using assms(3) by (auto simp: Some batch_canons_def image_iff)
  then have e: "imap_CopyInto Table_Canonical (tp_Data b) (tp_Data a) = tp_Data a @ tp_Data b"
    using canon assms(1) by (intro CopyInto_disjoint) (simp_all add: of_table_def temporal_ok_def)
  let ?a = "a\<lparr>tp_Data := tp_Data a @ tp_Data b\<rparr>"
  have "add_batch (Some b) acc = Some ?a" "opt_muts (Some ?a) = opt_muts acc + temporal_muts b"
    by (simp_all add: add_batch_def Some e opt_muts_def temporal_muts_def)
  moreover have "batch_canons (Some ?a) = batch_canons acc \<union> batch_canons (Some b)" by (simp add: batch_canons_def Some image_Un)
  moreover have "batch_canons (Some b) \<subseteq> {Table_Canonical u}" using canon by (auto simp: batch_canons_def)
  moreover have "tp_Time ?a = tp_Time b" using assms(2) Some by simp
  ultimately show ?thesis by blast
qed

lemma send_batches:
  assumes "distinct ts" "\<forall>i \<in> set ts. i < length tables \<and> fst (Take (states ! i)) = Some (B i) \<and> of_table (tables ! i) (B i) \<and> tp_Time (B i) = T"
    and "distinct (map Table_Canonical tables)"
    and "\<forall>a. acc = Some a \<longrightarrow> tp_Time a = T" "\<forall>i \<in> set ts. Table_Canonical (tables ! i) \<notin> batch_canons acc"
    and r: "r = fold (\<lambda>i. add_batch (fst (Take (states ! i)))) ts acc"
  shows "opt_muts r = opt_muts acc + (\<Sum>i \<in> set ts. temporal_muts (B i)) \<and> (\<forall>a. r = Some a \<longrightarrow> tp_Time a = T)"
  using assms
proof (induction ts arbitrary: acc)
  case (Cons i ts)
  have i: "i < length tables" "fst (Take (states ! i)) = Some (B i)" "of_table (tables ! i) (B i)" "tp_Time (B i) = T"
    using Cons.prems(2) by simp_all
  obtain a where a: "add_batch (Some (B i)) acc = Some a" "tp_Time a = T" "opt_muts (Some a) = opt_muts acc + temporal_muts (B i)"
    "batch_canons (Some a) \<subseteq> insert (Table_Canonical (tables ! i)) (batch_canons acc)"
    using add_batch_muts [OF i(3), of acc] i(4) Cons.prems(4,5) by auto
  have fresh: "\<forall>j \<in> set ts. Table_Canonical (tables ! j) \<notin> batch_canons (Some a)"
  proof
    fix j assume j: "j \<in> set ts"
    have "j < length tables" "j \<noteq> i" using Cons.prems(1,2) j by auto
    then have "Table_Canonical (tables ! j) \<noteq> Table_Canonical (tables ! i)"
      using nth_eq_iff_index_eq [OF Cons.prems(3), of j i] i(1) by simp
    then show "Table_Canonical (tables ! j) \<notin> batch_canons (Some a)" using a(4) Cons.prems(5) j by auto
  qed
  have "opt_muts r = opt_muts (Some a) + (\<Sum>i \<in> set ts. temporal_muts (B i)) \<and> (\<forall>a. r = Some a \<longrightarrow> tp_Time a = T)"
    using Cons.IH [OF _ _ Cons.prems(3) _ fresh] Cons.prems(1,2,6) a(1,2) i(2) by simp
  then show ?case using a(3) Cons.prems(1) by (simp add: ac_simps)
qed simp

section \<open>The merge keeps its promises\<close>

definition merge_ok :: "Table list \<Rightarrow> 'e mergeBuffer list \<Rightarrow> bool" where
  "merge_ok tables states \<longleftrightarrow> length tables = length states \<and> distinct (map Table_Canonical tables)
     \<and> (\<forall>i < length states. buf_ok (tables ! i) (states ! i))"

definition batches_muts :: "TemporalBatch list \<Rightarrow> (Table \<times> Mutation) multiset" where
  "batches_muts ts = (\<Sum>t \<leftarrow> ts. temporal_muts t)"

definition state_muts :: "'e mergeBuffer list \<Rightarrow> (Table \<times> Mutation) multiset" where
  "state_muts states = (\<Sum>i < length states. batches_muts (remaining (states ! i)))"

definition advances :: "'e mergeBuffer list \<Rightarrow> 'e mergeBuffer list \<Rightarrow> bool" where
  "advances states states' \<longleftrightarrow> length states' = length states
     \<and> (\<forall>i < length states. progress_max (states ! i) \<le> progress_max (states' ! i))"

lemma advances_trans: "\<lbrakk>advances s t; advances t u\<rbrakk> \<Longrightarrow> advances s u"
  by (auto simp: advances_def) (metis order_trans)

lemma advances_refl [simp]: "advances s s"
  by (simp add: advances_def)

lemma refresh_buffers_ok:
  assumes "merge_ok tables states" "distinct is" "\<forall>i \<in> set is. i < length states \<and> mergeBuffer_Empty (states ! i)"
  shows "\<exists>states'. refresh_buffers received is states = Inr states' \<and> merge_ok tables states' \<and> advances states states'
    \<and> (\<forall>i < length states. remaining (states' ! i) = remaining (states ! i))
    \<and> (\<forall>i < length states. i \<in> set is \<longrightarrow> mergeBuffer_Refresh (received i) (states ! i) = Inr (states' ! i))
    \<and> (\<forall>i < length states. i \<notin> set is \<longrightarrow> states' ! i = states ! i)"
  using assms
proof (induction "is" arbitrary: states)
  case (Cons i "is")
  have i: "i < length states" "mergeBuffer_Empty (states ! i)" "buf_ok (tables ! i) (states ! i)"
    using Cons.prems by (auto simp: merge_ok_def)
  obtain s' where s': "mergeBuffer_Refresh (received i) (states ! i) = Inr s'" "buf_ok (tables ! i) s'"
    "remaining s' = remaining (states ! i)" "progress_max (states ! i) \<le> progress_max s'"
    using Refresh_step [OF i(3,2)] by blast
  let ?st = "states[i := s']"
  have "merge_ok tables ?st" using Cons.prems(1) s'(2) i(1) by (auto simp: merge_ok_def nth_list_update)
  moreover have "\<forall>j \<in> set is. j < length ?st \<and> mergeBuffer_Empty (?st ! j)"
    using Cons.prems(2,3) i(1) by (auto simp: nth_list_update)
  ultimately obtain states' where st: "refresh_buffers received is ?st = Inr states'" "merge_ok tables states'" "advances ?st states'"
    "\<forall>j < length states. remaining (states' ! j) = remaining (?st ! j)"
    "\<forall>j < length states. j \<in> set is \<longrightarrow> mergeBuffer_Refresh (received j) (?st ! j) = Inr (states' ! j)"
    "\<forall>j < length states. j \<notin> set is \<longrightarrow> states' ! j = ?st ! j"
    using Cons.IH [of ?st] Cons.prems(2) by auto
  have adv: "advances states ?st" using s'(4) i(1) by (auto simp: advances_def nth_list_update)
  show ?case
  proof (intro exI [of _ states'] conjI)
    show "advances states states'" by (rule advances_trans [OF adv st(3)])
    show "\<forall>j < length states. remaining (states' ! j) = remaining (states ! j)"
      using st(4) s'(3) by (metis nth_list_update_eq nth_list_update_neq)
    show "\<forall>j < length states. j \<in> set (i # is) \<longrightarrow> mergeBuffer_Refresh (received j) (states ! j) = Inr (states' ! j)"
      using st(5,6) s'(1) Cons.prems(2) by (metis distinct.simps(2) nth_list_update_eq nth_list_update_neq set_ConsD)
    show "\<forall>j < length states. j \<notin> set (i # is) \<longrightarrow> states' ! j = states ! j" using st(6) by auto
  qed (use s'(1) st in simp_all)
qed simp

lemma progress_all_valid: "merge_ok tables states \<Longrightarrow> \<forall>s \<in> set states. valid_time (progress_max s)"
  unfolding merge_ok_def by (metis in_set_conv_nth progress_valid)

text \<open>A step that sends: one batch of the least time from each buffer that has one.\<close>

lemma send_step:
  assumes ok: "merge_ok tables states" and scan: "scan_buffers states = (T, [], ts)"
    and send: "fold send_buffer ts (\<lparr>sc_Batch = None, sc_Error = None, sc_Fragment = False, sc_Jump = False,
                      sc_Progress = RangeExcluding Zero T\<rparr>, states, []) = (c, states', refill)"
  shows "sc_Error c = None \<and> sc_Progress c = RangeExcluding Zero T \<and> (\<forall>b. sc_Batch c = Some b \<longrightarrow> tp_Time b = T)
    \<and> merge_ok tables states' \<and> advances states states' \<and> distinct refill
    \<and> (\<forall>i \<in> set refill. i < length states \<and> mergeBuffer_Empty (states' ! i))
    \<and> state_muts states = opt_muts (sc_Batch c) + state_muts states'
    \<and> (\<not> sc_Fragment c \<longrightarrow> (\<forall>i < length states. \<forall>t \<in> set (remaining (states' ! i)). T < tp_Time t))
    \<and> (\<forall>i < length states. length (remaining (states' ! i)) + (if i \<in> set ts then 1 else 0) = length (remaining (states ! i))
          \<and> mg_buffer (states' ! i) = mg_buffer (states ! i) \<and> mg_source (states' ! i) = mg_source (states ! i)
          \<and> set (remaining (states' ! i)) \<subseteq> set (remaining (states ! i)))
    \<and> (sc_Batch c \<noteq> None \<longrightarrow> (\<exists>i < length states. \<exists>t \<in> set (remaining (states ! i)). tp_Time t = T))"
proof -
  let ?n = "length states" and ?B = "\<lambda>i. the (fst (Take (states ! i)))"
  let ?ne = "\<lambda>i. progress_max (states ! i) = T \<and> \<not> mergeBuffer_Empty (states ! i)"
  have res: "scan_result states [0..<?n] (T, [], ts)" using scan_buffers_result [OF progress_all_valid [OF ok]] scan by simp
  have ts: "ts = filter (\<lambda>i. progress_max (states ! i) = T) [0..<?n]" and low: "\<forall>i < ?n. T \<le> progress_max (states ! i)"
    using res by (auto simp: scan_result_def)
  have noempty: "\<forall>i < ?n. \<not> (progress_max (states ! i) = T \<and> mergeBuffer_Empty (states ! i))"
  proof -
    have "filter (\<lambda>i. progress_max (states ! i) = T \<and> mergeBuffer_Empty (states ! i)) [0..<?n] = []"
      using res unfolding scan_result_def prod.case by metis
    then show ?thesis unfolding filter_empty_conv by simp
  qed
  have d: "distinct ts" and lt: "\<forall>i \<in> set ts. i < ?n" by (simp_all add: ts)
  have take: "fst (Take (states ! i)) = Some (?B i) \<and> remaining (states ! i) = ?B i # remaining (snd (Take (states ! i)))
      \<and> tp_Time (?B i) = T \<and> of_table (tables ! i) (?B i) \<and> buf_ok (tables ! i) (snd (Take (states ! i)))
      \<and> progress_max (states ! i) \<le> progress_max (snd (Take (states ! i)))
      \<and> ((\<forall>t \<in> set (remaining (snd (Take (states ! i)))). T < tp_Time t)
          \<or> mergeBuffer_Empty (snd (Take (states ! i))) \<and> mergeBuffer_Fragment (snd (Take (states ! i))))"
    if i: "i \<in> set ts" for i
  proof -
    have b: "buf_ok (tables ! i) (states ! i)" "\<not> mergeBuffer_Empty (states ! i)" "progress_max (states ! i) = T"
      using ok i noempty by (auto simp: ts merge_ok_def)
    have "of_table (tables ! i) (hd (remaining (states ! i)))" if "remaining (states ! i) \<noteq> []"
      using remaining_times [OF b(1) hd_in_set [OF that]] by simp
    then show ?thesis using Take_step [OF b(1,2) surjective_pairing] b(3) by (auto simp del: surjective_pairing)
  qed
  obtain c' where c': "fold send_buffer ts (\<lparr>sc_Batch = None, sc_Error = None, sc_Fragment = False, sc_Jump = False,
                      sc_Progress = RangeExcluding Zero T\<rparr>, states, []) =
      (c', after_take ts states, [] @ filter (\<lambda>i. mergeBuffer_Empty (snd (Take (states ! i)))) ts)"
    "sc_Error c' = None" "sc_Progress c' = RangeExcluding Zero T"
    "sc_Batch c' = fold (\<lambda>i. add_batch (fst (Take (states ! i)))) ts None"
    "sc_Fragment c' \<longleftrightarrow> (\<exists>i \<in> set ts. mergeBuffer_Empty (snd (Take (states ! i))) \<and> mergeBuffer_Fragment (snd (Take (states ! i))))"
    using send_buffers_eq [OF d lt] by fastforce
  have eq: "c = c'" "states' = after_take ts states" "refill = filter (\<lambda>i. mergeBuffer_Empty (snd (Take (states ! i)))) ts"
    using send c'(1) by simp_all
  have nth: "states' ! i = (if i \<in> set ts then snd (Take (states ! i)) else states ! i)" if "i < ?n" for i
    using that by (simp add: eq(2))
  have tb: "\<forall>i \<in> set ts. i < length tables \<and> fst (Take (states ! i)) = Some (?B i) \<and> of_table (tables ! i) (?B i) \<and> tp_Time (?B i) = T"
    using take lt ok by (simp add: merge_ok_def)
  have bs: "opt_muts (sc_Batch c) = opt_muts None + (\<Sum>i \<in> set ts. temporal_muts (?B i)) \<and> (\<forall>a. sc_Batch c = Some a \<longrightarrow> tp_Time a = T)"
    by (rule send_batches [OF d tb]) (use ok c'(4) eq(1) in \<open>simp_all add: merge_ok_def batch_canons_def\<close>)
  have rem: "batches_muts (remaining (states ! i)) = (if i \<in> set ts then temporal_muts (?B i) else {#}) + batches_muts (remaining (states' ! i))"
    if "i < ?n" for i using take [of i] nth [OF that] by (auto simp: batches_muts_def)
  have "state_muts states = (\<Sum>i < ?n. if i \<in> set ts then temporal_muts (?B i) else {#}) + state_muts states'"
    unfolding state_muts_def using rem by (simp add: eq(2) sum.distrib [symmetric])
  moreover have "(\<Sum>i < ?n. if i \<in> set ts then temporal_muts (?B i) else {#}) = (\<Sum>i \<in> set ts. temporal_muts (?B i))"
    using lt by (simp add: sum.If_cases) (metis Int_absorb1 lessThan_iff subsetI)
  ultimately have muts: "state_muts states = opt_muts (sc_Batch c) + state_muts states'" using bs by (simp add: opt_muts_def)
  have frag: "T < tp_Time t" if "\<not> sc_Fragment c" "i < ?n" "t \<in> set (remaining (states' ! i))" for i t
  proof (cases "i \<in> set ts")
    case True
    then show ?thesis using take [OF True] that c'(5) eq(1) nth by auto
  next
    case False
    then have "T < progress_max (states ! i)" using that(2) low by (auto simp: ts le_less)
    moreover have "progress_max (states ! i) \<le> tp_Time t"
      using remaining_times [of "tables ! i" "states ! i" t] that nth False ok by (simp add: merge_ok_def)
    ultimately show ?thesis by (rule less_le_trans)
  qed
  have "merge_ok tables states'" using ok take nth by (auto simp: merge_ok_def eq(2))
  moreover have "advances states states'" using take nth by (auto simp: advances_def eq(2))
  moreover have "\<forall>i < ?n. length (remaining (states' ! i)) + (if i \<in> set ts then 1 else 0) = length (remaining (states ! i))
      \<and> mg_buffer (states' ! i) = mg_buffer (states ! i) \<and> mg_source (states' ! i) = mg_source (states ! i)
      \<and> set (remaining (states' ! i)) \<subseteq> set (remaining (states ! i))"
  proof (intro allI impI)
    fix i assume i: "i < ?n"
    have "mg_buffer (snd (Take (states ! i))) = mg_buffer (states ! i) \<and> mg_source (snd (Take (states ! i))) = mg_source (states ! i)"
      by (simp add: Take_def)
    then show "length (remaining (states' ! i)) + (if i \<in> set ts then 1 else 0) = length (remaining (states ! i))
      \<and> mg_buffer (states' ! i) = mg_buffer (states ! i) \<and> mg_source (states' ! i) = mg_source (states ! i)
      \<and> set (remaining (states' ! i)) \<subseteq> set (remaining (states ! i))"
      using take [of i] nth [OF i] by auto
  qed
  moreover have "\<exists>i < ?n. \<exists>t \<in> set (remaining (states ! i)). tp_Time t = T" if some: "sc_Batch c \<noteq> None"
  proof -
    obtain i where i: "i \<in> set ts" using some c'(4) eq(1) by (cases ts) auto
    show ?thesis using take [OF i] lt i by (intro exI [of _ i] conjI bexI [of _ "?B i"]) auto
  qed
  ultimately show ?thesis using bs muts frag c'(2,3) eq d lt nth by auto
qed

definition outs_muts :: "'e StagingCursor list \<Rightarrow> (Table \<times> Mutation) multiset" where
  "outs_muts outs = (\<Sum>c \<leftarrow> outs. opt_muts (sc_Batch c))"

text \<open>What a cursor promises about the batches that are still to come.\<close>

definition good_cursor :: "'e StagingCursor \<Rightarrow> bool" where
  "good_cursor c \<longleftrightarrow> sc_Error c = None \<and> (\<forall>b. sc_Batch c = Some b \<longrightarrow> tp_Time b = Range_Max (sc_Progress c))"

definition later_than :: "'e StagingCursor \<Rightarrow> TemporalBatch \<Rightarrow> bool" where
  "later_than c t \<longleftrightarrow> Range_Max (sc_Progress c) \<le> tp_Time t
     \<and> (sc_Batch c \<noteq> None \<and> \<not> sc_Fragment c \<longrightarrow> Range_Max (sc_Progress c) < tp_Time t)"

lemma nextStep_ok:
  assumes ok: "merge_ok tables states" and some: "states \<noteq> []" and ns: "nextStep states = (cur, refill, blk, states')"
  shows "merge_ok tables states' \<and> advances states states' \<and> distinct refill
    \<and> (\<forall>i \<in> set refill. i < length states \<and> mergeBuffer_Empty (states' ! i))
    \<and> state_muts states = (case cur of None \<Rightarrow> {#} | Some c \<Rightarrow> opt_muts (sc_Batch c)) + state_muts states'
    \<and> (\<forall>c. cur = Some c \<longrightarrow> good_cursor c \<and> (\<exists>i < length states. Range_Max (sc_Progress c) = progress_max (states ! i))
        \<and> (\<forall>i < length states. Range_Max (sc_Progress c) \<le> progress_max (states ! i)
          \<and> (\<forall>t \<in> set (remaining (states' ! i)). later_than c t)))
    \<and> (\<forall>i < length states. set (remaining (states' ! i)) \<subseteq> set (remaining (states ! i)))
    \<and> (\<forall>c b. cur = Some c \<and> sc_Batch c = Some b \<longrightarrow> (\<exists>i < length states. \<exists>t \<in> set (remaining (states ! i)). tp_Time t = tp_Time b))"
proof -
  obtain T es ts where scan: "scan_buffers states = (T, es, ts)" by (metis prod_cases3)
  have res: "scan_result states [0..<length states] (T, es, ts)" using scan_buffers_result [OF progress_all_valid [OF ok]] scan by simp
  have es: "es = filter (\<lambda>i. progress_max (states ! i) = T \<and> mergeBuffer_Empty (states ! i)) [0..<length states]"
    and low: "\<forall>i < length states. T \<le> progress_max (states ! i)"
    using res unfolding scan_result_def prod.case by simp_all
  have "[0..<length states] \<noteq> []" using some by simp
  then have "ts \<noteq> []" "ts = filter (\<lambda>i. progress_max (states ! i) = T) [0..<length states]"
    using res unfolding scan_result_def prod.case by argo+
  then have att: "\<exists>i < length states. T = progress_max (states ! i)" by (fastforce simp: filter_empty_conv)
  have rt: "progress_max (s ! i) \<le> tp_Time t" if "merge_ok tables s" "i < length s" "t \<in> set (remaining (s ! i))" for s i t
    using remaining_times that by (auto simp: merge_ok_def)
  show ?thesis
  proof (cases "es = []")
    case True
    let ?c0 = "\<lparr>sc_Batch = None, sc_Error = None, sc_Fragment = False, sc_Jump = False, sc_Progress = RangeExcluding Zero T\<rparr>"
    obtain c where c: "fold send_buffer ts (?c0, states, []) = (c, states', refill)" "cur = Some c"
      using ns True by (auto simp: nextStep_def scan Let_def split: prod.splits)
    note st = send_step [OF ok scan [unfolded True] c(1)]
    have T: "Range_Max (sc_Progress c) = T" using st by (simp add: RangeExcluding_def)
    have "later_than c t" if "i < length states" "t \<in> set (remaining (states' ! i))" for i t
    proof -
      have "T \<le> progress_max (states' ! i)" using st low that(1) by (auto simp: advances_def intro: order_trans)
      also have "\<dots> \<le> tp_Time t" using rt [of states' i t] st that by (simp add: advances_def)
      finally show ?thesis using st that by (simp add: later_than_def T RangeExcluding_def)
    qed
    then show ?thesis using st low T att by (simp add: c(2) good_cursor_def)
  next
    case False
    then have n: "states' = states" "refill = es" "cur = None \<or> cur = Some \<lparr>sc_Batch = None, sc_Error = None, sc_Fragment = False,
        sc_Jump = False, sc_Progress = RangeExcluding Zero T\<rparr>"
      using ns by (auto simp: nextStep_def scan Let_def split: if_splits)
    have "T \<le> tp_Time t" if "i < length states" "t \<in> set (remaining (states ! i))" for i t
      using low rt [OF ok that] that(1) by (auto intro: order_trans)
    then show ?thesis
      using n(3) ok low att by (auto simp: n(1,2) es good_cursor_def later_than_def opt_muts_def RangeExcluding_def)
  qed
qed

lemma merge_iteration_ok:
  assumes ok: "merge_ok tables states" and some: "states \<noteq> []" and it: "merge_iteration env states = (out, final)"
  shows "(\<forall>c \<in> set out. good_cursor c \<and> (\<forall>i < length states. Range_Max (sc_Progress c) \<le> progress_max (states ! i))) \<and> length out \<le> 1
    \<and> (\<forall>c \<in> set out. \<exists>i < length states. Range_Max (sc_Progress c) = progress_max (states ! i))
    \<and> (\<forall>c \<in> set out. \<forall>b. sc_Batch c = Some b \<longrightarrow> (\<exists>i < length states. \<exists>t \<in> set (remaining (states ! i)). tp_Time t = tp_Time b))
    \<and> (\<forall>states'. final = Some states' \<longrightarrow> merge_ok tables states' \<and> advances states states'
         \<and> state_muts states = outs_muts out + state_muts states'
         \<and> (\<forall>i < length states. set (remaining (states' ! i)) \<subseteq> set (remaining (states ! i)))
         \<and> (\<forall>c \<in> set out. \<forall>i < length states. \<forall>t \<in> set (remaining (states' ! i)). later_than c t))"
proof -
  obtain cur refill blk st1 where ns: "nextStep states = (cur, refill, blk, st1)" by (metis prod_cases4)
  note st = nextStep_ok [OF ok some ns]
  have len: "length st1 = length states" using st by (simp add: advances_def)
  obtain st2 where r: "refresh_buffers (me_received env) refill st1 = Inr st2" "merge_ok tables st2" "advances st1 st2"
    "\<forall>i < length st1. remaining (st2 ! i) = remaining (st1 ! i)"
    using refresh_buffers_ok [of tables st1 refill "me_received env"] st len by auto
  have m: "state_muts st2 = state_muts st1" using r(3,4) by (simp add: state_muts_def advances_def)
  have a: "advances states st2" using advances_trans r(3) st by blast
  show ?thesis
  proof (cases "cur \<noteq> None \<and> me_stopping env")
    case True
    then show ?thesis using it by (simp add: merge_iteration_def ns)
  next
    case False
    then have o: "out = (case cur of None \<Rightarrow> [] | Some c \<Rightarrow> [c])" "final = Some st2"
      using it by (simp_all add: merge_iteration_def ns r(1) Let_def split: if_splits)
    show ?thesis using st r(2,4) a m len by (cases cur) (auto simp: o outs_muts_def)
  qed
qed

definition times_left :: "'e mergeBuffer list \<Rightarrow> Time set" where
  "times_left states = (\<Union>i < length states. tp_Time ` set (remaining (states ! i)))"

lemma merge_loop_ok:
  assumes "merge_ok tables states" "states \<noteq> []" "merge_loop envs states = (outs, final)"
  shows "(\<forall>c \<in> set outs. good_cursor c \<and> (\<exists>i < length states. progress_max (states ! i) \<le> Range_Max (sc_Progress c)))
    \<and> (\<forall>c \<in> set outs. \<forall>b. sc_Batch c = Some b \<longrightarrow> tp_Time b \<in> times_left states)
    \<and> sorted_wrt (\<lambda>c d. Range_Max (sc_Progress c) \<le> Range_Max (sc_Progress d) \<and> (\<forall>b. sc_Batch d = Some b \<longrightarrow> later_than c b)) outs
    \<and> (\<forall>states'. final = Some states' \<longrightarrow> merge_ok tables states' \<and> state_muts states = outs_muts outs + state_muts states')"
  using assms
proof (induction envs arbitrary: states outs final)
  case Nil
  then show ?case by (auto simp: outs_muts_def)
next
  case (Cons env envs)
  obtain out nxt where it: "merge_iteration env states = (out, nxt)" by force
  note st = merge_iteration_ok [OF Cons.prems(1,2) it]
  have sing: "sorted_wrt P out" for P using st by (cases out) auto
  have att: "\<exists>i < length states. progress_max (states ! i) \<le> Range_Max (sc_Progress c)" if "c \<in> set out" for c
    using st that by (metis order_refl)
  have tl: "tp_Time b \<in> times_left states" if c: "c \<in> set out" "sc_Batch c = Some b" for c b
  proof -
    obtain i t where "i < length states" "t \<in> set (remaining (states ! i))" "tp_Time t = tp_Time b" using st c by blast
    then show ?thesis unfolding times_left_def by (metis UN_I image_eqI lessThan_iff)
  qed
  show ?case
  proof (cases nxt)
    case None
    then have "outs = out" "final = None" using Cons.prems(3) it by simp_all
    moreover have "\<forall>c \<in> set out. good_cursor c" using st by blast
    ultimately show ?thesis using sing att tl by simp
  next
    case (Some st1)
    obtain outs1 where l: "merge_loop envs st1 = (outs1, final)" "outs = out @ outs1"
      using Cons.prems(3) it Some by (auto split: prod.splits)
    have s1: "merge_ok tables st1" "advances states st1" "state_muts states = outs_muts out + state_muts st1"
      "\<forall>i < length states. set (remaining (st1 ! i)) \<subseteq> set (remaining (states ! i))"
      "\<forall>c \<in> set out. \<forall>i < length states. \<forall>t \<in> set (remaining (st1 ! i)). later_than c t"
      using st Some by simp_all
    have len: "length st1 = length states" using s1(2) by (simp add: advances_def)
    note ih = Cons.IH [OF s1(1) _ l(1)]
    have ne: "st1 \<noteq> []" using len Cons.prems(2) by auto
    have sub: "times_left st1 \<subseteq> times_left states" using s1(4) len unfolding times_left_def by fastforce
    have low: "\<exists>i < length states. progress_max (states ! i) \<le> Range_Max (sc_Progress d)" if d: "d \<in> set outs1" for d
    proof -
      obtain i where i: "i < length st1" "progress_max (st1 ! i) \<le> Range_Max (sc_Progress d)" using ih [OF ne] d by blast
      then show ?thesis using s1(2) len by (metis advances_def order_trans)
    qed
    have cross: "Range_Max (sc_Progress c) \<le> Range_Max (sc_Progress d) \<and> (\<forall>b. sc_Batch d = Some b \<longrightarrow> later_than c b)"
      if c: "c \<in> set out" and d: "d \<in> set outs1" for c d
    proof (intro conjI allI impI)
      show "Range_Max (sc_Progress c) \<le> Range_Max (sc_Progress d)" using low [OF d] st c by (meson order_trans)
      fix b assume "sc_Batch d = Some b"
      then have "tp_Time b \<in> times_left st1" using ih [OF ne] d by blast
      then obtain i t where "i < length states" "t \<in> set (remaining (st1 ! i))" "tp_Time t = tp_Time b"
        by (auto simp: times_left_def len)
      then show "later_than c b" using s1(5) c by (metis later_than_def)
    qed
    show ?thesis
    proof (intro conjI)
      show "sorted_wrt (\<lambda>c d. Range_Max (sc_Progress c) \<le> Range_Max (sc_Progress d) \<and> (\<forall>b. sc_Batch d = Some b \<longrightarrow> later_than c b)) outs"
        unfolding l(2) sorted_wrt_append using sing ih [OF ne] cross by blast
      show "\<forall>c \<in> set outs. \<forall>b. sc_Batch c = Some b \<longrightarrow> tp_Time b \<in> times_left states"
        unfolding l(2) set_append using tl ih [OF ne] sub by blast
      show "\<forall>c \<in> set outs. good_cursor c \<and> (\<exists>i < length states. progress_max (states ! i) \<le> Range_Max (sc_Progress c))"
        unfolding l(2) set_append using att low st ih [OF ne] by blast
      show "\<forall>states'. final = Some states' \<longrightarrow> merge_ok tables states' \<and> state_muts states = outs_muts outs + state_muts states'"
        using ih [OF ne] s1(3) by (auto simp: l(2) outs_muts_def ac_simps)
    qed
  qed
qed

lemma newTableMerger_ok:
  assumes "length tables = length sources" "distinct (map Table_Canonical tables)" "\<forall>i < length sources. stream_ok (tables ! i) Zero (sources ! i)"
  shows "merge_ok tables (newTableMerger sources)" "length (newTableMerger sources) = length sources"
    "\<forall>i < length sources. mergeBuffer_Empty (newTableMerger sources ! i) \<and> remaining (newTableMerger sources ! i) = source_batches (sources ! i)"
  using assms by (auto simp: newTableMerger_def merge_ok_def buf_ok_def remaining_def buffered_def)

definition sources_muts :: "'e tableCursor list list \<Rightarrow> (Table \<times> Mutation) multiset" where
  "sources_muts sources = (\<Sum>i < length sources. batches_muts (source_batches (sources ! i)))"

lemma merge_run_start:
  assumes "length tables = length sources" "distinct (map Table_Canonical tables)" "\<forall>i < length sources. stream_ok (tables ! i) Zero (sources ! i)"
  shows "\<exists>states. merge_run env envs (newTableMerger sources) = merge_loop envs states \<and> merge_ok tables states
    \<and> length states = length sources \<and> state_muts states = sources_muts sources
    \<and> (\<forall>i < length sources. remaining (states ! i) = source_batches (sources ! i)
         \<and> mergeBuffer_Refresh (me_received env i) (newTableMerger sources ! i) = Inr (states ! i))"
proof -
  note n = newTableMerger_ok [OF assms]
  obtain states where st: "refresh_buffers (me_received env) [0..<length sources] (newTableMerger sources) = Inr states"
    "merge_ok tables states" "advances (newTableMerger sources) states"
    "\<forall>i < length sources. remaining (states ! i) = remaining (newTableMerger sources ! i)"
    "\<forall>i < length sources. mergeBuffer_Refresh (me_received env i) (newTableMerger sources ! i) = Inr (states ! i)"
    using refresh_buffers_ok [OF n(1), of "[0..<length sources]" "me_received env"] n(2,3) by auto
  moreover have "length states = length sources" using st(3) n(2) by (simp add: advances_def)
  moreover have "state_muts states = sources_muts sources"
    using st(4) n(3) calculation(6) by (simp add: state_muts_def sources_muts_def)
  ultimately show ?thesis using n(2,3) by (intro exI [of _ states]) (simp add: merge_run_def)
qed

section \<open>The merge delivers everything\<close>

text \<open>A reader that ends: its batches are before \<open>hi\<close> and its last cursor has the progress \<open>hi\<close>.\<close>

definition ends_at :: "Time \<Rightarrow> 'e mergeBuffer \<Rightarrow> bool" where
  "ends_at hi s \<longleftrightarrow> (\<forall>t \<in> set (remaining s). tp_Time t < hi)
     \<and> (if mg_source s = [] then \<exists>c. mg_buffer s = Some c \<and> pmax c = hi else pmax (last (mg_source s)) = hi)"

definition work_left :: "'e mergeBuffer \<Rightarrow> nat" where
  "work_left s = length (remaining s) + length (mg_source s)"

definition total_left :: "'e mergeBuffer list \<Rightarrow> nat" where
  "total_left states = (\<Sum>i < length states. work_left (states ! i))"

lemma Refresh_ends:
  assumes "ends_at hi s" "mergeBuffer_Refresh received s = Inr s'" "remaining s' = remaining s"
  shows "ends_at hi s' \<and> work_left s' \<le> work_left s \<and> (received \<and> mg_source s \<noteq> [] \<longrightarrow> work_left s' < work_left s)"
proof (cases "received \<and> mg_source s \<noteq> []")
  case True
  then obtain c cs where src: "mg_source s = c # cs" by (cases "mg_source s") auto
  then have s': "s' = s\<lparr>mg_buffer := Some c, mg_offset := 0, mg_source := cs\<rparr>"
    using assms(2) True by (auto simp: mergeBuffer_Refresh_def ingest_def split: option.splits)
  then show ?thesis using assms(1,3) by (simp add: ends_at_def work_left_def src split: if_splits)
next
  case False
  then have "s' = s" using assms(2) by (auto simp: mergeBuffer_Refresh_def split: list.splits)
  then show ?thesis using assms(1) False by auto
qed

lemma stuck_at_end:
  assumes "ends_at hi s" "mergeBuffer_Empty s" "mg_source s = []"
  shows "progress_max s = hi"
  using assms by (auto simp: ends_at_def progress_max_Empty)

lemma total_less:
  assumes "length states' = length states" "\<forall>i < length states. work_left (states' ! i) \<le> work_left (states ! i)"
    "j < length states" "work_left (states' ! j) < work_left (states ! j)"
  shows "total_left states' < total_left states"
  unfolding total_left_def assms(1) by (rule sum_strict_mono_ex1) (use assms in auto)

lemma nextStep_works:
  assumes ok: "merge_ok tables states" and e: "\<forall>i < length states. ends_at hi (states ! i)"
    and left: "j < length states" "remaining (states ! j) \<noteq> []"
    and ns: "nextStep states = (cur, refill, blk, st1)"
  shows "(\<forall>i < length states. ends_at hi (st1 ! i) \<and> work_left (st1 ! i) \<le> work_left (states ! i))
      \<and> ((\<exists>k < length states. work_left (st1 ! k) < work_left (states ! k))
          \<or> (\<exists>k < length states. k \<in> set refill \<and> mg_source (st1 ! k) \<noteq> [] \<and> st1 = states))"
proof -
  have some: "states \<noteq> []" using left(1) by auto
  obtain T es ts where scan: "scan_buffers states = (T, es, ts)" by (metis prod_cases3)
  have res: "scan_result states [0..<length states] (T, es, ts)" using scan_buffers_result [OF progress_all_valid [OF ok]] scan by simp
  have ne: "[0..<length states] \<noteq> []" using some by simp
  have ts: "ts \<noteq> []" "ts = filter (\<lambda>i. progress_max (states ! i) = T) [0..<length states]"
      "es = filter (\<lambda>i. progress_max (states ! i) = T \<and> mergeBuffer_Empty (states ! i)) [0..<length states]"
      "\<forall>i \<in> set [0..<length states]. T \<le> progress_max (states ! i)"
    using res ne unfolding scan_result_def prod.case by argo+
  show ?thesis
  proof (cases "es = []")
    case True
    obtain c where c: "fold send_buffer ts (\<lparr>sc_Batch = None, sc_Error = None, sc_Fragment = False, sc_Jump = False,
        sc_Progress = RangeExcluding Zero T\<rparr>, states, []) = (c, st1, refill)"
      using ns True by (auto simp: nextStep_def scan Let_def split: prod.splits)
    have s: "\<forall>i < length states. length (remaining (st1 ! i)) + (if i \<in> set ts then 1 else 0) = length (remaining (states ! i))
          \<and> mg_buffer (st1 ! i) = mg_buffer (states ! i) \<and> mg_source (st1 ! i) = mg_source (states ! i)
          \<and> set (remaining (st1 ! i)) \<subseteq> set (remaining (states ! i))"
      using send_step [OF ok scan [unfolded True] c] by blast
    obtain k where k: "k \<in> set ts" using ts(1) by (cases ts) auto
    then have "k < length states" using ts(2) by simp
    then have "\<exists>k < length states. work_left (st1 ! k) < work_left (states ! k)" using s k by (intro exI [of _ k]) (auto simp: work_left_def)
    moreover have "ends_at hi (st1 ! i) \<and> work_left (st1 ! i) \<le> work_left (states ! i)" if i: "i < length states" for i
    proof -
      have si: "length (remaining (st1 ! i)) + (if i \<in> set ts then 1 else 0) = length (remaining (states ! i))"
          "mg_buffer (st1 ! i) = mg_buffer (states ! i)" "mg_source (st1 ! i) = mg_source (states ! i)"
          "set (remaining (st1 ! i)) \<subseteq> set (remaining (states ! i))"
        using s i by blast+
      then have "ends_at hi (st1 ! i)" using e i unfolding ends_at_def si(2,3) by blast
      then show ?thesis using si(1,3) by (simp add: work_left_def split: if_splits)
    qed
    ultimately show ?thesis by blast
  next
    case False
    then have n: "st1 = states" "refill = es" using ns by (auto simp: nextStep_def scan Let_def split: if_splits)
    have "\<exists>k \<in> set es. mg_source (states ! k) \<noteq> []"
    proof (rule ccontr)
      assume no: "\<not> (\<exists>k \<in> set es. mg_source (states ! k) \<noteq> [])"
      obtain k where k: "k \<in> set es" using False by (cases es) auto
      have "k < length states" "mergeBuffer_Empty (states ! k)" "progress_max (states ! k) = T" using k ts(3) by auto
      then have "T = hi" using stuck_at_end [of hi "states ! k"] e no k by auto
      moreover obtain t where t: "t \<in> set (remaining (states ! j))" using left(2) by (cases "remaining (states ! j)") auto
      have "buf_ok (tables ! j) (states ! j)" "ends_at hi (states ! j)" using ok e left(1) by (simp_all add: merge_ok_def)
      then have "progress_max (states ! j) \<le> tp_Time t" "tp_Time t < hi" using remaining_times t by (blast, simp add: ends_at_def)
      moreover have "T \<le> progress_max (states ! j)" using ts(4) left(1) by simp
      ultimately show False by simp
    qed
    then show ?thesis using e ts(3) unfolding n by auto
  qed
qed

lemma merge_iteration_drains:
  assumes ok: "merge_ok tables states" and e: "\<forall>i < length states. ends_at hi (states ! i)"
    and env: "\<not> me_stopping env" "\<forall>i. me_received env i"
    and left: "j < length states" "remaining (states ! j) \<noteq> []"
  shows "\<exists>out states'. merge_iteration env states = (out, Some states') \<and> merge_ok tables states'
    \<and> (\<forall>i < length states'. ends_at hi (states' ! i)) \<and> length states' = length states \<and> total_left states' < total_left states"
proof -
  obtain cur refill blk st1 where ns: "nextStep states = (cur, refill, blk, st1)" by (metis prod_cases4)
  have "states \<noteq> []" using left(1) by auto
  note st = nextStep_ok [OF ok this ns]
  have len: "length st1 = length states" using st by (simp add: advances_def)
  note st1 = nextStep_works [OF ok e left ns]
  obtain st2 where r: "refresh_buffers (me_received env) refill st1 = Inr st2" "merge_ok tables st2" "advances st1 st2"
    "\<forall>i < length st1. remaining (st2 ! i) = remaining (st1 ! i)"
    "\<forall>i < length st1. i \<in> set refill \<longrightarrow> mergeBuffer_Refresh (me_received env i) (st1 ! i) = Inr (st2 ! i)"
    "\<forall>i < length st1. i \<notin> set refill \<longrightarrow> st2 ! i = st1 ! i"
    using refresh_buffers_ok [of tables st1 refill "me_received env"] st len by auto
  have len2: "length st2 = length states" using r(3) len by (simp add: advances_def)
  have ends: "ends_at hi (st2 ! i) \<and> work_left (st2 ! i) \<le> work_left (st1 ! i)
      \<and> (i \<in> set refill \<and> mg_source (st1 ! i) \<noteq> [] \<longrightarrow> work_left (st2 ! i) < work_left (st1 ! i))" if i: "i < length states" for i
  proof (cases "i \<in> set refill")
    case True
    then show ?thesis using Refresh_ends [of hi "st1 ! i" "me_received env i" "st2 ! i"] st1 r(4,5) i len env(2) by simp
  next
    case False
    then show ?thesis using st1 r(6) i len by simp
  qed
  have le: "\<forall>i < length states. work_left (st2 ! i) \<le> work_left (states ! i)" using ends st1 by (meson order_trans)
  obtain k where k: "k < length states" "work_left (st2 ! k) < work_left (states ! k)"
    using st1 ends by (metis le_less_trans)
  have "merge_iteration env states = ((case cur of None \<Rightarrow> [] | Some c \<Rightarrow> [c]), Some st2)"
    using env(1) by (simp add: merge_iteration_def ns r(1))
  then show ?thesis using r(2) ends len2 total_less [OF len2 le k] by auto
qed

lemma merge_iteration_continues:
  assumes ok: "merge_ok tables states" and some: "states \<noteq> []" and env: "\<not> me_stopping env"
  shows "\<exists>out states'. merge_iteration env states = (out, Some states')"
proof -
  obtain cur refill blk st1 where ns: "nextStep states = (cur, refill, blk, st1)" by (metis prod_cases4)
  note st = nextStep_ok [OF ok some ns]
  obtain st2 where "refresh_buffers (me_received env) refill st1 = Inr st2"
    using refresh_buffers_ok [of tables st1 refill "me_received env"] st by (auto simp: advances_def)
  then show ?thesis using env by (simp add: merge_iteration_def ns)
qed

definition drained :: "'e mergeBuffer list \<Rightarrow> bool" where
  "drained states \<longleftrightarrow> (\<forall>i < length states. remaining (states ! i) = [])"

lemma total_zero_drained: "total_left states = 0 \<Longrightarrow> drained states"
  by (simp add: total_left_def work_left_def drained_def)

lemma merge_loop_drains:
  assumes "merge_ok tables states" "states \<noteq> []" "\<forall>env \<in> set envs. \<not> me_stopping env \<and> (\<forall>i. me_received env i)"
    and "drained states \<or> (\<forall>i < length states. ends_at hi (states ! i)) \<and> total_left states \<le> length envs"
  shows "\<exists>outs states'. merge_loop envs states = (outs, Some states') \<and> drained states'"
  using assms
proof (induction envs arbitrary: states)
  case Nil
  then show ?case using total_zero_drained by auto
next
  case (Cons env envs)
  have env: "\<not> me_stopping env" "\<forall>i. me_received env i" using Cons.prems(3) by simp_all
  have "\<exists>out st1. merge_iteration env states = (out, Some st1) \<and> merge_ok tables st1 \<and> length st1 = length states
      \<and> (drained st1 \<or> (\<forall>i < length st1. ends_at hi (st1 ! i)) \<and> total_left st1 \<le> length envs)"
  proof (cases "drained states")
    case True
    obtain out st1 where it: "merge_iteration env states = (out, Some st1)"
      using merge_iteration_continues [OF Cons.prems(1,2) env(1)] by blast
    note st = merge_iteration_ok [OF Cons.prems(1,2) it]
    have "advances states st1" "merge_ok tables st1" using st by blast+
    then have len: "length st1 = length states" by (simp add: advances_def)
    have "\<forall>i < length states. set (remaining (st1 ! i)) \<subseteq> set (remaining (states ! i))" using st by blast
    then have "drained st1" using True by (simp add: drained_def len)
    then show ?thesis using it \<open>merge_ok tables st1\<close> len by blast
  next
    case False
    then obtain j where j: "j < length states" "remaining (states ! j) \<noteq> []" by (auto simp: drained_def)
    have e: "\<forall>i < length states. ends_at hi (states ! i)" "total_left states \<le> Suc (length envs)" using Cons.prems(4) False by simp_all
    show ?thesis using merge_iteration_drains [OF Cons.prems(1) e(1) env j] e(2) by fastforce
  qed
  then obtain out st1 where it: "merge_iteration env states = (out, Some st1)" "merge_ok tables st1" "length st1 = length states"
    "drained st1 \<or> (\<forall>i < length st1. ends_at hi (st1 ! i)) \<and> total_left st1 \<le> length envs" by blast
  have "st1 \<noteq> []" using it(3) Cons.prems(2) by auto
  from Cons.IH [OF it(2) this _ it(4)] obtain outs states' where "merge_loop envs st1 = (outs, Some states')" "drained states'"
    using Cons.prems(3) by auto
  then show ?case using it(1) by simp
qed

section \<open>Properties of the merge\<close>

lemma merge_run_ordered:
  assumes "length tables = length sources" "sources \<noteq> []" "distinct (map Table_Canonical tables)"
    and "\<forall>i < length sources. stream_ok (tables ! i) Zero (sources ! i)"
    and "merge_run env envs (newTableMerger sources) = (outs, final :: 'e mergeBuffer list option)"
  shows "(\<forall>c \<in> set outs. sc_Error c = None \<and> (\<forall>b. sc_Batch c = Some b \<longrightarrow> tp_Time b = Range_Max (sc_Progress c)))
    \<and> sorted_wrt (\<lambda>c d. Range_Max (sc_Progress c) \<le> Range_Max (sc_Progress d)) outs
    \<and> sorted_wrt (\<lambda>c d. \<forall>b b'. sc_Batch c = Some b \<and> \<not> sc_Fragment c \<and> sc_Batch d = Some b' \<longrightarrow> tp_Time b < tp_Time b') outs
    \<and> (\<forall>states. final = Some states \<longrightarrow> sources_muts sources = outs_muts outs + state_muts states)"
proof -
  obtain states where st: "merge_loop envs states = (outs, final)" "merge_ok tables states" "length states = length sources"
    "state_muts states = sources_muts sources"
    using merge_run_start [OF assms(1,3,4), of env envs] assms(5) by auto
  have "states \<noteq> []" using st(3) assms(2) by auto
  note l = merge_loop_ok [OF st(2) this st(1)]
  have good: "\<forall>c \<in> set outs. good_cursor c" using l by blast
  have s: "sorted_wrt (\<lambda>c d. Range_Max (sc_Progress c) \<le> Range_Max (sc_Progress d) \<and> (\<forall>b. sc_Batch d = Some b \<longrightarrow> later_than c b)) outs"
    using l by blast
  have "sorted_wrt (\<lambda>c d. Range_Max (sc_Progress c) \<le> Range_Max (sc_Progress d)) outs"
    by (rule sorted_wrt_mono_rel [OF _ s]) blast
  moreover have "sorted_wrt (\<lambda>c d. \<forall>b b'. sc_Batch c = Some b \<and> \<not> sc_Fragment c \<and> sc_Batch d = Some b' \<longrightarrow> tp_Time b < tp_Time b') outs"
  proof (rule sorted_wrt_mono_rel [OF _ s], intro allI impI)
    fix c d :: "'e StagingCursor" and b b' :: TemporalBatch
    assume cd: "c \<in> set outs" and le: "Range_Max (sc_Progress c) \<le> Range_Max (sc_Progress d) \<and> (\<forall>b. sc_Batch d = Some b \<longrightarrow> later_than c b)"
      and b: "sc_Batch c = Some b \<and> \<not> sc_Fragment c \<and> sc_Batch d = Some b'"
    have "later_than c b'" "good_cursor c" using le b cd good by simp_all
    then show "tp_Time b < tp_Time b'" using b by (simp add: later_than_def good_cursor_def)
  qed
  moreover have "\<forall>st. final = Some st \<longrightarrow> sources_muts sources = outs_muts outs + state_muts st"
    using l unfolding st(4) by blast
  ultimately show ?thesis using good by (simp add: good_cursor_def)
qed

text \<open>
  C16: the merger of any readers of different tables, under any timing of their channels, sends cursors
  without errors and with non-decreasing progress; a batch has the time of its cursor's progress; after a batch that
  is not a fragment no batch of the same or an earlier time follows, so that it is a complete transaction; and the mutations
  sent are exactly those that left the channels and buffers.
\<close>

theorem merge_run_consistent:
  assumes "length tables = length sources" "sources \<noteq> []" "distinct (map Table_Canonical tables)"
    and "\<forall>i < length sources. stream_ok (tables ! i) Zero (sources ! i)"
    and "merge_run env envs (newTableMerger sources) = (outs, final :: 'e mergeBuffer list option)"
  shows "(\<forall>c \<in> set outs. sc_Error c = None \<and> (\<forall>b. sc_Batch c = Some b \<longrightarrow> tp_Time b = Range_Max (sc_Progress c)))
    \<and> sorted_wrt (\<lambda>c d. Range_Max (sc_Progress c) \<le> Range_Max (sc_Progress d)) outs
    \<and> sorted_wrt (\<lambda>c d. \<forall>b b'. sc_Batch c = Some b \<and> \<not> sc_Fragment c \<and> sc_Batch d = Some b' \<longrightarrow> tp_Time b < tp_Time b') outs
    \<and> (\<forall>states. final = Some states \<longrightarrow> sources_muts sources = outs_muts outs + state_muts states)"
  by (rule merge_run_ordered [OF assms])

text \<open>Witness for C16: two tables with a common transaction; one of them is read in two fragments.\<close>

definition demo_cursor :: "string \<Rightarrow> Mutation list \<Rightarrow> bool \<Rightarrow> int \<Rightarrow> string tableCursor" where
  "demo_cursor table ms fragment n =
     \<lparr>tc_Batch = (case run_acc MultiBatch_Accumulate (map (Pair (demo_table table)) ms) MultiBatch_New of Inr b \<Rightarrow> b | Inl e \<Rightarrow> MultiBatch_New),
      tc_Error = None, tc_Fragment = fragment, tc_Jump = False, tc_Progress = RangeExcluding Zero (Time n 0)\<rparr>"

definition demo_sources :: "string tableCursor list list" where
  "demo_sources = [[demo_cursor ''t'' [demo_mut ''[1]'' 5] True 5, demo_cursor ''t'' [demo_mut ''[2]'' 5] False 9],
                   [demo_cursor ''u'' [demo_mut ''[3]'' 5, demo_mut ''[4]'' 6] False 9]]"

definition demo_env :: merge_env where
  "demo_env = \<lparr>me_stopping = False, me_stopping_error = False, me_received = (\<lambda>_. True)\<rparr>"

lemma demo_sources_ok: "\<forall>i < length demo_sources. stream_ok ([demo_table ''t'', demo_table ''u''] ! i) Zero (demo_sources ! i)"
proof -
  have "stream_ok (demo_table ''t'') Zero (demo_sources ! 0)" "stream_ok (demo_table ''u'') Zero (demo_sources ! 1)"
    by code_simp+
  then show ?thesis by (auto simp: demo_sources_def less_Suc_eq)
qed

theorem merge_run_consistent_witness:
  "\<exists>outs states. merge_run demo_env [demo_env, demo_env, demo_env] (newTableMerger demo_sources) = (outs, Some states)
     \<and> sources_muts demo_sources = outs_muts outs + state_muts states
     \<and> map sc_Fragment outs = [True, False, False]"
proof -
  have f: "map sc_Fragment (fst (merge_run demo_env [demo_env, demo_env, demo_env] (newTableMerger demo_sources))) = [True, False, False]
    \<and> snd (merge_run demo_env [demo_env, demo_env, demo_env] (newTableMerger demo_sources)) \<noteq> None" by code_simp
  then obtain outs states where r: "merge_run demo_env [demo_env, demo_env, demo_env] (newTableMerger demo_sources) = (outs, Some states)"
    by (metis option.exhaust prod.collapse)
  have "length [demo_table ''t'', demo_table ''u''] = length demo_sources" "demo_sources \<noteq> []"
    "distinct (map Table_Canonical [demo_table ''t'', demo_table ''u''])"
    by (simp_all add: demo_sources_def) code_simp
  from merge_run_consistent [OF this demo_sources_ok r] show ?thesis using r f by auto
qed

lemma merge_run_drains:
  assumes "length tables = length sources" "sources \<noteq> []" "distinct (map Table_Canonical tables)"
    and streams: "\<forall>i < length sources. stream_ok (tables ! i) Zero (sources ! i) \<and> sources ! i \<noteq> []
       \<and> pmax (last (sources ! i)) = hi \<and> (\<forall>t \<in> set (source_batches (sources ! i)). tp_Time t < hi)"
    and env: "\<forall>e \<in> set (env # envs). \<not> me_stopping e \<and> (\<forall>i. me_received e i)"
    and n: "(\<Sum>i < length sources. length (source_batches (sources ! i)) + length (sources ! i)) \<le> length envs"
  shows "\<exists>outs states. merge_run env envs (newTableMerger sources) = (outs, Some states)
    \<and> outs_muts outs = sources_muts sources"
proof -
  have so: "\<forall>i < length sources. stream_ok (tables ! i) Zero (sources ! i)" using streams by blast
  obtain states where st: "merge_run env envs (newTableMerger sources) = merge_loop envs states" "merge_ok tables states"
    "length states = length sources" "state_muts states = sources_muts sources"
    "\<forall>i < length sources. remaining (states ! i) = source_batches (sources ! i)
         \<and> mergeBuffer_Refresh (me_received env i) (newTableMerger sources ! i) = Inr (states ! i)"
    using merge_run_start [OF assms(1,3) so, of env envs] by blast
  have new: "remaining (newTableMerger sources ! i) = source_batches (sources ! i)" "mg_source (newTableMerger sources ! i) = sources ! i"
    if "i < length sources" for i using that by (simp_all add: newTableMerger_def remaining_def buffered_def)
  have e: "ends_at hi (states ! i) \<and> work_left (states ! i) \<le> length (source_batches (sources ! i)) + length (sources ! i)"
    if i: "i < length sources" for i
  proof -
    have "ends_at hi (newTableMerger sources ! i)" using streams i by (simp add: ends_at_def new)
    from Refresh_ends [OF this, of "me_received env i" "states ! i"] show ?thesis using st(5) i by (simp add: new work_left_def)
  qed
  have "states \<noteq> []" using st(3) assms(2) by auto
  moreover have "total_left states \<le> length envs"
    unfolding total_left_def st(3) by (rule order_trans [OF sum_mono n]) (use e in simp)
  ultimately obtain outs states' where l: "merge_loop envs states = (outs, Some states')" "drained states'"
    using merge_loop_drains [OF st(2), of envs hi] env e st(3) by auto
  have "state_muts states = outs_muts outs + state_muts states'" using merge_loop_ok [OF st(2) \<open>states \<noteq> []\<close> l(1)] by blast
  moreover have "state_muts states' = {#}" using l(2) by (simp add: state_muts_def drained_def batches_muts_def)
  ultimately show ?thesis using l(1) st(1,4) by simp
qed

text \<open>
  C17: when the readers of the group have read up to a common time and are neither stopped nor late, the merger
  sends all of their mutations, each exactly once, within as many iterations as there are batches and cursors.
\<close>

theorem merge_delivers_all:
  assumes "length tables = length sources" "sources \<noteq> []" "distinct (map Table_Canonical tables)"
    and streams: "\<forall>i < length sources. stream_ok (tables ! i) Zero (sources ! i) \<and> sources ! i \<noteq> []
       \<and> pmax (last (sources ! i)) = hi \<and> (\<forall>t \<in> set (source_batches (sources ! i)). tp_Time t < hi)"
    and env: "\<forall>e \<in> set (env # envs). \<not> me_stopping e \<and> (\<forall>i. me_received e i)"
    and n: "(\<Sum>i < length sources. length (source_batches (sources ! i)) + length (sources ! i)) \<le> length envs"
  shows "\<exists>outs states. merge_run env envs (newTableMerger sources) = (outs, Some states)
    \<and> outs_muts outs = sources_muts sources"
  by (rule merge_run_drains [OF assms])

text \<open>Witness for C17: the two tables above, with the seven iterations that suffice for them.\<close>

theorem merge_delivers_all_witness:
  "\<exists>outs states. merge_run demo_env (replicate 7 demo_env) (newTableMerger demo_sources) = (outs, Some states)
     \<and> outs_muts outs = sources_muts demo_sources"
proof -
  have "stream_ok ([demo_table ''t'', demo_table ''u''] ! i) Zero (demo_sources ! i) \<and> demo_sources ! i \<noteq> []
       \<and> pmax (last (demo_sources ! i)) = Time 9 0 \<and> (\<forall>t \<in> set (source_batches (demo_sources ! i)). tp_Time t < Time 9 0)"
    if i: "i < length demo_sources" for i
  proof -
    have "demo_sources ! 0 \<noteq> [] \<and> pmax (last (demo_sources ! 0)) = Time 9 0 \<and> (\<forall>t \<in> set (source_batches (demo_sources ! 0)). tp_Time t < Time 9 0)"
      "demo_sources ! 1 \<noteq> [] \<and> pmax (last (demo_sources ! 1)) = Time 9 0 \<and> (\<forall>t \<in> set (source_batches (demo_sources ! 1)). tp_Time t < Time 9 0)"
      by code_simp+
    moreover have "i = 0 \<or> i = 1" using i by (auto simp: demo_sources_def)
    ultimately show ?thesis using demo_sources_ok i by blast
  qed
  moreover have "(\<Sum>i < length demo_sources. length (source_batches (demo_sources ! i)) + length (demo_sources ! i)) \<le> length (replicate 7 demo_env)"
    by code_simp
  moreover have "length [demo_table ''t'', demo_table ''u''] = length demo_sources" "demo_sources \<noteq> []"
    "distinct (map Table_Canonical [demo_table ''t'', demo_table ''u''])"
    by (simp_all add: demo_sources_def) code_simp
  ultimately show ?thesis
    using merge_delivers_all [of "[demo_table ''t'', demo_table ''u'']" demo_sources "Time 9 0" demo_env "replicate 7 demo_env"]
    by (simp add: demo_env_def)
qed

text \<open>
  A reader that is stopped closes its channel, and a refresh from a closed channel returns at once. When its buffer is empty
  at the time of the next batch of another table, the merger sends nothing, waits for nothing and never
  looks at the stop: the iteration repeats forever.
\<close>

lemma merge_spins_on_closed_channel:
  "\<exists>states :: string mergeBuffer list. states \<noteq> [] \<and> (\<forall>env. merge_iteration env states = ([], Some states))"
proof -
  let ?a = "\<lparr>mg_buffer = Some (demo_cursor ''t'' [demo_mut ''[1]'' 5] False 9), mg_offset = 0, mg_source = []\<rparr>"
  let ?b = "\<lparr>mg_buffer = Some (demo_cursor ''u'' [] False 5), mg_offset = 0, mg_source = []\<rparr> :: string mergeBuffer"
  have "scan_buffers [?a, ?b] = (Time 5 0, [1], [0, 1])" by code_simp
  then have s: "nextStep [?a, ?b] = (None, [1], True, [?a, ?b])" by (simp add: nextStep_def)
  have "merge_iteration env [?a, ?b] = ([], Some [?a, ?b])" for env
    unfolding merge_iteration_def s by (simp add: mergeBuffer_Refresh_def)
  then show ?thesis by blast
qed

end
