(* ===== verification/Stagers.thy ===== *)
theory Stagers
  imports Merger
begin

text \<open>
  The factory of stagers, \<open>src/internal/staging/stage/factory.go\<close>, with the query type of
  \<open>src/internal/types/types.go\<close>: memoized stages, and the read of a table group as one reader per table
  whose channels are merged.
\<close>

section \<open>Memoized stages\<close>

text \<open>A stage is opaque here; \<open>newStage\<close> is the outcome of creating one for a table.\<close>

type_synonym 's instances = "(Table, 's) imap"

definition getUnlocked :: "Table \<Rightarrow> 's instances \<Rightarrow> 's option" where
  "getUnlocked table f = imap_Get Table_Canonical f table"

definition createUnlocked :: "(Table \<Rightarrow> ('x, 's) result) \<Rightarrow> Table \<Rightarrow> 's instances \<Rightarrow> 's instances \<times> ('x, 's) result" where
  "createUnlocked newStage table f =
     (case imap_Get Table_Canonical f table of
        Some ret \<Rightarrow> (f, Inr ret)
      | None \<Rightarrow>
          (case newStage table of
             Inl err \<Rightarrow> (f, Inl err)
           | Inr ret \<Rightarrow> (imap_Put Table_Canonical table ret f, Inr ret)))"

definition Stagers_Get :: "(Table \<Rightarrow> ('x, 's) result) \<Rightarrow> Table \<Rightarrow> 's instances \<Rightarrow> 's instances \<times> ('x, 's) result" where
  "Stagers_Get newStage target f =
     (case getUnlocked target f of Some ret \<Rightarrow> (f, Inr ret) | None \<Rightarrow> createUnlocked newStage target f)"

fun ensure_stages :: "(Table \<Rightarrow> ('x, 's) result) \<Rightarrow> Table list \<Rightarrow> 's instances \<Rightarrow> 's instances \<times> 'x option" where
  "ensure_stages newStage [] f = (f, None)"
| "ensure_stages newStage (table # tables) f =
     (case Stagers_Get newStage table f of
        (f', Inl err) \<Rightarrow> (f', Some err)
      | (f', Inr _) \<Rightarrow> ensure_stages newStage tables f')"

section \<open>Reading a group\<close>

record StagingQuery =
  sq_Bounds :: "Range option"
  sq_FragmentSize :: nat
  sq_Tables :: "Table list"

datatype 'x read_error = BoundsUnset | FragmentSizeUnset | TargetsEmpty | StageErr 'x

text \<open>What the goroutines meet: the iterations of each reader and those of the merger.\<close>

record 'e read_env =
  re_shouldRetry :: "'e \<Rightarrow> bool"
  re_gone :: 'e
  re_gunzip :: "string \<Rightarrow> ('e, string) result"
  re_iterations :: "'e iteration list list"
  re_start :: merge_env
  re_merges :: "merge_env list"

definition read_sources :: "'e read_env \<Rightarrow> Range \<Rightarrow> nat \<Rightarrow> Table list \<Rightarrow> 'e tableCursor list list" where
  "read_sources e bounds fragmentSize tables =
     map (\<lambda>(target, its). reader_run (re_shouldRetry e) (re_gone e) (re_gunzip e) bounds its (newTableReader fragmentSize target))
       (zip tables (re_iterations e))"

definition Stagers_Read ::
  "(Table \<Rightarrow> ('x, 's) result) \<Rightarrow> 'e read_env \<Rightarrow> StagingQuery \<Rightarrow> 's instances
   \<Rightarrow> 's instances \<times> ('x read_error, 'e StagingCursor list \<times> 'e mergeBuffer list option) result" where
  "Stagers_Read newStage e q f =
     (case sq_Bounds q of
        None \<Rightarrow> (f, Inl BoundsUnset)
      | Some bounds \<Rightarrow>
          if sq_FragmentSize q = 0 then (f, Inl FragmentSizeUnset)
          else if sq_Tables q = [] then (f, Inl TargetsEmpty)
          else case ensure_stages newStage (sq_Tables q) f of
                 (f', Some err) \<Rightarrow> (f', Inl (StageErr err))
               | (f', None) \<Rightarrow>
                   (f', Inr (merge_run (re_start e) (re_merges e)
                     (newTableMerger (read_sources e bounds (sq_FragmentSize q) (sq_Tables q))))))"

section \<open>Readers send well-formed streams\<close>

lemma only_table_batches: "\<lbrakk>multi_ok b; only_table table b; t \<in> set (temporal_batches b)\<rbrakk> \<Longrightarrow> one_table table t \<and> temporal_ok t"
  using multi_okD(2,5) [of b] by (auto simp: only_table_def temporal_batches_def)

lemma temporal_mut_time: "\<lbrakk>temporal_ok t; p \<in># temporal_muts t\<rbrakk> \<Longrightarrow> mut_Time (snd p) = tp_Time t"
  unfolding mset_temporal_list [symmetric] using temporal_list_entry [of t] by auto

lemma page_cursor_times:
  assumes "page_cursor gunzip table fs hi c page" "t \<in> set (temporal_batches (tc_Batch c))"
  shows "\<exists>r \<in> set page. sr_time r = tp_Time t"
proof -
  obtain ms where b: "multi_ok (tc_Batch c)" "only_table table (tc_Batch c)" "map (decoded gunzip) page = map Some ms"
    "multi_muts (tc_Batch c) = mset (map (Pair (Table_Canonical table)) ms)"
    using assms(1) unfolding page_cursor_def by blast
  have t: "one_table table t" "temporal_ok t" using only_table_batches [OF b(1,2) assms(2)] by simp_all
  then obtain p where p: "p \<in># temporal_muts t" by (auto simp: one_table_def)
  have "p \<in># (\<Sum>t \<leftarrow> ts. temporal_muts t)" if "t \<in> set ts" for ts using that p by (induction ts) auto
  then have "p \<in># multi_muts (tc_Batch c)" using assms(2) by (simp add: multi_muts_def)
  then have "snd p \<in> set ms" unfolding b(4) by auto
  then have "Some (snd p) \<in> set (map (decoded gunzip) page)" unfolding b(3) by simp
  then obtain r where r: "r \<in> set page" "decoded gunzip r = Some (snd p)" by fastforce
  then show ?thesis using decoded_fields [OF r(2)] temporal_mut_time [OF t(2) p] by auto
qed

lemma page_cursor_ok:
  assumes pc: "page_cursor gunzip table fs hi c page" and fs: "0 < fs"
    and page: "\<forall>r \<in> set page. lo \<le> sr_time r \<and> sr_time r < hi \<and> valid_time (sr_time r)" "sorted_wrt (\<lambda>a b. pk a < pk b) page"
    and hi: "valid_time hi" "lo \<le> hi"
  shows "cursor_ok table lo c"
proof -
  have b: "multi_ok (tc_Batch c)" "only_table table (tc_Batch c)" "tc_Error c = None" "tc_Fragment c \<longleftrightarrow> fs \<le> length page"
    "pmax c = (if fs \<le> length page then sr_time (last page) else hi)"
    using pc by (auto simp: page_cursor_def pmax_def RangeExcluding_def)
  have "last page \<in> set page" if "fs \<le> length page" using that fs by (intro last_in_set) auto
  then have p: "valid_time (pmax c)" "lo \<le> pmax c" using page(1) hi by (auto simp: b(5))
  have le: "sr_time r \<le> sr_time (last page)" if r: "r \<in> set page" for r
  proof -
    have "page = butlast page @ [last page]" using r by (metis append_butlast_last_id empty_iff empty_set)
    then have "r = last page \<or> pk r < pk (last page)" using r page(2) by (metis Un_iff set_append sorted_wrt_append empty_iff list.set(1) set_ConsD list.set_intros(1))
    then show ?thesis by (auto simp: pk_def less_imp_le)
  qed
  have "of_table table t \<and> lo \<le> tp_Time t \<and> tp_Time t \<le> pmax c \<and> (tp_Time t = pmax c \<longrightarrow> tc_Fragment c)"
    if t: "t \<in> set (temporal_batches (tc_Batch c))" for t
  proof -
    obtain r where r: "r \<in> set page" "sr_time r = tp_Time t" using page_cursor_times [OF pc t] by blast
    have "of_table table t" using only_table_batches [OF b(1,2) t] by (simp add: of_table_def one_table_def)
    then show ?thesis using r page(1) le [OF r(1)] by (auto simp: b(4,5) less_imp_le)
  qed
  moreover have "sorted_wrt (\<lambda>s t. tp_Time s < tp_Time t) (temporal_batches (tc_Batch c))"
    using multi_okD(4) [OF b(1)] by (simp add: temporal_batches_def sorted_wrt_map)
  ultimately show ?thesis using b(3) p by (simp add: cursor_ok_def)
qed

lemma pages_stream:
  assumes "list_all2 (page_cursor gunzip table fs hi) cs (pages fs xs)" "0 < fs" "valid_time hi" "lo \<le> hi"
    and "\<forall>r \<in> set xs. lo \<le> sr_time r \<and> sr_time r < hi \<and> valid_time (sr_time r)" "sorted_wrt (\<lambda>a b. pk a < pk b) xs"
  shows "stream_ok table lo cs \<and> cs \<noteq> [] \<and> pmax (last cs) = hi \<and> (\<forall>t \<in> set (source_batches cs). tp_Time t < hi)
    \<and> batches_muts (source_batches cs) = mset (map (\<lambda>r. (Table_Canonical table, the (decoded gunzip r))) xs)"
  using assms
proof (induction fs xs arbitrary: cs lo rule: pages.induct)
  case (1 fs xs)
  note lt = "1.prems"(5) and sorted = "1.prems"(6) and fs = "1.prems"(2)
  let ?page = "take fs xs"
  obtain c cs' where c: "cs = c # cs'" "page_cursor gunzip table fs hi c ?page"
    using "1.prems"(1,2) by (subst (asm) pages.simps) (auto simp: list_all2_Cons2 split: if_splits)
  have ok: "cursor_ok table lo c"
    by (rule page_cursor_ok [OF c(2) fs]) (use "1.prems"(3-6) in \<open>auto dest: in_set_takeD intro: sorted_wrt_take\<close>)
  have times: "tp_Time t < hi" if "t \<in> set (temporal_batches (tc_Batch c))" for t
    using page_cursor_times [OF c(2) that] lt by (metis in_set_takeD)
  have muts: "batches_muts (temporal_batches (tc_Batch c)) = mset (map (\<lambda>r. (Table_Canonical table, the (decoded gunzip r))) ?page)"
  proof -
    obtain ms where ms: "map (decoded gunzip) ?page = map Some ms" "multi_muts (tc_Batch c) = mset (map (Pair (Table_Canonical table)) ms)"
      using c(2) unfolding page_cursor_def by blast
    have "map (the \<circ> decoded gunzip) ?page = map the (map (decoded gunzip) ?page)" by simp
    also have "\<dots> = ms" unfolding ms(1) by (simp add: o_def)
    finally have "ms = map (the \<circ> decoded gunzip) ?page" by simp
    then show ?thesis using ms(2) by (simp add: batches_muts_def multi_muts_def o_def)
  qed
  show ?case
  proof (cases "length xs < fs")
    case True
    then have "cs' = []" "?page = xs" using "1.prems"(1) c(1) by (subst (asm) pages.simps, simp)+
    moreover have "pmax c = hi" using c(2) True by (simp add: page_cursor_def pmax_def RangeExcluding_def)
    ultimately show ?thesis using ok times muts by (simp add: c(1) source_batches_def)
  next
    case False
    have rest: "list_all2 (page_cursor gunzip table fs hi) cs' (pages fs (drop fs xs))"
      using "1.prems"(1,2) c(1) False by (subst (asm) pages.simps) simp
    have pm: "pmax c = sr_time (last ?page)" using c(2) False by (simp add: page_cursor_def pmax_def RangeExcluding_def)
    have ne: "?page \<noteq> []" using False fs by auto
    have after: "sr_time (last ?page) \<le> sr_time r" if r: "r \<in> set (drop fs xs)" for r
    proof -
      have "pk (last ?page) < pk r" using sorted r last_in_set [OF ne] by (metis append_take_drop_id sorted_wrt_append)
      then show ?thesis by (auto simp: pk_def less_imp_le)
    qed
    have "last ?page \<in> set xs" using last_in_set [OF ne] by (rule in_set_takeD)
    then have hi: "pmax c \<le> hi" using lt pm by (auto simp: less_imp_le)
    have "stream_ok table (pmax c) cs' \<and> cs' \<noteq> [] \<and> pmax (last cs') = hi \<and> (\<forall>t \<in> set (source_batches cs'). tp_Time t < hi)
        \<and> batches_muts (source_batches cs') = mset (map (\<lambda>r. (Table_Canonical table, the (decoded gunzip r))) (drop fs xs))"
      by (rule "1.IH" [OF _ rest fs "1.prems"(3) hi])
         (use False fs lt after sorted pm in \<open>auto dest: in_set_dropD intro: sorted_wrt_drop\<close>)
    moreover have "mset (map f xs) = mset (map f ?page) + mset (map f (drop fs xs))" for f :: "st_row \<Rightarrow> Table \<times> Mutation"
      by (metis append_take_drop_id map_append mset_append)
    ultimately show ?thesis using ok times muts by (auto simp: c(1) source_batches_def batches_muts_def)
  qed
qed

section \<open>Reading a group delivers its transactions\<close>

definition stable_table :: "(string \<Rightarrow> ('e, string) result) \<Rightarrow> st_table \<Rightarrow> bool" where
  "stable_table gunzip tbl \<longleftrightarrow> distinct (map pk tbl) \<and> (\<forall>r \<in> set tbl. sr_key r \<noteq> [] \<and> (\<not> sr_applied r \<longrightarrow> readable gunzip r))"

definition due_rows :: "Time \<Rightarrow> Time \<Rightarrow> st_table \<Rightarrow> st_row list" where
  "due_rows lo hi tbl = sort_key pk (filter (\<lambda>r. lo \<le> sr_time r \<and> sr_time r < hi \<and> \<not> sr_applied r) tbl)"

lemma due_rows_strict: "distinct (map pk tbl) \<Longrightarrow> sorted_wrt (\<lambda>a b. pk a < pk b) (due_rows lo hi tbl)"
proof -
  assume d: "distinct (map pk tbl)"
  have "sorted (map pk (due_rows lo hi tbl))" "distinct (map pk (due_rows lo hi tbl))"
    using d by (simp_all add: due_rows_def distinct_map_filter distinct_map inj_on_def)
  then show ?thesis by (simp add: strict_sorted_iff sorted_wrt_map [symmetric])
qed

lemma page_cursors_nonempty:
  assumes "list_all2 (page_cursor gunzip table fs hi) cs pgs" "t \<in> set (source_batches cs)"
  shows "temporal_muts t \<noteq> {#}"
proof -
  obtain c where c: "c \<in> set cs" "t \<in> set (temporal_batches (tc_Batch c))" using assms(2) by (auto simp: source_batches_def)
  obtain page where "page_cursor gunzip table fs hi c page" using assms(1) c(1) by (auto simp: list_all2_conv_all_nth in_set_conv_nth)
  then show ?thesis using only_table_batches c(2) by (auto simp: page_cursor_def one_table_def)
qed

lemma length_le_muts: "(\<And>t. t \<in> set ts \<Longrightarrow> temporal_muts t \<noteq> {#}) \<Longrightarrow> length ts \<le> size (batches_muts ts)"
proof (induction ts)
  case (Cons t ts)
  have "0 < size (temporal_muts t)" using Cons.prems [of t] by (simp add: nonempty_has_size)
  moreover have "length ts \<le> size (batches_muts ts)" by (rule Cons.IH) (use Cons.prems in simp)
  ultimately show ?case by (simp add: batches_muts_def)
qed simp

lemma reader_stream:
  assumes "0 < fs" "wf_table target" "stable_table gunzip tbl" "lo < hi" "valid_time lo" "valid_time hi"
    and n: "length (due_rows lo hi tbl) < n"
    and cs: "cs = reader_run shouldRetry gone gunzip (Range lo hi) (replicate n (quiet tbl)) (newTableReader fs target)"
  shows "stream_ok target Zero cs \<and> cs \<noteq> [] \<and> pmax (last cs) = hi \<and> (\<forall>t \<in> set (source_batches cs). tp_Time t < hi)
    \<and> batches_muts (source_batches cs) = mset (map (\<lambda>r. (Table_Canonical target, the (decoded gunzip r))) (due_rows lo hi tbl))
    \<and> length (source_batches cs) + length cs \<le> 2 * length (due_rows lo hi tbl) + 1"
proof -
  let ?xs = "due_rows lo hi tbl"
  have st: "distinct (map pk tbl)" "\<forall>r \<in> set tbl. sr_key r \<noteq> [] \<and> (\<not> sr_applied r \<longrightarrow> readable gunzip r)"
    using assms(3) by (simp_all add: stable_table_def)
  have "length ?xs div fs \<le> length ?xs" by simp
  then have "Suc (length ?xs div fs) \<le> n" using n by linarith
  from reader_run_pages [OF assms(1,2) st(1) assms(4-6) st(2) due_rows_def this, of shouldRetry gone]
  have pg: "list_all2 (page_cursor gunzip target fs hi) cs (pages fs ?xs)" unfolding cs .
  have rows: "\<forall>r \<in> set ?xs. Zero \<le> sr_time r \<and> sr_time r < hi \<and> valid_time (sr_time r)"
    using st(2) by (auto simp: due_rows_def readable_def Zero_le_valid)
  note s = pages_stream [OF pg assms(1,6) Zero_le_valid [OF assms(6)] rows due_rows_strict [OF st(1)]]
  have "length (source_batches cs) \<le> size (batches_muts (source_batches cs))"
    by (rule length_le_muts) (rule page_cursors_nonempty [OF pg])
  also have "\<dots> = length ?xs" using s by simp
  finally have "length (source_batches cs) \<le> length ?xs" .
  moreover have "length cs = Suc (length ?xs div fs)" using list_all2_lengthD [OF pg] length_pages [OF assms(1)] by simp
  ultimately show ?thesis using s \<open>length ?xs div fs \<le> length ?xs\<close> by linarith
qed

lemma ensure_stages_ok: "\<forall>t \<in> set tables. \<exists>s. newStage t = Inr s \<Longrightarrow> \<exists>f'. ensure_stages newStage tables f = (f', None)"
proof (induction tables arbitrary: f)
  case (Cons t tables)
  obtain f1 s where "Stagers_Get newStage t f = (f1, Inr s)"
    using Cons.prems by (fastforce simp: Stagers_Get_def createUnlocked_def getUnlocked_def split: option.splits)
  then show ?case using Cons by simp
qed simp

section \<open>Properties\<close>

text \<open>The environment of a read without failures, stops or changes.\<close>

definition calm :: "(string \<Rightarrow> ('e, string) result) \<Rightarrow> 'e read_env \<Rightarrow> nat \<Rightarrow> st_table list \<Rightarrow> bool" where
  "calm gunzip e n tbls \<longleftrightarrow> re_gunzip e = gunzip \<and> re_iterations e = map (\<lambda>tbl. replicate n (quiet tbl)) tbls
     \<and> (\<forall>m \<in> set (re_start e # re_merges e). \<not> me_stopping m \<and> (\<forall>i. me_received m i))"

text \<open>
  C15: reading a group of tables whose staged data does not change delivers, within a number of iterations linear in
  the number of rows, exactly the unapplied mutations of all tables within the bounds, in the order of their
  times; a cursor that is not a fragment holds everything that the group has at its time.
\<close>

theorem Read_delivers_group:
  assumes q: "sq_Bounds q = Some (Range lo hi)" "0 < sq_FragmentSize q" "sq_Tables q = tables" "tables \<noteq> []"
    and tables: "distinct (map Table_Canonical tables)" "\<forall>t \<in> set tables. wf_table t \<and> (\<exists>s. newStage t = Inr s)"
    and bounds: "lo < hi" "valid_time lo" "valid_time hi"
    and data: "length tbls = length tables" "\<forall>tbl \<in> set tbls. stable_table gunzip tbl \<and> length (due_rows lo hi tbl) < n"
    and env: "calm gunzip e n tbls" "(\<Sum>tbl \<leftarrow> tbls. 2 * length (due_rows lo hi tbl) + 1) \<le> length (re_merges e)"
  shows "\<exists>f' outs states. Stagers_Read newStage e q f = (f', Inr (outs, Some states))
    \<and> outs_muts outs = (\<Sum>i < length tables. mset (map (\<lambda>r. (Table_Canonical (tables ! i), the (decoded gunzip r))) (due_rows lo hi (tbls ! i))))
    \<and> sorted_wrt (\<lambda>c d. Range_Max (sc_Progress c) \<le> Range_Max (sc_Progress d)) outs
    \<and> sorted_wrt (\<lambda>c d. \<forall>b b'. sc_Batch c = Some b \<and> \<not> sc_Fragment c \<and> sc_Batch d = Some b' \<longrightarrow> tp_Time b < tp_Time b') outs"
proof -
  let ?src = "read_sources e (Range lo hi) (sq_FragmentSize q) tables"
  have it: "re_iterations e = map (\<lambda>tbl. replicate n (quiet tbl)) tbls" "re_gunzip e = gunzip"
    and calm: "\<forall>m \<in> set (re_start e # re_merges e). \<not> me_stopping m \<and> (\<forall>i. me_received m i)"
    using env(1) unfolding calm_def by blast+
  have len: "length ?src = length tables" using it(1) data(1) by (simp add: read_sources_def)
  have nth: "?src ! i = reader_run (re_shouldRetry e) (re_gone e) gunzip (Range lo hi) (replicate n (quiet (tbls ! i))) (newTableReader (sq_FragmentSize q) (tables ! i))"
    if "i < length tables" for i using that it data(1) by (simp add: read_sources_def)
  have s: "stream_ok (tables ! i) Zero (?src ! i) \<and> ?src ! i \<noteq> [] \<and> pmax (last (?src ! i)) = hi \<and> (\<forall>t \<in> set (source_batches (?src ! i)). tp_Time t < hi)
    \<and> batches_muts (source_batches (?src ! i)) = mset (map (\<lambda>r. (Table_Canonical (tables ! i), the (decoded gunzip r))) (due_rows lo hi (tbls ! i)))
    \<and> length (source_batches (?src ! i)) + length (?src ! i) \<le> 2 * length (due_rows lo hi (tbls ! i)) + 1" if i: "i < length tables" for i
    by (rule reader_stream [OF q(2) _ _ bounds _ nth [OF i]]) (use i tables(2) data in \<open>simp_all\<close>)
  have streams: "\<forall>i < length ?src. stream_ok (tables ! i) Zero (?src ! i) \<and> ?src ! i \<noteq> [] \<and> pmax (last (?src ! i)) = hi
      \<and> (\<forall>t \<in> set (source_batches (?src ! i)). tp_Time t < hi)" using s len by simp
  have "(\<Sum>i < length ?src. length (source_batches (?src ! i)) + length (?src ! i)) \<le> (\<Sum>i < length tables. 2 * length (due_rows lo hi (tbls ! i)) + 1)"
    unfolding len by (rule sum_mono) (use s in simp)
  also have "\<dots> \<le> length (re_merges e)" using env(2) data(1) by (simp add: sum_list_sum_nth atLeast0LessThan)
  finally have n: "(\<Sum>i < length ?src. length (source_batches (?src ! i)) + length (?src ! i)) \<le> length (re_merges e)" .
  have ne: "?src \<noteq> []" using len q(4) by auto
  obtain outs states where r: "merge_run (re_start e) (re_merges e) (newTableMerger ?src) = (outs, Some states)" "outs_muts outs = sources_muts ?src"
    using merge_run_drains [OF len [symmetric] ne tables(1) streams calm n] by blast
  have "\<forall>i < length ?src. stream_ok (tables ! i) Zero (?src ! i)" using streams by blast
  note ord = merge_run_ordered [OF len [symmetric] ne tables(1) this r(1)]
  obtain f' where f': "ensure_stages newStage tables f = (f', None)" using ensure_stages_ok [of tables newStage f] tables(2) by blast
  have "Stagers_Read newStage e q f = (f', Inr (outs, Some states))" using q f' r(1) by (simp add: Stagers_Read_def)
  moreover have "outs_muts outs = (\<Sum>i < length tables. mset (map (\<lambda>r. (Table_Canonical (tables ! i), the (decoded gunzip r))) (due_rows lo hi (tbls ! i))))"
    unfolding r(2) sources_muts_def len by (rule sum.cong) (use s in simp_all)
  ultimately show ?thesis using ord by (intro exI [of _ f'] exI [of _ outs] exI [of _ states]) simp
qed

text \<open>Witness for C15: two tables, read with a fragment size of one.\<close>

definition demo_query :: StagingQuery where
  "demo_query = \<lparr>sq_Bounds = Some (Range (Time 1 0) (Time 9 0)), sq_FragmentSize = 1, sq_Tables = [demo_table ''t'', demo_table ''u'']\<rparr>"

definition demo_tables :: "st_table list" where
  "demo_tables = [demo_rows, [staged_row (pack_one id (demo_mut ''[7]'' 5))]]"

definition demo_read :: "string read_env" where
  "demo_read = \<lparr>re_shouldRetry = (\<lambda>_. True), re_gone = ''gone'', re_gunzip = Inr,
     re_iterations = map (\<lambda>tbl. replicate 3 (quiet tbl)) demo_tables, re_start = demo_env, re_merges = replicate 8 demo_env\<rparr>"

theorem Read_delivers_group_witness:
  "\<exists>f' outs states. Stagers_Read (\<lambda>t. Inr t :: (string, Table) result) demo_read demo_query [] = (f', Inr (outs, Some states))
     \<and> size (outs_muts outs) = 3"
proof -
  have ok: "stable_table (Inr :: string \<Rightarrow> (string, string) result) tbl \<and> length (due_rows (Time 1 0) (Time 9 0) tbl) < 3" if "tbl \<in> set demo_tables" for tbl
  proof -
    have "length (due_rows (Time 1 0) (Time 9 0) (demo_tables ! 0)) = 2 \<and> length (due_rows (Time 1 0) (Time 9 0) (demo_tables ! 1)) = 1
        \<and> distinct (map pk (demo_tables ! 0)) \<and> distinct (map pk (demo_tables ! 1))"
      by code_simp
    moreover have "\<forall>tbl \<in> set demo_tables. \<forall>r \<in> set tbl. sr_key r \<noteq> [] \<and> (\<not> sr_applied r \<longrightarrow> readable (Inr :: string \<Rightarrow> (string, string) result) r)"
      by (simp add: demo_tables_def demo_rows_def readable_def decoded_def maybeGunzip_def maybeGZip_def gzipMinSize_def
          pack_one_def demo_mut_def stubSentinel_def valid_time_def Zero_def)
    moreover have "tbl = demo_tables ! 0 \<or> tbl = demo_tables ! 1" using that by (auto simp: demo_tables_def)
    ultimately show ?thesis using that unfolding stable_table_def by fastforce
  qed
  have pre: "distinct (map Table_Canonical [demo_table ''t'', demo_table ''u''])" "Time 1 0 < Time 9 0" "valid_time (Time 1 0)" "valid_time (Time 9 0)"
    "wf_table (demo_table ''t'') \<and> wf_table (demo_table ''u'')"
    "(\<Sum>tbl \<leftarrow> demo_tables. 2 * length (due_rows (Time 1 0) (Time 9 0) tbl) + 1) \<le> length (re_merges demo_read)"
    by code_simp+
  have calm: "calm Inr demo_read 3 demo_tables" by (simp add: calm_def demo_read_def demo_env_def)
  obtain f' outs states where r: "Stagers_Read (\<lambda>t. Inr t :: (string, Table) result) demo_read demo_query [] = (f', Inr (outs, Some states))"
    "outs_muts outs = (\<Sum>i < length [demo_table ''t'', demo_table ''u'']. mset (map (\<lambda>r. (Table_Canonical ([demo_table ''t'', demo_table ''u''] ! i),
        the (decoded (Inr :: string \<Rightarrow> (string, string) result) r))) (due_rows (Time 1 0) (Time 9 0) (demo_tables ! i))))"
    using Read_delivers_group [of demo_query "Time 1 0" "Time 9 0" "[demo_table ''t'', demo_table ''u'']" "\<lambda>t. Inr t :: (string, Table) result"
      demo_tables Inr 3 demo_read "[]"] ok pre calm by (auto simp: demo_query_def demo_tables_def)
  moreover have "length (due_rows (Time 1 0) (Time 9 0) (demo_tables ! 0)) = 2 \<and> length (due_rows (Time 1 0) (Time 9 0) (demo_tables ! 1)) = 1" by code_simp
  ultimately show ?thesis by (simp add: numeral_2_eq_2 lessThan_Suc)
qed

end
