(* ===== verification/Crep.thy ===== *)
theory Crep
  imports GoLib
begin

text \<open>
  Canonical representations, \<open>src/internal/util/crep\<close>: the stack machine that builds a value from a JSON
  token stream, the canonical form of Go values and the comparison of canonical values. The tokenizer and the
  encoder of \<open>encoding/json\<close>, \<open>strconv.FormatFloat\<close> and the RFC 3339 format of \<open>time\<close> are arguments.
\<close>

section \<open>Values and tokens\<close>

text \<open>A Go map is an association list without repeated keys.\<close>

datatype Value = VNil | VBool bool | VString string | VArr "Value list" | VMap "(string \<times> Value) list"

datatype token = TNull | TBool bool | TString string | TNumber string | TFloat64 | TDelim char | TOther

text \<open>
  What a \<open>json.Decoder\<close> yields: its tokens, and then either the end of the input or an error at some byte.
\<close>

datatype 'e tok_end = TokEOF | TokErr char 'e

type_synonym 'e tok_stream = "token list \<times> 'e tok_end"

datatype decode_error = UseNumber | UnexpectedDelim char | UnexpectedType | IndexPanic | AssertionPanic

datatype 'e crep_error = UnexpectedEOF | TokenErr 'e | Decoding decode_error | InvalidInput | MarshalErr 'e

section \<open>The decoder\<close>

text \<open>
  The value stack holds values and pointers to accumulators. An accumulator is an entry of a heap of arrays or of a
  heap of objects; the two typed stacks hold the pointers of the open ones.
\<close>

datatype sval = SVal Value | SArr nat | SObj nat

record decoder =
  d_arrs :: "Value list list"
  d_objs :: "(string \<times> Value) list list"
  d_arrStack :: "nat list"
  d_objStack :: "nat list"
  d_valStack :: "sval list"

definition new_decoder :: decoder where
  "new_decoder = \<lparr>d_arrs = [], d_objs = [], d_arrStack = [], d_objStack = [], d_valStack = []\<rparr>"

text \<open>Stacks grow at the front here.\<close>

definition pushVal :: "sval \<Rightarrow> decoder \<Rightarrow> decoder" where
  "pushVal v d = d\<lparr>d_valStack := v # d_valStack d\<rparr>"

definition popArrPtr :: "decoder \<Rightarrow> (decode_error, nat \<times> decoder) result" where
  "popArrPtr d = (case d_arrStack d of [] \<Rightarrow> Inl IndexPanic | p # ps \<Rightarrow> Inr (p, d\<lparr>d_arrStack := ps\<rparr>))"

definition popObjPtr :: "decoder \<Rightarrow> (decode_error, nat \<times> decoder) result" where
  "popObjPtr d = (case d_objStack d of [] \<Rightarrow> Inl IndexPanic | p # ps \<Rightarrow> Inr (p, d\<lparr>d_objStack := ps\<rparr>))"

definition deref :: "decoder \<Rightarrow> sval \<Rightarrow> Value" where
  "deref d s = (case s of SVal v \<Rightarrow> v | SArr p \<Rightarrow> VArr (d_arrs d ! p) | SObj p \<Rightarrow> VMap (d_objs d ! p))"

definition popValActual :: "decoder \<Rightarrow> (decode_error, Value \<times> decoder) result" where
  "popValActual d = (case d_valStack d of [] \<Rightarrow> Inl IndexPanic | s # ss \<Rightarrow> Inr (deref d s, d\<lparr>d_valStack := ss\<rparr>))"

definition topValMayBePointer :: "decoder \<Rightarrow> (decode_error, sval) result" where
  "topValMayBePointer d = (case d_valStack d of [] \<Rightarrow> Inl IndexPanic | s # ss \<Rightarrow> Inr s)"

text \<open>Writing a key of a Go map.\<close>

fun map_put :: "string \<Rightarrow> Value \<Rightarrow> (string \<times> Value) list \<Rightarrow> (string \<times> Value) list" where
  "map_put k v [] = [(k, v)]"
| "map_put k v ((j, w) # m) = (if j = k then (k, v) # m else (j, w) # map_put k v m)"

text \<open>
  The loops at a closing delimiter pop values into the accumulator until its pointer is on top of the stack.
  The loop of an array then reverses the accumulator.
\<close>

function accumulateArr :: "nat \<Rightarrow> decoder \<Rightarrow> (decode_error, decoder) result" where
  "accumulateArr p d =
     (case d_valStack d of
        [] \<Rightarrow> Inl IndexPanic
      | s # ss \<Rightarrow>
          if s = SArr p then Inr (d\<lparr>d_arrs := (d_arrs d)[p := rev (d_arrs d ! p)]\<rparr>)
          else accumulateArr p (d\<lparr>d_valStack := ss, d_arrs := (d_arrs d)[p := d_arrs d ! p @ [deref d s]]\<rparr>))"
  by pat_completeness auto
termination by (relation "measure (\<lambda>(p, d). length (d_valStack d))") auto

function accumulateObj :: "nat \<Rightarrow> decoder \<Rightarrow> (decode_error, decoder) result" where
  "accumulateObj p d =
     (case d_valStack d of
        [] \<Rightarrow> Inl IndexPanic
      | s # ss \<Rightarrow>
          if s = SObj p then Inr d
          else case ss of
                 [] \<Rightarrow> Inl IndexPanic
               | t # ts \<Rightarrow>
                   (case deref d t of
                      VString key \<Rightarrow>
                        accumulateObj p (d\<lparr>d_valStack := ts, d_objs := (d_objs d)[p := map_put key (deref d s) (d_objs d ! p)]\<rparr>)
                    | _ \<Rightarrow> Inl AssertionPanic))"
  by pat_completeness auto
termination by (relation "measure (\<lambda>(p, d). length (d_valStack d))") auto

declare accumulateArr.simps [simp del] accumulateObj.simps [simp del]

text \<open>One token: an error, a decoder after an opening delimiter, or one after a value that may be complete.\<close>

datatype token_step = Continue decoder | Check decoder

definition decode_token :: "token \<Rightarrow> decoder \<Rightarrow> (decode_error, token_step) result" where
  "decode_token tok d =
     (case tok of
        TNull \<Rightarrow> Inr (Check (pushVal (SVal VNil) d))
      | TBool b \<Rightarrow> Inr (Check (pushVal (SVal (VBool b)) d))
      | TString s \<Rightarrow> Inr (Check (pushVal (SVal (VString s)) d))
      | TNumber s \<Rightarrow> Inr (Check (pushVal (SVal (VString s)) d))
      | TFloat64 \<Rightarrow> Inl UseNumber
      | TDelim c \<Rightarrow>
          if c = CHR ''['' then
            let p = length (d_arrs d)
            in Inr (Continue (pushVal (SArr p) (d\<lparr>d_arrs := d_arrs d @ [[]], d_arrStack := p # d_arrStack d\<rparr>)))
          else if c = CHR ''{'' then
            let p = length (d_objs d)
            in Inr (Continue (pushVal (SObj p) (d\<lparr>d_objs := d_objs d @ [[]], d_objStack := p # d_objStack d\<rparr>)))
          else if c = CHR '']'' then
            (case popArrPtr d of Inl e \<Rightarrow> Inl e | Inr (p, d') \<Rightarrow> map_sum id Check (accumulateArr p d'))
          else if c = CHR ''}'' then
            (case popObjPtr d of Inl e \<Rightarrow> Inl e | Inr (p, d') \<Rightarrow> map_sum id Check (accumulateObj p d'))
          else Inl (UnexpectedDelim c)
      | TOther \<Rightarrow> Inl UnexpectedType)"

text \<open>\<open>Decode\<close> returns the value and what is left of the stream.\<close>

fun Decode :: "token list \<Rightarrow> 'e tok_end \<Rightarrow> decoder \<Rightarrow> ('e crep_error, Value \<times> token list) result" where
  "Decode [] end d = (case end of TokEOF \<Rightarrow> Inl UnexpectedEOF | TokErr _ e \<Rightarrow> Inl (TokenErr e))"
| "Decode (tok # toks) end d =
     (case decode_token tok d of
        Inl e \<Rightarrow> Inl (Decoding e)
      | Inr (Continue d') \<Rightarrow> Decode toks end d'
      | Inr (Check d') \<Rightarrow>
          if length (d_valStack d') = 1
          then (case popValActual d' of Inl e \<Rightarrow> Inl (Decoding e) | Inr (v, _) \<Rightarrow> Inr (v, toks))
          else Decode toks end d')"

text \<open>
  \<open>dec.More()\<close> looks at the next byte: it is false at the end of the input and before a closing bracket or brace.
\<close>

definition closes :: "char \<Rightarrow> bool" where
  "closes c \<longleftrightarrow> c = CHR '']'' \<or> c = CHR ''}''"

definition More :: "token list \<Rightarrow> 'e tok_end \<Rightarrow> bool" where
  "More toks end =
     (case toks of
        TDelim c # _ \<Rightarrow> \<not> closes c
      | _ # _ \<Rightarrow> True
      | [] \<Rightarrow> (case end of TokEOF \<Rightarrow> False | TokErr c _ \<Rightarrow> \<not> closes c))"

definition Unmarshal :: "'e tok_stream \<Rightarrow> ('e crep_error, Value) result" where
  "Unmarshal stream =
     (case Decode (fst stream) (snd stream) new_decoder of
        Inl e \<Rightarrow> Inl e
      | Inr (ret, rest) \<Rightarrow> if More rest (snd stream) then Inl InvalidInput else Inr ret)"

section \<open>Canonical values\<close>

record go_std =
  std_tokens :: "string \<Rightarrow> string tok_stream"
  std_FormatFloat :: "int \<Rightarrow> nat \<Rightarrow> string"
  std_RFC3339Nano :: "int \<Rightarrow> string"
  std_Marshal :: "go_any \<Rightarrow> (string, string) result"

definition Canonical :: "go_std \<Rightarrow> go_any \<Rightarrow> (string crep_error, Value) result" where
  "Canonical std value =
     (case value of
        GNil \<Rightarrow> Inr VNil
      | GBool b \<Rightarrow> Inr (VBool b)
      | GString s \<Rightarrow> Inr (VString s)
      | GInt i \<Rightarrow> Inr (VString (show_int i))
      | GUint i \<Rightarrow> Inr (VString (show_int i))
      | GFloat32 x \<Rightarrow> Inr (VString (std_FormatFloat std x 32))
      | GFloat64 x \<Rightarrow> Inr (VString (std_FormatFloat std x 64))
      | GTime t \<Rightarrow> Inr (VString (std_RFC3339Nano std t))
      | GRawMessage data \<Rightarrow> Unmarshal (std_tokens std data)
      | GBytes data \<Rightarrow> Unmarshal (std_tokens std data)
      | _ \<Rightarrow>
          (case std_Marshal std value of
             Inl e \<Rightarrow> Inl (MarshalErr e)
           | Inr data \<Rightarrow> Unmarshal (std_tokens std data)))"

text \<open>\<open>equal\<close> walks over two canonical values.\<close>

fun equal_value :: "Value \<Rightarrow> Value \<Rightarrow> bool"
and equal_elts :: "Value list \<Rightarrow> Value list \<Rightarrow> bool"
and equal_entries :: "(string \<times> Value) list \<Rightarrow> (string \<times> Value) list \<Rightarrow> bool" where
  "equal_value VNil b \<longleftrightarrow> b = VNil"
| "equal_value (VBool x) b \<longleftrightarrow> (case b of VBool y \<Rightarrow> x = y | _ \<Rightarrow> False)"
| "equal_value (VString x) b \<longleftrightarrow> (case b of VString y \<Rightarrow> x = y | _ \<Rightarrow> False)"
| "equal_value (VArr xs) b \<longleftrightarrow> (case b of VArr ys \<Rightarrow> length xs = length ys \<and> equal_elts xs ys | _ \<Rightarrow> False)"
| "equal_value (VMap m) b \<longleftrightarrow> (case b of VMap n \<Rightarrow> length m = length n \<and> equal_entries m n | _ \<Rightarrow> False)"
| "equal_elts [] ys \<longleftrightarrow> True"
| "equal_elts (x # xs) ys \<longleftrightarrow> (case ys of [] \<Rightarrow> True | y # ys' \<Rightarrow> equal_value x y \<and> equal_elts xs ys')"
| "equal_entries [] n \<longleftrightarrow> True"
| "equal_entries ((k, x) # m) n \<longleftrightarrow> (case map_of n k of None \<Rightarrow> False | Some y \<Rightarrow> equal_value x y) \<and> equal_entries m n"

definition Equal :: "go_std \<Rightarrow> go_any \<Rightarrow> go_any \<Rightarrow> (string crep_error, bool) result" where
  "Equal std a b =
     (case Canonical std a of
        Inl e \<Rightarrow> Inl e
      | Inr aVal \<Rightarrow> (case Canonical std b of Inl e \<Rightarrow> Inl e | Inr bVal \<Rightarrow> Inr (equal_value aVal bVal)))"

section \<open>The reference: JSON documents as trees\<close>

datatype json = JNull | JBool bool | JStr string | JNum string | JArr "json list" | JObj "(string \<times> json) list"

fun tokens_of :: "json \<Rightarrow> token list" where
  "tokens_of JNull = [TNull]"
| "tokens_of (JBool b) = [TBool b]"
| "tokens_of (JStr s) = [TString s]"
| "tokens_of (JNum n) = [TNumber n]"
| "tokens_of (JArr js) = TDelim (CHR ''['') # concat (map tokens_of js) @ [TDelim (CHR '']'')]"
| "tokens_of (JObj kvs) = TDelim (CHR ''{'') # concat (map (\<lambda>(k, j). TString k # tokens_of j) kvs) @ [TDelim (CHR ''}'')]"

text \<open>The value of a document. Of repeated keys of an object the first one counts.\<close>

fun value_of :: "json \<Rightarrow> Value" where
  "value_of JNull = VNil"
| "value_of (JBool b) = VBool b"
| "value_of (JStr s) = VString s"
| "value_of (JNum n) = VString n"
| "value_of (JArr js) = VArr (map value_of js)"
| "value_of (JObj kvs) = VMap (foldr (\<lambda>(k, v). map_put k v) (map (\<lambda>(k, j). (k, value_of j)) kvs) [])"

section \<open>The decoder builds the reference value\<close>

text \<open>A decoder that has only grown: the open accumulators and the old heap entries are as before.\<close>

definition grown :: "decoder \<Rightarrow> decoder \<Rightarrow> bool" where
  "grown d d' \<longleftrightarrow> d_arrStack d' = d_arrStack d \<and> d_objStack d' = d_objStack d
     \<and> (\<exists>as. d_arrs d' = d_arrs d @ as) \<and> (\<exists>os. d_objs d' = d_objs d @ os)"

definition fresh :: "decoder \<Rightarrow> decoder \<Rightarrow> sval \<Rightarrow> bool" where
  "fresh d d' s \<longleftrightarrow>
     (case s of
        SVal v \<Rightarrow> True
      | SArr p \<Rightarrow> length (d_arrs d) \<le> p \<and> p < length (d_arrs d')
      | SObj p \<Rightarrow> length (d_objs d) \<le> p \<and> p < length (d_objs d'))"

lemma grown_refl [simp]: "d_arrs d' = d_arrs d \<Longrightarrow> d_objs d' = d_objs d \<Longrightarrow> d_arrStack d' = d_arrStack d \<Longrightarrow> d_objStack d' = d_objStack d \<Longrightarrow> grown d d'"
  by (simp add: grown_def)

lemma grown_trans: "grown a b \<Longrightarrow> grown b c \<Longrightarrow> grown a c"
  by (auto simp: grown_def)

lemma fresh_grown: "\<lbrakk>fresh a b s; grown b c\<rbrakk> \<Longrightarrow> fresh a c s \<and> deref c s = deref b s"
  by (auto simp: fresh_def grown_def deref_def nth_append split: sval.splits)

lemma fresh_mono: "\<lbrakk>grown a b; fresh b c s\<rbrakk> \<Longrightarrow> fresh a c s"
  by (auto simp: fresh_def grown_def split: sval.splits)

lemma deref_update [simp]:
  "s \<noteq> SArr p \<Longrightarrow> deref (d\<lparr>d_valStack := vs, d_arrs := (d_arrs d)[p := x]\<rparr>) s = deref d s"
  "s \<noteq> SObj p \<Longrightarrow> deref (d\<lparr>d_valStack := vs, d_objs := (d_objs d)[p := y]\<rparr>) s = deref d s"
  by (cases s; simp add: deref_def)+

lemma accumulateArr_stack:
  assumes "d_valStack d = ts @ SArr p # stk" "\<forall>t \<in> set ts. t \<noteq> SArr p" "p < length (d_arrs d)"
  shows "accumulateArr p d =
    Inr (d\<lparr>d_valStack := SArr p # stk, d_arrs := (d_arrs d)[p := rev (d_arrs d ! p @ map (deref d) ts)]\<rparr>)"
  using assms
proof (induction ts arbitrary: d)
  case Nil
  then show ?case by (subst accumulateArr.simps) simp
next
  case (Cons t ts)
  let ?d = "d\<lparr>d_valStack := ts @ SArr p # stk, d_arrs := (d_arrs d)[p := d_arrs d ! p @ [deref d t]]\<rparr>"
  have "accumulateArr p d = accumulateArr p ?d"
    using Cons.prems by (subst accumulateArr.simps) simp
  also have "\<dots> = Inr (?d\<lparr>d_valStack := SArr p # stk, d_arrs := (d_arrs ?d)[p := rev (d_arrs ?d ! p @ map (deref ?d) ts)]\<rparr>)"
    by (rule Cons.IH) (use Cons.prems in simp_all)
  also have "map (deref ?d) ts = map (deref d) ts" using Cons.prems(2) by simp
  finally show ?case using Cons.prems(3) by simp
qed

lemma accumulateObj_stack:
  assumes "d_valStack d = concat (map (\<lambda>(k, s). [s, SVal (VString k)]) kvs) @ SObj p # stk" "\<forall>kv \<in> set kvs. snd kv \<noteq> SObj p"
    "p < length (d_objs d)"
  shows "accumulateObj p d =
    Inr (d\<lparr>d_valStack := SObj p # stk, d_objs := (d_objs d)[p := fold (\<lambda>(k, s). map_put k (deref d s)) kvs (d_objs d ! p)]\<rparr>)"
  using assms
proof (induction kvs arbitrary: d)
  case Nil
  then show ?case by (subst accumulateObj.simps) simp
next
  case (Cons kv kvs)
  obtain k s where kv: "kv = (k, s)" by force
  let ?rest = "concat (map (\<lambda>(k, s). [s, SVal (VString k)]) kvs) @ SObj p # stk"
  let ?d = "d\<lparr>d_valStack := ?rest, d_objs := (d_objs d)[p := map_put k (deref d s) (d_objs d ! p)]\<rparr>"
  have key: "deref d (SVal (VString k)) = VString k" by (simp add: deref_def)
  have "accumulateObj p d = accumulateObj p ?d"
    using Cons.prems by (subst accumulateObj.simps) (simp add: kv key)
  also have "\<dots> = Inr (?d\<lparr>d_valStack := SObj p # stk, d_objs := (d_objs ?d)[p := fold (\<lambda>(k, s). map_put k (deref ?d s)) kvs (d_objs ?d ! p)]\<rparr>)"
    by (rule Cons.IH) (use Cons.prems in simp_all)
  also have "fold (\<lambda>(k, s). map_put k (deref ?d s)) kvs m = fold (\<lambda>(k, s). map_put k (deref d s)) kvs m" for m
    by (rule fold_cong) (use Cons.prems(2) in auto)
  finally show ?case using Cons.prems(3) by (simp add: kv)
qed

text \<open>Tokens that are consumed without completing the document.\<close>

fun run_tokens :: "token list \<Rightarrow> decoder \<Rightarrow> decoder option" where
  "run_tokens [] d = Some d"
| "run_tokens (tok # toks) d =
     (case decode_token tok d of
        Inl e \<Rightarrow> None
      | Inr (Continue d') \<Rightarrow> run_tokens toks d'
      | Inr (Check d') \<Rightarrow> if length (d_valStack d') = 1 then None else run_tokens toks d')"

lemma Decode_run: "run_tokens toks d = Some d' \<Longrightarrow> Decode (toks @ rest) end d = Decode rest end d'"
  by (induction toks d rule: run_tokens.induct) (auto split: sum.splits token_step.splits if_splits)

lemma run_tokens_append: "run_tokens toks d = Some d' \<Longrightarrow> run_tokens (toks @ rest) d = run_tokens rest d'"
  by (induction toks d rule: run_tokens.induct) (auto split: sum.splits token_step.splits if_splits)

text \<open>Inside an open accumulator the tokens of a document push one entry that stands for its value.\<close>

definition decodes :: "token list \<Rightarrow> Value \<Rightarrow> bool" where
  "decodes toks v \<longleftrightarrow> (\<forall>d. d_valStack d \<noteq> [] \<longrightarrow>
     (\<exists>d' s. run_tokens toks d = Some d' \<and> d_valStack d' = s # d_valStack d \<and> grown d d' \<and> fresh d d' s \<and> deref d' s = v))"

lemma decodesE:
  assumes "decodes toks v" "d_valStack d \<noteq> []"
  obtains d' s where "run_tokens toks d = Some d'" "d_valStack d' = s # d_valStack d" "grown d d'" "fresh d d' s" "deref d' s = v"
  using assms unfolding decodes_def by blast

lemma decodes_elements:
  assumes "\<forall>j \<in> set js. decodes (tokens_of j) (value_of j)" "d_valStack d \<noteq> []"
  shows "\<exists>d' ss. run_tokens (concat (map tokens_of js)) d = Some d' \<and> d_valStack d' = rev ss @ d_valStack d
    \<and> grown d d' \<and> (\<forall>s \<in> set ss. fresh d d' s) \<and> map (deref d') ss = map value_of js"
  using assms
proof (induction js arbitrary: d)
  case Nil
  then show ?case by (intro exI [of _ d] exI [of _ "[]"]) simp
next
  case (Cons j js)
  obtain d1 s where d1: "run_tokens (tokens_of j) d = Some d1" "d_valStack d1 = s # d_valStack d" "grown d d1" "fresh d d1 s" "deref d1 s = value_of j"
    using Cons.prems unfolding decodes_def by auto
  obtain d2 ss where d2: "run_tokens (concat (map tokens_of js)) d1 = Some d2" "d_valStack d2 = rev ss @ d_valStack d1" "grown d1 d2"
    "\<forall>s \<in> set ss. fresh d1 d2 s" "map (deref d2) ss = map value_of js"
    using Cons.IH [of d1] Cons.prems(1) d1(2) by auto
  have "\<forall>t \<in> set (s # ss). fresh d d2 t" using fresh_grown [OF d1(4) d2(3)] fresh_mono [OF d1(3)] d2(4) by auto
  then show ?case
    using d1 d2 fresh_grown [OF d1(4) d2(3)] grown_trans [OF d1(3) d2(3)]
    by (intro exI [of _ d2] exI [of _ "s # ss"]) (simp add: run_tokens_append)
qed

lemma decodes_members:
  assumes "\<forall>kj \<in> set kjs. decodes (tokens_of (snd kj)) (value_of (snd kj))" "d_valStack d \<noteq> []"
  shows "\<exists>d' kvs. run_tokens (concat (map (\<lambda>(k, j). TString k # tokens_of j) kjs)) d = Some d'
    \<and> d_valStack d' = concat (map (\<lambda>(k, s). [s, SVal (VString k)]) (rev kvs)) @ d_valStack d
    \<and> grown d d' \<and> (\<forall>kv \<in> set kvs. fresh d d' (snd kv)) \<and> map (\<lambda>(k, s). (k, deref d' s)) kvs = map (\<lambda>(k, j). (k, value_of j)) kjs"
  using assms
proof (induction kjs arbitrary: d)
  case Nil
  then show ?case by (intro exI [of _ d] exI [of _ "[]"]) simp
next
  case (Cons kj kjs)
  obtain k j where kj: "kj = (k, j)" by force
  let ?d0 = "pushVal (SVal (VString k)) d"
  have d0: "decode_token (TString k) d = Inr (Check ?d0)" "d_valStack ?d0 = SVal (VString k) # d_valStack d" "grown d ?d0"
    by (simp_all add: decode_token_def pushVal_def)
  obtain d1 s where d1: "run_tokens (tokens_of j) ?d0 = Some d1" "d_valStack d1 = s # d_valStack ?d0" "grown ?d0 d1" "fresh ?d0 d1 s" "deref d1 s = value_of j"
    by (rule decodesE [of "tokens_of j" "value_of j" ?d0]) (use Cons.prems(1) d0(2) kj in auto)
  have g1: "grown d d1" by (rule grown_trans [OF d0(3) d1(3)])
  obtain d2 kvs where d2: "run_tokens (concat (map (\<lambda>(k, j). TString k # tokens_of j) kjs)) d1 = Some d2"
    "d_valStack d2 = concat (map (\<lambda>(k, s). [s, SVal (VString k)]) (rev kvs)) @ d_valStack d1" "grown d1 d2"
    "\<forall>kv \<in> set kvs. fresh d1 d2 (snd kv)" "map (\<lambda>(k, s). (k, deref d2 s)) kvs = map (\<lambda>(k, j). (k, value_of j)) kjs"
    using Cons.IH [of d1] Cons.prems(1) d1(2) by auto
  have "run_tokens (TString k # tokens_of j) d = Some d1" using d0 d1(1) Cons.prems(2) by simp
  moreover have "fresh d d2 s" "deref d2 s = value_of j"
    using fresh_grown [OF d1(4) d2(3)] fresh_mono [OF d0(3)] d1(5) by auto
  moreover have "\<forall>kv \<in> set kvs. fresh d d2 (snd kv)" using fresh_mono [OF g1] d2(4) by blast
  ultimately show ?case
    using d1(2) d2 d0(2) grown_trans [OF g1 d2(3)]
    by (intro exI [of _ d2] exI [of _ "(k, s) # kvs"]) (simp add: kj run_tokens_append [of "TString k # tokens_of j", simplified])
qed

lemma decodes_array:
  assumes "\<forall>j \<in> set js. decodes (tokens_of j) (value_of j)"
  shows "\<exists>d1 d2. decode_token (TDelim (CHR ''['')) d = Inr (Continue d1) \<and> run_tokens (concat (map tokens_of js)) d1 = Some d2
    \<and> (\<exists>d3. decode_token (TDelim (CHR '']'')) d2 = Inr (Check d3) \<and> d_valStack d3 = SArr (length (d_arrs d)) # d_valStack d
         \<and> grown d d3 \<and> fresh d d3 (SArr (length (d_arrs d))) \<and> deref d3 (SArr (length (d_arrs d))) = value_of (JArr js))"
proof -
  let ?p = "length (d_arrs d)"
  let ?d1 = "pushVal (SArr ?p) (d\<lparr>d_arrs := d_arrs d @ [[]], d_arrStack := ?p # d_arrStack d\<rparr>)"
  have o: "decode_token (TDelim (CHR ''['')) d = Inr (Continue ?d1)" by (simp add: decode_token_def Let_def)
  have f1: "d_valStack ?d1 = SArr ?p # d_valStack d" "d_arrStack ?d1 = ?p # d_arrStack d" "d_objStack ?d1 = d_objStack d"
    "d_arrs ?d1 = d_arrs d @ [[]]" "d_objs ?d1 = d_objs d" by (simp_all add: pushVal_def)
  obtain d2 ss where d2: "run_tokens (concat (map tokens_of js)) ?d1 = Some d2" "d_valStack d2 = rev ss @ d_valStack ?d1"
    "grown ?d1 d2" "\<forall>s \<in> set ss. fresh ?d1 d2 s" "map (deref d2) ss = map value_of js"
    using decodes_elements [OF assms, of ?d1] f1(1) by auto
  obtain as os where g: "d_arrStack d2 = ?p # d_arrStack d" "d_objStack d2 = d_objStack d" "d_arrs d2 = (d_arrs d @ [[]]) @ as" "d_objs d2 = d_objs d @ os"
    using d2(3) unfolding grown_def f1 by blast
  let ?d2 = "d2\<lparr>d_arrStack := d_arrStack d\<rparr>"
  have same: "map (deref ?d2) (rev ss) = rev (map value_of js)"
    unfolding d2(5) [symmetric] rev_map by (simp add: deref_def cong: sval.case_cong)
  have "\<forall>t \<in> set (rev ss). t \<noteq> SArr ?p" using d2(4) by (auto simp: fresh_def f1)
  from accumulateArr_stack [of ?d2 "rev ss" ?p "d_valStack d", OF _ this] d2(2) f1(1) g(3)
  have acc: "accumulateArr ?p ?d2 = Inr (?d2\<lparr>d_valStack := SArr ?p # d_valStack d, d_arrs := (d_arrs d2)[?p := map value_of js]\<rparr>)"
    by (simp add: same nth_append)
  let ?d3 = "?d2\<lparr>d_valStack := SArr ?p # d_valStack d, d_arrs := (d_arrs d2)[?p := map value_of js]\<rparr>"
  have c: "decode_token (TDelim (CHR '']'')) d2 = Inr (Check ?d3)"
    by (simp add: decode_token_def popArrPtr_def g(1) acc)
  have upd: "(d_arrs d2)[?p := map value_of js] = d_arrs d @ map value_of js # as" by (simp add: g(3))
  have "grown d ?d3" "fresh d ?d3 (SArr ?p)" "deref ?d3 (SArr ?p) = value_of (JArr js)"
    using g(2,4) by (simp_all add: grown_def fresh_def deref_def upd nth_append)
  then show ?thesis using o d2(1) c by (intro exI [of _ ?d1] exI [of _ d2]) auto
qed

lemma decodes_object:
  assumes "\<forall>kj \<in> set kjs. decodes (tokens_of (snd kj)) (value_of (snd kj))"
  shows "\<exists>d1 d2. decode_token (TDelim (CHR ''{'')) d = Inr (Continue d1)
    \<and> run_tokens (concat (map (\<lambda>(k, j). TString k # tokens_of j) kjs)) d1 = Some d2
    \<and> (\<exists>d3. decode_token (TDelim (CHR ''}'')) d2 = Inr (Check d3) \<and> d_valStack d3 = SObj (length (d_objs d)) # d_valStack d
         \<and> grown d d3 \<and> fresh d d3 (SObj (length (d_objs d))) \<and> deref d3 (SObj (length (d_objs d))) = value_of (JObj kjs))"
proof -
  let ?p = "length (d_objs d)" and ?f = "\<lambda>(k, v). map_put k v" and ?m = "map (\<lambda>(k, j). (k, value_of j)) kjs"
  let ?d1 = "pushVal (SObj ?p) (d\<lparr>d_objs := d_objs d @ [[]], d_objStack := ?p # d_objStack d\<rparr>)"
  have o: "decode_token (TDelim (CHR ''{'')) d = Inr (Continue ?d1)" by (simp add: decode_token_def Let_def)
  have f1: "d_valStack ?d1 = SObj ?p # d_valStack d" "d_arrStack ?d1 = d_arrStack d" "d_objStack ?d1 = ?p # d_objStack d"
    "d_arrs ?d1 = d_arrs d" "d_objs ?d1 = d_objs d @ [[]]" by (simp_all add: pushVal_def)
  obtain d2 kvs where d2: "run_tokens (concat (map (\<lambda>(k, j). TString k # tokens_of j) kjs)) ?d1 = Some d2"
    "d_valStack d2 = concat (map (\<lambda>(k, s). [s, SVal (VString k)]) (rev kvs)) @ d_valStack ?d1"
    "grown ?d1 d2" "\<forall>kv \<in> set kvs. fresh ?d1 d2 (snd kv)" "map (\<lambda>(k, s). (k, deref d2 s)) kvs = ?m"
    using decodes_members [OF assms, of ?d1] f1(1) by auto
  obtain as os where g: "d_arrStack d2 = d_arrStack d" "d_objStack d2 = ?p # d_objStack d" "d_arrs d2 = d_arrs d @ as" "d_objs d2 = (d_objs d @ [[]]) @ os"
    using d2(3) unfolding grown_def f1 by blast
  let ?d2 = "d2\<lparr>d_objStack := d_objStack d\<rparr>"
  have same: "deref ?d2 s = deref d2 s" for s by (simp add: deref_def cong: sval.case_cong)
  have fold: "fold (\<lambda>(k, s). map_put k (deref ?d2 s)) (rev kvs) [] = foldr ?f ?m []"
    unfolding d2(5) [symmetric] by (simp add: same foldr_conv_fold rev_map fold_map o_def case_prod_unfold)
  have "\<forall>kv \<in> set (rev kvs). snd kv \<noteq> SObj ?p" using d2(4) by (auto simp: fresh_def f1)
  from accumulateObj_stack [of ?d2 "rev kvs" ?p "d_valStack d", OF _ this] d2(2) f1(1) g(4)
  have acc: "accumulateObj ?p ?d2 = Inr (?d2\<lparr>d_valStack := SObj ?p # d_valStack d, d_objs := (d_objs d2)[?p := foldr ?f ?m []]\<rparr>)"
    by (simp add: fold nth_append)
  let ?d3 = "?d2\<lparr>d_valStack := SObj ?p # d_valStack d, d_objs := (d_objs d2)[?p := foldr ?f ?m []]\<rparr>"
  have c: "decode_token (TDelim (CHR ''}'')) d2 = Inr (Check ?d3)"
    by (simp add: decode_token_def popObjPtr_def g(2) acc)
  have upd: "(d_objs d2)[?p := x] = d_objs d @ x # os" for x by (simp add: g(4))
  have "grown d ?d3" "fresh d ?d3 (SObj ?p)" "deref ?d3 (SObj ?p) = value_of (JObj kjs)"
    using g(1,3) by (simp_all add: grown_def fresh_def deref_def upd nth_append)
  then show ?thesis using o d2(1) c by (intro exI [of _ ?d1] exI [of _ d2]) auto
qed

lemma decodes_json: "decodes (tokens_of j) (value_of j)"
proof (induction j rule: json.induct)
  case (JArr js)
  show ?case unfolding decodes_def
  proof (intro allI impI)
    fix d :: decoder assume ne: "d_valStack d \<noteq> []"
    obtain d1 d2 d3 where a: "decode_token (TDelim (CHR ''['')) d = Inr (Continue d1)" "run_tokens (concat (map tokens_of js)) d1 = Some d2"
      "decode_token (TDelim (CHR '']'')) d2 = Inr (Check d3)" "d_valStack d3 = SArr (length (d_arrs d)) # d_valStack d" "grown d d3"
      "fresh d d3 (SArr (length (d_arrs d)))" "deref d3 (SArr (length (d_arrs d))) = value_of (JArr js)"
      using decodes_array [of js d] JArr by blast
    have "run_tokens (tokens_of (JArr js)) d = Some d3" using a(1-4) ne by (simp add: run_tokens_append)
    then show "\<exists>d' s. run_tokens (tokens_of (JArr js)) d = Some d' \<and> d_valStack d' = s # d_valStack d \<and> grown d d' \<and> fresh d d' s \<and> deref d' s = value_of (JArr js)"
      using a(4-7) by blast
  qed
next
  case (JObj kjs)
  have "\<forall>kj \<in> set kjs. decodes (tokens_of (snd kj)) (value_of (snd kj))" using JObj by (metis snds.simps)
  note obj = decodes_object [OF this]
  show ?case unfolding decodes_def
  proof (intro allI impI)
    fix d :: decoder assume ne: "d_valStack d \<noteq> []"
    obtain d1 d2 d3 where a: "decode_token (TDelim (CHR ''{'')) d = Inr (Continue d1)"
      "run_tokens (concat (map (\<lambda>(k, j). TString k # tokens_of j) kjs)) d1 = Some d2"
      "decode_token (TDelim (CHR ''}'')) d2 = Inr (Check d3)" "d_valStack d3 = SObj (length (d_objs d)) # d_valStack d" "grown d d3"
      "fresh d d3 (SObj (length (d_objs d)))" "deref d3 (SObj (length (d_objs d))) = value_of (JObj kjs)"
      using obj [of d] by blast
    have "run_tokens (tokens_of (JObj kjs)) d = Some d3" using a(1-4) ne by (simp add: run_tokens_append)
    then show "\<exists>d' s. run_tokens (tokens_of (JObj kjs)) d = Some d' \<and> d_valStack d' = s # d_valStack d \<and> grown d d' \<and> fresh d d' s \<and> deref d' s = value_of (JObj kjs)"
      using a(4-7) by blast
  qed
qed (auto simp: decodes_def decode_token_def pushVal_def fresh_def deref_def)

lemma Decode_document: "Decode (tokens_of j @ rest) end new_decoder = Inr (value_of j, rest)"
proof (cases j)
  case (JArr js)
  have "\<forall>j \<in> set js. decodes (tokens_of j) (value_of j)" using decodes_json by blast
  then obtain d1 d2 d3 where a: "decode_token (TDelim (CHR ''['')) new_decoder = Inr (Continue d1)" "run_tokens (concat (map tokens_of js)) d1 = Some d2"
      "decode_token (TDelim (CHR '']'')) d2 = Inr (Check d3)" "d_valStack d3 = SArr (length (d_arrs new_decoder)) # d_valStack new_decoder"
      "deref d3 (SArr (length (d_arrs new_decoder))) = value_of (JArr js)"
    using decodes_array [of js new_decoder] by blast
  have "Decode (tokens_of j @ rest) end new_decoder = Decode (concat (map tokens_of js) @ TDelim (CHR '']'') # rest) end d1"
    using a(1) by (simp add: JArr)
  also have "\<dots> = Decode (TDelim (CHR '']'') # rest) end d2" by (rule Decode_run [OF a(2)])
  finally show ?thesis using a(3-5) by (simp add: JArr new_decoder_def popValActual_def)
next
  case (JObj kjs)
  have "\<forall>kj \<in> set kjs. decodes (tokens_of (snd kj)) (value_of (snd kj))" using decodes_json by blast
  then obtain d1 d2 d3 where a: "decode_token (TDelim (CHR ''{'')) new_decoder = Inr (Continue d1)"
      "run_tokens (concat (map (\<lambda>(k, j). TString k # tokens_of j) kjs)) d1 = Some d2"
      "decode_token (TDelim (CHR ''}'')) d2 = Inr (Check d3)" "d_valStack d3 = SObj (length (d_objs new_decoder)) # d_valStack new_decoder"
      "deref d3 (SObj (length (d_objs new_decoder))) = value_of (JObj kjs)"
    using decodes_object [of kjs new_decoder] by blast
  have "Decode (tokens_of j @ rest) end new_decoder
      = Decode (concat (map (\<lambda>(k, j). TString k # tokens_of j) kjs) @ TDelim (CHR ''}'') # rest) end d1"
    using a(1) by (simp add: JObj)
  also have "\<dots> = Decode (TDelim (CHR ''}'') # rest) end d2" by (rule Decode_run [OF a(2)])
  finally show ?thesis using a(3-5) by (simp add: JObj new_decoder_def popValActual_def)
qed (simp_all add: decode_token_def pushVal_def new_decoder_def popValActual_def deref_def)

lemma Unmarshal_document: "Unmarshal (tokens_of j, TokEOF) = Inr (value_of j)"
  by (simp add: Unmarshal_def Decode_document [of j "[]", simplified] More_def)

section \<open>Comparison of canonical values\<close>

text \<open>Values as the code builds them: no key of a map is repeated.\<close>

fun wf_value :: "Value \<Rightarrow> bool" where
  "wf_value (VArr xs) \<longleftrightarrow> (\<forall>x \<in> set xs. wf_value x)"
| "wf_value (VMap m) \<longleftrightarrow> distinct (map fst m) \<and> (\<forall>e \<in> set m. wf_value (snd e))"
| "wf_value _ \<longleftrightarrow> True"

lemma map_put_keys: "fst ` set (map_put k v m) = insert k (fst ` set m)"
  by (induction k v m rule: map_put.induct) auto

lemma map_put_distinct: "distinct (map fst m) \<Longrightarrow> distinct (map fst (map_put k v m))"
  by (induction k v m rule: map_put.induct) (auto simp: map_put_keys)

lemma map_of_map_put: "map_of (map_put k v m) = (map_of m)(k \<mapsto> v)"
  by (induction k v m rule: map_put.induct) auto

lemma map_put_values: "e \<in> set (map_put k v m) \<Longrightarrow> e = (k, v) \<or> e \<in> set m"
  by (induction k v m rule: map_put.induct) (auto split: if_splits)

lemma wf_value_of: "wf_value (value_of j)"
proof (induction j rule: json.induct)
  case (JObj kjs)
  have wf: "\<forall>kj \<in> set kjs. wf_value (value_of (snd kj))" using JObj by (metis snds.simps)
  have "distinct (map fst (foldr (\<lambda>(k, v). map_put k v) m []))" for m
    by (induction m) (auto simp: map_put_distinct)
  moreover have "wf_value (snd e)" if "\<forall>e \<in> set m. wf_value (snd e)" "e \<in> set (foldr (\<lambda>(k, v). map_put k v) m [])" for e m
    using that by (induction m) (auto dest!: map_put_values)
  moreover have "\<forall>e \<in> set (map (\<lambda>(k, j). (k, value_of j)) kjs). wf_value (snd e)" using wf by auto
  ultimately show ?case by (simp only: value_of.simps wf_value.simps) blast
qed auto

lemma equal_elts_all: "length xs = length ys \<Longrightarrow> equal_elts xs ys \<longleftrightarrow> list_all2 equal_value xs ys"
  by (induction xs ys rule: list_induct2) auto

lemma equal_entries_all:
  "equal_entries m n \<longleftrightarrow> (\<forall>e \<in> set m. \<exists>y. map_of n (fst e) = Some y \<and> equal_value (snd e) y)"
  by (induction m) (auto split: option.splits)

lemma equal_value_refl: "wf_value a \<Longrightarrow> equal_value a a"
proof (induction a rule: Value.induct)
  case (VArr xs)
  then show ?case by (simp add: equal_elts_all list_all2_conv_all_nth)
next
  case (VMap m)
  have "equal_value (snd e) (snd e)" if "e \<in> set m" for e using VMap that by (metis snds.simps wf_value.simps(2))
  then show ?case using VMap.prems by (auto simp: equal_entries_all)
qed auto

lemma equal_entriesD:
  assumes "distinct (map fst m)" "distinct (map fst n)" "length m = length n" "equal_entries m n"
  shows "fst ` set m = fst ` set n"
proof (rule card_subset_eq)
  show "fst ` set m \<subseteq> fst ` set n"
  proof
    fix k assume "k \<in> fst ` set m"
    then obtain y where "map_of n k = Some y" using assms(4) by (auto simp: equal_entries_all)
    then show "k \<in> fst ` set n" by (force dest: map_of_SomeD)
  qed
  show "card (fst ` set m) = card (fst ` set n)" using assms(1-3) by (metis distinct_card length_map set_map)
qed simp

lemma equal_value_sym: "\<lbrakk>wf_value a; wf_value b; equal_value a b\<rbrakk> \<Longrightarrow> equal_value b a"
proof (induction a arbitrary: b rule: Value.induct)
  case (VArr xs)
  then obtain ys where "b = VArr ys" by (cases b) auto
  then show ?case using VArr by (auto simp: equal_elts_all list_all2_conv_all_nth)
next
  case (VMap m)
  then obtain n where b: "b = VMap n" by (cases b) auto
  have d: "distinct (map fst m)" "distinct (map fst n)" "length m = length n" "equal_entries m n" using VMap.prems by (simp_all add: b)
  have "\<exists>y. map_of m (fst e) = Some y \<and> equal_value (snd e) y" if e: "e \<in> set n" for e
  proof -
    obtain x where x: "(fst e, x) \<in> set m" using equal_entriesD [OF d] e by (metis (no_types, lifting) imageE image_eqI prod.collapse)
    obtain y where y: "map_of n (fst e) = Some y" "equal_value x y" using d(4) x by (auto simp: equal_entries_all)
    have "y = snd e" using y(1) e d(2) by (metis map_of_is_SomeI option.inject prod.collapse)
    moreover have "wf_value x" "wf_value (snd e)" using VMap.prems(1,2) x e by (auto simp: b)
    ultimately have "equal_value (snd e) x" using VMap.IH [OF x, of x "snd e"] y(2) by simp
    then show ?thesis using x d(1) by auto
  qed
  then show ?case using d(3) by (simp add: b equal_entries_all)
qed (auto split: Value.splits)

lemma equal_value_trans: "\<lbrakk>wf_value a; wf_value b; equal_value a b; equal_value b c\<rbrakk> \<Longrightarrow> equal_value a c"
proof (induction a arbitrary: b c rule: Value.induct)
  case (VArr xs)
  then obtain ys where b: "b = VArr ys" by (cases b) auto
  then obtain zs where c: "c = VArr zs" using VArr.prems(4) by (cases c) auto
  have l: "length xs = length ys" "length ys = length zs" using VArr.prems(3,4) by (simp_all add: b c)
  have "equal_value (xs ! i) (zs ! i)" if i: "i < length xs" for i
    by (rule VArr.IH [of "xs ! i" "ys ! i"])
       (use VArr.prems i l in \<open>auto simp: b c equal_elts_all list_all2_conv_all_nth\<close>)
  then show ?case using l by (simp add: c equal_elts_all list_all2_conv_all_nth)
next
  case (VMap m)
  then obtain n where b: "b = VMap n" by (cases b) auto
  then obtain k where c: "c = VMap k" using VMap.prems(4) by (cases c) auto
  have e: "length m = length n" "length n = length k" "equal_entries m n" "equal_entries n k" using VMap.prems(3,4) by (simp_all add: b c)
  have "\<exists>z. map_of k (fst p) = Some z \<and> equal_value (snd p) z" if p: "p \<in> set m" for p
  proof -
    obtain y where y: "map_of n (fst p) = Some y" "equal_value (snd p) y" using e(3) p by (auto simp: equal_entries_all)
    then have m: "(fst p, y) \<in> set n" by (simp add: map_of_SomeD)
    then obtain z where z: "map_of k (fst p) = Some z" "equal_value y z" using e(4) by (force simp: equal_entries_all)
    have "wf_value (snd p)" "wf_value y" using VMap.prems(1,2) p m by (auto simp: b)
    then have "equal_value (snd p) z" using VMap.IH [OF p, of "snd p" y z] y(2) z(2) by (simp add: snds.simps)
    then show ?thesis using z(1) by blast
  qed
  then show ?case using e(1,2) by (simp add: c equal_entries_all)
qed (auto split: Value.splits)

section \<open>Properties\<close>

text \<open>
  C32: the stack machine with its two accumulator stacks computes the recursive reference: on the token stream of any JSON
  document, however deeply nested, it returns the value of the document (numbers as strings, the first of
  repeated keys), consumes exactly the tokens of the document, and no stack access or type
  assertion panics. \<open>Unmarshal\<close> accepts one document and refuses two.
\<close>

theorem Decode_computes_reference:
  "Decode (tokens_of j @ rest) end new_decoder = Inr (value_of j, rest)
   \<and> Unmarshal (tokens_of j, TokEOF) = Inr (value_of j)
   \<and> Unmarshal (tokens_of j @ tokens_of k, end) = Inl InvalidInput"
proof -
  have "More (tokens_of k) end" by (cases k) (auto simp: More_def closes_def)
  then show ?thesis by (simp add: Unmarshal_document) (simp add: Unmarshal_def Decode_document)
qed

text \<open>Input with a stray closing bracket after the document is accepted.\<close>

lemma Unmarshal_accepts_trailing_bracket:
  "Unmarshal ([TNumber ''1''], TokErr (CHR '']'') ''invalid character'') = Inr (VString ''1'')"
  by code_simp

text \<open>Of repeated keys the first one is kept, where \<open>json.Unmarshal\<close> keeps the last one.\<close>

lemma Unmarshal_first_key_wins:
  "Unmarshal (tokens_of (JObj [(''a'', JNum ''1''), (''a'', JNum ''2'')]), TokEOF :: string tok_end) = Inr (VMap [(''a'', VString ''1'')])"
  by code_simp

end
