(* ===== verification/Merge.thy ===== *)
theory Merge
  imports Crep Ident
begin

text \<open>
  Three-way merges, \<open>src/internal/util/merge\<close>: property bags with renaming over the columns of a table, their
  validation, and the standard merge of a proposed row into a conflicting one.
\<close>

section \<open>Columns and bags\<close>

text \<open>\<open>types.ColData\<close>.\<close>

record ColData =
  cd_DefaultExpr :: string
  cd_Ignored :: bool
  cd_Name :: Ident
  cd_Parse :: "(go_any \<Rightarrow> (string, go_any) result) option"
  cd_Primary :: bool
  cd_Type :: string

record Entry =
  en_Column :: ColData
  en_Valid :: bool
  en_Value :: go_any

record BagSpec =
  bs_Columns :: "ColData list"
  bs_Rename :: "(Ident, Ident) imap option"

record Bag =
  bg_spec :: BagSpec
  bg_Mapped :: "(Ident, Entry) imap"
  bg_Meta :: "(string \<times> go_any) list"
  bg_Unmapped :: "(Ident, go_any) imap"

abbreviation iget :: "(Ident, 'v) imap \<Rightarrow> Ident \<Rightarrow> 'v option" where
  "iget \<equiv> imap_Get Ident_Canonical"

abbreviation iput :: "Ident \<Rightarrow> 'v \<Rightarrow> (Ident, 'v) imap \<Rightarrow> (Ident, 'v) imap" where
  "iput \<equiv> imap_Put Ident_Canonical"

definition NewBag :: "BagSpec \<Rightarrow> Bag" where
  "NewBag spec =
     \<lparr>bg_spec = spec,
      bg_Mapped = fold (\<lambda>col. iput (cd_Name col) \<lparr>en_Column = col, en_Valid = False, en_Value = GNil\<rparr>) (bs_Columns spec) [],
      bg_Meta = [], bg_Unmapped = []\<rparr>"

definition NewBagFrom :: "Bag \<Rightarrow> Bag" where
  "NewBagFrom b = NewBag (bg_spec b)"

definition renamed_key :: "BagSpec \<Rightarrow> Ident \<Rightarrow> Ident" where
  "renamed_key spec key =
     (case bs_Rename spec of
        None \<Rightarrow> key
      | Some rename \<Rightarrow> (case iget rename key of Some found \<Rightarrow> found | None \<Rightarrow> key))"

definition renamed :: "Bag \<Rightarrow> Ident \<Rightarrow> Ident" where
  "renamed b = renamed_key (bg_spec b)"

text \<open>
  The entries are pointers into the map: assigning their fields changes the value under the key and leaves the key
  itself as it was put.
\<close>

fun assign :: "Ident \<Rightarrow> ('v \<Rightarrow> 'v) \<Rightarrow> (Ident, 'v) imap \<Rightarrow> (Ident, 'v) imap" where
  "assign key f [] = []"
| "assign key f ((k, v) # m) =
     (if Ident_Canonical k = Ident_Canonical key then (k, f v) # m else (k, v) # assign key f m)"

definition Bag_Put :: "Ident \<Rightarrow> go_any \<Rightarrow> Bag \<Rightarrow> Bag" where
  "Bag_Put k v b =
     (let key = renamed b k
      in case iget (bg_Mapped b) key of
           Some _ \<Rightarrow> b\<lparr>bg_Mapped := assign key (\<lambda>e. e\<lparr>en_Valid := True, en_Value := v\<rparr>) (bg_Mapped b)\<rparr>
         | None \<Rightarrow> b\<lparr>bg_Unmapped := iput key v (bg_Unmapped b)\<rparr>)"

text \<open>\<open>NewBagOf\<close> with its alternating arguments as pairs.\<close>

definition NewBagOf :: "ColData list \<Rightarrow> (Ident, Ident) imap option \<Rightarrow> (Ident \<times> go_any) list \<Rightarrow> Bag" where
  "NewBagOf colData rename args =
     fold (\<lambda>(k, v). Bag_Put k v) (fold (\<lambda>(k, v). iput k v) args []) (NewBag \<lparr>bs_Columns = colData, bs_Rename = rename\<rparr>)"

definition Bag_Delete :: "Ident \<Rightarrow> Bag \<Rightarrow> Bag" where
  "Bag_Delete k b =
     (let key = renamed b k
      in case iget (bg_Mapped b) key of
           Some _ \<Rightarrow> b\<lparr>bg_Mapped := assign key (\<lambda>e. e\<lparr>en_Valid := False, en_Value := GNil\<rparr>) (bg_Mapped b)\<rparr>
         | None \<Rightarrow> b\<lparr>bg_Unmapped := imap_Delete Ident_Canonical key (bg_Unmapped b)\<rparr>)"

definition Bag_Get :: "Bag \<Rightarrow> Ident \<Rightarrow> go_any option" where
  "Bag_Get b k =
     (let key = renamed b k
      in case iget (bg_Mapped b) key of
           Some entry \<Rightarrow> if en_Valid entry then Some (en_Value entry) else None
         | None \<Rightarrow> iget (bg_Unmapped b) key)"

definition Bag_GetZero :: "Bag \<Rightarrow> Ident \<Rightarrow> go_any" where
  "Bag_GetZero b k = (case Bag_Get b k of Some v \<Rightarrow> v | None \<Rightarrow> GNil)"

definition Bag_Match :: "Bag \<Rightarrow> Ident \<Rightarrow> (Ident \<times> go_any) option" where
  "Bag_Match b k =
     (let key = renamed b k
      in case imap_Match Ident_Canonical (bg_Mapped b) key of
           Some (j, entry) \<Rightarrow> if en_Valid entry then Some (j, en_Value entry) else None
         | None \<Rightarrow> imap_Match Ident_Canonical (bg_Unmapped b) key)"

definition Bag_Entries :: "Bag \<Rightarrow> (Ident \<times> go_any) list" where
  "Bag_Entries b =
     map (\<lambda>(k, e). (k, en_Value e)) (filter (\<lambda>(k, e). en_Valid e) (bg_Mapped b)) @ bg_Unmapped b"

definition Bag_Len :: "Bag \<Rightarrow> nat" where
  "Bag_Len b = length (filter (\<lambda>(k, e). en_Valid e) (bg_Mapped b)) + imap_Len (bg_Unmapped b)"

definition Bag_Range :: "(Ident \<Rightarrow> go_any \<Rightarrow> 's \<Rightarrow> ('e, 's) result) \<Rightarrow> Bag \<Rightarrow> 's \<Rightarrow> ('e, 's) result" where
  "Bag_Range fn b st =
     (case imap_Range (\<lambda>k e st. if en_Valid e then fn k (en_Value e) st else Inr st) (bg_Mapped b) st of
        Inl err \<Rightarrow> Inl err
      | Inr st' \<Rightarrow> imap_Range fn (bg_Unmapped b) st')"

text \<open>\<open>CopyInto\<close> another bag, and into an identifier map.\<close>

definition Bag_CopyInto :: "(Ident \<Rightarrow> go_any \<Rightarrow> 'm \<Rightarrow> 'm) \<Rightarrow> Bag \<Rightarrow> 'm \<Rightarrow> 'm" where
  "Bag_CopyInto put b dest =
     fold (\<lambda>(k, v). put k v) (bg_Unmapped b)
       (fold (\<lambda>(k, e) dest. if en_Valid e then put k (en_Value e) dest else dest) (bg_Mapped b) dest)"

text \<open>\<open>UnmarshalJSON\<close> decodes into an identifier map first, which is then copied into the bag.\<close>

definition Bag_UnmarshalJSON :: "('j \<Rightarrow> ('e, (Ident, go_any) imap) result) \<Rightarrow> 'j \<Rightarrow> Bag \<Rightarrow> 'e option \<times> Bag" where
  "Bag_UnmarshalJSON decode data b =
     (case decode data of
        Inl e \<Rightarrow> (Some e, b)
      | Inr temp \<Rightarrow> (None, fold (\<lambda>(k, v). Bag_Put k v) temp b))"

definition Bag_MarshalJSON :: "((Ident, go_any) imap \<Rightarrow> 'r) \<Rightarrow> Bag \<Rightarrow> 'r" where
  "Bag_MarshalJSON encode b = encode (Bag_CopyInto iput b [])"

section \<open>Validation\<close>

datatype bag_error = UnexpectedColumns string | MissingPK string

fun comma_join :: "string list \<Rightarrow> string" where
  "comma_join [] = []"
| "comma_join [x] = x"
| "comma_join (x # y # ys) = x @ '', '' @ comma_join (y # ys)"

definition ValidateNoUnmappedColumns :: "Bag \<Rightarrow> bag_error option" where
  "ValidateNoUnmappedColumns bag =
     (if imap_Len (bg_Unmapped bag) = 0 then None
      else Some (UnexpectedColumns (comma_join (map (Ident_Raw \<circ> fst) (bg_Unmapped bag)))))"

text \<open>The loop ends at the first column that is not part of the primary key.\<close>

definition missingPKs :: "Bag \<Rightarrow> (Ident, unit) imap" where
  "missingPKs bag =
     fold (\<lambda>col m. if case iget (bg_Mapped bag) (cd_Name col) of Some e \<Rightarrow> en_Valid e | None \<Rightarrow> False
                   then m else iput (cd_Name col) () m)
       (takeWhile cd_Primary (bs_Columns (bg_spec bag))) []"

definition ValidatePK :: "Bag \<Rightarrow> bag_error option" where
  "ValidatePK bag =
     (if imap_Len (missingPKs bag) = 0 then None
      else Some (MissingPK (comma_join (map (Ident_Raw \<circ> fst) (missingPKs bag)))))"

section \<open>The standard merge\<close>

record Conflict =
  cf_Before :: "Bag option"
  cf_Proposed :: "Bag option"
  cf_Target :: "Bag option"
  cf_Unmerged :: "Ident list"

record Resolution =
  rs_Apply :: "Bag option"
  rs_DLQ :: string
  rs_Drop :: bool

datatype merge_error = NoProposedData | CompareErr "string crep_error" | UnmergedConflict Conflict | FallbackErr string

type_synonym Merger = "Conflict \<Rightarrow> (merge_error, Resolution option) result"

definition DLQ :: "string \<Rightarrow> Merger" where
  "DLQ name con = Inr (Some \<lparr>rs_Apply = None, rs_DLQ = name, rs_Drop = False\<rparr>)"

text \<open>A property that is not set is replaced by a sentinel with an encoding of its own.\<close>

definition undefined_json :: string where
  "undefined_json = [CHR ''{'', dquote] @ ''__undefined__'' @ [dquote] @ '':true}''"

definition prop_Canonical :: "go_std \<Rightarrow> go_any option \<Rightarrow> (string crep_error, Value) result" where
  "prop_Canonical std p = (case p of None \<Rightarrow> Unmarshal (std_tokens std undefined_json) | Some v \<Rightarrow> Canonical std v)"

definition prop_Equal :: "go_std \<Rightarrow> go_any option \<Rightarrow> go_any option \<Rightarrow> (merge_error, bool) result" where
  "prop_Equal std a b =
     (case prop_Canonical std a of
        Inl e \<Rightarrow> Inl (CompareErr e)
      | Inr x \<Rightarrow> (case prop_Canonical std b of Inl e \<Rightarrow> Inl (CompareErr e) | Inr y \<Rightarrow> Inr (equal_value x y)))"

definition allProperties :: "Bag \<Rightarrow> Bag \<Rightarrow> Bag \<Rightarrow> (Ident, unit) imap" where
  "allProperties proposed before target =
     fold (\<lambda>(k, v). iput k ()) (bg_Unmapped proposed @ bg_Unmapped before @ bg_Unmapped target)
       (fold (\<lambda>col ret. if cd_Primary col \<or> cd_Ignored col then ret else iput (cd_Name col) () ret)
         (bs_Columns (bg_spec proposed)) [])"

text \<open>The callback for one property; the state is the target bag and the list of unmerged properties.\<close>

definition merge_prop :: "go_std \<Rightarrow> Bag \<Rightarrow> Bag \<Rightarrow> Ident \<Rightarrow> unit \<Rightarrow> Bag \<times> Ident list \<Rightarrow> (merge_error, Bag \<times> Ident list) result" where
  "merge_prop std before proposed prop u st =
     (case st of (target, unmerged) \<Rightarrow>
        let b = Bag_Get before prop; t = Bag_Get target prop; p = Bag_Get proposed prop
        in case prop_Equal std b p of
             Inl e \<Rightarrow> Inl e
           | Inr isUnchanged \<Rightarrow>
               if isUnchanged then Inr st
               else case prop_Equal std t p of
                 Inl e \<Rightarrow> Inl e
               | Inr isIdempotent \<Rightarrow>
                   if isIdempotent then Inr st
                   else case (if t = None then Inr True else prop_Equal std b t) of
                     Inl e \<Rightarrow> Inl e
                   | Inr isSafe \<Rightarrow>
                       if \<not> isSafe then Inr (target, unmerged @ [prop])
                       else (case p of
                               Some v \<Rightarrow> Inr (Bag_Put prop v target, unmerged)
                             | None \<Rightarrow> Inr (Bag_Delete prop target, unmerged)))"

definition merge :: "go_std \<Rightarrow> Conflict \<Rightarrow> (merge_error, Conflict) result" where
  "merge std con =
     (case cf_Target con of
        None \<Rightarrow> Inr (con\<lparr>cf_Target := cf_Proposed con\<rparr>)
      | Some target \<Rightarrow>
          if Bag_Len target = 0 then Inr (con\<lparr>cf_Target := cf_Proposed con\<rparr>)
          else case cf_Proposed con of
            None \<Rightarrow> Inl NoProposedData
          | Some proposed \<Rightarrow>
              let before = (case cf_Before con of Some b \<Rightarrow> b | None \<Rightarrow> NewBagFrom proposed)
              in case imap_Range (merge_prop std before proposed) (allProperties proposed before target) (target, cf_Unmerged con) of
                   Inl e \<Rightarrow> Inl e
                 | Inr (target', unmerged') \<Rightarrow>
                     Inr (con\<lparr>cf_Before := Some before, cf_Target := Some target', cf_Unmerged := unmerged'\<rparr>))"

definition Standard_Merge :: "go_std \<Rightarrow> Merger option \<Rightarrow> Merger" where
  "Standard_Merge std fallback con =
     (case merge std con of
        Inl e \<Rightarrow> Inl e
      | Inr con' \<Rightarrow>
          if cf_Unmerged con' = [] then Inr (Some \<lparr>rs_Apply = cf_Target con', rs_DLQ = [], rs_Drop = False\<rparr>)
          else let con'' = con'\<lparr>cf_Unmerged := SortSlice (\<lambda>i j. ident_Compare (IdAtom i) (IdAtom j) < 0) (cf_Unmerged con')\<rparr>
               in case fallback of
                    Some merger \<Rightarrow> merger con''
                  | None \<Rightarrow> Inl (UnmergedConflict con''))"

section \<open>Bags are well formed, and are canonicalizing maps\<close>

definition ikeys :: "(Ident, 'v) imap \<Rightarrow> Ident set" where
  "ikeys m = set (map (Ident_Canonical \<circ> fst) m)"

lemma ikeys_simps [simp]: "ikeys [] = {}" "ikeys ((k, v) # m) = insert (Ident_Canonical k) (ikeys m)"
  by (simp_all add: ikeys_def)

text \<open>
  The invariant of a bag: one entry per column under the name of the column, no value in an entry that is not
  valid, and no unmapped property under the name of a column.
\<close>

definition entry_ok :: "Ident \<times> Entry \<Rightarrow> bool" where
  "entry_ok ke \<longleftrightarrow> Ident_Canonical (cd_Name (en_Column (snd ke))) = Ident_Canonical (fst ke)
     \<and> (\<not> en_Valid (snd ke) \<longrightarrow> en_Value (snd ke) = GNil)"

definition bag_ok :: "Bag \<Rightarrow> bool" where
  "bag_ok b \<longleftrightarrow>
     imap_invar Ident_Canonical (bg_Mapped b) \<and> imap_invar Ident_Canonical (bg_Unmapped b)
     \<and> ikeys (bg_Mapped b) = (\<lambda>col. Ident_Canonical (cd_Name col)) ` set (bs_Columns (bg_spec b))
     \<and> list_all entry_ok (bg_Mapped b)
     \<and> ikeys (bg_Mapped b) \<inter> ikeys (bg_Unmapped b) = {}"

lemma iget_None_iff: "iget m k = None \<longleftrightarrow> Ident_Canonical k \<notin> ikeys m"
  by (induction m) (auto split: if_splits)

lemma iget_cong: "Ident_Canonical j = Ident_Canonical k \<Longrightarrow> iget m j = iget m k"
  by (induction m) auto

lemma ikeys_iput: "ikeys (iput k v m) = insert (Ident_Canonical k) (ikeys m)"
  unfolding ikeys_def by (rule imap_keys_Put)

lemma ikeys_Delete: "ikeys (imap_Delete Ident_Canonical k m) \<subseteq> ikeys m"
  by (auto simp: imap_Delete_def ikeys_def)

lemma map_fst_assign [simp]: "map fst (assign key f m) = map fst m"
  by (induction key f m rule: assign.induct) auto

lemma ikeys_assign [simp]: "ikeys (assign key f m) = ikeys m"
  unfolding ikeys_def by (metis list.map_comp map_fst_assign)

lemma imap_invar_assign [simp]: "imap_invar Ident_Canonical (assign key f m) = imap_invar Ident_Canonical m"
  unfolding imap_invar_def by (metis list.map_comp map_fst_assign)

lemma iget_assign:
  "iget (assign key f m) k = (if Ident_Canonical k = Ident_Canonical key then map_option f (iget m k) else iget m k)"
  by (induction key f m rule: assign.induct) auto

lemma list_all_assign:
  assumes "\<And>k v. P (k, v) \<Longrightarrow> P (k, f v)" "list_all P m"
  shows "list_all P (assign key f m)"
  using assms(2) by (induction m) (use assms(1) in auto)

lemma bag_spec_ops [simp]:
  "bg_spec (Bag_Put k v b) = bg_spec b" "bg_spec (Bag_Delete k b) = bg_spec b" "bg_spec (NewBag spec) = spec"
  by (simp_all add: Bag_Put_def Bag_Delete_def NewBag_def Let_def split: option.splits)

lemma bag_ok_Put: "bag_ok b \<Longrightarrow> bag_ok (Bag_Put k v b)"
  by (auto simp: bag_ok_def Bag_Put_def Let_def entry_ok_def ikeys_iput imap_invar_Put iget_None_iff
      split: option.splits intro!: list_all_assign)

lemma bag_ok_Delete: "bag_ok b \<Longrightarrow> bag_ok (Bag_Delete k b)"
  using ikeys_Delete [of "renamed b k" "bg_Unmapped b"]
  by (auto simp: bag_ok_def Bag_Delete_def Let_def entry_ok_def imap_invar_Delete
      split: option.splits intro!: list_all_assign)

text \<open>The loop of \<open>NewBag\<close> over the columns.\<close>

abbreviation seed :: "ColData \<Rightarrow> (Ident, Entry) imap \<Rightarrow> (Ident, Entry) imap" where
  "seed col \<equiv> iput (cd_Name col) \<lparr>en_Column = col, en_Valid = False, en_Value = GNil\<rparr>"

lemma set_iput: "set (iput k v m) \<subseteq> insert (k, v) (set m)"
  by (induction m) (auto split: if_splits)

lemma list_all_iput: "\<lbrakk>P (k, v); list_all P m\<rbrakk> \<Longrightarrow> list_all P (iput k v m)"
  using set_iput [of k v m] by (auto simp: list_all_iff)

lemma seed_keys: "ikeys (fold seed cols m) = ikeys m \<union> (\<lambda>col. Ident_Canonical (cd_Name col)) ` set cols"
  by (induction cols arbitrary: m) (simp_all add: ikeys_iput)

lemma seed_invar: "imap_invar Ident_Canonical m \<Longrightarrow> imap_invar Ident_Canonical (fold seed cols m)"
  by (induction cols arbitrary: m) (simp_all add: imap_invar_Put)

lemma seed_all: "list_all (\<lambda>ke. entry_ok ke \<and> \<not> en_Valid (snd ke)) m
    \<Longrightarrow> list_all (\<lambda>ke. entry_ok ke \<and> \<not> en_Valid (snd ke)) (fold seed cols m)"
proof (induction cols arbitrary: m)
  case (Cons col cols)
  have "list_all (\<lambda>ke. entry_ok ke \<and> \<not> en_Valid (snd ke)) (seed col m)"
    by (rule list_all_iput) (use Cons.prems in \<open>simp_all add: entry_ok_def\<close>)
  then show ?case using Cons.IH by simp
qed simp

lemma NewBag_invalid: "iget (bg_Mapped (NewBag spec)) k = Some e \<Longrightarrow> \<not> en_Valid e"
  using imap_Get_SomeD [of Ident_Canonical "bg_Mapped (NewBag spec)" k e] seed_all [of "[]" "bs_Columns spec"]
  by (auto simp: NewBag_def list_all_iff)

lemma bag_ok_NewBag: "bag_ok (NewBag spec)"
  using seed_keys [of "bs_Columns spec" "[]"] seed_all [of "[]" "bs_Columns spec"]
    seed_invar [of "[]" "bs_Columns spec"]
  by (auto simp: bag_ok_def NewBag_def imap_invar_def list_all_iff)

lemma Bag_Get_NewBag: "Bag_Get (NewBag spec) k = None"
proof -
  have "bg_Unmapped (NewBag spec) = []" by (simp add: NewBag_def)
  then show ?thesis by (auto simp: Bag_Get_def Let_def dest: NewBag_invalid split: option.splits)
qed

abbreviation bag_canon :: "BagSpec \<Rightarrow> Ident \<Rightarrow> Ident" where
  "bag_canon spec k \<equiv> Ident_Canonical (renamed_key spec k)"

lemma Bag_Get_Put:
  "Bag_Get (Bag_Put k v b) k' = (if bag_canon (bg_spec b) k = bag_canon (bg_spec b) k' then Some v else Bag_Get b k')"
proof -
  let ?K = "renamed_key (bg_spec b)"
  show ?thesis
    using iget_cong [of "?K k" "?K k'" "bg_Mapped b"]
    by (auto simp: Bag_Get_def Bag_Put_def Let_def renamed_def iget_assign imap_Get_Put split: option.splits)
qed

lemma Bag_Get_Delete:
  "Bag_Get (Bag_Delete k b) k' = (if bag_canon (bg_spec b) k = bag_canon (bg_spec b) k' then None else Bag_Get b k')"
proof -
  let ?K = "renamed_key (bg_spec b)"
  show ?thesis
    using iget_cong [of "?K k" "?K k'" "bg_Mapped b"]
    by (auto simp: Bag_Get_def Bag_Delete_def Let_def renamed_def iget_assign imap_Get_Delete split: option.splits)
qed

interpretation bag: canonical_map "bag_canon spec" "\<lambda>b. bg_spec b = spec \<and> bag_ok b" "NewBag spec" Bag_Get Bag_Put Bag_Delete
  for spec :: BagSpec
  by unfold_locales (auto simp: bag_ok_NewBag bag_ok_Put bag_ok_Delete Bag_Get_NewBag Bag_Get_Put Bag_Get_Delete)

section \<open>What the merge does to each property\<close>

text \<open>Two values that are compared without an error, and found equal.\<close>

definition comparable :: "go_std \<Rightarrow> go_any option \<Rightarrow> bool" where
  "comparable std p \<longleftrightarrow> (case prop_Canonical std p of Inl _ \<Rightarrow> False | Inr _ \<Rightarrow> True)"

definition same_prop :: "go_std \<Rightarrow> go_any option \<Rightarrow> go_any option \<Rightarrow> bool" where
  "same_prop std a b \<longleftrightarrow> (case prop_Equal std a b of Inl _ \<Rightarrow> False | Inr eq \<Rightarrow> eq)"

text \<open>
  The reference for one property with the values \<open>b\<close> before the update, \<open>t\<close> in the target and \<open>p\<close> proposed:
  whether the two sides changed it in different ways, and its value otherwise.
\<close>

definition conflicting :: "go_std \<Rightarrow> go_any option \<Rightarrow> go_any option \<Rightarrow> go_any option \<Rightarrow> bool" where
  "conflicting std b t p \<longleftrightarrow> \<not> same_prop std b p \<and> \<not> same_prop std t p \<and> t \<noteq> None \<and> \<not> same_prop std b t"

definition three_way :: "go_std \<Rightarrow> go_any option \<Rightarrow> go_any option \<Rightarrow> go_any option \<Rightarrow> go_any option" where
  "three_way std b t p =
     (if same_prop std b p \<or> same_prop std t p \<or> conflicting std b t p then t else p)"

lemma prop_Equal_comparable:
  "\<lbrakk>comparable std a; comparable std b\<rbrakk> \<Longrightarrow> prop_Equal std a b = Inr (same_prop std a b)"
  by (auto simp: comparable_def prop_Equal_def same_prop_def split: sum.splits)

lemma Bag_Get_cong: "bag_canon (bg_spec b) j = bag_canon (bg_spec b) k \<Longrightarrow> Bag_Get b j = Bag_Get b k"
  using iget_cong [of "renamed b j" "renamed b k" "bg_Mapped b"] iget_cong [of "renamed b j" "renamed b k" "bg_Unmapped b"]
  by (simp add: Bag_Get_def renamed_def Let_def split: option.splits)

lemma merge_prop_step:
  assumes "comparable std (Bag_Get b k)" "comparable std (Bag_Get t k)" "comparable std (Bag_Get p k)"
    and "bag_ok t" "bg_spec t = spec"
  obtains t' where "merge_prop std b p k u (t, un)
      = Inr (t', un @ (if conflicting std (Bag_Get b k) (Bag_Get t k) (Bag_Get p k) then [k] else []))"
    and "bg_spec t' = spec" "bag_ok t'"
    and "\<And>j. Bag_Get t' j = (if bag_canon spec k = bag_canon spec j
           then three_way std (Bag_Get b k) (Bag_Get t k) (Bag_Get p k) else Bag_Get t j)"
proof -
  note eqs = prop_Equal_comparable [OF assms(1,3)] prop_Equal_comparable [OF assms(2,3)] prop_Equal_comparable [OF assms(1,2)]
  let ?t' = "if same_prop std (Bag_Get b k) (Bag_Get p k) \<or> same_prop std (Bag_Get t k) (Bag_Get p k)
      \<or> conflicting std (Bag_Get b k) (Bag_Get t k) (Bag_Get p k) then t
    else (case Bag_Get p k of Some v \<Rightarrow> Bag_Put k v t | None \<Rightarrow> Bag_Delete k t)"
  have "merge_prop std b p k u (t, un)
      = Inr (?t', un @ (if conflicting std (Bag_Get b k) (Bag_Get t k) (Bag_Get p k) then [k] else []))"
    by (auto simp: merge_prop_def eqs conflicting_def Let_def split: option.splits)
  moreover have "bg_spec ?t' = spec" "bag_ok ?t'"
    using assms(4,5) by (auto simp: bag_ok_Put bag_ok_Delete split: option.splits)
  moreover have "Bag_Get ?t' j = (if bag_canon spec k = bag_canon spec j
       then three_way std (Bag_Get b k) (Bag_Get t k) (Bag_Get p k) else Bag_Get t j)" for j
    using Bag_Get_cong [of t j k] assms(5)
    by (auto simp: three_way_def Bag_Get_Put Bag_Get_Delete split: option.splits)
  ultimately show ?thesis by (rule that)
qed

lemma merge_loop:
  assumes "distinct (map (\<lambda>e. bag_canon spec (fst e)) m)" "bag_ok t" "bg_spec t = spec"
    and "\<forall>k \<in> fst ` set m. comparable std (Bag_Get b k) \<and> comparable std (Bag_Get t k) \<and> comparable std (Bag_Get p k)"
  shows "\<exists>t'. imap_Range (merge_prop std b p) m (t, un)
      = Inr (t', un @ filter (\<lambda>k. conflicting std (Bag_Get b k) (Bag_Get t k) (Bag_Get p k)) (map fst m))
    \<and> bg_spec t' = spec \<and> bag_ok t'
    \<and> (\<forall>k \<in> fst ` set m. Bag_Get t' k = three_way std (Bag_Get b k) (Bag_Get t k) (Bag_Get p k))
    \<and> (\<forall>j. bag_canon spec j \<notin> (\<lambda>e. bag_canon spec (fst e)) ` set m \<longrightarrow> Bag_Get t' j = Bag_Get t j)"
  using assms
proof (induction m arbitrary: t un)
  case (Cons e m)
  obtain k u where e: "e = (k, u)" by (rule prod.exhaust)
  let ?un = "un @ (if conflicting std (Bag_Get b k) (Bag_Get t k) (Bag_Get p k) then [k] else [])"
  obtain t1 where t1: "merge_prop std b p k u (t, un) = Inr (t1, ?un)" "bg_spec t1 = spec" "bag_ok t1"
    "\<And>j. Bag_Get t1 j = (if bag_canon spec k = bag_canon spec j
       then three_way std (Bag_Get b k) (Bag_Get t k) (Bag_Get p k) else Bag_Get t j)"
    using merge_prop_step [of std b k t p spec u un] Cons.prems(2-4) unfolding e by auto
  have fresh: "bag_canon spec k \<notin> (\<lambda>e. bag_canon spec (fst e)) ` set m" using Cons.prems(1) by (simp add: e)
  have rest: "Bag_Get t1 j = Bag_Get t j" if "j \<in> fst ` set m" for j
    using t1(4) [of j] fresh that by (auto simp: image_iff)
  have "\<forall>j \<in> fst ` set m. comparable std (Bag_Get b j) \<and> comparable std (Bag_Get t1 j) \<and> comparable std (Bag_Get p j)"
    using Cons.prems(4) rest by (simp add: e)
  then obtain t' where t': "imap_Range (merge_prop std b p) m (t1, ?un)
      = Inr (t', ?un @ filter (\<lambda>k. conflicting std (Bag_Get b k) (Bag_Get t1 k) (Bag_Get p k)) (map fst m))"
    "bg_spec t' = spec" "bag_ok t'"
    "\<forall>j \<in> fst ` set m. Bag_Get t' j = three_way std (Bag_Get b j) (Bag_Get t1 j) (Bag_Get p j)"
    "\<forall>j. bag_canon spec j \<notin> (\<lambda>e. bag_canon spec (fst e)) ` set m \<longrightarrow> Bag_Get t' j = Bag_Get t1 j"
    using Cons.IH [OF _ t1(3,2), of ?un] Cons.prems(1) by auto
  have "filter (\<lambda>k. conflicting std (Bag_Get b k) (Bag_Get t1 k) (Bag_Get p k)) (map fst m)
      = filter (\<lambda>k. conflicting std (Bag_Get b k) (Bag_Get t k) (Bag_Get p k)) (map fst m)"
    using rest by (intro filter_cong) auto
  then have "imap_Range (merge_prop std b p) (e # m) (t, un)
      = Inr (t', un @ filter (\<lambda>k. conflicting std (Bag_Get b k) (Bag_Get t k) (Bag_Get p k)) (map fst (e # m)))"
    using t1(1) t'(1) by (simp add: e)
  moreover have "\<forall>j \<in> fst ` set (e # m). Bag_Get t' j = three_way std (Bag_Get b j) (Bag_Get t j) (Bag_Get p j)"
    using t'(4,5) fresh rest t1(4) [of k] by (simp add: e)
  moreover have "\<forall>j. bag_canon spec j \<notin> (\<lambda>e. bag_canon spec (fst e)) ` set (e # m) \<longrightarrow> Bag_Get t' j = Bag_Get t j"
    using t'(5) t1(4) by (simp add: e)
  ultimately show ?case using t'(2,3) by blast
qed simp

lemma iputs_invar: "imap_invar Ident_Canonical m \<Longrightarrow> imap_invar Ident_Canonical (fold (\<lambda>(k, v). iput k ()) kvs m)"
  by (induction kvs arbitrary: m) (auto simp: imap_invar_Put)

lemma allProperties_invar: "imap_invar Ident_Canonical (allProperties p b t)"
proof -
  have "imap_invar Ident_Canonical
      (fold (\<lambda>col ret. if cd_Primary col \<or> cd_Ignored col then ret else iput (cd_Name col) () ret) cols m)"
    if "imap_invar Ident_Canonical m" for cols m
    using that by (induction cols arbitrary: m) (auto simp: imap_invar_Put)
  moreover have "imap_invar Ident_Canonical []" by (simp add: imap_invar_def)
  ultimately show ?thesis unfolding allProperties_def by (intro iputs_invar)
qed

lemma distinct_renamed:
  assumes "imap_invar Ident_Canonical m" "\<forall>k \<in> fst ` set m. bag_canon spec k = Ident_Canonical k"
  shows "distinct (map (\<lambda>e. bag_canon spec (fst e)) m)"
proof -
  have "map (\<lambda>e. bag_canon spec (fst e)) m = map (Ident_Canonical \<circ> fst) m" using assms(2) by (intro map_cong) auto
  then show ?thesis using assms(1) unfolding imap_invar_def by (rule ssubst)
qed

section \<open>Properties\<close>

text \<open>A sequence of operations on a bag.\<close>

datatype bag_op = OpPut Ident go_any | OpDelete Ident

fun bag_run :: "bag_op list \<Rightarrow> Bag \<Rightarrow> Bag" where
  "bag_run [] b = b"
| "bag_run (OpPut k v # ops) b = bag_run ops (Bag_Put k v b)"
| "bag_run (OpDelete k # ops) b = bag_run ops (Bag_Delete k b)"

fun op_key :: "bag_op \<Rightarrow> Ident" where
  "op_key (OpPut k v) = k"
| "op_key (OpDelete k) = k"

fun op_value :: "bag_op \<Rightarrow> go_any option" where
  "op_value (OpPut k v) = Some v"
| "op_value (OpDelete k) = None"

lemma bag_run_ok: "\<lbrakk>bag_ok b; bg_spec b = spec\<rbrakk> \<Longrightarrow> bag_ok (bag_run ops b) \<and> bg_spec (bag_run ops b) = spec"
  by (induction ops b rule: bag_run.induct) (simp_all add: bag_ok_Put bag_ok_Delete)

lemma bag_run_get:
  "bg_spec b = spec \<Longrightarrow> Bag_Get (bag_run ops b) k =
     (case filter (\<lambda>op. bag_canon spec (op_key op) = bag_canon spec k) ops of
        [] \<Rightarrow> Bag_Get b k | op # os \<Rightarrow> op_value (last (op # os)))"
  by (induction ops b rule: bag_run.induct) (auto simp: Bag_Get_Put Bag_Get_Delete split: list.splits)

lemma Bag_Len_entries: "Bag_Len b = length (Bag_Entries b)"
  by (simp add: Bag_Len_def Bag_Entries_def imap_Len_def)

lemma Bag_Entries_Get:
  assumes "bag_ok b" "(k, v) \<in> set (Bag_Entries b)" "bag_canon (bg_spec b) k = Ident_Canonical k"
  shows "Bag_Get b k = Some v"
proof -
  have k: "iget (bg_Mapped b) (renamed b k) = iget (bg_Mapped b) k" "iget (bg_Unmapped b) (renamed b k) = iget (bg_Unmapped b) k"
    using iget_cong [of "renamed b k" k] assms(3) by (simp_all add: renamed_def)
  have "(k, v) \<in> set (bg_Unmapped b) \<or> (\<exists>e. (k, e) \<in> set (bg_Mapped b) \<and> en_Valid e \<and> v = en_Value e)"
    using assms(2) by (auto simp: Bag_Entries_def)
  moreover have "iget (bg_Mapped b) k = None" if "(k, v) \<in> set (bg_Unmapped b)"
    using that assms(1) by (force simp: bag_ok_def iget_None_iff ikeys_def)
  moreover have "imap_invar Ident_Canonical (bg_Mapped b)" "imap_invar Ident_Canonical (bg_Unmapped b)"
    using assms(1) by (simp_all add: bag_ok_def)
  ultimately show ?thesis by (auto simp: Bag_Get_def Let_def k dest: imap_Get_mem)
qed

text \<open>
  C36: property bags keep their shape. After any sequence of puts and deletes on a new bag there is exactly one
  entry for every column, unset entries hold no value, and the properties without a column never shadow one; a
  property reads as its last operation left it, whether it has a column or not and however its name is spelled,
  and \<open>Len\<close> counts the entries.
\<close>

theorem Bag_well_formed:
  "bag_ok (bag_run ops (NewBag spec))
   \<and> bg_spec (bag_run ops (NewBag spec)) = spec
   \<and> Bag_Get (bag_run ops (NewBag spec)) k =
       (case filter (\<lambda>op. bag_canon spec (op_key op) = bag_canon spec k) ops of
          [] \<Rightarrow> None | op # os \<Rightarrow> op_value (last (op # os)))
   \<and> Bag_Len (bag_run ops (NewBag spec)) = length (Bag_Entries (bag_run ops (NewBag spec)))"
  using bag_run_ok [OF bag_ok_NewBag, of spec spec ops] bag_run_get [of "NewBag spec" spec ops k]
  by (simp add: Bag_Get_NewBag Bag_Len_entries split: list.splits)

text \<open>
  C34: the three-way merge. When the three bags can be compared and the renaming leaves the names of the columns
  alone, \<open>merge\<close> succeeds, and what it does to each property depends on its three values only: it keeps the value
  of the target if the update does not change the property or the target has the proposed value already; it takes
  the proposed value, or removes the property, if the target has the value from before the update or has none; and
  otherwise it keeps the target and lists the property as unmerged. No other property is touched.
\<close>

theorem merge_is_three_way:
  assumes con: "cf_Target con = Some t" "cf_Proposed con = Some p" "cf_Before con = Some b" "cf_Unmerged con = []"
    and "Bag_Len t \<noteq> 0" "bag_ok t"
    and "\<forall>k \<in> fst ` set (allProperties p b t). bag_canon (bg_spec t) k = Ident_Canonical k
           \<and> comparable std (Bag_Get b k) \<and> comparable std (Bag_Get t k) \<and> comparable std (Bag_Get p k)"
  shows "\<exists>t'. merge std con = Inr (con\<lparr>cf_Target := Some t',
        cf_Unmerged := filter (\<lambda>k. conflicting std (Bag_Get b k) (Bag_Get t k) (Bag_Get p k)) (map fst (allProperties p b t))\<rparr>)
    \<and> bag_ok t'
    \<and> (\<forall>k \<in> fst ` set (allProperties p b t). Bag_Get t' k = three_way std (Bag_Get b k) (Bag_Get t k) (Bag_Get p k))
    \<and> (\<forall>j. bag_canon (bg_spec t) j \<notin> (\<lambda>e. bag_canon (bg_spec t) (fst e)) ` set (allProperties p b t)
          \<longrightarrow> Bag_Get t' j = Bag_Get t j)"
proof -
  have d: "distinct (map (\<lambda>e. bag_canon (bg_spec t) (fst e)) (allProperties p b t))"
    using assms(7) by (intro distinct_renamed allProperties_invar) blast
  obtain t' where t': "imap_Range (merge_prop std b p) (allProperties p b t) (t, [])
      = Inr (t', [] @ filter (\<lambda>k. conflicting std (Bag_Get b k) (Bag_Get t k) (Bag_Get p k)) (map fst (allProperties p b t)))"
    "bag_ok t'"
    "\<forall>k \<in> fst ` set (allProperties p b t). Bag_Get t' k = three_way std (Bag_Get b k) (Bag_Get t k) (Bag_Get p k)"
    "\<forall>j. bag_canon (bg_spec t) j \<notin> (\<lambda>e. bag_canon (bg_spec t) (fst e)) ` set (allProperties p b t) \<longrightarrow> Bag_Get t' j = Bag_Get t j"
    using merge_loop [OF d assms(6) refl, of std b p "[]"] assms(7) by blast
  have "con\<lparr>cf_Before := Some b\<rparr> = con" using con(3) by (metis Conflict.surjective Conflict.update_convs(1))
  then have "merge std con = Inr (con\<lparr>cf_Target := Some t',
        cf_Unmerged := filter (\<lambda>k. conflicting std (Bag_Get b k) (Bag_Get t k) (Bag_Get p k)) (map fst (allProperties p b t))\<rparr>)"
    using con assms(5) t'(1) by (simp add: merge_def)
  then show ?thesis using t'(2-4) by blast
qed

text \<open>Witness for C34: an update of one column is taken, a change of the target is kept, and a third column is in conflict.\<close>

definition demo_std :: go_std where
  "demo_std = \<lparr>std_tokens = (\<lambda>s. if s = undefined_json then (tokens_of (JObj [(''__undefined__'', JBool True)]), TokEOF) else ([], TokEOF)),
     std_FormatFloat = (\<lambda>x n. []), std_RFC3339Nano = (\<lambda>t. []), std_Marshal = (\<lambda>v. Inl [])\<rparr>"

definition demo_col :: "string \<Rightarrow> bool \<Rightarrow> ColData" where
  "demo_col name pk = \<lparr>cd_DefaultExpr = [], cd_Ignored = False, cd_Name = Ident name, cd_Parse = None, cd_Primary = pk, cd_Type = ''INT8''\<rparr>"

definition demo_bag :: "int \<Rightarrow> int \<Rightarrow> int \<Rightarrow> Bag" where
  "demo_bag x y z =
     fold (\<lambda>(k, v). Bag_Put (Ident k) (GInt v)) [(''id'', 1), (''x'', x), (''y'', y), (''z'', z)]
       (NewBag \<lparr>bs_Columns = [demo_col ''id'' True, demo_col ''x'' False, demo_col ''y'' False], bs_Rename = None\<rparr>)"

definition demo_conflict :: Conflict where
  "demo_conflict = \<lparr>cf_Before = Some (demo_bag 1 1 1), cf_Proposed = Some (demo_bag 5 1 3), cf_Target = Some (demo_bag 1 2 2), cf_Unmerged = []\<rparr>"

theorem merge_is_three_way_witness:
  "\<exists>t'. merge demo_std demo_conflict = Inr (demo_conflict\<lparr>cf_Target := Some t', cf_Unmerged := [Ident ''z'']\<rparr>)
     \<and> Bag_Get t' (Ident ''x'') = Some (GInt 5) \<and> Bag_Get t' (Ident ''y'') = Some (GInt 2)
     \<and> Bag_Get t' (Ident ''z'') = Some (GInt 2) \<and> Bag_Get t' (Ident ''id'') = Some (GInt 1)"
proof -
  let ?t = "demo_bag 1 2 2" and ?p = "demo_bag 5 1 3" and ?b = "demo_bag 1 1 1"
  let ?spec = "bg_spec ?t" and ?all = "allProperties ?p ?b ?t"
  have props: "map fst ?all = [Ident ''x'', Ident ''y'', Ident ''z'']" by code_simp
  have "fst ` set ?all = set (map fst ?all)" by simp
  then have names: "fst ` set ?all = {Ident ''x'', Ident ''y'', Ident ''z''}" unfolding props by simp
  have ok: "Bag_Len ?t \<noteq> 0" "bag_ok ?t" by code_simp+
  have "list_all (\<lambda>k. bag_canon ?spec k = Ident_Canonical k \<and> comparable demo_std (Bag_Get ?b k)
      \<and> comparable demo_std (Bag_Get ?t k) \<and> comparable demo_std (Bag_Get ?p k)) (map fst ?all)"
    by code_simp
  then have cmp: "\<forall>k \<in> fst ` set ?all. bag_canon ?spec k = Ident_Canonical k \<and> comparable demo_std (Bag_Get ?b k)
      \<and> comparable demo_std (Bag_Get ?t k) \<and> comparable demo_std (Bag_Get ?p k)"
    unfolding list_all_iff by simp
  have con: "cf_Target demo_conflict = Some ?t" "cf_Proposed demo_conflict = Some ?p"
    "cf_Before demo_conflict = Some ?b" "cf_Unmerged demo_conflict = []"
    by (simp_all add: demo_conflict_def)
  have vals: "three_way demo_std (Bag_Get ?b (Ident ''x'')) (Bag_Get ?t (Ident ''x'')) (Bag_Get ?p (Ident ''x'')) = Some (GInt 5)"
    "three_way demo_std (Bag_Get ?b (Ident ''y'')) (Bag_Get ?t (Ident ''y'')) (Bag_Get ?p (Ident ''y'')) = Some (GInt 2)"
    "three_way demo_std (Bag_Get ?b (Ident ''z'')) (Bag_Get ?t (Ident ''z'')) (Bag_Get ?p (Ident ''z'')) = Some (GInt 2)"
    "Bag_Get ?t (Ident ''id'') = Some (GInt 1)"
    by code_simp+
  have un: "filter (\<lambda>k. conflicting demo_std (Bag_Get ?b k) (Bag_Get ?t k) (Bag_Get ?p k)) (map fst ?all) = [Ident ''z'']"
    by code_simp
  have other: "bag_canon ?spec (Ident ''id'') \<notin> (\<lambda>e. bag_canon ?spec (fst e)) ` set ?all" by code_simp
  obtain t' where t': "merge demo_std demo_conflict = Inr (demo_conflict\<lparr>cf_Target := Some t', cf_Unmerged := [Ident ''z'']\<rparr>)"
    "\<forall>k \<in> fst ` set ?all. Bag_Get t' k = three_way demo_std (Bag_Get ?b k) (Bag_Get ?t k) (Bag_Get ?p k)"
    "Bag_Get t' (Ident ''id'') = Bag_Get ?t (Ident ''id'')"
    using merge_is_three_way [OF con ok cmp] other unfolding un by blast
  have "Bag_Get t' (Ident ''x'') = Some (GInt 5)" "Bag_Get t' (Ident ''y'') = Some (GInt 2)" "Bag_Get t' (Ident ''z'') = Some (GInt 2)"
    using t'(2) vals unfolding names by simp_all
  then show ?thesis using t'(1,3) vals(4) by auto
qed

text \<open>
  A primary key that is set to null passes the validation, which only looks at the flag, and so does every bag
  without columns.
\<close>

lemma ValidatePK_accepts_null:
  "ValidatePK (Bag_Put (Ident ''id'') GNil (NewBag \<lparr>bs_Columns = [demo_col ''id'' True], bs_Rename = None\<rparr>)) = None"
  by code_simp

lemma ValidatePK_without_schema: "bs_Columns (bg_spec b) = [] \<Longrightarrow> ValidatePK b = None"
  by (simp add: ValidatePK_def missingPKs_def imap_Len_def)

text \<open>A property that is unset equals an object that spells the sentinel.\<close>

lemma undefined_is_forgeable:
  assumes "std_tokens std undefined_json = (tokens_of (JObj [(''__undefined__'', JBool True)]), TokEOF)"
  shows "same_prop std None (Some (GRawMessage undefined_json))"
  by (simp add: same_prop_def prop_Equal_def prop_Canonical_def Canonical_def assms Unmarshal_document
      equal_value_refl wf_value_of del: tokens_of.simps value_of.simps)

end
