(* ===== verification/Applycfg.thy ===== *)
theory Applycfg
  imports Merge Batches
begin

text \<open>
  The configuration of a target table, \<open>src/internal/util/applycfg\<close>. The maps of a configuration are those that
  \<open>NewConfig\<close> populates, so no pointer to a map is nil; \<open>Patch\<close> skips a nil map of its argument, for which the empty
  map stands. A duration is its number of nanoseconds.
\<close>

definition DefaultRowLimit :: int where
  "DefaultRowLimit = 100"

definition SubstitutionToken :: string where
  "SubstitutionToken = ''$0''"

record Config =
  cfg_CASColumns :: "Ident list"
  cfg_Deadlines :: "(Ident, int) imap"
  cfg_Exprs :: "(Ident, string) imap"
  cfg_Extras :: Ident
  cfg_Ignore :: "(Ident, bool) imap"
  cfg_Merger :: "Merger option"
  cfg_RowLimit :: int
  cfg_SourceNames :: "(Ident, Ident) imap"

definition NewConfig :: Config where
  "NewConfig =
     \<lparr>cfg_CASColumns = [], cfg_Deadlines = [], cfg_Exprs = [], cfg_Extras = NilIdent, cfg_Ignore = [],
      cfg_Merger = None, cfg_RowLimit = 0, cfg_SourceNames = []\<rparr>"

definition Config_Copy :: "Config \<Rightarrow> Config" where
  "Config_Copy c =
     NewConfig
       \<lparr>cfg_CASColumns := cfg_CASColumns NewConfig @ cfg_CASColumns c,
        cfg_Deadlines := imap_CopyInto Ident_Canonical (cfg_Deadlines c) (cfg_Deadlines NewConfig),
        cfg_Exprs := imap_CopyInto Ident_Canonical (cfg_Exprs c) (cfg_Exprs NewConfig),
        cfg_Extras := cfg_Extras c,
        cfg_Ignore := imap_CopyInto Ident_Canonical (cfg_Ignore c) (cfg_Ignore NewConfig),
        cfg_Merger := cfg_Merger c,
        cfg_RowLimit := cfg_RowLimit c,
        cfg_SourceNames := imap_CopyInto Ident_Canonical (cfg_SourceNames c) (cfg_SourceNames NewConfig)\<rparr>"

definition Idents_Equal :: "Ident list \<Rightarrow> Ident list \<Rightarrow> bool" where
  "Idents_Equal n o' \<longleftrightarrow> length n = length o' \<and> list_all (\<lambda>i. ident_Equal (IdAtom (n ! i)) (IdAtom (o' ! i))) [0..<length n]"

definition Config_Equal :: "Config \<Rightarrow> Config \<Rightarrow> bool" where
  "Config_Equal c o' \<longleftrightarrow>
     Idents_Equal (cfg_CASColumns c) (cfg_CASColumns o')
     \<and> cmap_Equal Ident_Canonical (=) (cfg_Deadlines c) (cfg_Deadlines o')
     \<and> cmap_Equal Ident_Canonical (=) (cfg_Exprs c) (cfg_Exprs o')
     \<and> ident_Equal (IdAtom (cfg_Extras c)) (IdAtom (cfg_Extras o'))
     \<and> cmap_Equal Ident_Canonical (=) (cfg_Ignore c) (cfg_Ignore o')
     \<and> cfg_RowLimit c = cfg_RowLimit o'
     \<and> cmap_Equal Ident_Canonical (\<lambda>a b. ident_Equal (IdAtom a) (IdAtom b)) (cfg_SourceNames c) (cfg_SourceNames o')"

definition Config_IsZero :: "Config \<Rightarrow> bool" where
  "Config_IsZero c \<longleftrightarrow>
     length (cfg_CASColumns c) = 0 \<and> imap_Len (cfg_Deadlines c) = 0 \<and> imap_Len (cfg_Exprs c) = 0
     \<and> Ident_Empty (cfg_Extras c) \<and> imap_Len (cfg_Ignore c) = 0 \<and> cfg_Merger c = None
     \<and> cfg_RowLimit c = 0 \<and> imap_Len (cfg_SourceNames c) = 0"

definition Config_Patch :: "Config \<Rightarrow> Config \<Rightarrow> Config" where
  "Config_Patch c other =
     c\<lparr>cfg_CASColumns := cfg_CASColumns c @ cfg_CASColumns other,
       cfg_Deadlines := imap_CopyInto Ident_Canonical (cfg_Deadlines other) (cfg_Deadlines c),
       cfg_Exprs := imap_CopyInto Ident_Canonical (cfg_Exprs other) (cfg_Exprs c),
       cfg_Extras := (if \<not> Ident_Empty (cfg_Extras other) then cfg_Extras other else cfg_Extras c),
       cfg_Ignore := imap_CopyInto Ident_Canonical (cfg_Ignore other) (cfg_Ignore c),
       cfg_Merger := (if cfg_Merger other \<noteq> None then cfg_Merger other else cfg_Merger c),
       cfg_RowLimit := (if cfg_RowLimit other \<noteq> 0 then cfg_RowLimit other else cfg_RowLimit c),
       cfg_SourceNames := imap_CopyInto Ident_Canonical (cfg_SourceNames other) (cfg_SourceNames c)\<rparr>"

text \<open>The lookup service: \<open>Get\<close> adds an empty configuration for a table that has none yet.\<close>

type_synonym Configs = "(Table, Config) imap"

definition Configs_Get :: "Table \<Rightarrow> Configs \<Rightarrow> Config \<times> Configs" where
  "Configs_Get tbl c =
     (case imap_Get Table_Canonical c tbl of
        Some found \<Rightarrow> (found, c)
      | None \<Rightarrow> (NewConfig, imap_Put Table_Canonical tbl NewConfig c))"

definition Configs_Set :: "Table \<Rightarrow> Config option \<Rightarrow> Configs \<Rightarrow> Configs" where
  "Configs_Set tbl cfg c =
     (let cfg' = (case cfg of Some x \<Rightarrow> x | None \<Rightarrow> NewConfig);
          c1 = snd (Configs_Get tbl c)
      in map (\<lambda>(k, v). if Table_Canonical k = Table_Canonical tbl then (k, cfg') else (k, v)) c1)"

definition Configs_Diagnostic :: "Configs \<Rightarrow> (Table, Config) imap" where
  "Configs_Diagnostic c = fold (\<lambda>(tbl, cfg). imap_Put Table_Canonical tbl cfg) c []"

section \<open>Copies and patches\<close>

text \<open>Every map of the configuration has one entry per name.\<close>

definition config_ok :: "Config \<Rightarrow> bool" where
  "config_ok c \<longleftrightarrow>
     imap_invar Ident_Canonical (cfg_Deadlines c) \<and> imap_invar Ident_Canonical (cfg_Exprs c)
     \<and> imap_invar Ident_Canonical (cfg_Ignore c) \<and> imap_invar Ident_Canonical (cfg_SourceNames c)"

lemma iput_fresh: "Ident_Canonical k \<notin> ikeys m \<Longrightarrow> iput k v m = m @ [(k, v)]"
  by (induction m) auto

lemma CopyInto_append:
  "imap_invar Ident_Canonical (dest @ m) \<Longrightarrow> imap_CopyInto Ident_Canonical m dest = dest @ m"
proof (induction m arbitrary: dest)
  case (Cons e m)
  obtain k v where e: "e = (k, v)" by force
  have "Ident_Canonical k \<notin> ikeys dest" using Cons.prems by (auto simp: e imap_invar_def ikeys_def)
  then have "iput k v dest = dest @ [e]" by (simp add: e iput_fresh)
  then show ?case using Cons.IH [of "dest @ [e]"] Cons.prems by (simp add: e)
qed simp

lemma CopyInto_Nil: "imap_invar Ident_Canonical m \<Longrightarrow> imap_CopyInto Ident_Canonical m [] = m"
  using CopyInto_append [of "[]" m] by simp

lemma ident_Equal_refl [simp]: "ident_Equal a a"
  by (simp add: ident_Equal_def ident_Compare_parts parts_compare_eq)

lemma cmap_Equal_refl:
  assumes "imap_invar canon m" "\<And>v. cmp v v"
  shows "cmap_Equal canon cmp m m"
  unfolding cmap_Equal_def list_all_iff
  using assms by (auto simp: imap_Get_mem split: option.splits)

lemma Config_Equal_refl: "config_ok c \<Longrightarrow> Config_Equal c c"
  unfolding Config_Equal_def config_ok_def Idents_Equal_def list_all_iff by (simp add: cmap_Equal_refl)

lemma Config_Copy_id: "config_ok c \<Longrightarrow> Config_Copy c = c"
  by (simp add: Config_Copy_def config_ok_def CopyInto_Nil NewConfig_def)

lemma iget_CopyInto: "imap_invar Ident_Canonical m \<Longrightarrow>
    iget (imap_CopyInto Ident_Canonical m dest) k = (case iget m k of Some v \<Rightarrow> Some v | None \<Rightarrow> iget dest k)"
proof (induction m arbitrary: dest)
  case (Cons e m)
  obtain j v where e: "e = (j, v)" by force
  have "imap_invar Ident_Canonical m" "Ident_Canonical j \<notin> ikeys m"
    using Cons.prems by (auto simp: e imap_invar_def ikeys_def)
  moreover have "iget m k = None" if "Ident_Canonical j = Ident_Canonical k"
    using calculation(2) that by (simp add: iget_None_iff)
  ultimately show ?case using Cons.IH by (auto simp: e imap_Get_Put split: option.splits)
qed simp

section \<open>Properties\<close>

text \<open>
  A copy is equal to its original; patching an empty configuration gives the patch; and after a patch every
  map answers with the entry of the patch if it has one and with the previous one otherwise.
\<close>

theorem Config_Patch_overrides:
  assumes "config_ok c" "config_ok other"
  shows "Config_Equal (Config_Copy other) other
    \<and> Config_Patch NewConfig other = other\<lparr>cfg_Extras := if Ident_Empty (cfg_Extras other) then NilIdent else cfg_Extras other\<rparr>
    \<and> iget (cfg_Exprs (Config_Patch c other)) k
        = (case iget (cfg_Exprs other) k of Some v \<Rightarrow> Some v | None \<Rightarrow> iget (cfg_Exprs c) k)
    \<and> iget (cfg_Deadlines (Config_Patch c other)) k
        = (case iget (cfg_Deadlines other) k of Some v \<Rightarrow> Some v | None \<Rightarrow> iget (cfg_Deadlines c) k)
    \<and> iget (cfg_Ignore (Config_Patch c other)) k
        = (case iget (cfg_Ignore other) k of Some v \<Rightarrow> Some v | None \<Rightarrow> iget (cfg_Ignore c) k)
    \<and> iget (cfg_SourceNames (Config_Patch c other)) k
        = (case iget (cfg_SourceNames other) k of Some v \<Rightarrow> Some v | None \<Rightarrow> iget (cfg_SourceNames c) k)"
proof (intro conjI)
  show "Config_Equal (Config_Copy other) other" using assms(2) by (simp add: Config_Copy_id Config_Equal_refl)
  show "Config_Patch NewConfig other = other\<lparr>cfg_Extras := if Ident_Empty (cfg_Extras other) then NilIdent else cfg_Extras other\<rparr>"
    using assms(2) by (simp add: Config_Patch_def config_ok_def CopyInto_Nil NewConfig_def)
qed (use assms(2) in \<open>simp_all add: Config_Patch_def config_ok_def iget_CopyInto\<close>)

end
