(* ===== verification/Acceptors.thy ===== *)
theory Acceptors
  imports Batches Retry
begin

text \<open>
  Applying a multi-table batch in foreign-key order: the adapter \<open>orderedAdapter\<close> of
  \<open>src/internal/types/acceptors.go\<close>, the products of \<open>src/internal/types/types.go\<close> and
  \<open>getDependencyOrder\<close> of \<open>src/internal/target/schemawatch/dependencies.go\<close>, which computes the
  order. The rows of the dependency query come from the database: they are an argument.
\<close>

section \<open>Products\<close>

datatype Product =
    ProductUnknown | ProductCockroachDB | ProductMariaDB | ProductMySQL | ProductOracle | ProductPostgreSQL

datatype schema_error =
    EmptySchema | UnexpectedParts nat | ExpectedOnePart nat | UnimplementedProduct Product | IdentErr ident_error

definition Public :: Ident where
  "Public = Ident ''public''"

definition ExpandSchema :: "Product \<Rightarrow> Schema \<Rightarrow> (schema_error, Schema) result" where
  "ExpandSchema p s =
     (if Schema_Empty s then Inl EmptySchema
      else let parts = Schema_Idents s; numParts = length parts in
      case p of
        ProductCockroachDB \<Rightarrow>
          if numParts = 1 then map_sum IdentErr id (NewSchema [hd parts, Public])
          else if numParts = 2 then Inr s else Inl (UnexpectedParts numParts)
      | ProductPostgreSQL \<Rightarrow>
          if numParts = 1 then map_sum IdentErr id (NewSchema [hd parts, Public])
          else if numParts = 2 then Inr s else Inl (UnexpectedParts numParts)
      | ProductUnknown \<Rightarrow> Inl (UnimplementedProduct p)
      | _ \<Rightarrow> if numParts \<noteq> 1 then Inl (ExpectedOnePart numParts) else Inr s)"

section \<open>The dependency order\<close>

text \<open>
  One attempt of the query: it fails, or it returns rows; a row is a table name and its depth, or
  fails to scan. An error that ends the iteration early is not read by the code (\<open>rows.Err\<close>), so the
  rows simply end.
\<close>

datatype 'e dep_row = Row string int | ScanErr 'e
datatype 'e dep_query = QueryErr 'e | Rows "'e dep_row list"

text \<open>The variables the closure captures: the cyclic tables and the levels.\<close>

type_synonym dep_state = "Table list \<times> Table list list"

text \<open>\<open>for nextOrder > currentOrder\<close> appends empty levels.\<close>

function skip_levels :: "int \<Rightarrow> int \<Rightarrow> Table list list \<Rightarrow> int \<times> Table list list" where
  "skip_levels nextOrder currentOrder depOrder =
     (if nextOrder > currentOrder then skip_levels nextOrder (currentOrder + 1) (depOrder @ [[]])
      else (currentOrder, depOrder))"
  by pat_completeness auto
termination by (relation "measure (\<lambda>(n, c, _). nat (n - c))") auto

declare skip_levels.simps [simp del]

fun dep_rows :: "Schema \<Rightarrow> 'e dep_row list \<Rightarrow> int \<Rightarrow> dep_state \<Rightarrow> 'e option \<times> dep_state" where
  "dep_rows db [] currentOrder st = (None, st)"
| "dep_rows db (ScanErr e # rows) currentOrder st = (Some e, st)"
| "dep_rows db (Row tableName nextOrder # rows) currentOrder (cycles, depOrder) =
     (let tbl = NewTable db (ident_New tableName) in
      if nextOrder < 0 then dep_rows db rows currentOrder (cycles @ [tbl], depOrder)
      else
        (let (cur, levels) = skip_levels nextOrder currentOrder depOrder; i = nat cur
         in dep_rows db rows cur (cycles, levels[i := levels ! i @ [tbl]])))"

fun dep_attempt :: "Schema \<Rightarrow> 'e dep_query \<Rightarrow> dep_state \<Rightarrow> 'e option \<times> dep_state" where
  "dep_attempt db (QueryErr e) st = (Some e, st)"
| "dep_attempt db (Rows rows) st = dep_rows db rows (- 1) st"

datatype 'e dep_error = DepSchema schema_error | Cyclical "Table list" | DepQuery "'e loop_error"

definition dep_parts_ok :: "Product \<Rightarrow> Schema \<Rightarrow> schema_error option" where
  "dep_parts_ok p db =
     (case p of
        ProductCockroachDB \<Rightarrow> if length (Schema_Idents db) \<noteq> 2 then Some (UnexpectedParts (length (Schema_Idents db))) else None
      | ProductPostgreSQL \<Rightarrow> if length (Schema_Idents db) \<noteq> 2 then Some (UnexpectedParts (length (Schema_Idents db))) else None
      | ProductMariaDB \<Rightarrow> if length (Schema_Idents db) \<noteq> 1 then Some (ExpectedOnePart (length (Schema_Idents db))) else None
      | ProductMySQL \<Rightarrow> if length (Schema_Idents db) \<noteq> 1 then Some (ExpectedOnePart (length (Schema_Idents db))) else None
      | ProductOracle \<Rightarrow> None
      | ProductUnknown \<Rightarrow> Some (UnimplementedProduct p))"

text \<open>
  The database answers the attempts of the retry loop one after the other: the state of the callback
  holds the remaining answers beside the captured variables.
\<close>

definition dep_callback ::
  "Schema \<Rightarrow> 'e \<Rightarrow> 'e dep_query list \<times> dep_state \<Rightarrow> 'e option \<times> 'e dep_query list \<times> dep_state" where
  "dep_callback db gone s =
     (case s of
        ([], st) \<Rightarrow> (Some gone, [], st)
      | (q # qs, st) \<Rightarrow> (case dep_attempt db q st of (err, st') \<Rightarrow> (err, qs, st')))"

definition getDependencyOrder ::
  "Product \<Rightarrow> Schema \<Rightarrow> bool option \<Rightarrow> ('e \<Rightarrow> bool) \<Rightarrow> 'e \<Rightarrow> 'e dep_query list \<Rightarrow> ('e dep_error, Table list list) result" where
  "getDependencyOrder p db outerMarker shouldRetry gone answers =
     (case dep_parts_ok p db of
        Some e \<Rightarrow> Inl (DepSchema e)
      | None \<Rightarrow>
          (case Retry outerMarker shouldRetry (dep_callback db gone) (answers, [], []) of
             (err, _, cycles, depOrder) \<Rightarrow>
               if length cycles > 0 then Inl (Cyclical cycles)
               else case err of Some e \<Rightarrow> Inl (DepQuery e) | None \<Rightarrow> Inr depOrder))"

section \<open>The ordered adapter\<close>

datatype mixed_schema = MixedSchema Time Schema Schema
datatype 'e accept_error = Mixed mixed_schema | WatcherErr 'e | TableErr Table 'e

text \<open>
  The state of the coalescing loop: the common schema and the mutations by table.
\<close>

definition ordered_visit ::
  "Time \<Rightarrow> Table \<Rightarrow> TableBatch \<Rightarrow> Schema \<times> (Table, Mutation list) imap
   \<Rightarrow> (mixed_schema, Schema \<times> (Table, Mutation list) imap) result" where
  "ordered_visit time tbl tblBatch st =
     (case st of (commonSchema, mutsByTable) \<Rightarrow>
        let put = imap_Put Table_Canonical tbl (imap_GetZero [] Table_Canonical mutsByTable tbl @ tb_Data tblBatch) mutsByTable
        in if Schema_Empty commonSchema then Inr (Table_Schema tbl, put)
           else if \<not> ident_Equal (IdArray commonSchema) (IdArray (Table_Schema tbl))
           then Inl (MixedSchema time commonSchema (Table_Schema tbl))
           else Inr (commonSchema, put))"

fun ordered_coalesce ::
  "TemporalBatch list \<Rightarrow> Schema \<times> (Table, Mutation list) imap
   \<Rightarrow> (mixed_schema, Schema \<times> (Table, Mutation list) imap) result" where
  "ordered_coalesce [] st = Inr st"
| "ordered_coalesce (temporal # ts) st =
     (case imap_Range (ordered_visit (tp_Time temporal)) (tp_Data temporal) st of
        Inl e \<Rightarrow> Inl e | Inr st' \<Rightarrow> ordered_coalesce ts st')"

text \<open>A table acceptor threads the state of its target.\<close>

type_synonym ('e, 's) acceptor = "TableBatch \<Rightarrow> 's \<Rightarrow> ('e, 's) result"

fun accept_level ::
  "('e, 's) acceptor \<Rightarrow> (Table, Mutation list) imap \<Rightarrow> Table list \<Rightarrow> 's \<Rightarrow> ('e accept_error, 's) result" where
  "accept_level delegate muts [] s = Inr s"
| "accept_level delegate muts (table # level) s =
     (case imap_Get Table_Canonical muts table of
        None \<Rightarrow> accept_level delegate muts level s
      | Some ms \<Rightarrow>
          (case delegate \<lparr>tb_Data = ms, tb_Table = table, tb_Time = Zero\<rparr> s of
             Inl e \<Rightarrow> Inl (TableErr table e)
           | Inr s' \<Rightarrow> accept_level delegate muts level s'))"

fun accept_levels ::
  "('e, 's) acceptor \<Rightarrow> (Table, Mutation list) imap \<Rightarrow> Table list list \<Rightarrow> 's \<Rightarrow> ('e accept_error, 's) result" where
  "accept_levels delegate muts [] s = Inr s"
| "accept_levels delegate muts (level # order) s =
     (case accept_level delegate muts level s of
        Inl e \<Rightarrow> Inl e | Inr s' \<Rightarrow> accept_levels delegate muts order s')"

definition ordered_AcceptMultiBatch ::
  "('e, 's) acceptor \<Rightarrow> (Schema \<Rightarrow> ('e, Table list list) result) \<Rightarrow> MultiBatch \<Rightarrow> 's \<Rightarrow> ('e accept_error, 's) result" where
  "ordered_AcceptMultiBatch delegate watchers batch s =
     (if MultiBatch_Count batch = 0 then Inr s
      else case ordered_coalesce (temporal_batches batch) (NilSchema, []) of
        Inl e \<Rightarrow> Inl (Mixed e)
      | Inr (commonSchema, mutsByTable) \<Rightarrow>
          (case watchers commonSchema of
             Inl e \<Rightarrow> Inl (WatcherErr e)
           | Inr order \<Rightarrow> accept_levels delegate mutsByTable order s))"

definition ordered_AcceptTemporalBatch ::
  "('e, 's) acceptor \<Rightarrow> (Schema \<Rightarrow> ('e, Table list list) result) \<Rightarrow> TemporalBatch \<Rightarrow> 's \<Rightarrow> ('e accept_error, 's) result" where
  "ordered_AcceptTemporalBatch delegate watchers batch s =
     ordered_AcceptMultiBatch delegate watchers
       \<lparr>mb_store = [batch], mb_ByTime = [tp_Time batch \<mapsto> 0], mb_Data = [0]\<rparr> s"

definition ordered_AcceptTableBatch :: "('e, 's) acceptor \<Rightarrow> TableBatch \<Rightarrow> 's \<Rightarrow> ('e, 's) result" where
  "ordered_AcceptTableBatch delegate batch s = delegate batch s"

section \<open>The levels of the dependency order\<close>

lemma skip_levels_eq:
  "skip_levels n c levels = (if n > c then (n, levels @ replicate (nat (n - c)) []) else (c, levels))"
proof (induction n c levels rule: skip_levels.induct)
  case (1 n c levels)
  have "Suc (nat (n - (c + 1))) = nat (n - c)" if "n > c" using that by linarith
  then have "[] # replicate (nat (n - (c + 1))) [] = replicate (nat (n - c)) ([] :: Table list)" if "n > c"
    using that by (metis replicate_Suc)
  then show ?case using 1 by (subst skip_levels.simps) auto
qed

text \<open>The rows of the query, and the tables it puts on a level.\<close>

definition row_table :: "Schema \<Rightarrow> string \<times> int \<Rightarrow> Table" where
  "row_table db r = NewTable db (ident_New (fst r))"

definition level_of :: "Schema \<Rightarrow> (string \<times> int) list \<Rightarrow> nat \<Rightarrow> Table list" where
  "level_of db rows i = map (row_table db) (filter (\<lambda>r. snd r = int i) rows)"

definition to_row :: "string \<times> int \<Rightarrow> 'e dep_row" where
  "to_row r = Row (fst r) (snd r)"

lemma dep_rows_levels:
  assumes "sorted (c # map snd rows)" "\<forall>r \<in> set rows. 0 \<le> snd r" "int (length levels) = c + 1"
  shows "dep_rows db (map to_row rows) c (cycles, levels) =
    (None, cycles, map (\<lambda>i. (if i < length levels then levels ! i else []) @ level_of db rows i)
       [0..<nat (last (c # map snd rows) + 1)])"
  using assms
proof (induction rows arbitrary: c levels)
  case Nil
  then have "nat (c + 1) = length levels" by linarith
  then show ?case by (auto intro!: nth_equalityI simp: level_of_def)
next
  case (Cons r rows)
  obtain nm d where r: "r = (nm, d)" by force
  let ?t = "NewTable db (ident_New nm)"
  define new where "new = levels @ replicate (nat (d - c)) []"
  have d: "0 \<le> d" "c \<le> d" using Cons.prems by (auto simp: r)
  have len: "int (length new) = d + 1" using Cons.prems(3) d by (simp add: new_def)
  have skip: "skip_levels d c levels = (d, new)" using d by (auto simp: skip_levels_eq new_def)
  have step: "dep_rows db (map to_row (r # rows)) c (cycles, levels)
      = dep_rows db (map to_row rows) d (cycles, new[nat d := new ! nat d @ [?t]])"
    using d by (simp add: r to_row_def skip Let_def)
  have "(if i < length (new[nat d := new ! nat d @ [?t]]) then new[nat d := new ! nat d @ [?t]] ! i else []) @ level_of db rows i
      = (if i < length levels then levels ! i else []) @ level_of db (r # rows) i" for i
    proof -
    have "i < length new" if "int i = d" using len that by linarith
    moreover have "new ! i = (if i < length levels then levels ! i else [])" if "i < length new"
      using that by (auto simp: new_def nth_append)
    moreover have "length levels \<le> length new" by (simp add: new_def)
    ultimately show ?thesis using d(1) by (auto simp: level_of_def row_table_def r nth_upd_if)
  qed
  moreover have "sorted (d # map snd rows)" using Cons.prems(1) by (simp add: r)
  ultimately show ?case
    unfolding step using Cons.IH [of d "new[nat d := new ! nat d @ [?t]]"] Cons.prems(2) len by (simp add: r)
qed

section \<open>What the adapter hands to its delegate\<close>

fun accept_all :: "('e, 's) acceptor \<Rightarrow> TableBatch list \<Rightarrow> 's \<Rightarrow> ('e accept_error, 's) result" where
  "accept_all delegate [] s = Inr s"
| "accept_all delegate (b # bs) s =
     (case delegate b s of Inl e \<Rightarrow> Inl (TableErr (tb_Table b) e) | Inr s' \<Rightarrow> accept_all delegate bs s')"

fun ordered_calls :: "(Table, Mutation list) imap \<Rightarrow> Table list \<Rightarrow> TableBatch list" where
  "ordered_calls muts [] = []"
| "ordered_calls muts (t # ts) =
     (case imap_Get Table_Canonical muts t of
        None \<Rightarrow> ordered_calls muts ts
      | Some ms \<Rightarrow> \<lparr>tb_Data = ms, tb_Table = t, tb_Time = Zero\<rparr> # ordered_calls muts ts)"

lemma accept_level_append:
  "accept_level delegate muts (xs @ ys) s =
     (case accept_level delegate muts xs s of Inl e \<Rightarrow> Inl e | Inr s' \<Rightarrow> accept_level delegate muts ys s')"
  by (induction delegate muts xs s rule: accept_level.induct) (auto split: option.splits sum.splits)

lemma accept_levels_all: "accept_levels delegate muts order s = accept_all delegate (ordered_calls muts (concat order)) s"
proof -
  have "accept_level delegate muts ts s = accept_all delegate (ordered_calls muts ts) s" for ts s
    by (induction delegate muts ts s rule: accept_level.induct) (auto split: option.splits sum.splits)
  moreover have "accept_levels delegate muts order s = accept_level delegate muts (concat order) s"
    by (induction delegate muts order s rule: accept_levels.induct) (auto simp: accept_level_append split: sum.splits)
  ultimately show ?thesis by simp
qed

text \<open>The mutations of a table in a sequence of temporal batches, in their order.\<close>

definition table_entries :: "(Table, TableBatch) imap \<Rightarrow> Table \<Rightarrow> Mutation list" where
  "table_entries m t = concat (map (tb_Data \<circ> snd) (filter (\<lambda>e. Table_Canonical (fst e) = Table_Canonical t) m))"

definition table_muts :: "TemporalBatch list \<Rightarrow> Table \<Rightarrow> Mutation list" where
  "table_muts ts t = concat (map (\<lambda>b. table_entries (tp_Data b) t) ts)"

lemma ident_Equal_schema:
  assumes "Schema_Canonical a = Schema_Canonical b" "wf_schema a" "wf_schema b" shows "ident_Equal (IdArray a) (IdArray b)"
proof -
  have *: "Ident_Empty x \<longleftrightarrow> Ident_Empty y" if "Ident_Canonical x = Ident_Canonical y" for x y
    using that by (cases x; cases y) (auto simp: ToLower_def)
  show ?thesis using assms
    by (cases a; cases b) (auto simp: ident_Equal_def ident_Compare_parts parts_compare_eq canon_parts_array
      split: if_splits dest: *)
qed

text \<open>Schemas of one batch: well-formed, not empty, and equal up to case.\<close>

definition same_schema :: "Schema \<Rightarrow> Schema \<Rightarrow> bool" where
  "same_schema sch a \<longleftrightarrow> Schema_Canonical a = Schema_Canonical sch \<and> wf_schema a \<and> \<not> Schema_Empty a"

definition common_ok :: "Schema \<Rightarrow> bool \<Rightarrow> Schema \<Rightarrow> bool" where
  "common_ok sch visited c \<longleftrightarrow> (if visited then same_schema sch c else c = NilSchema)"

lemma ordered_visit_ok:
  assumes "common_ok sch v c" "same_schema sch (Table_Schema t)"
  shows "\<exists>c'. ordered_visit time t b (c, m) =
      Inr (c', imap_Put Table_Canonical t (imap_GetZero [] Table_Canonical m t @ tb_Data b) m) \<and> common_ok sch True c'"
proof (cases v)
  case True
  then have "ident_Equal (IdArray c) (IdArray (Table_Schema t))" "\<not> Schema_Empty c"
    using assms ident_Equal_schema by (auto simp: common_ok_def same_schema_def)
  then show ?thesis using assms True by (auto simp: ordered_visit_def common_ok_def)
qed (use assms in \<open>auto simp: ordered_visit_def common_ok_def\<close>)

lemma imap_GetZero_canon:
  "canon k = canon k' \<Longrightarrow> imap_GetZero z canon m k = imap_GetZero z canon m k'"
  unfolding imap_GetZero_def by (induction m) auto

lemma GetZero_append:
  "imap_GetZero [] canon (imap_Put canon k (imap_GetZero [] canon m k @ xs) m) k'
     = imap_GetZero [] canon m k' @ (if canon k = canon k' then xs else [])"
proof -
  have "imap_Get canon m k = imap_Get canon m k'" if "canon k = canon k'"
    using that by (induction m) auto
  then show ?thesis by (auto simp: imap_GetZero_def imap_Get_Put)
qed

lemma ordered_range_ok:
  assumes "common_ok sch v c" "\<forall>e \<in> set es. same_schema sch (Table_Schema (fst e))"
  shows "\<exists>c' m'. imap_Range (ordered_visit time) es (c, m) = Inr (c', m') \<and> common_ok sch (v \<or> es \<noteq> []) c'
    \<and> (\<forall>t. imap_GetZero [] Table_Canonical m' t = imap_GetZero [] Table_Canonical m t @ table_entries es t)
    \<and> (\<forall>t. imap_Get Table_Canonical m' t = None \<longleftrightarrow>
         imap_Get Table_Canonical m t = None \<and> (\<forall>e \<in> set es. Table_Canonical (fst e) \<noteq> Table_Canonical t))"
  using assms
proof (induction es arbitrary: v c m)
  case Nil
  then show ?case by (simp add: table_entries_def)
next
  case (Cons e es)
  obtain k b where e: "e = (k, b)" by force
  let ?m = "imap_Put Table_Canonical k (imap_GetZero [] Table_Canonical m k @ tb_Data b) m"
  obtain c1 where c1: "ordered_visit time k b (c, m) = Inr (c1, ?m)" "common_ok sch True c1"
    using ordered_visit_ok [OF Cons.prems(1), of k time b m] Cons.prems(2) by (auto simp: e)
  obtain c2 m2 where r: "imap_Range (ordered_visit time) es (c1, ?m) = Inr (c2, m2)" "common_ok sch True c2"
    "\<forall>t. imap_GetZero [] Table_Canonical m2 t = imap_GetZero [] Table_Canonical ?m t @ table_entries es t"
    "\<forall>t. imap_Get Table_Canonical m2 t = None \<longleftrightarrow>
       imap_Get Table_Canonical ?m t = None \<and> (\<forall>e \<in> set es. Table_Canonical (fst e) \<noteq> Table_Canonical t)"
    using Cons.IH [OF c1(2)] Cons.prems(2) by fastforce
  have "table_entries (e # es) t = (if Table_Canonical k = Table_Canonical t then tb_Data b else []) @ table_entries es t" for t
    by (simp add: table_entries_def e)
  then show ?case
    using r c1 by (intro exI2 [of _ c2 m2]) (auto simp: e GetZero_append imap_Get_Put)
qed

lemma ordered_coalesce_ok:
  assumes "common_ok sch v c" "\<forall>b \<in> set ts. \<forall>e \<in> set (tp_Data b). same_schema sch (Table_Schema (fst e))"
  shows "\<exists>c' m'. ordered_coalesce ts (c, m) = Inr (c', m') \<and> common_ok sch (v \<or> (\<exists>b \<in> set ts. tp_Data b \<noteq> [])) c'
    \<and> (\<forall>t. imap_GetZero [] Table_Canonical m' t = imap_GetZero [] Table_Canonical m t @ table_muts ts t)
    \<and> (\<forall>t. imap_Get Table_Canonical m' t = None \<longleftrightarrow> imap_Get Table_Canonical m t = None
         \<and> (\<forall>b \<in> set ts. \<forall>e \<in> set (tp_Data b). Table_Canonical (fst e) \<noteq> Table_Canonical t))"
  using assms
proof (induction ts arbitrary: v c m)
  case (Cons b ts)
  obtain c1 m1 where r1: "imap_Range (ordered_visit (tp_Time b)) (tp_Data b) (c, m) = Inr (c1, m1)"
    "common_ok sch (v \<or> tp_Data b \<noteq> []) c1"
    "\<forall>t. imap_GetZero [] Table_Canonical m1 t = imap_GetZero [] Table_Canonical m t @ table_entries (tp_Data b) t"
    "\<forall>t. imap_Get Table_Canonical m1 t = None \<longleftrightarrow> imap_Get Table_Canonical m t = None
       \<and> (\<forall>e \<in> set (tp_Data b). Table_Canonical (fst e) \<noteq> Table_Canonical t)"
    using ordered_range_ok [OF Cons.prems(1), of "tp_Data b" "tp_Time b" m] Cons.prems(2) by auto
  obtain c2 m2 where r2: "ordered_coalesce ts (c1, m1) = Inr (c2, m2)"
    "common_ok sch ((v \<or> tp_Data b \<noteq> []) \<or> (\<exists>b \<in> set ts. tp_Data b \<noteq> [])) c2"
    "\<forall>t. imap_GetZero [] Table_Canonical m2 t = imap_GetZero [] Table_Canonical m1 t @ table_muts ts t"
    "\<forall>t. imap_Get Table_Canonical m2 t = None \<longleftrightarrow> imap_Get Table_Canonical m1 t = None
       \<and> (\<forall>b \<in> set ts. \<forall>e \<in> set (tp_Data b). Table_Canonical (fst e) \<noteq> Table_Canonical t)"
    using Cons.IH [OF r1(2), of m1] Cons.prems(2) by auto
  show ?case
    using r1 r2 by (intro exI2 [of _ c2 m2]) (auto simp: table_muts_def disj_assoc)
qed (simp add: table_muts_def)

lemma multi_muts_table:
  "filter_mset (\<lambda>p. fst p = Table_Canonical t) (multi_muts b)
     = image_mset (Pair (Table_Canonical t)) (mset (table_muts (temporal_batches b) t))"
proof -
  have *: "filter_mset (\<lambda>p. fst p = Table_Canonical t) (\<Sum>e \<leftarrow> es. image_mset (Pair (Table_Canonical (fst e))) (mset (tb_Data (snd e))))
      = image_mset (Pair (Table_Canonical t)) (mset (table_entries es t))" for es
    by (induction es) (auto simp: table_entries_def filter_mset_image_mset o_def)
  have "filter_mset (\<lambda>p. fst p = Table_Canonical t) (\<Sum>b \<leftarrow> ts. temporal_muts b)
      = image_mset (Pair (Table_Canonical t)) (mset (table_muts ts t))" for ts
    by (induction ts) (auto simp: table_muts_def temporal_muts_def *)
  then show ?thesis by (simp add: multi_muts_def)
qed

text \<open>The mutations a sequence of table batches carries.\<close>

definition calls_muts :: "TableBatch list \<Rightarrow> (Table \<times> Mutation) multiset" where
  "calls_muts bs = (\<Sum>b \<leftarrow> bs. image_mset (Pair (Table_Canonical (tb_Table b))) (mset (tb_Data b)))"

lemma calls_muts_filter:
  assumes "distinct (map Table_Canonical xs)"
    and "\<And>t. filter_mset (\<lambda>p. fst p = Table_Canonical t) M
      = image_mset (Pair (Table_Canonical t)) (mset (imap_GetZero [] Table_Canonical m t))"
  shows "calls_muts (ordered_calls m xs) = filter_mset (\<lambda>p. fst p \<in> Table_Canonical ` set xs) M"
  using assms(1)
proof (induction xs)
  case (Cons t xs)
  have "filter_mset (\<lambda>p. fst p \<in> Table_Canonical ` set (t # xs)) M
      = filter_mset (\<lambda>p. fst p = Table_Canonical t) M + filter_mset (\<lambda>p. fst p \<in> Table_Canonical ` set xs) M"
    using Cons.prems by (intro multiset_eqI) auto
  moreover have "image_mset (Pair (Table_Canonical t)) (mset (imap_GetZero [] Table_Canonical m t))
      + calls_muts (ordered_calls m xs) = calls_muts (ordered_calls m (t # xs))"
    by (auto simp: calls_muts_def imap_GetZero_def split: option.splits)
  ultimately show ?case using Cons assms(2) [of t] by simp
qed (simp add: calls_muts_def)

lemma ordered_calls_tables:
  "map tb_Table (ordered_calls m xs) = filter (\<lambda>t. imap_Get Table_Canonical m t \<noteq> None) xs"
  by (induction m xs rule: ordered_calls.induct) (auto split: option.splits)

lemma ordered_calls_data:
  "b \<in> set (ordered_calls m xs) \<Longrightarrow> tb_Data b = imap_GetZero [] Table_Canonical m (tb_Table b)"
  by (induction m xs rule: ordered_calls.induct) (auto simp: imap_GetZero_def split: option.splits)

lemma sorted_table_muts:
  assumes ok: "multi_ok b"
  shows "sorted_wrt (\<lambda>x y. mut_Time x \<le> mut_Time y) (table_muts (temporal_batches b) t)"
proof -
  have tok: "temporal_ok (mb_store b ! r)" if "r \<in> set (mb_Data b)" for r
    using multi_okD(2,5) [OF ok] that by auto
  have time: "mut_Time m = tp_Time u" if "temporal_ok u" "m \<in> set (table_entries (tp_Data u) t)" for u m
    using that by (auto simp: table_entries_def temporal_ok_def)
  have one: "sorted_wrt (\<lambda>x y. mut_Time x \<le> mut_Time y) xs" if "\<forall>m \<in> set xs. mut_Time m = T" for xs T
    using that by (induction xs) auto
  have "sorted_wrt (\<lambda>i j. \<forall>x \<in> set (table_entries (tp_Data (mb_store b ! i)) t).
      \<forall>y \<in> set (table_entries (tp_Data (mb_store b ! j)) t). mut_Time x \<le> mut_Time y) (mb_Data b)"
    by (rule sorted_wrt_mono_rel [OF _ multi_okD(4) [OF ok]]) (auto simp: time [OF tok])
  moreover have "sorted_wrt (\<lambda>x y. mut_Time x \<le> mut_Time y) (table_entries (tp_Data (mb_store b ! r)) t)"
    if "r \<in> set (mb_Data b)" for r
    using one time [OF tok [OF that]] by blast
  ultimately show ?thesis
    unfolding table_muts_def temporal_batches_def sorted_wrt_concat by (auto simp: sorted_wrt_map)
qed

lemma nonempty_count:
  assumes "MultiBatch_Count b \<noteq> 0"
  shows "\<exists>t \<in> set (temporal_batches b). tp_Data t \<noteq> []"
proof (rule ccontr)
  assume "\<not> ?thesis"
  then have "\<forall>t \<in> set (temporal_batches b). TemporalBatch_Count t = 0" by (simp add: TemporalBatch_Count_def)
  then have "sum_list (map TemporalBatch_Count (temporal_batches b)) = 0" by (simp add: sum_list_eq_0_iff)
  then show False using assms by (simp add: MultiBatch_Count_def)
qed

section \<open>Properties\<close>

text \<open>
  C26: when all tables of a batch are in one schema (up to case) and the watcher of that schema answers
  with a dependency order without repetitions, \<open>AcceptMultiBatch\<close> makes one call of its delegate per
  table of the order that occurs in the batch, in that order, stopping at the first error; each call
  has the mutations of its table in time order, and together the calls have exactly the mutations of
  the batch whose tables the order contains. Mutations of other tables are not handed on.
\<close>

theorem ordered_AcceptMultiBatch_calls:
  assumes ok: "multi_ok b" and cnt: "MultiBatch_Count b \<noteq> 0"
    and sch: "\<forall>t \<in> set (temporal_batches b). \<forall>e \<in> set (tp_Data t). same_schema sch (Table_Schema (fst e))"
    and order: "\<And>c. same_schema sch c \<Longrightarrow> watchers c = Inr order" "distinct (map Table_Canonical (concat order))"
  shows "\<exists>calls. (\<forall>s. ordered_AcceptMultiBatch delegate watchers b s = accept_all delegate calls s)
    \<and> map tb_Table calls = filter (\<lambda>t. \<exists>u \<in> set (temporal_batches b). \<exists>e \<in> set (tp_Data u).
         Table_Canonical (fst e) = Table_Canonical t) (concat order)
    \<and> (\<forall>c \<in> set calls. sorted_wrt (\<lambda>x y. mut_Time x \<le> mut_Time y) (tb_Data c))
    \<and> calls_muts calls = filter_mset (\<lambda>p. fst p \<in> Table_Canonical ` set (concat order)) (multi_muts b)"
proof -
  have "common_ok sch False NilSchema" by (simp add: common_ok_def)
  from ordered_coalesce_ok [OF this sch, of "[]"] nonempty_count [OF cnt]
  obtain c m where co: "ordered_coalesce (temporal_batches b) (NilSchema, []) = Inr (c, m)" "same_schema sch c"
    and zero: "\<forall>t. imap_GetZero [] Table_Canonical m t = table_muts (temporal_batches b) t"
    and none: "\<forall>t. imap_Get Table_Canonical m t = None \<longleftrightarrow>
      (\<forall>u \<in> set (temporal_batches b). \<forall>e \<in> set (tp_Data u). Table_Canonical (fst e) \<noteq> Table_Canonical t)"
    by (auto simp: common_ok_def imap_GetZero_def)
  let ?calls = "ordered_calls m (concat order)"
  have "ordered_AcceptMultiBatch delegate watchers b s = accept_all delegate ?calls s" for s
    using cnt order(1) [OF co(2)] by (simp add: ordered_AcceptMultiBatch_def co(1) accept_levels_all)
  moreover have "map tb_Table ?calls = filter (\<lambda>t. \<exists>u \<in> set (temporal_batches b). \<exists>e \<in> set (tp_Data u).
         Table_Canonical (fst e) = Table_Canonical t) (concat order)"
    unfolding ordered_calls_tables none [rule_format] by simp
  moreover have "sorted_wrt (\<lambda>x y. mut_Time x \<le> mut_Time y) (tb_Data c)" if "c \<in> set ?calls" for c
    using ordered_calls_data [OF that] zero sorted_table_muts [OF ok] by simp
  moreover have "calls_muts ?calls = filter_mset (\<lambda>p. fst p \<in> Table_Canonical ` set (concat order)) (multi_muts b)"
    by (rule calls_muts_filter [OF order(2)]) (simp only: zero [rule_format] multi_muts_table)
  ultimately show ?thesis by blast
qed

text \<open>Witness for C26: a child before its parent in the batch, and a table that the order does not contain.\<close>

definition fk_tables :: "(Table, TableBatch) imap" where
  "fk_tables = map (\<lambda>n. (demo_table n, \<lparr>tb_Data = [demo_mut ''[1]'' 5], tb_Table = demo_table n, tb_Time = Time 5 0\<rparr>))
     [''child'', ''parent'', ''other'']"

definition fk_batch :: MultiBatch where
  "fk_batch = \<lparr>mb_store = [\<lparr>tp_Time = Time 5 0, tp_Data = fk_tables\<rparr>], mb_ByTime = [Time 5 0 \<mapsto> 0], mb_Data = [0]\<rparr>"

definition fk_order :: "Schema \<Rightarrow> (nat, Table list list) result" where
  "fk_order c = Inr [[demo_table ''parent''], [demo_table ''child'']]"

lemma demo_table_canon:
  "Table_Canonical (demo_table a) = Table_Canonical (demo_table b) \<longleftrightarrow> ToLower a = ToLower b"
  by (simp add: demo_table_def)

lemma demo_lower: "ToLower ''child'' = ''child''" "ToLower ''parent'' = ''parent''" "ToLower ''other'' = ''other''"
  by code_simp+

theorem ordered_AcceptMultiBatch_calls_witness:
  "\<exists>calls. (\<forall>s :: nat. ordered_AcceptMultiBatch (\<lambda>b s. Inr (Suc s)) fk_order fk_batch s = accept_all (\<lambda>b s. Inr (Suc s)) calls s)
    \<and> map tb_Table calls = [demo_table ''parent'', demo_table ''child''] \<and> size (calls_muts calls) < size (multi_muts fk_batch)"
proof -
  let ?b = fk_batch
  have ok: "multi_ok ?b"
    by (auto simp: multi_ok_def fk_batch_def fk_tables_def temporal_ok_def imap_invar_def demo_table_def demo_mut_def
        valid_time_def ToLower_def lower_char_def split: if_splits)
  have cnt: "MultiBatch_Count ?b \<noteq> 0"
    by (simp add: MultiBatch_Count_def temporal_batches_def fk_batch_def TemporalBatch_Count_def fk_tables_def TableBatch_Count_def)
  have sch: "\<forall>t \<in> set (temporal_batches ?b). \<forall>e \<in> set (tp_Data t). same_schema (Schema (Ident ''db'') NilIdent) (Table_Schema (fst e))"
    by (auto simp: temporal_batches_def fk_batch_def fk_tables_def same_schema_def demo_table_def)
  have order: "\<And>c. same_schema (Schema (Ident ''db'') NilIdent) c \<Longrightarrow> fk_order c = Inr [[demo_table ''parent''], [demo_table ''child'']]"
    by (simp add: fk_order_def)
  have "distinct (map Table_Canonical (concat [[demo_table ''parent''], [demo_table ''child'']]))"
    by (simp add: demo_table_def ToLower_def)
  from ordered_AcceptMultiBatch_calls [where delegate = "\<lambda>b (s :: nat). Inr (Suc s)" and watchers = fk_order, OF ok cnt sch order this]
  obtain calls where c: "\<forall>s. ordered_AcceptMultiBatch (\<lambda>b s. Inr (Suc s)) fk_order fk_batch s = accept_all (\<lambda>b s. Inr (Suc s)) calls s"
    "map tb_Table calls = filter (\<lambda>t. \<exists>u \<in> set (temporal_batches ?b). \<exists>e \<in> set (tp_Data u).
         Table_Canonical (fst e) = Table_Canonical t) [demo_table ''parent'', demo_table ''child'']"
    "calls_muts calls = filter_mset (\<lambda>p. fst p \<in> Table_Canonical ` {demo_table ''parent'', demo_table ''child''}) (multi_muts ?b)"
    by auto
  have muts: "multi_muts ?b = {#(Table_Canonical (demo_table ''child''), demo_mut ''[1]'' 5),
      (Table_Canonical (demo_table ''parent''), demo_mut ''[1]'' 5), (Table_Canonical (demo_table ''other''), demo_mut ''[1]'' 5)#}"
    by (simp add: multi_muts_def temporal_batches_def fk_batch_def temporal_muts_def fk_tables_def)
  have "map tb_Table calls = [demo_table ''parent'', demo_table ''child'']"
    unfolding c(2) by (simp add: temporal_batches_def fk_batch_def fk_tables_def)
  moreover have "size (calls_muts calls) < size (multi_muts ?b)"
    unfolding c(3) muts by (simp add: demo_table_canon demo_lower)
  ultimately show ?thesis using c(1) by (intro exI [of _ calls] conjI) assumption+
qed

text \<open>
  When the dependency query succeeds at the first attempt, with its rows ordered by depth as the query
  asks and no negative depth, \<open>getDependencyOrder\<close> returns one level per depth from zero to the
  greatest one, and level \<open>i\<close> has the tables of depth \<open>i\<close> in the order of the rows.
\<close>

theorem getDependencyOrder_levels:
  fixes gone :: 'e
  assumes "dep_parts_ok p db = None" "sorted (map snd rows)" "\<forall>r \<in> set rows. 0 \<le> snd r"
  shows "getDependencyOrder p db None shouldRetry gone (Rows (map to_row rows) # rest)
    = Inr (map (level_of db rows) [0..<nat (last (- 1 # map snd rows) + 1)])"
proof -
  have "dep_attempt db (Rows (map to_row rows) :: 'e dep_query) ([], []) = (None, [], map (level_of db rows) [0..<nat (last (- 1 # map snd rows) + 1)])"
    using dep_rows_levels [of "- 1" rows "[]" db "[]"] assms(2,3) by (force simp: dual_order.trans)
  then have "dep_callback db gone (Rows (map to_row rows) # rest, [], []) =
      (None, rest, [], map (level_of db rows) [0..<nat (last (- 1 # map snd rows) + 1)])"
    by (simp only: dep_callback_def list.case prod.case)
  then show ?thesis
    using assms(1) by (simp only: getDependencyOrder_def Retry_first option.case prod.case) simp
qed

text \<open>Witness for Two levels of a CockroachDB schema.\<close>

theorem getDependencyOrder_levels_witness:
  "getDependencyOrder ProductCockroachDB (Schema (Ident ''db'') Public) None (\<lambda>_ :: nat. True) 0
      [Rows (map to_row [(''a'', 0), (''b'', 0), (''c'', 1)])]
    = Inr [[Table (Schema (Ident ''db'') Public) (Ident ''a''), Table (Schema (Ident ''db'') Public) (Ident ''b'')],
           [Table (Schema (Ident ''db'') Public) (Ident ''c'')]]"
proof -
  have "dep_parts_ok ProductCockroachDB (Schema (Ident ''db'') Public) = None"
    by (simp add: dep_parts_ok_def Public_def)
  from getDependencyOrder_levels [OF this, of "[(''a'', 0), (''b'', 0), (''c'', 1)]" "\<lambda>_ :: nat. True" 0 "[]"]
  show ?thesis
    by (simp add: level_of_def row_table_def NewTable_def ident_New_def Public_def upt_rec)
qed

text \<open>
  A first attempt that fails with a retryable error after its first row leaves that row behind in
  the captured variables: the result after the retry has the table twice, and a spurious empty level.
\<close>

theorem getDependencyOrder_retry_duplicates:
  "getDependencyOrder ProductOracle (Schema (Ident ''db'') NilIdent) None (\<lambda>_ :: nat. True) 0
      [Rows [Row ''a'' 0, ScanErr 1], Rows [Row ''a'' 0, Row ''b'' 1]]
    = Inr [[demo_table ''a'', demo_table ''a''], [demo_table ''b''], []]"
  by (simp add: getDependencyOrder_def Retry_def Loop_def loop_from.simps dep_callback_def dep_parts_ok_def
      skip_levels_eq NewTable_def ident_New_def maxAttempts_def demo_table_def Let_def)

end
