(* ===== verification/ColumnMapping.thy ===== *)
theory ColumnMapping
  imports Applycfg Acceptors
begin

text \<open>
  The columns of a target table and the positions of the parameters of its statements:
  \<open>src/internal/target/apply/column\_mapping.go\<close>, the validation of a configuration in \<open>apply.go\<close>, and the
  generator \<open>Vars\<close> of \<open>templates.go\<close>.
\<close>

section \<open>Hinted names\<close>

record Hinted =
  hn_Base :: Table
  hn_Hint :: string

definition WithHint :: "Table \<Rightarrow> string \<Rightarrow> Hinted" where
  "WithHint t hint = \<lparr>hn_Base = t, hn_Hint = hint\<rparr>"

definition Hinted_Raw :: "Hinted \<Rightarrow> string" where
  "Hinted_Raw h = Table_Raw (hn_Base h) @ hn_Hint h"

definition Hinted_String :: "Hinted \<Rightarrow> string" where
  "Hinted_String h = Table_String (hn_Base h) @ hn_Hint h"

section \<open>The column mapping\<close>

record positionalColumn =
  pc_ColData :: ColData
  pc_DeleteIndex :: int
  pc_UpsertIndex :: int
  pc_ValidityIndex :: int

record columnMapping =
  cm_Conditions :: "ColData list"
  cm_Columns :: "ColData list"
  cm_Data :: "ColData list"
  cm_Deadlines :: "(Ident, int) imap"
  cm_DeleteParameterCount :: int
  cm_Exprs :: "(Ident, string) imap"
  cm_ExtrasColIdx :: int
  cm_Ignore :: "Ident list"
  cm_Merger :: "Merger option"
  cm_Positions :: "(Ident, positionalColumn) imap"
  cm_Product :: Product
  cm_PK :: "ColData list"
  cm_PKDelete :: "ColData list"
  cm_Renames :: "(Ident, Ident) imap"
  cm_RowLimit :: int
  cm_TableName :: Hinted
  cm_UpsertParameterCount :: int

datatype mapping_error =
    ColumnCollision Ident | CASNotFound Ident | DeadlineNotFound Ident | ExprNotFound Ident | ExtrasNotFound Ident
  | MergeNotTriggered | RenameNotFound Ident | UnsupportedProduct Product | NoDeletePosition Ident
  | UnimplementedReference Product

definition zero_ColData :: ColData where
  "zero_ColData = \<lparr>cd_DefaultExpr = [], cd_Ignored = False, cd_Name = NilIdent, cd_Parse = None, cd_Primary = False, cd_Type = []\<rparr>"

definition ColData_Equal :: "ColData \<Rightarrow> ColData \<Rightarrow> bool" where
  "ColData_Equal d o' \<longleftrightarrow>
     cd_DefaultExpr d = cd_DefaultExpr o' \<and> cd_Ignored d = cd_Ignored o'
     \<and> ident_Equal (IdAtom (cd_Name d)) (IdAtom (cd_Name o'))
     \<and> cd_Primary d = cd_Primary o' \<and> cd_Type d = cd_Type o'"

definition initial_mapping :: "Config \<Rightarrow> Product \<Rightarrow> Hinted \<Rightarrow> columnMapping" where
  "initial_mapping cfg product table =
     \<lparr>cm_Conditions = replicate (length (cfg_CASColumns cfg)) zero_ColData, cm_Columns = [], cm_Data = [],
      cm_Deadlines = [], cm_DeleteParameterCount = 0, cm_Exprs = [], cm_ExtrasColIdx = - 1, cm_Ignore = [],
      cm_Merger = (if length (cfg_CASColumns cfg) > 0 \<or> imap_Len (cfg_Deadlines cfg) > 0 then cfg_Merger cfg else None),
      cm_Positions = [], cm_Product = product, cm_PK = [], cm_PKDelete = [], cm_Renames = [],
      cm_RowLimit = (if cfg_RowLimit cfg \<le> 0 then DefaultRowLimit else cfg_RowLimit cfg),
      cm_TableName = table, cm_UpsertParameterCount = 0\<rparr>"

definition cas_map :: "Config \<Rightarrow> (Ident, nat) imap" where
  "cas_map cfg = fold (\<lambda>(idx, name). iput name idx) (enumerate 0 (cfg_CASColumns cfg)) []"

text \<open>What a column is used for, by the cascade of conditions of the loop.\<close>

datatype column_use = IgnoredBySchema | IgnoredByUser | FixedExpr | Parameter

definition column_use_of :: "Config \<Rightarrow> ColData \<Rightarrow> column_use" where
  "column_use_of cfg col =
     (if cd_Ignored col then IgnoredBySchema
      else if imap_GetZero False Ident_Canonical (cfg_Ignore cfg) (cd_Name col) then IgnoredByUser
      else case iget (cfg_Exprs cfg) (cd_Name col) of
        Some expr \<Rightarrow> if \<not> Contains expr SubstitutionToken then FixedExpr else Parameter
      | None \<Rightarrow> Parameter)"

text \<open>The second half of the loop body, for a column that is named in an upsert.\<close>

definition assemble_column :: "Config \<Rightarrow> ColData \<Rightarrow> int \<Rightarrow> columnMapping \<Rightarrow> columnMapping" where
  "assemble_column cfg col upsertPosition ret =
     (let ret1 = ret\<lparr>cm_Columns := cm_Columns ret @ [col]\<rparr>;
          ret2 = (if cd_Primary col then ret1\<lparr>cm_PK := cm_PK ret1 @ [col]\<rparr> else ret1\<lparr>cm_Data := cm_Data ret1 @ [col]\<rparr>);
          ret3 = (case iget (cas_map cfg) (cd_Name col) of
                    Some idx \<Rightarrow> ret2\<lparr>cm_Conditions := (cm_Conditions ret2)[idx := col]\<rparr> | None \<Rightarrow> ret2);
          ret4 = (case iget (cfg_Deadlines cfg) (cd_Name col) of
                    Some deadline \<Rightarrow> ret3\<lparr>cm_Deadlines := iput (cd_Name col) deadline (cm_Deadlines ret3)\<rparr> | None \<Rightarrow> ret3);
          ret5 = (case iget (cfg_Exprs cfg) (cd_Name col) of
                    Some expr \<Rightarrow> ret4\<lparr>cm_Exprs := iput (cd_Name col) expr (cm_Exprs ret4)\<rparr> | None \<Rightarrow> ret4)
      in if ident_Equal (IdAtom (cd_Name col)) (IdAtom (cfg_Extras cfg))
         then ret5\<lparr>cm_ExtrasColIdx := upsertPosition\<rparr> else ret5)"

text \<open>One iteration of the loop over the columns, with the index of the next parameter.\<close>

definition map_column :: "Config \<Rightarrow> ColData \<Rightarrow> columnMapping \<times> int \<Rightarrow> (mapping_error, columnMapping \<times> int) result" where
  "map_column cfg col st =
     (case st of (ret, currentParameterIndex) \<Rightarrow>
        if iget (cm_Positions ret) (cd_Name col) \<noteq> None then Inl (ColumnCollision (cd_Name col))
        else
          let deletePosition = (if cd_Primary col then int (length (cm_PKDelete ret)) else - 1);
              ret1 = (if cd_Primary col then ret\<lparr>cm_PKDelete := cm_PKDelete ret @ [col]\<rparr> else ret);
              use = column_use_of cfg col;
              ret2 = (if use = IgnoredBySchema then ret1\<lparr>cm_Ignore := cm_Ignore ret1 @ [cd_Name col]\<rparr> else ret1);
              validityPosition = (if use = Parameter \<and> cd_DefaultExpr col \<noteq> [] then currentParameterIndex else - 1);
              idx1 = (if use = Parameter \<and> cd_DefaultExpr col \<noteq> [] then currentParameterIndex + 1 else currentParameterIndex);
              upsertPosition = (if use = Parameter then idx1 else - 1);
              idx2 = (if use = Parameter then idx1 + 1 else idx1);
              willUpsert = (use = FixedExpr \<or> use = Parameter);
              ret3 = ret2\<lparr>cm_Positions := iput (cd_Name col)
                        \<lparr>pc_ColData = col, pc_DeleteIndex = deletePosition, pc_UpsertIndex = upsertPosition,
                         pc_ValidityIndex = validityPosition\<rparr> (cm_Positions ret2)\<rparr>
          in Inr (if willUpsert then assemble_column cfg col upsertPosition ret3 else ret3, idx2))"

fun map_columns :: "Config \<Rightarrow> ColData list \<Rightarrow> columnMapping \<times> int \<Rightarrow> (mapping_error, columnMapping \<times> int) result" where
  "map_columns cfg [] st = Inr st"
| "map_columns cfg (col # cols) st =
     (case map_column cfg col st of Inl e \<Rightarrow> Inl e | Inr st' \<Rightarrow> map_columns cfg cols st')"

text \<open>Names that are ignored without being columns, and the redundant positions under the source names.\<close>

definition ignore_name :: "Ident \<times> bool \<Rightarrow> columnMapping \<Rightarrow> columnMapping" where
  "ignore_name e ret =
     (case e of (tgt, _) \<Rightarrow>
        if iget (cm_Positions ret) tgt \<noteq> None then ret
        else ret\<lparr>cm_Ignore := cm_Ignore ret @ [tgt],
                 cm_Positions := iput tgt
                   \<lparr>pc_ColData = zero_ColData\<lparr>cd_Ignored := True, cd_Name := tgt, cd_Type := ''VOID''\<rparr>,
                    pc_DeleteIndex = - 1, pc_UpsertIndex = - 1, pc_ValidityIndex = - 1\<rparr> (cm_Positions ret)\<rparr>)"

definition rename_column :: "Ident \<times> Ident \<Rightarrow> columnMapping \<Rightarrow> columnMapping" where
  "rename_column e ret =
     (case e of (tgt, src) \<Rightarrow>
        let ret1 = ret\<lparr>cm_Renames := iput src tgt (cm_Renames ret)\<rparr>
        in case iget (cm_Positions ret1) tgt of
             Some found \<Rightarrow> ret1\<lparr>cm_Positions := iput src found (cm_Positions ret1)\<rparr>
           | None \<Rightarrow> ret1)"

definition newColumnMapping :: "Config \<Rightarrow> ColData list \<Rightarrow> Product \<Rightarrow> Hinted \<Rightarrow> (mapping_error, columnMapping) result" where
  "newColumnMapping cfg cols product table =
     (case map_columns cfg cols (initial_mapping cfg product table, 0) of
        Inl e \<Rightarrow> Inl e
      | Inr (ret, currentParameterIndex) \<Rightarrow>
          let ret1 = ret\<lparr>cm_DeleteParameterCount := int (length (cm_PKDelete ret)),
                         cm_UpsertParameterCount := currentParameterIndex\<rparr>
          in Inr (fold rename_column (cfg_SourceNames cfg) (fold ignore_name (cfg_Ignore cfg) ret1)))"

section \<open>Validation of a configuration\<close>

fun first_missing :: "(Ident, unit) imap \<Rightarrow> (Ident \<Rightarrow> mapping_error) \<Rightarrow> Ident list \<Rightarrow> mapping_error option" where
  "first_missing allColNames err [] = None"
| "first_missing allColNames err (col # names) =
     (if iget allColNames col = None then Some (err col) else first_missing allColNames err names)"

definition validate :: "Config \<Rightarrow> ColData list \<Rightarrow> mapping_error option" where
  "validate configData schemaData =
     (let allColNames = fold (\<lambda>col. iput (cd_Name col) ()) schemaData [];
          missing = first_missing allColNames
      in case missing CASNotFound (cfg_CASColumns configData) of
           Some e \<Rightarrow> Some e
         | None \<Rightarrow>
         (case missing DeadlineNotFound (map fst (cfg_Deadlines configData)) of
            Some e \<Rightarrow> Some e
          | None \<Rightarrow>
          (case missing ExprNotFound (map fst (cfg_Exprs configData)) of
             Some e \<Rightarrow> Some e
           | None \<Rightarrow>
             if \<not> Ident_Empty (cfg_Extras configData) \<and> iget allColNames (cfg_Extras configData) = None
             then Some (ExtrasNotFound (cfg_Extras configData))
             else if cfg_Merger configData \<noteq> None \<and> length (cfg_CASColumns configData) + imap_Len (cfg_Deadlines configData) = 0
             then Some MergeNotTriggered
             else missing RenameNotFound (map fst (cfg_SourceNames configData)))))"

section \<open>Templates\<close>

text \<open>A SQL template is named by its directory and its file.\<close>

datatype dialect = TmplCRDB | TmplMy | TmplOra | TmplPG

record templates =
  tm_mapping :: columnMapping
  tm_BulkDelete :: bool
  tm_BulkUpsert :: bool
  tm_conditional :: "dialect \<times> string"
  tm_delete :: "dialect \<times> string"
  tm_upsert :: "dialect \<times> string"
  tm_tmpl :: dialect
  tm_ForDelete :: bool
  tm_RowCount :: int

definition dialect_templates :: "dialect \<Rightarrow> columnMapping \<Rightarrow> templates" where
  "dialect_templates d mapping =
     \<lparr>tm_mapping = mapping, tm_BulkDelete = False, tm_BulkUpsert = False,
      tm_conditional = (d, ''conditional.tmpl''), tm_delete = (d, ''delete.tmpl''), tm_upsert = (d, ''upsert.tmpl''),
      tm_tmpl = d, tm_ForDelete = False, tm_RowCount = 0\<rparr>"

definition newTemplates :: "columnMapping \<Rightarrow> (mapping_error, templates) result" where
  "newTemplates mapping =
     (case cm_Product mapping of
        ProductCockroachDB \<Rightarrow> Inr (dialect_templates TmplCRDB mapping)
      | ProductMariaDB \<Rightarrow> Inr (dialect_templates TmplMy mapping)
      | ProductMySQL \<Rightarrow> Inr (dialect_templates TmplMy mapping)
      | ProductOracle \<Rightarrow>
          Inr ((dialect_templates TmplOra mapping)
                 \<lparr>tm_BulkDelete := True, tm_BulkUpsert := True, tm_conditional := (TmplOra, ''upsert.tmpl'')\<rparr>)
      | ProductPostgreSQL \<Rightarrow> Inr (dialect_templates TmplPG mapping)
      | ProductUnknown \<Rightarrow> Inl (UnsupportedProduct (cm_Product mapping)))"

record varPair =
  vp_Column :: ColData
  vp_Expr :: string
  vp_Param :: int
  vp_ValidityParam :: int

definition zero_position :: positionalColumn where
  "zero_position = \<lparr>pc_ColData = zero_ColData, pc_DeleteIndex = 0, pc_UpsertIndex = 0, pc_ValidityIndex = 0\<rparr>"

definition param_reference :: "Product \<Rightarrow> int \<Rightarrow> (mapping_error, string) result" where
  "param_reference product param =
     (case product of
        ProductCockroachDB \<Rightarrow> Inr (CHR ''$'' # show_int param)
      | ProductPostgreSQL \<Rightarrow> Inr (CHR ''$'' # show_int param)
      | ProductMariaDB \<Rightarrow> Inr ''?''
      | ProductMySQL \<Rightarrow> Inr ''?''
      | ProductOracle \<Rightarrow> Inr ('':ref'' @ show_int param)
      | ProductUnknown \<Rightarrow> Inl (UnimplementedReference product))"

definition column_var :: "templates \<Rightarrow> int \<Rightarrow> ColData \<Rightarrow> (mapping_error, varPair) result" where
  "column_var t row col =
     (let cm = tm_mapping t;
          positions = imap_GetZero zero_position Ident_Canonical (cm_Positions cm) (cd_Name col);
          vp0 = \<lparr>vp_Column = col, vp_Expr = [], vp_Param = 0, vp_ValidityParam = 0\<rparr>
      in case (if tm_ForDelete t then
                 let offset = row * cm_DeleteParameterCount cm
                 in if pc_DeleteIndex positions \<ge> 0 then Inr (vp0\<lparr>vp_Param := offset + pc_DeleteIndex positions + 1\<rparr>)
                    else Inl (NoDeletePosition (cd_Name col))
               else
                 let offset = row * cm_UpsertParameterCount cm;
                     vp1 = vp0\<lparr>vp_Param := offset + pc_UpsertIndex positions + 1\<rparr>
                 in Inr (if pc_ValidityIndex positions \<ge> 0
                         then vp1\<lparr>vp_ValidityParam := offset + pc_ValidityIndex positions + 1\<rparr> else vp1)) of
           Inl e \<Rightarrow> Inl e
         | Inr vp \<Rightarrow>
             (case iget (cm_Exprs cm) (cd_Name col) of
                None \<Rightarrow> Inr vp
              | Some pattern \<Rightarrow>
                  (case param_reference (cm_Product cm) (vp_Param vp) of
                     Inl e \<Rightarrow> Inl e
                   | Inr reference \<Rightarrow> Inr (vp\<lparr>vp_Expr := ReplaceAll pattern SubstitutionToken reference\<rparr>))))"

fun all_results :: "('a \<Rightarrow> ('e, 'b) result) \<Rightarrow> 'a list \<Rightarrow> ('e, 'b list) result" where
  "all_results f [] = Inr []"
| "all_results f (x # xs) =
     (case f x of Inl e \<Rightarrow> Inl e | Inr y \<Rightarrow> (case all_results f xs of Inl e \<Rightarrow> Inl e | Inr ys \<Rightarrow> Inr (y # ys)))"

definition Vars :: "templates \<Rightarrow> (mapping_error, varPair list list) result" where
  "Vars t =
     all_results (\<lambda>row. all_results (column_var t (int row))
       (if tm_ForDelete t then cm_PKDelete (tm_mapping t) else cm_Columns (tm_mapping t)))
       [0..<nat (tm_RowCount t)]"

section \<open>The positions of the parameters\<close>

text \<open>The reference: the columns take their parameters one after the other, a validity flag before its value.\<close>

definition width :: "Config \<Rightarrow> ColData \<Rightarrow> int" where
  "width cfg col = (if column_use_of cfg col = Parameter then if cd_DefaultExpr col \<noteq> [] then 2 else 1 else 0)"

definition will_upsert :: "Config \<Rightarrow> ColData \<Rightarrow> bool" where
  "will_upsert cfg col \<longleftrightarrow> column_use_of cfg col = FixedExpr \<or> column_use_of cfg col = Parameter"

definition position_at :: "Config \<Rightarrow> int \<Rightarrow> int \<Rightarrow> ColData \<Rightarrow> positionalColumn" where
  "position_at cfg d n col =
     \<lparr>pc_ColData = col, pc_DeleteIndex = (if cd_Primary col then d else - 1),
      pc_UpsertIndex = (if column_use_of cfg col = Parameter then n + width cfg col - 1 else - 1),
      pc_ValidityIndex = (if width cfg col = 2 then n else - 1)\<rparr>"

fun place :: "Config \<Rightarrow> int \<Rightarrow> int \<Rightarrow> ColData list \<Rightarrow> (Ident, positionalColumn) imap" where
  "place cfg d n [] = []"
| "place cfg d n (col # cols) =
     (cd_Name col, position_at cfg d n col)
     # place cfg (if cd_Primary col then d + 1 else d) (n + width cfg col) cols"

definition cols_distinct :: "ColData list \<Rightarrow> bool" where
  "cols_distinct cols \<longleftrightarrow> distinct (map (\<lambda>col. Ident_Canonical (cd_Name col)) cols)"

lemma width_nonneg [simp]: "0 \<le> width cfg col"
  by (simp add: width_def)

lemma assemble_column_fields [simp]:
  "cm_Positions (assemble_column cfg col u ret) = cm_Positions ret"
  "cm_PKDelete (assemble_column cfg col u ret) = cm_PKDelete ret"
  "cm_Ignore (assemble_column cfg col u ret) = cm_Ignore ret"
  "cm_Columns (assemble_column cfg col u ret) = cm_Columns ret @ [col]"
  "cm_Product (assemble_column cfg col u ret) = cm_Product ret"
  "cm_Merger (assemble_column cfg col u ret) = cm_Merger ret"
  "cm_RowLimit (assemble_column cfg col u ret) = cm_RowLimit ret"
  by (simp_all add: assemble_column_def Let_def split: option.splits)

lemma map_column_fresh:
  assumes "Ident_Canonical (cd_Name col) \<notin> ikeys (cm_Positions ret)"
  shows "\<exists>ret'. map_column cfg col (ret, n) = Inr (ret', n + width cfg col)
    \<and> cm_Positions ret' = cm_Positions ret @ [(cd_Name col, position_at cfg (int (length (cm_PKDelete ret))) n col)]
    \<and> cm_PKDelete ret' = cm_PKDelete ret @ (if cd_Primary col then [col] else [])
    \<and> cm_Columns ret' = cm_Columns ret @ (if will_upsert cfg col then [col] else [])
    \<and> cm_Ignore ret' = cm_Ignore ret @ (if cd_Ignored col then [cd_Name col] else [])"
proof -
  have "iget (cm_Positions ret) (cd_Name col) = None" using assms by (simp add: iget_None_iff)
  moreover have "column_use_of cfg col = IgnoredBySchema \<longleftrightarrow> cd_Ignored col"
    by (simp add: column_use_of_def split: option.splits)
  ultimately show ?thesis
    using assms
    by (cases "column_use_of cfg col")
       (simp_all add: map_column_def Let_def iput_fresh position_at_def width_def will_upsert_def)
qed

lemma map_columns_place:
  assumes "cols_distinct cols" "\<forall>col \<in> set cols. Ident_Canonical (cd_Name col) \<notin> ikeys (cm_Positions ret)"
  shows "\<exists>ret'. map_columns cfg cols (ret, n) = Inr (ret', n + sum_list (map (width cfg) cols))
    \<and> cm_Positions ret' = cm_Positions ret @ place cfg (int (length (cm_PKDelete ret))) n cols
    \<and> cm_PKDelete ret' = cm_PKDelete ret @ filter cd_Primary cols
    \<and> cm_Columns ret' = cm_Columns ret @ filter (will_upsert cfg) cols
    \<and> cm_Ignore ret' = cm_Ignore ret @ map cd_Name (filter cd_Ignored cols)"
  using assms
proof (induction cols arbitrary: ret n)
  case (Cons col cols)
  obtain ret1 where r: "map_column cfg col (ret, n) = Inr (ret1, n + width cfg col)"
    "cm_Positions ret1 = cm_Positions ret @ [(cd_Name col, position_at cfg (int (length (cm_PKDelete ret))) n col)]"
    "cm_PKDelete ret1 = cm_PKDelete ret @ (if cd_Primary col then [col] else [])"
    "cm_Columns ret1 = cm_Columns ret @ (if will_upsert cfg col then [col] else [])"
    "cm_Ignore ret1 = cm_Ignore ret @ (if cd_Ignored col then [cd_Name col] else [])"
    using map_column_fresh [of col ret cfg n] Cons.prems(2) by auto
  have "ikeys (cm_Positions ret1) = insert (Ident_Canonical (cd_Name col)) (ikeys (cm_Positions ret))"
    by (auto simp: r(2) ikeys_def)
  then have "\<forall>c \<in> set cols. Ident_Canonical (cd_Name c) \<notin> ikeys (cm_Positions ret1)"
    using Cons.prems by (auto simp: cols_distinct_def image_iff)
  moreover have "cols_distinct cols" using Cons.prems(1) by (simp add: cols_distinct_def)
  ultimately show ?case
    using Cons.IH [of ret1 "n + width cfg col"] r by (auto simp: add_ac)
qed simp

lemma iget_fold_ignore:
  "iget (cm_Positions ret) k \<noteq> None \<Longrightarrow> iget (cm_Positions (fold ignore_name es ret)) k = iget (cm_Positions ret) k"
proof (induction es arbitrary: ret)
  case (Cons e es)
  obtain tgt b where e: "e = (tgt, b)" by force
  have "iget (cm_Positions (ignore_name e ret)) k = iget (cm_Positions ret) k"
    using Cons.prems iget_cong [of tgt k "cm_Positions ret"] by (auto simp: e ignore_name_def imap_Get_Put)
  then show ?case using Cons by simp
qed simp

lemma iget_fold_rename:
  assumes "\<forall>(tgt, src) \<in> set es. Ident_Canonical src = Ident_Canonical k \<longrightarrow> Ident_Canonical tgt = Ident_Canonical k"
  shows "iget (cm_Positions (fold rename_column es ret)) k = iget (cm_Positions ret) k"
  using assms
proof (induction es arbitrary: ret)
  case (Cons e es)
  obtain tgt src where e: "e = (tgt, src)" by force
  have "iget (cm_Positions (rename_column e ret)) k = iget (cm_Positions ret) k"
    using Cons.prems iget_cong [of tgt k "cm_Positions ret"]
    by (auto simp: e rename_column_def Let_def imap_Get_Put split: option.splits)
  then show ?case using Cons by simp
qed simp

lemma fold_after_fields:
  "cm_Columns (fold rename_column es (fold ignore_name is ret)) = cm_Columns ret"
  "cm_PKDelete (fold rename_column es (fold ignore_name is ret)) = cm_PKDelete ret"
  "cm_UpsertParameterCount (fold rename_column es (fold ignore_name is ret)) = cm_UpsertParameterCount ret"
  "cm_DeleteParameterCount (fold rename_column es (fold ignore_name is ret)) = cm_DeleteParameterCount ret"
proof -
  have r: "cm_Columns (fold rename_column es ret) = cm_Columns ret \<and> cm_PKDelete (fold rename_column es ret) = cm_PKDelete ret
    \<and> cm_UpsertParameterCount (fold rename_column es ret) = cm_UpsertParameterCount ret
    \<and> cm_DeleteParameterCount (fold rename_column es ret) = cm_DeleteParameterCount ret" for ret
    by (induction es arbitrary: ret) (auto simp: rename_column_def Let_def split: option.splits)
  have i: "cm_Columns (fold ignore_name is ret) = cm_Columns ret \<and> cm_PKDelete (fold ignore_name is ret) = cm_PKDelete ret
    \<and> cm_UpsertParameterCount (fold ignore_name is ret) = cm_UpsertParameterCount ret
    \<and> cm_DeleteParameterCount (fold ignore_name is ret) = cm_DeleteParameterCount ret" for ret
    by (induction "is" arbitrary: ret) (auto simp: ignore_name_def)
  show "cm_Columns (fold rename_column es (fold ignore_name is ret)) = cm_Columns ret"
    "cm_PKDelete (fold rename_column es (fold ignore_name is ret)) = cm_PKDelete ret"
    "cm_UpsertParameterCount (fold rename_column es (fold ignore_name is ret)) = cm_UpsertParameterCount ret"
    "cm_DeleteParameterCount (fold rename_column es (fold ignore_name is ret)) = cm_DeleteParameterCount ret"
    using r i by simp_all
qed

lemma iget_place:
  "\<lbrakk>cols_distinct cols; i < length cols\<rbrakk> \<Longrightarrow>
   iget (place cfg d n cols) (cd_Name (cols ! i))
   = Some (position_at cfg (d + int (length (filter cd_Primary (take i cols)))) (n + sum_list (map (width cfg) (take i cols))) (cols ! i))"
proof (induction cols arbitrary: d n i)
  case (Cons col cols)
  show ?case
  proof (cases i)
    case (Suc j)
    have "Ident_Canonical (cd_Name col) \<noteq> Ident_Canonical (cd_Name (cols ! j))"
      using Cons.prems Suc by (auto simp: cols_distinct_def)
    moreover have "cols_distinct cols" using Cons.prems(1) by (simp add: cols_distinct_def)
    ultimately show ?thesis using Cons.IH [of j] Cons.prems(2) Suc by (simp add: add_ac)
  qed simp
qed simp

text \<open>Reading off the indexes of the columns in order gives the parameters in order.\<close>

definition position :: "columnMapping \<Rightarrow> ColData \<Rightarrow> positionalColumn" where
  "position cm col = imap_GetZero zero_position Ident_Canonical (cm_Positions cm) (cd_Name col)"

definition param_slots :: "positionalColumn \<Rightarrow> int list" where
  "param_slots p = filter (\<lambda>i. 0 \<le> i) [pc_ValidityIndex p, pc_UpsertIndex p]"

lemma param_slots_position_at:
  "0 \<le> n \<Longrightarrow> param_slots (position_at cfg d n col) = [n..n + width cfg col - 1]"
  by (auto simp: param_slots_def position_at_def width_def upto_rec1)

lemma width_upsert: "\<not> will_upsert cfg col \<Longrightarrow> width cfg col = 0"
  by (simp add: will_upsert_def width_def)

lemma upto_append: "\<lbrakk>n \<le> m; m \<le> k\<rbrakk> \<Longrightarrow> [n..m - 1] @ [m..k - 1] = [n..k - 1]" for n m k :: int
  by (cases "m = k") (simp_all add: upto_split1 [of n m "k - 1"])

lemma slots_nth:
  assumes "0 \<le> n"
    and "\<And>i. i < length cols \<Longrightarrow> P (cols ! i)
      = position_at cfg (D i) (n + sum_list (map (width cfg) (take i cols))) (cols ! i)"
  shows "concat (map (\<lambda>col. param_slots (P col)) (filter (will_upsert cfg) cols)) = [n..n + sum_list (map (width cfg) cols) - 1]"
  using assms
proof (induction cols arbitrary: n D)
  case (Cons col cols)
  have p0: "P col = position_at cfg (D 0) n col" using Cons.prems(2) [of 0] by simp
  have "P (cols ! i) = position_at cfg (D (Suc i)) (n + width cfg col + sum_list (map (width cfg) (take i cols))) (cols ! i)"
    if "i < length cols" for i
    using Cons.prems(2) [of "Suc i"] that by (simp add: add_ac)
  then have rest: "concat (map (\<lambda>col. param_slots (P col)) (filter (will_upsert cfg) cols))
      = [n + width cfg col..n + width cfg col + sum_list (map (width cfg) cols) - 1]"
    using Cons.IH [of "n + width cfg col" "\<lambda>i. D (Suc i)"] Cons.prems(1) by simp
  have nonneg: "0 \<le> sum_list (map (width cfg) cols)" by (intro sum_list_nonneg) auto
  have "[n..n + width cfg col - 1] @ [n + width cfg col..n + width cfg col + sum_list (map (width cfg) cols) - 1]
      = [n..n + width cfg col + sum_list (map (width cfg) cols) - 1]"
    by (rule upto_append) (use nonneg in auto)
  then show ?case
    using rest param_slots_position_at [OF Cons.prems(1), of cfg "D 0" col] width_upsert [of cfg col] p0
    by (auto simp: add_ac)
qed simp

lemma delete_nth:
  assumes "\<And>i. i < length cols \<Longrightarrow> P (cols ! i)
      = position_at cfg (d + int (length (filter cd_Primary (take i cols)))) (N i) (cols ! i)"
  shows "map (\<lambda>col. pc_DeleteIndex (P col)) (filter cd_Primary cols) = [d..d + int (length (filter cd_Primary cols)) - 1]"
  using assms
proof (induction cols arbitrary: d N)
  case (Cons col cols)
  have p0: "P col = position_at cfg d (N 0) col" using Cons.prems [of 0] by simp
  let ?d = "if cd_Primary col then d + 1 else d"
  have "P (cols ! i) = position_at cfg (?d + int (length (filter cd_Primary (take i cols)))) (N (Suc i)) (cols ! i)"
    if "i < length cols" for i
    using Cons.prems [of "Suc i"] that by (auto simp: add_ac)
  then have "map (\<lambda>col. pc_DeleteIndex (P col)) (filter cd_Primary cols) = [?d..?d + int (length (filter cd_Primary cols)) - 1]"
    using Cons.IH [of ?d "\<lambda>i. N (Suc i)"] by blast
  then show ?case using p0 by (auto simp: position_at_def upto_rec1 [of d] add_ac)
qed simp

text \<open>No source name is the name of another column of the target.\<close>

definition renames_safe :: "Config \<Rightarrow> ColData list \<Rightarrow> bool" where
  "renames_safe cfg cols \<longleftrightarrow>
     list_all (\<lambda>(tgt, src). list_all (\<lambda>col. Ident_Canonical src = Ident_Canonical (cd_Name col)
       \<longrightarrow> Ident_Canonical tgt = Ident_Canonical (cd_Name col)) cols) (cfg_SourceNames cfg)"

lemma newColumnMapping_positions:
  assumes "cols_distinct cols" "renames_safe cfg cols"
  shows "\<exists>cm. newColumnMapping cfg cols product table = Inr cm
    \<and> cm_Columns cm = filter (will_upsert cfg) cols \<and> cm_PKDelete cm = filter cd_Primary cols
    \<and> cm_UpsertParameterCount cm = sum_list (map (width cfg) cols)
    \<and> cm_DeleteParameterCount cm = int (length (filter cd_Primary cols))
    \<and> (\<forall>i < length cols. iget (cm_Positions cm) (cd_Name (cols ! i))
         = Some (position_at cfg (int (length (filter cd_Primary (take i cols)))) (sum_list (map (width cfg) (take i cols))) (cols ! i)))"
proof -
  let ?init = "initial_mapping cfg product table"
  obtain ret where r: "map_columns cfg cols (?init, 0) = Inr (ret, 0 + sum_list (map (width cfg) cols))"
    "cm_Positions ret = cm_Positions ?init @ place cfg (int (length (cm_PKDelete ?init))) 0 cols"
    "cm_PKDelete ret = cm_PKDelete ?init @ filter cd_Primary cols"
    "cm_Columns ret = cm_Columns ?init @ filter (will_upsert cfg) cols"
    using map_columns_place [OF assms(1), of ?init cfg 0] by (auto simp: initial_mapping_def)
  let ?ret1 = "ret\<lparr>cm_DeleteParameterCount := int (length (cm_PKDelete ret)), cm_UpsertParameterCount := sum_list (map (width cfg) cols)\<rparr>"
  let ?cm = "fold rename_column (cfg_SourceNames cfg) (fold ignore_name (cfg_Ignore cfg) ?ret1)"
  have "newColumnMapping cfg cols product table = Inr ?cm" by (simp add: newColumnMapping_def r(1) Let_def)
  moreover have "iget (cm_Positions ?cm) (cd_Name (cols ! i))
      = Some (position_at cfg (int (length (filter cd_Primary (take i cols)))) (sum_list (map (width cfg) (take i cols))) (cols ! i))"
    if i: "i < length cols" for i
  proof -
    have "\<forall>(tgt, src) \<in> set (cfg_SourceNames cfg). Ident_Canonical src = Ident_Canonical (cd_Name (cols ! i))
        \<longrightarrow> Ident_Canonical tgt = Ident_Canonical (cd_Name (cols ! i))"
      using assms(2) i by (auto simp: renames_safe_def list_all_iff)
    then have "iget (cm_Positions ?cm) (cd_Name (cols ! i))
        = iget (cm_Positions (fold ignore_name (cfg_Ignore cfg) ?ret1)) (cd_Name (cols ! i))"
      by (rule iget_fold_rename)
    also have "\<dots> = iget (cm_Positions ?ret1) (cd_Name (cols ! i))"
      by (rule iget_fold_ignore) (simp add: r(2) initial_mapping_def iget_place [OF assms(1) i])
    finally show ?thesis using r(2) iget_place [OF assms(1) i, of cfg 0 0] by (simp add: initial_mapping_def)
  qed
  ultimately show ?thesis
    using r(3,4) fold_after_fields [of "cfg_SourceNames cfg" "cfg_Ignore cfg" ?ret1]
    by (intro exI [of _ ?cm]) (auto simp: initial_mapping_def)
qed

section \<open>Properties\<close>

text \<open>
  C31: the parameters of the statements. For a table whose columns have different canonical names and a configuration that
  does not rename one column to the name of another, \<open>newColumnMapping\<close> succeeds and the validity and value
  indexes of the upserted columns, read in order, are exactly the numbers below \<open>UpsertParameterCount\<close>: every
  parameter belongs to one column and has one meaning. The primary key columns have the delete parameters in order.
\<close>

theorem newColumnMapping_parameters:
  assumes "cols_distinct cols" "renames_safe cfg cols"
  shows "\<exists>cm. newColumnMapping cfg cols product table = Inr cm
    \<and> cm_Columns cm = filter (will_upsert cfg) cols
    \<and> concat (map (\<lambda>col. param_slots (position cm col)) (cm_Columns cm)) = [0..cm_UpsertParameterCount cm - 1]
    \<and> map (\<lambda>col. pc_DeleteIndex (position cm col)) (cm_PKDelete cm) = [0..cm_DeleteParameterCount cm - 1]"
proof -
  obtain cm where cm: "newColumnMapping cfg cols product table = Inr cm"
    "cm_Columns cm = filter (will_upsert cfg) cols" "cm_PKDelete cm = filter cd_Primary cols"
    "cm_UpsertParameterCount cm = sum_list (map (width cfg) cols)"
    "cm_DeleteParameterCount cm = int (length (filter cd_Primary cols))"
    "\<forall>i < length cols. iget (cm_Positions cm) (cd_Name (cols ! i))
       = Some (position_at cfg (int (length (filter cd_Primary (take i cols)))) (sum_list (map (width cfg) (take i cols))) (cols ! i))"
    using newColumnMapping_positions [OF assms, of product table] by blast
  have pos: "position cm (cols ! i)
      = position_at cfg (0 + int (length (filter cd_Primary (take i cols)))) (0 + sum_list (map (width cfg) (take i cols))) (cols ! i)"
    if "i < length cols" for i
    using cm(6) that by (simp add: position_def imap_GetZero_def)
  have "concat (map (\<lambda>col. param_slots (position cm col)) (cm_Columns cm)) = [0..cm_UpsertParameterCount cm - 1]"
    unfolding cm(2,4) using slots_nth [OF order_refl pos] by simp
  moreover have "map (\<lambda>col. pc_DeleteIndex (position cm col)) (cm_PKDelete cm) = [0..cm_DeleteParameterCount cm - 1]"
    unfolding cm(3,5) using delete_nth [OF pos] by simp
  ultimately show ?thesis using cm(1,2) by blast
qed

text \<open>Witness for C31: a table with a default, an ignored column and a renamed one.\<close>

definition demo_cols :: "ColData list" where
  "demo_cols = [demo_col ''id'' True, (demo_col ''a'' False)\<lparr>cd_DefaultExpr := ''1''\<rparr>, (demo_col ''g'' False)\<lparr>cd_Ignored := True\<rparr>, demo_col ''b'' False]"

definition demo_config :: Config where
  "demo_config = NewConfig\<lparr>cfg_SourceNames := [(Ident ''b'', Ident ''bee'')]\<rparr>"

theorem newColumnMapping_parameters_witness:
  "\<exists>cm. newColumnMapping demo_config demo_cols ProductCockroachDB (WithHint NilTable []) = Inr cm
    \<and> concat (map (\<lambda>col. param_slots (position cm col)) (cm_Columns cm)) = [0..cm_UpsertParameterCount cm - 1]
    \<and> cm_UpsertParameterCount cm = 4"
proof -
  have h: "cols_distinct demo_cols" "renames_safe demo_config demo_cols" by code_simp+
  have "(case newColumnMapping demo_config demo_cols ProductCockroachDB (WithHint NilTable []) of
      Inl _ \<Rightarrow> False | Inr cm \<Rightarrow> cm_UpsertParameterCount cm = 4)" by code_simp
  then show ?thesis using newColumnMapping_parameters [OF h, of ProductCockroachDB "WithHint NilTable []"] by auto
qed

text \<open>
  Without that condition the mapping is wrong. When two columns take each other's name from the source, the
  redundant positions overwrite the ones of the columns: both columns have the same parameter, another
  parameter belongs to none, and no error is reported.
\<close>

theorem swapped_renames_share_parameter:
  "validate (NewConfig\<lparr>cfg_SourceNames := [(Ident ''a'', Ident ''b''), (Ident ''b'', Ident ''a'')]\<rparr>)
     [demo_col ''id'' True, demo_col ''a'' False, demo_col ''b'' False] = None
   \<and> (case newColumnMapping (NewConfig\<lparr>cfg_SourceNames := [(Ident ''a'', Ident ''b''), (Ident ''b'', Ident ''a'')]\<rparr>)
        [demo_col ''id'' True, demo_col ''a'' False, demo_col ''b'' False] ProductCockroachDB (WithHint NilTable []) of
        Inl _ \<Rightarrow> False
      | Inr cm \<Rightarrow> cm_UpsertParameterCount cm = 3
          \<and> pc_UpsertIndex (position cm (demo_col ''a'' False)) = 1
          \<and> pc_UpsertIndex (position cm (demo_col ''b'' False)) = 1)"
  by code_simp

text \<open>A condition column that is ignored by the user leaves an empty entry in the comparison tuple.\<close>

lemma ignored_cas_column_is_empty:
  "validate (NewConfig\<lparr>cfg_CASColumns := [Ident ''a''], cfg_Ignore := [(Ident ''a'', True)]\<rparr>)
     [demo_col ''id'' True, demo_col ''a'' False] = None
   \<and> (case newColumnMapping (NewConfig\<lparr>cfg_CASColumns := [Ident ''a''], cfg_Ignore := [(Ident ''a'', True)]\<rparr>)
        [demo_col ''id'' True, demo_col ''a'' False] ProductCockroachDB (WithHint NilTable []) of
        Inl _ \<Rightarrow> False
      | Inr cm \<Rightarrow> map cd_Name (cm_Conditions cm) = [NilIdent])"
  by code_simp

text \<open>A column with a fixed expression has the parameter 0 in the first row only.\<close>

lemma fixed_expr_param_not_zero:
  "(case newColumnMapping (NewConfig\<lparr>cfg_Exprs := [(Ident ''a'', ''now()'')]\<rparr>)
        [demo_col ''id'' True, demo_col ''a'' False] ProductCockroachDB (WithHint NilTable []) of
      Inl _ \<Rightarrow> False
    | Inr cm \<Rightarrow>
        (case newTemplates cm of Inl _ \<Rightarrow> False
         | Inr t \<Rightarrow> (case Vars (t\<lparr>tm_RowCount := 2\<rparr>) of
              Inl _ \<Rightarrow> False | Inr rows \<Rightarrow> map (map vp_Param) rows = [[1, 0], [2, 1]])))"
  by code_simp

end
