(* ===== verification/Pjson.thy ===== *)
theory Pjson
  imports Prelude
begin

text \<open>
  The parallel JSON encoder and decoder, \<open>src/internal/util/pjson\<close>: a fixed number of workers, each of which handles
  every n-th element. The decoder and the encoder of one element are arguments. The workers are run one after the
  other; they write to different elements of the destination, and an error of any of them is an error of the whole.
\<close>

text \<open>The loop of a worker from the index \<open>idx\<close>; a worker exists only if the number of workers is positive.\<close>

function worker_loop :: "(nat \<Rightarrow> ('e, 'a) result) \<Rightarrow> nat \<Rightarrow> nat \<Rightarrow> 'a list \<Rightarrow> ('e, 'a list) result" where
  "worker_loop step numWorkers idx dest =
     (if idx < length dest \<and> 0 < numWorkers then
        (case step idx of
           Inl e \<Rightarrow> Inl e
         | Inr v \<Rightarrow> worker_loop step numWorkers (idx + numWorkers) (dest[idx := v]))
      else Inr dest)"
  by pat_completeness auto
termination by (relation "measure (\<lambda>(_, _, idx, dest). length dest - idx)") auto

declare worker_loop.simps [simp del]

fun run_workers :: "(nat \<Rightarrow> ('e, 'a) result) \<Rightarrow> nat \<Rightarrow> nat list \<Rightarrow> 'a list \<Rightarrow> ('e, 'a list) result" where
  "run_workers step numWorkers [] dest = Inr dest"
| "run_workers step numWorkers (worker # ws) dest =
     (case worker_loop step numWorkers worker dest of
        Inl e \<Rightarrow> Inl e
      | Inr dest' \<Rightarrow> run_workers step numWorkers ws dest')"

definition pjson_Decode :: "nat \<Rightarrow> ('j \<Rightarrow> ('e, 'a) result) \<Rightarrow> 'a list \<Rightarrow> (nat \<Rightarrow> 'j) \<Rightarrow> (nat \<times> 'e, 'a list) result" where
  "pjson_Decode numWorkers decode dest src =
     run_workers (\<lambda>idx. case decode (src idx) of Inl e \<Rightarrow> Inl (idx, e) | Inr v \<Rightarrow> Inr v) numWorkers [0..<numWorkers] dest"

definition pjson_Encode :: "nat \<Rightarrow> ('t \<Rightarrow> ('e, 'a) result) \<Rightarrow> 'a list \<Rightarrow> (nat \<Rightarrow> 't) \<Rightarrow> ('e, 'a list) result" where
  "pjson_Encode numWorkers marshal dest src = run_workers (\<lambda>idx. marshal (src idx)) numWorkers [0..<numWorkers] dest"

section \<open>Every element is handled\<close>

text \<open>The elements a worker handles from \<open>idx\<close> on.\<close>

definition in_stripe :: "nat \<Rightarrow> nat \<Rightarrow> nat \<Rightarrow> bool" where
  "in_stripe n idx i \<longleftrightarrow> idx \<le> i \<and> i mod n = idx mod n"

lemma in_stripe_step: "0 < n \<Longrightarrow> in_stripe n idx i \<longleftrightarrow> i = idx \<or> in_stripe n (idx + n) i"
proof -
  assume n: "0 < n"
  have "idx + n \<le> i" if "idx \<le> i" "i mod n = idx mod n" "i \<noteq> idx"
  proof -
    have "n dvd i - idx" using that by (simp add: mod_eq_dvd_iff_nat)
    then show ?thesis using that n by (auto dest: dvd_imp_le)
  qed
  then show ?thesis by (auto simp: in_stripe_def)
qed

lemma worker_loop_ok:
  assumes "0 < n" "\<forall>i < length dest. in_stripe n idx i \<longrightarrow> step i = Inr (f i)"
  shows "worker_loop step n idx dest = Inr (map (\<lambda>i. if in_stripe n idx i then f i else dest ! i) [0..<length dest])"
  using assms
proof (induction step n idx dest rule: worker_loop.induct)
  case (1 step n idx dest)
  show ?case
  proof (cases "idx < length dest")
    case True
    have s: "step idx = Inr (f idx)" using 1(3) True by (simp add: in_stripe_def)
    have "worker_loop step n (idx + n) (dest[idx := f idx])
        = Inr (map (\<lambda>i. if in_stripe n (idx + n) i then f i else dest[idx := f idx] ! i) [0..<length (dest[idx := f idx])])"
      using 1 True s in_stripe_step [of n idx] by simp
    moreover have "map (\<lambda>i. if in_stripe n (idx + n) i then f i else dest[idx := f idx] ! i) [0..<length dest]
        = map (\<lambda>i. if in_stripe n idx i then f i else dest ! i) [0..<length dest]"
      using in_stripe_step [OF 1(2), of idx] by (intro map_cong) (auto simp: nth_upd_if)
    ultimately show ?thesis using True 1(2) s by (subst worker_loop.simps) simp
  next
    case False
    then have "map (\<lambda>i. if in_stripe n idx i then f i else dest ! i) [0..<length dest] = map ((!) dest) [0..<length dest]"
      by (intro map_cong) (auto simp: in_stripe_def)
    then show ?thesis using False by (subst worker_loop.simps) (simp add: map_nth)
  qed
qed

lemma run_workers_ok:
  assumes "0 < n" "\<forall>i < length dest. step i = Inr (f i)"
  shows "run_workers step n ws dest = Inr (map (\<lambda>i. if \<exists>w \<in> set ws. in_stripe n w i then f i else dest ! i) [0..<length dest])"
  using assms
proof (induction ws arbitrary: dest)
  case (Cons w ws)
  let ?d = "map (\<lambda>i. if in_stripe n w i then f i else dest ! i) [0..<length dest]"
  have "worker_loop step n w dest = Inr ?d" using worker_loop_ok [of n dest w step f] Cons.prems by blast
  moreover have "run_workers step n ws ?d = Inr (map (\<lambda>i. if \<exists>w \<in> set ws. in_stripe n w i then f i else ?d ! i) [0..<length ?d])"
    using Cons.IH [of ?d] Cons.prems by simp
  ultimately show ?case by (auto intro!: map_cong)
qed (simp add: map_nth)

lemma all_stripes: "0 < n \<Longrightarrow> \<exists>w \<in> set [0..<n]. in_stripe n w i"
  by (intro bexI [of _ "i mod n"]) (simp_all add: in_stripe_def)

lemma workers_complete:
  assumes "0 < n" "\<forall>i < length dest. step i = Inr (f i)"
  shows "run_workers step n [0..<n] dest = Inr (map f [0..<length dest])"
  using run_workers_ok [OF assms, of "[0..<n]"] all_stripes [OF assms(1)] by simp

lemma worker_loop_fail:
  assumes "0 < n" "i < length dest" "in_stripe n idx i" "step i = Inl e"
  shows "\<exists>j e'. j < length dest \<and> step j = Inl e' \<and> worker_loop step n idx dest = Inl e'"
  using assms
proof (induction step n idx dest rule: worker_loop.induct)
  case (1 step n idx dest)
  have idx: "idx < length dest" using 1(3,4) by (simp add: in_stripe_def)
  show ?case
  proof (cases "step idx")
    case (Inl e')
    then show ?thesis using idx 1(2) by (subst worker_loop.simps) auto
  next
    case (Inr v)
    then have "i \<noteq> idx" using 1(5) by auto
    then have "in_stripe n (idx + n) i" using in_stripe_step [OF 1(2), of idx i] 1(4) by blast
    then have "\<exists>j e'. j < length (dest[idx := v]) \<and> step j = Inl e' \<and> worker_loop step n (idx + n) (dest[idx := v]) = Inl e'"
      using 1 idx Inr by simp
    then show ?thesis using idx 1(2) Inr by (subst worker_loop.simps) simp
  qed
qed

lemma worker_loop_length: "worker_loop step n idx dest = Inr dest' \<Longrightarrow> length dest' = length dest"
proof (induction step n idx dest rule: worker_loop.induct)
  case (1 step n idx dest)
  then show ?case by (subst (asm) (2) worker_loop.simps) (auto split: if_splits sum.splits)
qed

lemma worker_loop_errors: "worker_loop step n idx dest = Inl e \<Longrightarrow> \<exists>j < length dest. step j = Inl e"
proof (induction step n idx dest rule: worker_loop.induct)
  case (1 step n idx dest)
  then show ?case by (subst (asm) (2) worker_loop.simps) (auto split: if_splits sum.splits)
qed

lemma run_workers_fail:
  assumes "0 < n" "i < length dest" "w \<in> set ws" "in_stripe n w i" "step i = Inl e"
  shows "\<exists>j e'. j < length dest \<and> step j = Inl e' \<and> run_workers step n ws dest = Inl e'"
  using assms(2-5)
proof (induction ws arbitrary: dest)
  case (Cons v ws)
  show ?case
  proof (cases "worker_loop step n v dest")
    case (Inl e')
    then show ?thesis using worker_loop_errors [OF Inl] by auto
  next
    case (Inr dest')
    have "w \<noteq> v" using worker_loop_fail [of n i dest v step e] assms(1) Cons.prems Inr by fastforce
    then have "w \<in> set ws" using Cons.prems(2) by simp
    then show ?thesis using Cons.IH [of dest'] Cons.prems worker_loop_length [OF Inr] Inr by simp
  qed
qed simp

lemma pjson_Decode_cases:
  assumes "0 < numWorkers"
  shows "(\<forall>i < length dest. decode (src i) = Inr (f i)) \<Longrightarrow>
      pjson_Decode numWorkers decode dest src = Inr (map f [0..<length dest])"
    and "\<lbrakk>i < length dest; decode (src i) = Inl e\<rbrakk> \<Longrightarrow>
      \<exists>j e'. j < length dest \<and> decode (src j) = Inl e' \<and> pjson_Decode numWorkers decode dest src = Inl (j, e')"
proof -
  let ?step = "\<lambda>idx. case decode (src idx) of Inl e \<Rightarrow> Inl (idx, e) | Inr v \<Rightarrow> Inr v"
  show "pjson_Decode numWorkers decode dest src = Inr (map f [0..<length dest])"
    if "\<forall>i < length dest. decode (src i) = Inr (f i)"
    unfolding pjson_Decode_def using workers_complete [OF assms, of dest ?step f] that by simp
  show "\<exists>j e'. j < length dest \<and> decode (src j) = Inl e' \<and> pjson_Decode numWorkers decode dest src = Inl (j, e')"
    if i: "i < length dest" "decode (src i) = Inl e"
  proof -
    obtain w where "w \<in> set [0..<numWorkers]" "in_stripe numWorkers w i" using all_stripes [OF assms] by blast
    then obtain j e' where "j < length dest" "?step j = Inl e'" "run_workers ?step numWorkers [0..<numWorkers] dest = Inl e'"
      using run_workers_fail [OF assms i(1), of w "[0..<numWorkers]" ?step "(i, e)"] i(2) by auto
    then show ?thesis unfolding pjson_Decode_def by (auto split: sum.splits)
  qed
qed

section \<open>Properties\<close>

text \<open>
  With at least one worker, decoding in parallel is decoding one element after the other: the result has
  every element decoded in its place, and if some element cannot be decoded, the result is the error of such an
  element with its index.
\<close>

theorem pjson_Decode_all:
  assumes "0 < numWorkers"
  shows "((\<forall>i < length dest. decode (src i) = Inr (f i)) \<longrightarrow>
      pjson_Decode numWorkers decode dest src = Inr (map f [0..<length dest]))
    \<and> (\<forall>i < length dest. \<forall>e. decode (src i) = Inl e \<longrightarrow>
         (\<exists>j e'. j < length dest \<and> decode (src j) = Inl e' \<and> pjson_Decode numWorkers decode dest src = Inl (j, e')))"
  by (intro conjI impI allI) (erule (1) pjson_Decode_cases [OF assms] | erule pjson_Decode_cases(1) [OF assms])+

text \<open>Witness: two workers, five elements.\<close>

theorem pjson_Decode_all_witness:
  "pjson_Decode 2 (\<lambda>n. if n < 9 then Inr (n * n) else Inl ''number'') [0, 0, 0, 0, 0 :: nat] (\<lambda>i. i) = Inr [0, 1, 4, 9, 16]"
proof -
  let ?decode = "\<lambda>n. if n < 9 then Inr (n * n) else Inl ''number''"
  have "\<forall>i < length [0, 0, 0, 0, 0 :: nat]. ?decode i = Inr (i * i)" by auto
  moreover have "map (\<lambda>i. i * i) [0..<length [0, 0, 0, 0, 0 :: nat]] = [0, 1, 4, 9, 16]" by code_simp
  ultimately show ?thesis
    using pjson_Decode_all [of 2 "[0, 0, 0, 0, 0 :: nat]" ?decode "\<lambda>i. i" "\<lambda>i. i * i", THEN conjunct1, rule_format] by simp
qed

end
