(* ===== verification/Apply.thy ===== *)
theory Apply
  imports ColumnMapping Pjson
begin

text \<open>
  The applier of a target table, \<open>src/internal/target/apply/apply.go\<close> with \<open>exponent\_fix.go\<close>, \<open>templates.go\<close> and the
  statement cache of \<open>src/internal/util/stmtcache\<close>. Mutations are decoded into property bags, laid out as the
  arguments of a prepared statement, and sent in batches; rows that a conditional statement did not apply are
  given to the merge function.

  The state \<open>'d\<close> is the target database with the LRU cache; the JSON codec, the decimal library, the SQL template
  engine, the LRU cache and the database driver are the operations of \<open>apply\_env\<close>. Metrics and logging are left out.
\<close>

section \<open>Values for the database driver\<close>

text \<open>The regular expression \<open>[Ee][+-]?[0-9]+$\<close>, matched from the end of the text.\<close>

definition exponentSuffix :: "string \<Rightarrow> bool" where
  "exponentSuffix s =
     (let ds = takeWhile is_digit (rev s); rest = dropWhile is_digit (rev s);
          rest' = (case rest of c # cs \<Rightarrow> if c = CHR ''+'' \<or> c = CHR ''-'' then cs else rest | [] \<Rightarrow> [])
      in ds \<noteq> [] \<and> (case rest' of c # _ \<Rightarrow> c = CHR ''E'' \<or> c = CHR ''e'' | [] \<Rightarrow> False))"

datatype apply_error =
    FatalNumber string | ParseErr string | LengthMismatch nat nat | ToColumnsLength nat nat nat | SetTypePanic
  | IndexPanic | KeyPanic msort_panic | NoColumnData | DecodeErr nat string | InconsistentKey nat nat string
  | SchemaDrift nat bag_error | PositionNotFound Ident | ExtrasErr string | CustomNotUnconditional
  | TemplateNotFound string | TemplateErr string | MergeWithCustom | ScanErr nat | MergeFailed merge_error
  | NilResolution | ZeroResolution | InvalidCustomUpsert | DBErr string | MappingErr mapping_error
  | BeforeErr string

text \<open>\<open>removeExponent\<close>; the library parses a decimal and prints it without an exponent, and a failure ends the process.\<close>

definition removeExponent :: "(string \<Rightarrow> string option) \<Rightarrow> string \<Rightarrow> (apply_error, string) result" where
  "removeExponent apd val =
     (if exponentSuffix val then (case apd val of None \<Rightarrow> Inl (FatalNumber val) | Some txt \<Rightarrow> Inr txt) else Inr val)"

definition toDBType :: "(string \<Rightarrow> string option) \<Rightarrow> ColData \<Rightarrow> go_any \<Rightarrow> (apply_error, go_any) result" where
  "toDBType apd colData value =
     (case value of
        GNumber num \<Rightarrow> (case removeExponent apd num of Inl e \<Rightarrow> Inl e | Inr s \<Rightarrow> Inr (GString s))
      | GNil \<Rightarrow> Inr value
      | _ \<Rightarrow> (case cd_Parse colData of
               None \<Rightarrow> Inr value
             | Some parse \<Rightarrow> (case parse value of Inl e \<Rightarrow> Inl (ParseErr e) | Inr nxt \<Rightarrow> Inr nxt)))"

definition toDBTypes :: "(string \<Rightarrow> string option) \<Rightarrow> ColData list \<Rightarrow> go_any list \<Rightarrow> (apply_error, go_any list) result" where
  "toDBTypes apd colData values =
     (if length colData \<noteq> length values then Inl (LengthMismatch (length colData) (length values))
      else all_results (\<lambda>idx. toDBType apd (colData ! idx) (values ! idx)) [0..<length values])"

text \<open>The dynamic type of a value, and the zero value with which the elements of a new slice are filled.\<close>

datatype go_type =
    TyNil | TyBool | TyString | TyInt | TyUint | TyFloat32 | TyFloat64 | TyTime | TyRawMessage | TyBytes | TyNumber | TyOther nat

fun TypeOf :: "go_any \<Rightarrow> go_type" where
  "TypeOf GNil = TyNil"
| "TypeOf (GBool _) = TyBool"
| "TypeOf (GString _) = TyString"
| "TypeOf (GInt _) = TyInt"
| "TypeOf (GUint _) = TyUint"
| "TypeOf (GFloat32 _) = TyFloat32"
| "TypeOf (GFloat64 _) = TyFloat64"
| "TypeOf (GTime _) = TyTime"
| "TypeOf (GRawMessage _) = TyRawMessage"
| "TypeOf (GBytes _) = TyBytes"
| "TypeOf (GNumber _) = TyNumber"
| "TypeOf (GOther n) = TyOther n"

text \<open>The zero \<open>time.Time\<close> is the first of January of the year 1; its nanoseconds from 1970 are negative.\<close>

fun zero_of :: "go_type \<Rightarrow> go_any" where
  "zero_of TyBool = GBool False"
| "zero_of TyString = GString []"
| "zero_of TyInt = GInt 0"
| "zero_of TyUint = GUint 0"
| "zero_of TyFloat32 = GFloat32 0"
| "zero_of TyFloat64 = GFloat64 0"
| "zero_of TyTime = GTime (- 62135596800000000000)"
| "zero_of TyRawMessage = GRawMessage []"
| "zero_of TyBytes = GBytes []"
| "zero_of TyNumber = GNumber []"
| "zero_of (TyOther n) = GOther n"
| "zero_of TyNil = GNil"

text \<open>An argument of a statement: one value, or a slice with the values of a column.\<close>

datatype db_arg = Arg go_any | Slice go_type "go_any list"

definition column_type :: "go_any list \<Rightarrow> go_type" where
  "column_type elts = (case find (\<lambda>elt. elt \<noteq> GNil) elts of Some elt \<Rightarrow> TypeOf elt | None \<Rightarrow> TyString)"

text \<open>Setting an element of a slice panics when the types differ.\<close>

definition fill_column :: "go_any list \<Rightarrow> (apply_error, db_arg) result" where
  "fill_column elts =
     (let eltType = column_type elts
      in if list_all (\<lambda>elt. elt = GNil \<or> TypeOf elt = eltType) elts
         then Inr (Slice eltType (map (\<lambda>elt. if elt = GNil then zero_of eltType else elt) elts))
         else Inl SetTypePanic)"

definition toColumns :: "nat \<Rightarrow> nat \<Rightarrow> go_any list \<Rightarrow> (apply_error, db_arg list) result" where
  "toColumns columns rows dat =
     (if rows * columns \<noteq> length dat then Inl (ToColumnsLength columns rows (length dat))
      else all_results (\<lambda>colIdx. fill_column (map (\<lambda>rowIdx. dat ! (rowIdx * columns + colIdx)) [0..<rows])) [0..<columns])"

definition IsMergeSupported :: "Product \<Rightarrow> bool" where
  "IsMergeSupported product \<longleftrightarrow> product = ProductCockroachDB \<or> product = ProductPostgreSQL"

section \<open>The environment and the state of an applier\<close>

record 'd apply_env =
  env_workers :: nat
  env_decode_key :: "string \<Rightarrow> (string, go_any list) result"
  env_decode_object :: "string \<Rightarrow> (string, (Ident, go_any) imap) result"
  env_marshal :: "(Ident, go_any) imap \<Rightarrow> (string, string) result"
  env_apd :: "string \<Rightarrow> string option"
  env_execute :: "dialect \<times> string \<Rightarrow> templates \<Rightarrow> (string, string) result"
  env_lookup :: "dialect \<Rightarrow> string \<Rightarrow> bool"
  env_cache_get :: "string \<Rightarrow> 'd \<Rightarrow> string option \<times> 'd"
  env_cache_add :: "string \<Rightarrow> string \<Rightarrow> 'd \<Rightarrow> 'd"
  env_prepare :: "string \<Rightarrow> 'd \<Rightarrow> string option \<times> 'd"
  env_exec :: "string \<Rightarrow> db_arg list \<Rightarrow> 'd \<Rightarrow> (string, int) result \<times> 'd"
  env_query :: "string \<Rightarrow> db_arg list \<Rightarrow> 'd \<Rightarrow> (string, (nat \<times> go_any list) list \<times> string option) result \<times> 'd"
  env_enqueue :: "Schema \<Rightarrow> string \<Rightarrow> Mutation \<Rightarrow> 'd \<Rightarrow> string option \<times> 'd"

record applier =
  ap_product :: Product
  ap_target :: Hinted
  ap_bagSpec :: BagSpec
  ap_gen :: int
  ap_templates :: templates

datatype applyMode = applyConditional | applyUnconditional

fun show_mode :: "applyMode \<Rightarrow> string" where
  "show_mode applyConditional = ''false''"
| "show_mode applyUnconditional = ''true''"

definition newBagLocked :: "applier \<Rightarrow> Bag" where
  "newBagLocked a = NewBag (ap_bagSpec a)"

text \<open>A new configuration or a new schema replaces the templates and starts a new generation of statements.\<close>

definition refreshUnlocked :: "Config \<Rightarrow> ColData list \<Rightarrow> applier \<Rightarrow> (apply_error, applier) result" where
  "refreshUnlocked configData schemaData a =
     (case validate configData schemaData of
        Some e \<Rightarrow> Inl (MappingErr e)
      | None \<Rightarrow>
          (case newColumnMapping configData schemaData (ap_product a) (ap_target a) of
             Inl e \<Rightarrow> Inl (MappingErr e)
           | Inr mapping \<Rightarrow>
               (case newTemplates mapping of
                  Inl e \<Rightarrow> Inl (MappingErr e)
                | Inr tmpl \<Rightarrow>
                    Inr (a\<lparr>ap_bagSpec := \<lparr>bs_Columns = cm_Columns (tm_mapping tmpl), bs_Rename = Some (cm_Renames (tm_mapping tmpl))\<rparr>,
                           ap_gen := ap_gen a + 1, ap_templates := tmpl\<rparr>))))"

section \<open>Statements\<close>

text \<open>The statement cache: a statement that is not in the cache is generated, prepared and added.\<close>

definition cache_Prepare :: "'d apply_env \<Rightarrow> string \<Rightarrow> (apply_error, string) result \<Rightarrow> 'd \<Rightarrow> (apply_error, string) result \<times> 'd" where
  "cache_Prepare env key gen d =
     (case env_cache_get env key d of
        (Some stmt, d1) \<Rightarrow> (Inr stmt, d1)
      | (None, d1) \<Rightarrow>
          (case gen of
             Inl e \<Rightarrow> (Inl e, d1)
           | Inr q \<Rightarrow>
               (case env_prepare env q d1 of
                  (Some e, d2) \<Rightarrow> (Inl (DBErr e), d2)
                | (None, d2) \<Rightarrow> (Inr q, env_cache_add env key q d2))))"

definition execute_template :: "'d apply_env \<Rightarrow> dialect \<times> string \<Rightarrow> templates \<Rightarrow> (apply_error, string) result" where
  "execute_template env tmpl t = (case env_execute env tmpl t of Inl e \<Rightarrow> Inl (TemplateErr e) | Inr sql \<Rightarrow> Inr sql)"

definition deleteExpr :: "'d apply_env \<Rightarrow> templates \<Rightarrow> nat \<Rightarrow> (apply_error, string) result" where
  "deleteExpr env t rowCount =
     execute_template env (tm_delete t) (t\<lparr>tm_ForDelete := True, tm_RowCount := int (if tm_BulkDelete t then 1 else rowCount)\<rparr>)"

definition customExpr :: "'d apply_env \<Rightarrow> templates \<Rightarrow> nat \<Rightarrow> string \<Rightarrow> applyMode \<Rightarrow> (apply_error, string) result" where
  "customExpr env t rowCount name mode =
     (if mode \<noteq> applyUnconditional then Inl CustomNotUnconditional
      else if \<not> env_lookup env (tm_tmpl t) (name @ ''.tmpl'') then Inl (TemplateNotFound name)
      else execute_template env (tm_tmpl t, name @ ''.tmpl'') (t\<lparr>tm_RowCount := int (if tm_BulkUpsert t then 1 else rowCount)\<rparr>))"

definition upsertExpr :: "'d apply_env \<Rightarrow> templates \<Rightarrow> nat \<Rightarrow> applyMode \<Rightarrow> (apply_error, string) result" where
  "upsertExpr env t rowCount mode =
     (let cpy = t\<lparr>tm_RowCount := int (if tm_BulkUpsert t then 1 else rowCount)\<rparr>
      in if mode = applyUnconditional \<or> (length (cm_Conditions (tm_mapping cpy)) = 0 \<and> imap_Len (cm_Deadlines (tm_mapping cpy)) = 0)
         then execute_template env (tm_upsert t) cpy
         else execute_template env (tm_conditional t) cpy)"

definition delete_key :: "applier \<Rightarrow> nat \<Rightarrow> string" where
  "delete_key a n =
     (if tm_BulkDelete (ap_templates a)
      then ''delete-'' @ Hinted_String (ap_target a) @ ''-'' @ show_int (ap_gen a)
      else ''delete-'' @ Hinted_String (ap_target a) @ ''-'' @ show_int (ap_gen a) @ ''-'' @ show_int (int n))"

definition upsert_key :: "applier \<Rightarrow> nat \<Rightarrow> applyMode \<Rightarrow> string \<Rightarrow> string" where
  "upsert_key a n mode template =
     (if tm_BulkUpsert (ap_templates a)
      then ''upsert-'' @ Hinted_String (ap_target a) @ ''-'' @ show_int (ap_gen a) @ ''-'' @ show_mode mode @ ''-'' @ template
      else ''upsert-'' @ Hinted_String (ap_target a) @ ''-'' @ show_int (ap_gen a) @ ''-'' @ show_int (int n) @ ''-'' @ show_mode mode @ ''-'' @ template)"

section \<open>Arguments of an upsert\<close>

text \<open>An assignment to an element of a Go slice.\<close>

definition set_arg :: "int \<Rightarrow> go_any \<Rightarrow> go_any list \<Rightarrow> (apply_error, go_any list) result" where
  "set_arg i v args = (if 0 \<le> i \<and> nat i < length args then Inr (args[nat i := v]) else Inl IndexPanic)"

definition upsert_entry ::
  "'d apply_env \<Rightarrow> columnMapping \<Rightarrow> int \<Rightarrow> Ident \<Rightarrow> Entry \<Rightarrow> go_any list \<Rightarrow> (apply_error, go_any list) result" where
  "upsert_entry env cm argIdx colName entry allArgs =
     (case toDBType (env_apd env) (en_Column entry) (en_Value entry) of
        Inl e \<Rightarrow> Inl e
      | Inr value \<Rightarrow>
          (case iget (cm_Positions cm) colName of
             None \<Rightarrow> Inl (PositionNotFound colName)
           | Some targetColumn \<Rightarrow>
               if pc_UpsertIndex targetColumn < 0 then Inr allArgs
               else case (if en_Valid entry \<and> pc_ValidityIndex targetColumn \<ge> 0
                          then set_arg (argIdx + pc_ValidityIndex targetColumn) (GInt 1) allArgs else Inr allArgs) of
                 Inl e \<Rightarrow> Inl e
               | Inr args1 \<Rightarrow> set_arg (argIdx + pc_UpsertIndex targetColumn) value args1))"

text \<open>One row: its mapped values, the ignored names, and the rest into the extras column or an error.\<close>

definition upsert_row ::
  "'d apply_env \<Rightarrow> columnMapping \<Rightarrow> nat \<Rightarrow> Bag \<Rightarrow> int \<Rightarrow> go_any list \<Rightarrow> (apply_error, go_any list \<times> Bag) result" where
  "upsert_row env cm idx rowData argIdx allArgs =
     (case ValidatePK rowData of
        Some e \<Rightarrow> Inl (SchemaDrift idx e)
      | None \<Rightarrow>
          (case imap_Range (upsert_entry env cm argIdx) (bg_Mapped rowData) allArgs of
             Inl e \<Rightarrow> Inl e
           | Inr args1 \<Rightarrow>
               let row1 = fold Bag_Delete (cm_Ignore cm) rowData; extraIdx = cm_ExtrasColIdx cm
               in if extraIdx = - 1 then
                    (case ValidateNoUnmappedColumns row1 of
                       Some e \<Rightarrow> Inl (SchemaDrift idx e)
                     | None \<Rightarrow> Inr (args1, row1))
                  else
                    (case env_marshal env (bg_Unmapped row1) of
                       Inl e \<Rightarrow> Inl (ExtrasErr e)
                     | Inr extraJSON \<Rightarrow>
                         (case set_arg (argIdx + extraIdx) (GString extraJSON) args1 of
                            Inl e \<Rightarrow> Inl e
                          | Inr args2 \<Rightarrow> Inr (args2, row1)))))"

fun upsert_rows ::
  "'d apply_env \<Rightarrow> columnMapping \<Rightarrow> nat \<Rightarrow> Bag list \<Rightarrow> int \<Rightarrow> go_any list \<Rightarrow> (apply_error, go_any list \<times> int \<times> Bag list) result" where
  "upsert_rows env cm idx [] argIdx allArgs = Inr (allArgs, argIdx, [])"
| "upsert_rows env cm idx (rowData # bags) argIdx allArgs =
     (case upsert_row env cm idx rowData argIdx allArgs of
        Inl e \<Rightarrow> Inl e
      | Inr (args1, row1) \<Rightarrow>
          (case upsert_rows env cm (idx + 1) bags (argIdx + cm_UpsertParameterCount cm) args1 of
             Inl e \<Rightarrow> Inl e
           | Inr (args2, argIdx', bags') \<Rightarrow> Inr (args2, argIdx', row1 # bags')))"

text \<open>The bags are changed in place; the result has the arguments and the bags.\<close>

definition upsertArgsLocked :: "'d apply_env \<Rightarrow> applier \<Rightarrow> Bag list \<Rightarrow> (apply_error, db_arg list \<times> Bag list) result" where
  "upsertArgsLocked env a bags =
     (let cm = tm_mapping (ap_templates a)
      in case upsert_rows env cm 0 bags 0 (replicate (nat (cm_UpsertParameterCount cm * int (length bags))) GNil) of
           Inl e \<Rightarrow> Inl e
         | Inr (allArgs, argIdx, bags') \<Rightarrow>
             let args = take (nat argIdx) allArgs
             in if tm_BulkUpsert (ap_templates a)
                then (case toColumns (nat (cm_UpsertParameterCount cm)) (length bags) args of
                        Inl e \<Rightarrow> Inl e | Inr cols \<Rightarrow> Inr (cols, bags'))
                else Inr (map Arg args, bags'))"

section \<open>Deletes and upserts\<close>

fun delete_args :: "'d apply_env \<Rightarrow> ColData list \<Rightarrow> Mutation list \<Rightarrow> go_any list list \<Rightarrow> (apply_error, go_any list) result" where
  "delete_args env pkCols (mut # muts) (keyGroup # gs) =
     (if length keyGroup \<noteq> length pkCols then Inl (InconsistentKey (length keyGroup) (length pkCols) (mut_Key mut))
      else case toDBTypes (env_apd env) pkCols keyGroup of
        Inl e \<Rightarrow> Inl e
      | Inr vals \<Rightarrow> (case delete_args env pkCols muts gs of Inl e \<Rightarrow> Inl e | Inr rest \<Rightarrow> Inr (vals @ rest)))"
| "delete_args env pkCols _ _ = Inr []"

definition exec_statement :: "'d apply_env \<Rightarrow> string \<Rightarrow> (apply_error, string) result \<Rightarrow> db_arg list \<Rightarrow> 'd \<Rightarrow> apply_error option \<times> 'd" where
  "exec_statement env key gen args d =
     (case cache_Prepare env key gen d of
        (Inl e, d1) \<Rightarrow> (Some e, d1)
      | (Inr stmt, d1) \<Rightarrow>
          (case env_exec env stmt args d1 of
             (Inl e, d2) \<Rightarrow> (Some (DBErr e), d2)
           | (Inr affected, d2) \<Rightarrow> (None, d2)))"

definition deleteLocked :: "'d apply_env \<Rightarrow> applier \<Rightarrow> Mutation list \<Rightarrow> 'd \<Rightarrow> apply_error option \<times> 'd" where
  "deleteLocked env a muts d =
     (if length muts = 0 then (None, d)
      else
        let t = ap_templates a; pkCols = cm_PKDelete (tm_mapping t)
        in case pjson_Decode (env_workers env) (env_decode_key env) (replicate (length muts) []) (\<lambda>i. mut_Key (muts ! i)) of
             Inl (i, e) \<Rightarrow> (Some (DecodeErr i e), d)
           | Inr keyGroups \<Rightarrow>
               (case delete_args env pkCols muts keyGroups of
                  Inl e \<Rightarrow> (Some e, d)
                | Inr allArgs \<Rightarrow>
                    (case (if tm_BulkDelete t then toColumns (length pkCols) (length muts) allArgs else Inr (map Arg allArgs)) of
                       Inl e \<Rightarrow> (Some e, d)
                     | Inr args \<Rightarrow> exec_statement env (delete_key a (length muts)) (deleteExpr env t (length muts)) args d)))"

text \<open>A row that blocked a conditional upsert becomes a conflict.\<close>

definition read_conflict :: "'d apply_env \<Rightarrow> applier \<Rightarrow> Mutation list \<Rightarrow> Bag list \<Rightarrow> nat \<times> go_any list \<Rightarrow> (apply_error, Conflict \<times> Mutation) result" where
  "read_conflict env a muts bags row =
     (case row of (sourceIdx, blockingData) \<Rightarrow>
        let columns = cm_Columns (tm_mapping (ap_templates a))
        in if length blockingData \<noteq> length columns then Inl (ScanErr (length blockingData))
           else if length bags \<le> sourceIdx \<or> length muts \<le> sourceIdx then Inl IndexPanic
           else
             let target = fold (\<lambda>(col, v). Bag_Put (cd_Name col) v) (zip columns blockingData) (newBagLocked a);
                 conflictingMut = muts ! sourceIdx;
                 c = \<lparr>cf_Before = None, cf_Proposed = Some (bags ! sourceIdx), cf_Target = Some target, cf_Unmerged = []\<rparr>
             in if length (mut_Before conflictingMut) > 0 \<and> mut_Before conflictingMut \<noteq> ''null'' then
                  (case Bag_UnmarshalJSON (env_decode_object env) (mut_Before conflictingMut) (newBagLocked a) of
                     (Some e, _) \<Rightarrow> Inl (BeforeErr e)
                   | (None, before) \<Rightarrow> Inr (c\<lparr>cf_Before := Some before\<rparr>, conflictingMut))
                else Inr (c, conflictingMut))"

text \<open>The merge function decides about every conflict: drop it, queue the mutation, or apply a row.\<close>

fun resolve_conflicts ::
  "'d apply_env \<Rightarrow> applier \<Rightarrow> Merger \<Rightarrow> (Conflict \<times> Mutation) list \<Rightarrow> Bag list \<Rightarrow> 'd \<Rightarrow> (apply_error, Bag list) result \<times> 'd" where
  "resolve_conflicts env a merger [] fixups d = (Inr fixups, d)"
| "resolve_conflicts env a merger ((c, mut) # cs) fixups d =
     (case merger c of
        Inl e \<Rightarrow> (Inl (MergeFailed e), d)
      | Inr None \<Rightarrow> (Inl NilResolution, d)
      | Inr (Some resolution) \<Rightarrow>
          if rs_Drop resolution then resolve_conflicts env a merger cs fixups d
          else if rs_DLQ resolution \<noteq> [] then
            (case env_enqueue env (Table_Schema (hn_Base (ap_target a))) (rs_DLQ resolution) mut d of
               (Some e, d1) \<Rightarrow> (Inl (DBErr e), d1)
             | (None, d1) \<Rightarrow> resolve_conflicts env a merger cs fixups d1)
          else (case rs_Apply resolution of
                  Some bag \<Rightarrow> resolve_conflicts env a merger cs (fixups @ [bag]) d
                | None \<Rightarrow> (Inl ZeroResolution, d)))"

text \<open>The statement of an upsert; a custom template is always unconditional.\<close>

definition upsert_sql :: "'d apply_env \<Rightarrow> applier \<Rightarrow> nat \<Rightarrow> applyMode \<Rightarrow> string \<Rightarrow> (apply_error, string) result" where
  "upsert_sql env a n mode template =
     (if template \<noteq> [] then customExpr env (ap_templates a) n template applyUnconditional
      else upsertExpr env (ap_templates a) n mode)"

function upsertBagsLocked ::
  "'d apply_env \<Rightarrow> applier \<Rightarrow> applyMode \<Rightarrow> Mutation list \<Rightarrow> Bag list \<Rightarrow> string \<Rightarrow> 'd \<Rightarrow> apply_error option \<times> 'd" where
  "upsertBagsLocked env a mode muts bags template d =
     (if length bags = 0 then (None, d)
      else case upsertArgsLocked env a bags of
        Inl e \<Rightarrow> (Some e, d)
      | Inr (allArgs, bags') \<Rightarrow>
          (case cache_Prepare env (upsert_key a (length bags) mode template) (upsert_sql env a (length bags) mode template) d of
             (Inl e, d1) \<Rightarrow> (Some e, d1)
           | (Inr stmt, d1) \<Rightarrow>
               (case cm_Merger (tm_mapping (ap_templates a)) of
                  None \<Rightarrow>
                    (case env_exec env stmt allArgs d1 of
                       (Inl e, d2) \<Rightarrow> (Some (DBErr e), d2)
                     | (Inr upserted, d2) \<Rightarrow> (None, d2))
                | Some merger \<Rightarrow>
                    if template \<noteq> [] then (Some MergeWithCustom, d1)
                    else if mode = applyUnconditional then
                      (case env_exec env stmt allArgs d1 of
                         (Inl e, d2) \<Rightarrow> (Some (DBErr e), d2)
                       | (Inr upserted, d2) \<Rightarrow> (None, d2))
                    else
                      (case env_query env stmt allArgs d1 of
                         (Inl e, d2) \<Rightarrow> (Some (DBErr e), d2)
                       | (Inr (rows, err), d2) \<Rightarrow>
                           (case all_results (read_conflict env a muts bags') rows of
                              Inl e \<Rightarrow> (Some e, d2)
                            | Inr conflicts \<Rightarrow>
                                if err \<noteq> None then (Some (DBErr (the err)), d2)
                                else if length conflicts = 0 then (None, d2)
                                else (case resolve_conflicts env a merger conflicts [] d2 of
                                        (Inl e, d3) \<Rightarrow> (Some e, d3)
                                      | (Inr fixups, d3) \<Rightarrow>
                                          upsertBagsLocked env a applyUnconditional [] fixups template d3))))))"
  by pat_completeness auto
termination by (relation "measure (\<lambda>(_, _, mode, _). if mode = applyConditional then 1 else 0)") (auto intro: applyMode.exhaust)

declare upsertBagsLocked.simps [simp del]

definition decode_bag :: "'d apply_env \<Rightarrow> applier \<Rightarrow> string \<Rightarrow> (string, Bag) result" where
  "decode_bag env a dat =
     (case Bag_UnmarshalJSON (env_decode_object env) dat (newBagLocked a) of (Some e, _) \<Rightarrow> Inl e | (None, bag) \<Rightarrow> Inr bag)"

definition upsertLocked :: "'d apply_env \<Rightarrow> applier \<Rightarrow> Mutation list \<Rightarrow> string \<Rightarrow> 'd \<Rightarrow> apply_error option \<times> 'd" where
  "upsertLocked env a muts template d =
     (case pjson_Decode (env_workers env) (decode_bag env a) (replicate (length muts) (newBagLocked a)) (\<lambda>i. mut_Data (muts ! i)) of
        Inl (i, e) \<Rightarrow> (Some (DecodeErr i e), d)
      | Inr allPayloadData \<Rightarrow> upsertBagsLocked env a applyConditional muts allPayloadData template d)"

section \<open>Apply\<close>

definition CustomUpsert :: string where
  "CustomUpsert = ''upsert.custom''"

text \<open>
  The loop over the mutations. A full slice of deletes or upserts is flushed; \<open>capD\<close> and \<open>capU\<close> are the capacities of
  the two slices, which are positive when the loop has an element to append.
\<close>

fun apply_loop ::
  "'d apply_env \<Rightarrow> applier \<Rightarrow> nat \<Rightarrow> nat \<Rightarrow> Mutation list \<Rightarrow> Mutation list \<Rightarrow> Mutation list \<Rightarrow> 'd \<Rightarrow> apply_error option \<times> 'd" where
  "apply_loop env a capD capU [] deletes upserts d =
     (case deleteLocked env a deletes d of
        (Some e, d1) \<Rightarrow> (Some e, d1)
      | (None, d1) \<Rightarrow> upsertLocked env a upserts [] d1)"
| "apply_loop env a capD capU (mut # muts) deletes upserts d =
     (if IsDelete mut then
        if length (deletes @ [mut]) = capD then
          (case deleteLocked env a (deletes @ [mut]) d of
             (Some e, d1) \<Rightarrow> (Some e, d1)
           | (None, d1) \<Rightarrow> apply_loop env a capD capU muts [] upserts d1)
        else apply_loop env a capD capU muts (deletes @ [mut]) upserts d
      else case map_of (mut_Meta mut) CustomUpsert of
        Some custom \<Rightarrow>
          (case upsertLocked env a upserts [] d of
             (Some e, d1) \<Rightarrow> (Some e, d1)
           | (None, d1) \<Rightarrow>
               (case custom of
                  GString template \<Rightarrow>
                    (case upsertLocked env a [mut] template d1 of
                       (Some e, d2) \<Rightarrow> (Some e, d2)
                     | (None, d2) \<Rightarrow> apply_loop env a capD capU muts deletes [] d2)
                | _ \<Rightarrow> (Some InvalidCustomUpsert, d1)))
      | None \<Rightarrow>
          if length (upserts @ [mut]) = capU then
            (case upsertLocked env a (upserts @ [mut]) [] d of
               (Some e, d1) \<Rightarrow> (Some e, d1)
             | (None, d1) \<Rightarrow> apply_loop env a capD capU muts deletes [] d1)
          else apply_loop env a capD capU muts deletes (upserts @ [mut]) d)"

definition Apply :: "'d apply_env \<Rightarrow> applier \<Rightarrow> Mutation list \<Rightarrow> 'd \<Rightarrow> apply_error option \<times> 'd" where
  "Apply env a muts0 d =
     (case UniqueByKey muts0 of
        Inl p \<Rightarrow> (Some (KeyPanic p), d)
      | Inr muts \<Rightarrow>
          let t = ap_templates a; cm = tm_mapping t
          in if imap_Len (cm_Positions cm) = 0 then (Some NoColumnData, d)
             else apply_loop env a
                    (if tm_BulkDelete t then length muts else nat (cm_RowLimit cm))
                    (if tm_BulkUpsert t then length muts else nat (cm_RowLimit cm)) muts [] [] d)"

text \<open>\<open>AcceptTableBatch\<close> of the acceptor: \<open>get\<close> is the factory's lookup of the applier of a table.\<close>

definition apply_AcceptTableBatch ::
  "'d apply_env \<Rightarrow> (Table \<Rightarrow> (apply_error, applier) result) \<Rightarrow> TableBatch \<Rightarrow> 'd \<Rightarrow> apply_error option \<times> 'd" where
  "apply_AcceptTableBatch env get batch d =
     (case get (tb_Table batch) of
        Inl e \<Rightarrow> (Some e, d)
      | Inr a \<Rightarrow> Apply env a (tb_Data batch) d)"

section \<open>Columnar arguments are the transposed rows\<close>

lemma all_results_Inr: "(\<And>x. x \<in> set xs \<Longrightarrow> f x = Inr (g x)) \<Longrightarrow> all_results f xs = Inr (map g xs)"
  by (induction xs) auto

lemma all_results_cong: "(\<And>x. x \<in> set xs \<Longrightarrow> f x = g x) \<Longrightarrow> all_results f xs = all_results g xs"
  by (induction xs) (auto split: sum.splits)

lemma all_results_InrD: "all_results f xs = Inr ys \<Longrightarrow> length ys = length xs \<and> (\<forall>i < length xs. f (xs ! i) = Inr (ys ! i))"
proof (induction xs arbitrary: ys)
  case (Cons x xs)
  then show ?case by (auto simp: nth_Cons' split: sum.splits)
qed simp

text \<open>The reference: the columns of a matrix given by its rows.\<close>

definition matrix_column :: "go_any list list \<Rightarrow> nat \<Rightarrow> go_any list" where
  "matrix_column rows c = map (\<lambda>row. row ! c) rows"

definition sent :: "go_type \<Rightarrow> go_any \<Rightarrow> go_any" where
  "sent ty elt = (if elt = GNil then zero_of ty else elt)"

definition uniform :: "go_any list \<Rightarrow> bool" where
  "uniform elts \<longleftrightarrow> list_all (\<lambda>elt. elt = GNil \<or> TypeOf elt = column_type elts) elts"

lemma concat_nth_width:
  "\<lbrakk>\<forall>row \<in> set rows. length row = n; r < length rows; c < n\<rbrakk> \<Longrightarrow> concat rows ! (r * n + c) = rows ! r ! c"
proof (induction rows arbitrary: r)
  case (Cons row rows)
  then show ?case by (cases r) (auto simp: nth_append)
qed simp

lemma length_concat_width: "\<forall>row \<in> set rows. length row = n \<Longrightarrow> length (concat rows) = length rows * n"
  by (induction rows) auto

lemma toColumns_transposed:
  assumes "\<forall>row \<in> set rows. length row = n"
  shows "toColumns n (length rows) (concat rows) =
    all_results (\<lambda>c. fill_column (matrix_column rows c)) [0..<n]"
proof -
  have "map (\<lambda>r. concat rows ! (r * n + c)) [0..<length rows] = matrix_column rows c" if "c < n" for c
    using that assms by (intro nth_equalityI) (simp_all add: matrix_column_def concat_nth_width)
  then have "all_results (\<lambda>c. fill_column (map (\<lambda>r. concat rows ! (r * n + c)) [0..<length rows])) [0..<n]
      = all_results (\<lambda>c. fill_column (matrix_column rows c)) [0..<n]"
    by (intro all_results_cong) auto
  then show ?thesis using length_concat_width [OF assms] by (simp add: toColumns_def)
qed

text \<open>
  For a target with bulk transfers, the arguments are the transposed rows: one slice per column, with the
  rows in order. A null becomes the zero value of the type of the column's other values. The call fails exactly
  when the values of some column have different types.
\<close>

theorem toColumns_transposes:
  assumes "\<forall>row \<in> set rows. length row = n"
  shows "toColumns n (length rows) (concat rows)
    = (if \<forall>c < n. uniform (matrix_column rows c)
       then Inr (map (\<lambda>c. Slice (column_type (matrix_column rows c))
              (map (sent (column_type (matrix_column rows c))) (matrix_column rows c))) [0..<n])
       else Inl SetTypePanic)"
proof -
  have fill: "fill_column elts = (if uniform elts then Inr (Slice (column_type elts) (map (sent (column_type elts)) elts)) else Inl SetTypePanic)"
    for elts
    by (simp add: fill_column_def uniform_def sent_def [abs_def] Let_def)
  have fail: "all_results (\<lambda>c. fill_column (matrix_column rows c)) cs = Inl SetTypePanic"
    if "\<exists>c \<in> set cs. \<not> uniform (matrix_column rows c)" for cs
    using that by (induction cs) (auto simp: fill split: sum.splits)
  show ?thesis
  proof (cases "\<forall>c < n. uniform (matrix_column rows c)")
    case True
    then show ?thesis unfolding toColumns_transposed [OF assms] by (subst all_results_Inr) (auto simp: fill)
  next
    case False
    then have "\<exists>c \<in> set [0..<n]. \<not> uniform (matrix_column rows c)" by auto
    then show ?thesis unfolding toColumns_transposed [OF assms] using fail False by simp
  qed
qed

text \<open>Witness: two rows of a string column with a null and a column of flags.\<close>

theorem toColumns_transposes_witness:
  "toColumns 2 2 (concat [[GString ''a'', GInt 1], [GNil, GInt 1]])
   = Inr [Slice TyString [GString ''a'', GString []], Slice TyInt [GInt 1, GInt 1]]"
proof -
  let ?rows = "[[GString ''a'', GInt 1], [GNil, GInt 1]]"
  have "\<forall>c < 2. uniform (matrix_column ?rows c)" by (auto simp: less_2_cases_iff uniform_def matrix_column_def column_type_def)
  moreover have "\<forall>row \<in> set ?rows. length row = 2" by simp
  ultimately show ?thesis
    using toColumns_transposes [of ?rows 2] by (simp add: matrix_column_def column_type_def sent_def upt_rec flip: numeral_2_eq_2)
qed

section \<open>The layout of the arguments\<close>

text \<open>The columns of a bag are those of its specification, in order.\<close>

definition bag_aligned :: "Bag \<Rightarrow> bool" where
  "bag_aligned b \<longleftrightarrow> map fst (bg_Mapped b) = map cd_Name (bs_Columns (bg_spec b))
     \<and> map (en_Column \<circ> snd) (bg_Mapped b) = bs_Columns (bg_spec b)"

lemma map_snd_assign: "(\<And>v. g (f v) = g v) \<Longrightarrow> map (g \<circ> snd) (assign key f m) = map (g \<circ> snd) m"
  by (induction m) auto

lemma bag_aligned_Put: "bag_aligned b \<Longrightarrow> bag_aligned (Bag_Put k v b)"
  by (auto simp: bag_aligned_def Bag_Put_def Let_def map_snd_assign split: option.splits)

lemma bag_aligned_Delete: "bag_aligned b \<Longrightarrow> bag_aligned (Bag_Delete k b)"
  by (auto simp: bag_aligned_def Bag_Delete_def Let_def map_snd_assign split: option.splits)

lemma seed_append:
  "distinct (map (Ident_Canonical \<circ> fst) m @ map (\<lambda>c. Ident_Canonical (cd_Name c)) cols) \<Longrightarrow>
   fold seed cols m = m @ map (\<lambda>c. (cd_Name c, \<lparr>en_Column = c, en_Valid = False, en_Value = GNil\<rparr>)) cols"
proof (induction cols arbitrary: m)
  case (Cons c cols)
  have "Ident_Canonical (cd_Name c) \<notin> ikeys m" using Cons.prems by (auto simp: ikeys_def)
  then show ?case using Cons.IH [of "seed c m"] Cons.prems by (simp add: iput_fresh)
qed simp

lemma bag_aligned_New: "cols_distinct (bs_Columns spec) \<Longrightarrow> bag_aligned (NewBag spec)"
  using seed_append [of "[]" "bs_Columns spec"] by (simp add: bag_aligned_def NewBag_def cols_distinct_def comp_def)

lemma bag_aligned_run: "bag_aligned b \<Longrightarrow> bag_aligned (bag_run ops b)"
  by (induction ops b rule: bag_run.induct) (simp_all add: bag_aligned_Put bag_aligned_Delete)

text \<open>The value that is sent for an entry, and the arguments of an entry: an optional flag and the value.\<close>

definition db_value :: "'d apply_env \<Rightarrow> Entry \<Rightarrow> go_any" where
  "db_value env e = (case toDBType (env_apd env) (en_Column e) (en_Value e) of Inl _ \<Rightarrow> GNil | Inr v \<Rightarrow> v)"

definition convertible :: "'d apply_env \<Rightarrow> Entry \<Rightarrow> bool" where
  "convertible env e \<longleftrightarrow> (case toDBType (env_apd env) (en_Column e) (en_Value e) of Inl _ \<Rightarrow> False | Inr _ \<Rightarrow> True)"

definition entry_args :: "'d apply_env \<Rightarrow> Config \<Rightarrow> Entry \<Rightarrow> go_any list" where
  "entry_args env cfg e =
     (if column_use_of cfg (en_Column e) = Parameter
      then (if cd_DefaultExpr (en_Column e) \<noteq> [] then [if en_Valid e then GInt 1 else GNil] else []) @ [db_value env e]
      else [])"

lemma length_entry_args: "int (length (entry_args env cfg e)) = width cfg (en_Column e)"
  by (simp add: entry_args_def width_def)

text \<open>Columns whose positions follow each other from \<open>n\<close> on.\<close>

fun placed :: "Config \<Rightarrow> columnMapping \<Rightarrow> int \<Rightarrow> ColData list \<Rightarrow> bool" where
  "placed cfg cm n [] \<longleftrightarrow> True"
| "placed cfg cm n (c # cs) \<longleftrightarrow>
     (\<exists>d. iget (cm_Positions cm) (cd_Name c) = Some (position_at cfg d n c)) \<and> placed cfg cm (n + width cfg c) cs"

lemma set_arg_append:
  "\<lbrakk>i = int (length pre)\<rbrakk> \<Longrightarrow> set_arg i v (pre @ x # post) = Inr (pre @ v # post)"
  by (simp add: set_arg_def)

lemma upsert_entry_writes:
  assumes "convertible env e" "iget (cm_Positions cm) k = Some (position_at cfg d n (en_Column e))"
    and "0 \<le> n" "int (length pre) = argIdx + n"
  shows "upsert_entry env cm argIdx k e (pre @ replicate (nat (width cfg (en_Column e))) GNil @ post)
    = Inr (pre @ entry_args env cfg e @ post)"
proof -
  let ?c = "en_Column e" and ?p = "position_at cfg d n (en_Column e)"
  obtain v where v: "toDBType (env_apd env) ?c (en_Value e) = Inr v" "db_value env e = v"
    using assms(1) by (auto simp: convertible_def db_value_def split: sum.splits)
  show ?thesis
  proof (cases "column_use_of cfg ?c = Parameter")
    case False
    then show ?thesis using v assms(2) by (simp add: upsert_entry_def entry_args_def position_at_def width_def)
  next
    case True
    show ?thesis
    proof (cases "cd_DefaultExpr ?c = []")
      case d: True
      then have "pc_UpsertIndex ?p = n" "pc_ValidityIndex ?p = - 1" "width cfg ?c = 1"
        using True by (simp_all add: position_at_def width_def)
      then show ?thesis
        using v assms(2-4) True d set_arg_append [of "argIdx + n" pre v GNil post]
        by (simp add: upsert_entry_def entry_args_def)
    next
      case d: False
      then have w: "pc_UpsertIndex ?p = n + 1" "pc_ValidityIndex ?p = n" "width cfg ?c = 2"
        using True by (simp_all add: position_at_def width_def)
      let ?flag = "if en_Valid e then GInt 1 else GNil"
      have "(if en_Valid e \<and> pc_ValidityIndex ?p \<ge> 0 then set_arg (argIdx + pc_ValidityIndex ?p) (GInt 1) (pre @ GNil # GNil # post)
          else Inr (pre @ GNil # GNil # post)) = Inr (pre @ ?flag # GNil # post)"
        using w assms(3,4) set_arg_append [of "argIdx + n" pre "GInt 1" GNil "GNil # post"] by simp
      moreover have "set_arg (argIdx + pc_UpsertIndex ?p) v (pre @ ?flag # GNil # post) = Inr (pre @ ?flag # v # post)"
        using w assms(4) set_arg_append [of "argIdx + (n + 1)" "pre @ [?flag]" v GNil post] by simp
      ultimately show ?thesis
        using v assms(2,3) True d w by (simp add: upsert_entry_def entry_args_def numeral_2_eq_2)
    qed
  qed
qed

lemma upsert_entries:
  assumes "placed cfg cm n (map (en_Column \<circ> snd) es)" "map fst es = map (cd_Name \<circ> en_Column \<circ> snd) es"
    and "\<forall>e \<in> snd ` set es. convertible env e" "0 \<le> n" "int (length pre) = argIdx + n"
  shows "imap_Range (upsert_entry env cm argIdx) es
      (pre @ replicate (nat (sum_list (map (width cfg \<circ> en_Column \<circ> snd) es))) GNil @ post)
    = Inr (pre @ concat (map (entry_args env cfg \<circ> snd) es) @ post)"
  using assms
proof (induction es arbitrary: n pre)
  case (Cons ke es)
  obtain k e where ke: "ke = (k, e)" by force
  let ?w = "width cfg (en_Column e)" and ?rest = "sum_list (map (width cfg \<circ> en_Column \<circ> snd) es)"
  have k: "k = cd_Name (en_Column e)" using Cons.prems(2) by (simp add: ke)
  obtain d where p: "iget (cm_Positions cm) k = Some (position_at cfg d n (en_Column e))"
    and pl: "placed cfg cm (n + ?w) (map (en_Column \<circ> snd) es)"
    using Cons.prems(1) by (auto simp: ke k comp_def)
  have "0 \<le> ?rest" by (intro sum_list_nonneg) auto
  then have "replicate (nat (?w + ?rest)) GNil = replicate (nat ?w) GNil @ replicate (nat ?rest) GNil"
    by (simp add: nat_add_distrib replicate_add)
  moreover have "upsert_entry env cm argIdx k e (pre @ replicate (nat ?w) GNil @ replicate (nat ?rest) GNil @ post)
      = Inr (pre @ entry_args env cfg e @ replicate (nat ?rest) GNil @ post)"
    by (rule upsert_entry_writes [OF _ p Cons.prems(4,5)]) (use Cons.prems(3) in \<open>simp add: ke\<close>)
  moreover have "imap_Range (upsert_entry env cm argIdx) es ((pre @ entry_args env cfg e) @ replicate (nat ?rest) GNil @ post)
      = Inr ((pre @ entry_args env cfg e) @ concat (map (entry_args env cfg \<circ> snd) es) @ post)"
    by (rule Cons.IH [OF pl]) (use Cons.prems length_entry_args [of env cfg e] in \<open>auto simp: ke\<close>)
  ultimately show ?case by (simp add: ke comp_def)
qed simp

text \<open>The arguments of a row, and what makes a row acceptable.\<close>

definition dropped_ignored :: "columnMapping \<Rightarrow> Bag \<Rightarrow> Bag" where
  "dropped_ignored cm b = fold Bag_Delete (cm_Ignore cm) b"

definition row_args :: "'d apply_env \<Rightarrow> Config \<Rightarrow> columnMapping \<Rightarrow> Bag \<Rightarrow> go_any list" where
  "row_args env cfg cm b =
     (let vals = concat (map (entry_args env cfg \<circ> snd) (bg_Mapped b))
      in if cm_ExtrasColIdx cm = - 1 then vals
         else case env_marshal env (bg_Unmapped (dropped_ignored cm b)) of
           Inl _ \<Rightarrow> vals
         | Inr js \<Rightarrow> vals[nat (cm_ExtrasColIdx cm) := GString js])"

definition row_ok :: "'d apply_env \<Rightarrow> columnMapping \<Rightarrow> Bag \<Rightarrow> bool" where
  "row_ok env cm b \<longleftrightarrow>
     ValidatePK b = None \<and> list_all (convertible env \<circ> snd) (bg_Mapped b)
     \<and> (if cm_ExtrasColIdx cm = - 1 then bg_Unmapped (dropped_ignored cm b) = []
        else case env_marshal env (bg_Unmapped (dropped_ignored cm b)) of Inl _ \<Rightarrow> False | Inr _ \<Rightarrow> True)"

definition mapping_ok :: "Config \<Rightarrow> columnMapping \<Rightarrow> bool" where
  "mapping_ok cfg cm \<longleftrightarrow>
     placed cfg cm 0 (cm_Columns cm) \<and> cm_UpsertParameterCount cm = sum_list (map (width cfg) (cm_Columns cm))
     \<and> (cm_ExtrasColIdx cm = - 1 \<or> 0 \<le> cm_ExtrasColIdx cm \<and> cm_ExtrasColIdx cm < cm_UpsertParameterCount cm)"

definition bag_for :: "columnMapping \<Rightarrow> Bag \<Rightarrow> bool" where
  "bag_for cm b \<longleftrightarrow> bag_aligned b \<and> bs_Columns (bg_spec b) = cm_Columns cm"

lemma length_entries_args:
  "bag_for cm b \<Longrightarrow> int (length (concat (map (entry_args env cfg \<circ> snd) (bg_Mapped b)))) = sum_list (map (width cfg) (cm_Columns cm))"
proof -
  assume b: "bag_for cm b"
  have "int (length (concat (map (entry_args env cfg \<circ> snd) es))) = sum_list (map (width cfg) (map (en_Column \<circ> snd) es))" for es
    by (induction es) (auto simp: length_entry_args)
  from this [of "bg_Mapped b"] show ?thesis using b by (metis bag_for_def bag_aligned_def)
qed

lemma length_row_args: "\<lbrakk>bag_for cm b; mapping_ok cfg cm\<rbrakk> \<Longrightarrow> int (length (row_args env cfg cm b)) = cm_UpsertParameterCount cm"
  using length_entries_args [of cm b env cfg] by (auto simp: row_args_def mapping_ok_def Let_def split: sum.splits)

lemma upsert_row_ok:
  assumes "mapping_ok cfg cm" "bag_for cm b" "row_ok env cm b" "argIdx = int (length pre)"
  shows "upsert_row env cm idx b argIdx (pre @ replicate (nat (cm_UpsertParameterCount cm)) GNil @ post)
    = Inr (pre @ row_args env cfg cm b @ post, dropped_ignored cm b)"
proof -
  let ?vals = "concat (map (entry_args env cfg \<circ> snd) (bg_Mapped b))"
  have cols: "map (en_Column \<circ> snd) (bg_Mapped b) = cm_Columns cm" "map fst (bg_Mapped b) = map cd_Name (cm_Columns cm)"
    using assms(2) by (simp_all add: bag_for_def bag_aligned_def)
  have "map fst (bg_Mapped b) = map (cd_Name \<circ> en_Column \<circ> snd) (bg_Mapped b)"
    unfolding cols(2) cols(1) [symmetric] by (simp add: comp_def)
  moreover have "sum_list (map (width cfg \<circ> en_Column \<circ> snd) (bg_Mapped b)) = cm_UpsertParameterCount cm"
    using assms(1) unfolding mapping_ok_def cols(1) [symmetric] by (simp add: comp_def)
  moreover have "\<forall>e \<in> snd ` set (bg_Mapped b). convertible env e" using assms(3) by (simp add: row_ok_def list_all_iff)
  moreover have "placed cfg cm 0 (map (en_Column \<circ> snd) (bg_Mapped b))" using assms(1) cols(1) by (simp add: mapping_ok_def)
  ultimately have range: "imap_Range (upsert_entry env cm argIdx) (bg_Mapped b)
      (pre @ replicate (nat (cm_UpsertParameterCount cm)) GNil @ post) = Inr (pre @ ?vals @ post)"
    using upsert_entries [of cfg cm 0 "bg_Mapped b" env pre argIdx post] assms(4) by simp
  show ?thesis
  proof (cases "cm_ExtrasColIdx cm = - 1")
    case True
    then show ?thesis
      using assms(3) range
      by (simp add: upsert_row_def row_ok_def row_args_def dropped_ignored_def ValidateNoUnmappedColumns_def imap_Len_def Let_def)
  next
    case False
    then obtain js where js: "env_marshal env (bg_Unmapped (dropped_ignored cm b)) = Inr js"
      using assms(3) by (auto simp: row_ok_def split: sum.splits)
    have "0 \<le> cm_ExtrasColIdx cm" "nat (cm_ExtrasColIdx cm) < length ?vals"
      using False assms(1) length_entries_args [OF assms(2), of env cfg] by (auto simp: mapping_ok_def)
    then have "set_arg (argIdx + cm_ExtrasColIdx cm) (GString js) (pre @ ?vals @ post)
        = Inr (pre @ ?vals[nat (cm_ExtrasColIdx cm) := GString js] @ post)"
      by (simp add: set_arg_def assms(4) nat_add_distrib list_update_append)
    then show ?thesis
      using False js assms(3) range
      by (simp add: upsert_row_def row_ok_def row_args_def dropped_ignored_def Let_def)
  qed
qed

lemma upsert_rows_ok:
  assumes "mapping_ok cfg cm" "\<forall>b \<in> set bags. bag_for cm b \<and> row_ok env cm b" "argIdx = int (length pre)"
  shows "upsert_rows env cm idx bags argIdx (pre @ replicate (nat (cm_UpsertParameterCount cm * int (length bags))) GNil)
    = Inr (pre @ concat (map (row_args env cfg cm) bags),
           argIdx + cm_UpsertParameterCount cm * int (length bags), map (dropped_ignored cm) bags)"
  using assms(2,3)
proof (induction bags arbitrary: idx argIdx pre)
  case (Cons b bags)
  let ?n = "cm_UpsertParameterCount cm"
  have n: "0 \<le> ?n" using assms(1) by (auto simp: mapping_ok_def intro!: sum_list_nonneg)
  then have "replicate (nat (?n * int (length (b # bags)))) GNil = replicate (nat ?n) GNil @ replicate (nat (?n * int (length bags))) GNil"
    by (simp add: distrib_left nat_add_distrib replicate_add)
  moreover have "upsert_row env cm idx b argIdx (pre @ replicate (nat ?n) GNil @ replicate (nat (?n * int (length bags))) GNil)
      = Inr (pre @ row_args env cfg cm b @ replicate (nat (?n * int (length bags))) GNil, dropped_ignored cm b)"
    by (rule upsert_row_ok [OF assms(1)]) (use Cons.prems in auto)
  moreover have "upsert_rows env cm (idx + 1) bags (argIdx + ?n) ((pre @ row_args env cfg cm b) @ replicate (nat (?n * int (length bags))) GNil)
      = Inr ((pre @ row_args env cfg cm b) @ concat (map (row_args env cfg cm) bags),
           argIdx + ?n + ?n * int (length bags), map (dropped_ignored cm) bags)"
    by (rule Cons.IH) (use Cons.prems length_row_args [of cm b cfg env] assms(1) in auto)
  ultimately show ?case by (simp add: distrib_left)
qed simp

text \<open>The mapping that \<open>newColumnMapping\<close> builds has its columns in place.\<close>

lemma placed_filter:
  assumes "\<And>i. i < length cols \<Longrightarrow> \<exists>d. iget (cm_Positions cm) (cd_Name (cols ! i))
      = Some (position_at cfg d (n + sum_list (map (width cfg) (take i cols))) (cols ! i))"
  shows "placed cfg cm n (filter (will_upsert cfg) cols)"
  using assms
proof (induction cols arbitrary: n)
  case (Cons c cols)
  have "\<exists>d. iget (cm_Positions cm) (cd_Name (cols ! i))
      = Some (position_at cfg d (n + width cfg c + sum_list (map (width cfg) (take i cols))) (cols ! i))"
    if "i < length cols" for i
    using Cons.prems [of "Suc i"] that by (simp add: add_ac)
  then have "placed cfg cm (n + width cfg c) (filter (will_upsert cfg) cols)" using Cons.IH by blast
  then show ?case using Cons.prems [of 0] width_upsert [of cfg c] by auto
qed simp

lemma placed_nth:
  "\<lbrakk>placed cfg cm n cs; k < length cs\<rbrakk> \<Longrightarrow> \<exists>d. iget (cm_Positions cm) (cd_Name (cs ! k))
     = Some (position_at cfg d (n + sum_list (map (width cfg) (take k cs))) (cs ! k))"
proof (induction cs arbitrary: n k)
  case (Cons c cs)
  show ?case
  proof (cases k)
    case (Suc j)
    then show ?thesis using Cons.IH [of "n + width cfg c" j] Cons.prems by (simp add: add.assoc)
  qed (use Cons.prems in auto)
qed simp

lemma sum_width_filter: "sum_list (map (width cfg) (filter (will_upsert cfg) cols)) = sum_list (map (width cfg) cols)"
  by (induction cols) (auto simp: width_upsert)

definition extras_in_range :: "columnMapping \<Rightarrow> int \<Rightarrow> bool" where
  "extras_in_range cm n \<longleftrightarrow> cm_ExtrasColIdx cm = - 1 \<or> 0 \<le> cm_ExtrasColIdx cm \<and> cm_ExtrasColIdx cm < n"

lemma assemble_column_extras:
  "cm_ExtrasColIdx (assemble_column cfg c u r)
     = (if ident_Equal (IdAtom (cd_Name c)) (IdAtom (cfg_Extras cfg)) then u else cm_ExtrasColIdx r)"
  by (simp add: assemble_column_def Let_def split: option.splits)

lemma map_column_extras:
  assumes "map_column cfg c (ret, n) = Inr (ret', n')" "extras_in_range ret n" "0 \<le> n"
  shows "extras_in_range ret' n' \<and> 0 \<le> n'"
  using assms unfolding map_column_def Let_def extras_in_range_def
  by (cases "column_use_of cfg c") (auto simp: assemble_column_extras split: if_splits)

lemma map_columns_extras:
  "\<lbrakk>map_columns cfg cols (ret, n) = Inr (ret', n'); extras_in_range ret n; 0 \<le> n\<rbrakk> \<Longrightarrow> extras_in_range ret' n'"
proof (induction cols arbitrary: ret n)
  case (Cons c cols)
  then obtain ret1 n1 where s: "map_column cfg c (ret, n) = Inr (ret1, n1)" "map_columns cfg cols (ret1, n1) = Inr (ret', n')"
    by (auto split: sum.splits)
  show ?case using Cons.IH [OF s(2)] map_column_extras [OF s(1) Cons.prems(2,3)] by blast
qed simp

lemma fold_after_extras:
  "cm_ExtrasColIdx (fold rename_column es (fold ignore_name is ret)) = cm_ExtrasColIdx ret"
proof -
  have "cm_ExtrasColIdx (fold rename_column es ret) = cm_ExtrasColIdx ret" for ret
    by (induction es arbitrary: ret) (auto simp: rename_column_def Let_def split: option.splits)
  moreover have "cm_ExtrasColIdx (fold ignore_name is ret) = cm_ExtrasColIdx ret"
    by (induction "is" arbitrary: ret) (auto simp: ignore_name_def)
  ultimately show ?thesis by simp
qed

lemma newColumnMapping_extras:
  "newColumnMapping cfg cols product table = Inr cm \<Longrightarrow> extras_in_range cm (cm_UpsertParameterCount cm)"
proof -
  assume "newColumnMapping cfg cols product table = Inr cm"
  then obtain ret n where r: "map_columns cfg cols (initial_mapping cfg product table, 0) = Inr (ret, n)"
    and cm: "cm = fold rename_column (cfg_SourceNames cfg) (fold ignore_name (cfg_Ignore cfg)
      (ret\<lparr>cm_DeleteParameterCount := int (length (cm_PKDelete ret)), cm_UpsertParameterCount := n\<rparr>))"
    by (auto simp: newColumnMapping_def Let_def split: sum.splits)
  have "extras_in_range ret n" by (rule map_columns_extras [OF r]) (simp_all add: extras_in_range_def initial_mapping_def)
  then show ?thesis unfolding cm extras_in_range_def fold_after_extras fold_after_fields by simp
qed

lemma newColumnMapping_ok:
  assumes "newColumnMapping cfg cols product table = Inr cm" "cols_distinct cols" "renames_safe cfg cols"
  shows "mapping_ok cfg cm \<and> cm_Columns cm = filter (will_upsert cfg) cols \<and> cols_distinct (cm_Columns cm)"
proof -
  have p: "cm_Columns cm = filter (will_upsert cfg) cols" "cm_UpsertParameterCount cm = sum_list (map (width cfg) cols)"
    "\<forall>i < length cols. iget (cm_Positions cm) (cd_Name (cols ! i))
       = Some (position_at cfg (int (length (filter cd_Primary (take i cols)))) (sum_list (map (width cfg) (take i cols))) (cols ! i))"
    using newColumnMapping_positions [OF assms(2,3), of product table] assms(1) by auto
  have "placed cfg cm 0 (cm_Columns cm)" unfolding p(1) by (rule placed_filter) (use p(3) in auto)
  moreover have "cols_distinct (cm_Columns cm)"
    using assms(2) unfolding p(1) cols_distinct_def by (rule distinct_map_filter)
  ultimately show ?thesis
    using newColumnMapping_extras [OF assms(1)] p(1,2) sum_width_filter [of cfg cols]
    by (auto simp: mapping_ok_def extras_in_range_def)
qed

lemma concat_nth_offset:
  "\<lbrakk>k < length xss; j < length (xss ! k)\<rbrakk> \<Longrightarrow> concat xss ! (length (concat (take k xss)) + j) = xss ! k ! j"
proof (induction xss arbitrary: k)
  case (Cons xs xss)
  then show ?case by (cases k) (auto simp: nth_append)
qed simp

lemma row_args_value:
  assumes "mapping_ok cfg cm" "bag_for cm b" "k < length (cm_Columns cm)" "column_use_of cfg (cm_Columns cm ! k) = Parameter"
    and p: "iget (cm_Positions cm) (cd_Name (cm_Columns cm ! k)) = Some p"
  shows "0 \<le> pc_UpsertIndex p \<and> pc_UpsertIndex p < cm_UpsertParameterCount cm
    \<and> (pc_UpsertIndex p \<noteq> cm_ExtrasColIdx cm \<longrightarrow>
         row_args env cfg cm b ! nat (pc_UpsertIndex p) = db_value env (snd (bg_Mapped b ! k)))
    \<and> (0 \<le> pc_ValidityIndex p \<longrightarrow> pc_ValidityIndex p < cm_UpsertParameterCount cm
         \<and> (pc_ValidityIndex p \<noteq> cm_ExtrasColIdx cm \<longrightarrow>
              row_args env cfg cm b ! nat (pc_ValidityIndex p) = (if en_Valid (snd (bg_Mapped b ! k)) then GInt 1 else GNil)))"
proof -
  let ?cs = "cm_Columns cm" and ?e = "snd (bg_Mapped b ! k)"
  let ?xss = "map (entry_args env cfg \<circ> snd) (bg_Mapped b)" and ?n = "sum_list (map (width cfg) (take k (cm_Columns cm)))"
  have al: "map (en_Column \<circ> snd) (bg_Mapped b) = ?cs" using assms(2) by (simp add: bag_for_def bag_aligned_def)
  then have len: "length (bg_Mapped b) = length ?cs" by (metis length_map)
  have col: "en_Column ?e = ?cs ! k" using al assms(3) len by (metis comp_apply nth_map)
  obtain d where pd: "p = position_at cfg d ?n (?cs ! k)"
    using placed_nth [of cfg cm 0 ?cs k] assms(1,3) p by (auto simp: mapping_ok_def)
  have sums: "int (length (concat (map (entry_args env cfg \<circ> snd) es))) = sum_list (map (width cfg) (map (en_Column \<circ> snd) es))" for es
    by (induction es) (auto simp: length_entry_args)
  have "map (en_Column \<circ> snd) (take k (bg_Mapped b)) = take k ?cs" using al by (metis take_map)
  then have off: "int (length (concat (take k ?xss))) = ?n" using sums [of "take k (bg_Mapped b)"] by (simp add: take_map)
  have nk: "?xss ! k = entry_args env cfg ?e" using assms(3) len by simp
  have nat_off: "nat ?n = length (concat (take k ?xss))" using off by (metis nat_int)
  have vals: "concat ?xss ! (nat ?n + j) = entry_args env cfg ?e ! j" if "j < length (entry_args env cfg ?e)" for j
    using concat_nth_offset [of k ?xss j] that assms(3) len nk unfolding nat_off by simp
  have tot: "int (length (concat ?xss)) = cm_UpsertParameterCount cm"
    using length_entries_args [OF assms(2), of env cfg] assms(1) by (simp add: mapping_ok_def)
  have "length (concat (take k ?xss)) + length (?xss ! k) \<le> length (concat ?xss)"
    using assms(3) len by (subst (2) id_take_nth_drop [of k ?xss]) auto
  then have bound: "?n + width cfg (?cs ! k) \<le> cm_UpsertParameterCount cm"
    using off tot nk length_entry_args [of env cfg ?e] col by simp
  have n0: "0 \<le> ?n" using off by (metis of_nat_0_le_iff)
  have row: "row_args env cfg cm b ! i = concat ?xss ! i" if "int i \<noteq> cm_ExtrasColIdx cm" for i
    using that assms(1) by (auto simp: row_args_def Let_def mapping_ok_def nth_upd_if split: sum.splits)
  show ?thesis
    using pd assms(4) bound n0 vals [of 0] vals [of 1] row [of "nat (pc_UpsertIndex p)"] row [of "nat (pc_ValidityIndex p)"] col
    by (cases "cd_DefaultExpr (?cs ! k) = []")
       (auto simp: position_at_def width_def entry_args_def nat_add_distrib)
qed

text \<open>The parameters that the SQL templates refer to.\<close>

lemma column_var_upsert:
  assumes "\<not> tm_ForDelete t" "cm_Product (tm_mapping t) \<noteq> ProductUnknown"
  shows "\<exists>vp. column_var t row col = Inr vp \<and> vp_Column vp = col
    \<and> vp_Param vp = row * cm_UpsertParameterCount (tm_mapping t) + pc_UpsertIndex (position (tm_mapping t) col) + 1
    \<and> vp_ValidityParam vp = (if pc_ValidityIndex (position (tm_mapping t) col) \<ge> 0
         then row * cm_UpsertParameterCount (tm_mapping t) + pc_ValidityIndex (position (tm_mapping t) col) + 1 else 0)"
  using assms
  by (cases "cm_Product (tm_mapping t)")
     (auto simp: column_var_def position_def param_reference_def Let_def split: option.splits)

lemma Vars_upsert:
  assumes "\<not> tm_ForDelete t" "cm_Product (tm_mapping t) \<noteq> ProductUnknown" "tm_RowCount t = int R"
  shows "\<exists>vars. Vars t = Inr vars \<and> length vars = R
    \<and> (\<forall>r < R. \<forall>k < length (cm_Columns (tm_mapping t)). Inr (vars ! r ! k) = column_var t (int r) (cm_Columns (tm_mapping t) ! k))"
proof -
  let ?cs = "cm_Columns (tm_mapping t)"
  define vp where "vp = (\<lambda>r c. SOME vp. column_var t (int r) c = Inr vp)"
  have vp: "column_var t (int r) c = Inr (vp r c)" for r c
    using column_var_upsert [OF assms(1,2), of "int r" c] unfolding vp_def by (auto intro: someI_ex)
  have "Vars t = Inr (map (\<lambda>r. map (vp r) ?cs) [0..<R])"
    using assms(1,3) by (simp add: Vars_def all_results_Inr vp)
  then show ?thesis by (intro exI [of _ "map (\<lambda>r. map (vp r) ?cs) [0..<R]"]) (auto simp: vp)
qed

text \<open>An applier after a refresh, for a target without bulk transfers.\<close>

lemma refreshUnlocked_fields:
  assumes "refreshUnlocked cfg cols a0 = Inr a"
  shows "\<exists>cm. newColumnMapping cfg cols (ap_product a0) (ap_target a0) = Inr cm \<and> tm_mapping (ap_templates a) = cm
    \<and> ap_bagSpec a = \<lparr>bs_Columns = cm_Columns cm, bs_Rename = Some (cm_Renames cm)\<rparr>
    \<and> cm_Product cm \<noteq> ProductUnknown \<and> \<not> tm_ForDelete (ap_templates a) \<and> ap_gen a = ap_gen a0 + 1"
proof -
  obtain cm t where "newColumnMapping cfg cols (ap_product a0) (ap_target a0) = Inr cm" "newTemplates cm = Inr t"
    "a = a0\<lparr>ap_bagSpec := \<lparr>bs_Columns = cm_Columns (tm_mapping t), bs_Rename = Some (cm_Renames (tm_mapping t))\<rparr>,
        ap_gen := ap_gen a0 + 1, ap_templates := t\<rparr>"
    using assms by (auto simp: refreshUnlocked_def split: option.splits sum.splits)
  moreover have "tm_mapping t = cm \<and> cm_Product cm \<noteq> ProductUnknown \<and> \<not> tm_ForDelete t"
    using calculation(2) by (auto simp: newTemplates_def dialect_templates_def split: Product.splits)
  ultimately show ?thesis by simp
qed

lemma newBag_for:
  assumes "ap_bagSpec a = \<lparr>bs_Columns = cm_Columns cm, bs_Rename = rn\<rparr>" "cols_distinct (cm_Columns cm)"
  shows "bag_for cm (bag_run ops (newBagLocked a))"
proof -
  have "bag_aligned (bag_run ops (newBagLocked a))"
    unfolding newBagLocked_def using assms by (intro bag_aligned_run bag_aligned_New) simp
  moreover have "bg_spec (bag_run ops (newBagLocked a)) = ap_bagSpec a"
    unfolding newBagLocked_def using bag_run_ok [OF bag_ok_NewBag] by simp
  ultimately show ?thesis using assms(1) by (simp add: bag_for_def)
qed

lemma upsertArgsLocked_rows:
  assumes "mapping_ok cfg (tm_mapping (ap_templates a))"
    and "\<forall>b \<in> set bags. bag_for (tm_mapping (ap_templates a)) b \<and> row_ok env (tm_mapping (ap_templates a)) b"
    and "\<not> tm_BulkUpsert (ap_templates a)"
  shows "upsertArgsLocked env a bags
    = Inr (map Arg (concat (map (row_args env cfg (tm_mapping (ap_templates a))) bags)),
           map (dropped_ignored (tm_mapping (ap_templates a))) bags)"
proof -
  let ?cm = "tm_mapping (ap_templates a)"
  let ?rows = "map (row_args env cfg ?cm) bags"
  have "int (length (concat ?rows)) = cm_UpsertParameterCount ?cm * int (length bags)"
    using assms(1,2) by (induction bags) (auto simp: length_row_args algebra_simps)
  then have "nat (cm_UpsertParameterCount ?cm * int (length bags)) = length (concat ?rows)" by (metis nat_int)
  then show ?thesis
    using upsert_rows_ok [OF assms(1,2), of 0 "[]" 0] assms(3) by (simp add: upsertArgsLocked_def Let_def)
qed

section \<open>Properties\<close>

text \<open>
  The binding of one column in one row: the entry and the generated variable are about the same column, the number
  of the variable is that of an argument, and the argument is the converted value of the entry or its flag. The
  extras column has the encoded unmapped properties instead.
\<close>

definition bound_to :: "'d apply_env \<Rightarrow> columnMapping \<Rightarrow> go_any list \<Rightarrow> varPair \<Rightarrow> Entry \<Rightarrow> bool" where
  "bound_to env cm args vp e \<longleftrightarrow>
     vp_Column vp = en_Column e \<and> 1 \<le> vp_Param vp \<and> vp_Param vp \<le> int (length args)
     \<and> (pc_UpsertIndex (position cm (en_Column e)) \<noteq> cm_ExtrasColIdx cm \<longrightarrow> args ! nat (vp_Param vp - 1) = db_value env e)
     \<and> (pc_ValidityIndex (position cm (en_Column e)) \<noteq> cm_ExtrasColIdx cm \<and> vp_ValidityParam vp > 0 \<longrightarrow>
          vp_ValidityParam vp \<le> int (length args)
          \<and> args ! nat (vp_ValidityParam vp - 1) = (if en_Valid e then GInt 1 else GNil))"

lemma bound_in_rows:
  assumes "mapping_ok cfg cm" "\<forall>b \<in> set bags. bag_for cm b" "r < length bags" "k < length (cm_Columns cm)"
    and "column_use_of cfg (cm_Columns cm ! k) = Parameter"
    and vp: "vp_Column vp = cm_Columns cm ! k"
      "vp_Param vp = int r * cm_UpsertParameterCount cm + pc_UpsertIndex (position cm (cm_Columns cm ! k)) + 1"
      "vp_ValidityParam vp = (if pc_ValidityIndex (position cm (cm_Columns cm ! k)) \<ge> 0
         then int r * cm_UpsertParameterCount cm + pc_ValidityIndex (position cm (cm_Columns cm ! k)) + 1 else 0)"
  shows "bound_to env cm (concat (map (row_args env cfg cm) bags)) vp (snd (bg_Mapped (bags ! r) ! k))"
proof -
  let ?col = "cm_Columns cm ! k" and ?n = "cm_UpsertParameterCount cm" and ?rows = "map (row_args env cfg cm) bags"
  let ?e = "snd (bg_Mapped (bags ! r) ! k)"
  have b: "bag_for cm (bags ! r)" using assms(2,3) by simp
  then have al: "map (en_Column \<circ> snd) (bg_Mapped (bags ! r)) = cm_Columns cm" by (simp add: bag_for_def bag_aligned_def)
  then have col: "en_Column ?e = ?col" using assms(4) by (metis comp_apply length_map nth_map)
  obtain d where "iget (cm_Positions cm) (cd_Name ?col) = Some (position_at cfg d (0 + sum_list (map (width cfg) (take k (cm_Columns cm)))) ?col)"
    using placed_nth [of cfg cm 0 "cm_Columns cm" k] assms(1,4) by (auto simp: mapping_ok_def)
  then have pos: "iget (cm_Positions cm) (cd_Name ?col) = Some (position cm ?col)" by (simp add: position_def imap_GetZero_def)
  note val = row_args_value [OF assms(1) b assms(4,5) pos, of env]
  have lens: "\<forall>row \<in> set ?rows. length row = nat ?n"
    using length_row_args [OF _ assms(1), of _ env] assms(2) by fastforce
  have n0: "0 \<le> ?n" using val by linarith
  have at: "concat ?rows ! nat (int r * ?n + i) = row_args env cfg cm (bags ! r) ! nat i" if "0 \<le> i" "i < ?n" for i
    using concat_nth_width [OF lens, of r "nat i"] that assms(3) n0
    by (simp add: nat_add_distrib nat_mult_distrib)
  have tot: "int (length (concat ?rows)) = int (length bags) * ?n"
    using length_concat_width [OF lens] n0 by simp
  have in_range: "int r * ?n + i + 1 \<le> int (length bags) * ?n" if "i < ?n" for i
  proof -
    have "int r * ?n + ?n \<le> int (length bags) * ?n"
      using mult_right_mono [of "int r + 1" "int (length bags)" ?n] assms(3) n0 by (simp add: distrib_right)
    then show ?thesis using that by simp
  qed
  have rn: "0 \<le> int r * ?n" using n0 by simp
  let ?U = "pc_UpsertIndex (position cm ?col)" and ?V = "pc_ValidityIndex (position cm ?col)"
  have "1 \<le> vp_Param vp" "vp_Param vp \<le> int (length bags) * ?n" "nat (vp_Param vp - 1) = nat (int r * ?n + ?U)"
    using vp(2) val rn in_range [of ?U] by auto
  moreover have "vp_ValidityParam vp \<le> int (length bags) * ?n" "nat (vp_ValidityParam vp - 1) = nat (int r * ?n + ?V)" "0 \<le> ?V"
    if "vp_ValidityParam vp > 0"
    using that vp(3) val in_range [of ?V] by (auto split: if_splits)
  ultimately show ?thesis
    using val vp(1) at [of ?U] at [of ?V] unfolding bound_to_def col tot by simp
qed

text \<open>
  C28: the placeholders of an upsert statement get the values of their columns. After a refresh of a target without
  bulk upserts, for a table whose columns have different names and renames that do not take the name of another column,
  and for any rows that have their primary keys, whose values convert and whose unmapped properties can be stored,
  the arguments and the variables that the template is given agree: the variable of a column that is a parameter has
  in a row the number of the argument that holds the converted value of that column in that row, and the validity
  variable that of its flag. The extras column is the exception: its argument is the encoding of the unmapped properties.
\<close>

theorem upsert_binds_values:
  assumes refresh: "refreshUnlocked cfg cols a0 = Inr a" "cols_distinct cols" "renames_safe cfg cols"
    and cm: "cm = tm_mapping (ap_templates a)" "\<not> tm_BulkUpsert (ap_templates a)"
    and bags: "bags = map (\<lambda>ops. bag_run ops (newBagLocked a)) opss" "\<forall>b \<in> set bags. row_ok env cm b"
  shows "\<exists>args vars. upsertArgsLocked env a bags = Inr (map Arg args, map (dropped_ignored cm) bags)
    \<and> Vars ((ap_templates a)\<lparr>tm_RowCount := int (length bags)\<rparr>) = Inr vars
    \<and> (\<forall>r < length bags. \<forall>k < length (cm_Columns cm). column_use_of cfg (cm_Columns cm ! k) = Parameter \<longrightarrow>
         bound_to env cm args (vars ! r ! k) (snd (bg_Mapped (bags ! r) ! k)))"
proof -
  note f = refreshUnlocked_fields [OF refresh(1), folded cm(1)]
  have ok: "mapping_ok cfg cm" "cols_distinct (cm_Columns cm)" using f newColumnMapping_ok [OF _ refresh(2,3)] by auto
  have for_bags: "\<forall>b \<in> set bags. bag_for cm b" using f ok(2) newBag_for unfolding bags(1) by fastforce
  let ?t = "(ap_templates a)\<lparr>tm_RowCount := int (length bags)\<rparr>" and ?args = "concat (map (row_args env cfg cm) bags)"
  have t: "\<not> tm_ForDelete ?t" "cm_Product (tm_mapping ?t) \<noteq> ProductUnknown" "tm_mapping ?t = cm" using f cm(1) by auto
  obtain vars where vars: "Vars ?t = Inr vars"
    "\<forall>r < length bags. \<forall>k < length (cm_Columns cm). Inr (vars ! r ! k) = column_var ?t (int r) (cm_Columns cm ! k)"
    using Vars_upsert [OF t(1,2), of "length bags"] t(3) by auto
  have "upsertArgsLocked env a bags = Inr (map Arg ?args, map (dropped_ignored cm) bags)"
    using upsertArgsLocked_rows [of cfg a bags env] ok(1) for_bags bags(2) cm by simp
  moreover have "bound_to env cm ?args (vars ! r ! k) (snd (bg_Mapped (bags ! r) ! k))"
    if rk: "r < length bags" "k < length (cm_Columns cm)" "column_use_of cfg (cm_Columns cm ! k) = Parameter" for r k
  proof -
    obtain vp where "column_var ?t (int r) (cm_Columns cm ! k) = Inr vp" "vp_Column vp = cm_Columns cm ! k"
      "vp_Param vp = int r * cm_UpsertParameterCount cm + pc_UpsertIndex (position cm (cm_Columns cm ! k)) + 1"
      "vp_ValidityParam vp = (if pc_ValidityIndex (position cm (cm_Columns cm ! k)) \<ge> 0
         then int r * cm_UpsertParameterCount cm + pc_ValidityIndex (position cm (cm_Columns cm ! k)) + 1 else 0)"
      using column_var_upsert [OF t(1,2), of "int r" "cm_Columns cm ! k"] unfolding t(3) by blast
    then show ?thesis using bound_in_rows [OF ok(1) for_bags rk] vars(2) rk by (metis sum.inject(2))
  qed
  ultimately show ?thesis using vars(1) by blast
qed

text \<open>Witness for C28: two rows, one of them without a value for the column that has a default.\<close>

definition demo_env :: "string list apply_env" where
  "demo_env = \<lparr>env_workers = 2, env_decode_key = (\<lambda>s. Inr [GString s]), env_decode_object = (\<lambda>s. Inr []), env_marshal = (\<lambda>m. Inr ''{}''),
     env_apd = (\<lambda>s. None), env_execute = (\<lambda>(d, f) t. Inr f), env_lookup = (\<lambda>d f. True),
     env_cache_get = (\<lambda>k d. (None, d)), env_cache_add = (\<lambda>k s d. d), env_prepare = (\<lambda>s d. (None, d)),
     env_exec = (\<lambda>s args d. (Inr 1, d @ [s])), env_query = (\<lambda>s args d. (Inr ([], None), d @ [s])),
     env_enqueue = (\<lambda>sch q m d. (None, d))\<rparr>"

definition demo_applier :: applier where
  "demo_applier = \<lparr>ap_product = ProductCockroachDB, ap_target = WithHint NilTable [], ap_bagSpec = \<lparr>bs_Columns = [], bs_Rename = None\<rparr>,
     ap_gen = 0, ap_templates = dialect_templates TmplCRDB (initial_mapping NewConfig ProductCockroachDB (WithHint NilTable []))\<rparr>"

definition demo_ops :: "bag_op list list" where
  "demo_ops = [[OpPut (Ident ''ID'') (GNumber ''1''), OpPut (Ident ''bee'') (GString ''x'')],
     [OpPut (Ident ''id'') (GNumber ''2''), OpPut (Ident ''a'') (GBool True), OpPut (Ident ''g'') (GBool True)]]"

theorem upsert_binds_values_witness:
  "\<exists>a bags args vars. refreshUnlocked demo_config demo_cols demo_applier = Inr a
    \<and> bags = map (\<lambda>ops. bag_run ops (newBagLocked a)) demo_ops
    \<and> upsertArgsLocked demo_env a bags = Inr (map Arg args, map (dropped_ignored (tm_mapping (ap_templates a))) bags)
    \<and> Vars ((ap_templates a)\<lparr>tm_RowCount := int (length bags)\<rparr>) = Inr vars
    \<and> bound_to demo_env (tm_mapping (ap_templates a)) args (vars ! 1 ! 1) (snd (bg_Mapped (bags ! 1) ! 1))"
proof -
  have "(case refreshUnlocked demo_config demo_cols demo_applier of Inl _ \<Rightarrow> False
     | Inr a \<Rightarrow> \<not> tm_BulkUpsert (ap_templates a) \<and> 1 < length (cm_Columns (tm_mapping (ap_templates a)))
         \<and> column_use_of demo_config (cm_Columns (tm_mapping (ap_templates a)) ! 1) = Parameter
         \<and> list_all (\<lambda>ops. row_ok demo_env (tm_mapping (ap_templates a)) (bag_run ops (newBagLocked a))) demo_ops)"
    by code_simp
  then obtain a where a: "refreshUnlocked demo_config demo_cols demo_applier = Inr a" "\<not> tm_BulkUpsert (ap_templates a)"
    "1 < length (cm_Columns (tm_mapping (ap_templates a)))"
    "column_use_of demo_config (cm_Columns (tm_mapping (ap_templates a)) ! 1) = Parameter"
    "list_all (\<lambda>ops. row_ok demo_env (tm_mapping (ap_templates a)) (bag_run ops (newBagLocked a))) demo_ops"
    by (auto split: sum.splits)
  let ?bags = "map (\<lambda>ops. bag_run ops (newBagLocked a)) demo_ops"
  have "\<forall>b \<in> set ?bags. row_ok demo_env (tm_mapping (ap_templates a)) b" using a(5) by (simp add: list_all_iff)
  moreover have "cols_distinct demo_cols" "renames_safe demo_config demo_cols" by code_simp+
  moreover have "1 < length ?bags" by (simp add: demo_ops_def)
  ultimately show ?thesis
    using upsert_binds_values [OF a(1) _ _ refl a(2) refl, of demo_ops demo_env] a(1,3,4) by blast
qed

section \<open>The batches of an apply\<close>

text \<open>
  The reference: the statements that the loop of \<open>Apply\<close> issues, computed without the database, and their
  execution up to the first error.
\<close>

datatype call = CallDelete "Mutation list" | CallUpsert "Mutation list" string | CallInvalid

fun call_muts :: "call \<Rightarrow> Mutation list" where
  "call_muts (CallDelete ms) = ms"
| "call_muts (CallUpsert ms template) = ms"
| "call_muts CallInvalid = []"

fun plan :: "nat \<Rightarrow> nat \<Rightarrow> Mutation list \<Rightarrow> Mutation list \<Rightarrow> Mutation list \<Rightarrow> call list" where
  "plan capD capU [] deletes upserts = [CallDelete deletes, CallUpsert upserts []]"
| "plan capD capU (mut # muts) deletes upserts =
     (if IsDelete mut then
        if length deletes + 1 = capD then CallDelete (deletes @ [mut]) # plan capD capU muts [] upserts
        else plan capD capU muts (deletes @ [mut]) upserts
      else case map_of (mut_Meta mut) CustomUpsert of
        Some (GString template) \<Rightarrow> CallUpsert upserts [] # CallUpsert [mut] template # plan capD capU muts deletes []
      | Some _ \<Rightarrow> [CallUpsert upserts [], CallInvalid]
      | None \<Rightarrow>
          if length upserts + 1 = capU then CallUpsert (upserts @ [mut]) [] # plan capD capU muts deletes []
          else plan capD capU muts deletes (upserts @ [mut]))"

fun run_call :: "'d apply_env \<Rightarrow> applier \<Rightarrow> call \<Rightarrow> 'd \<Rightarrow> apply_error option \<times> 'd" where
  "run_call env a (CallDelete ms) d = deleteLocked env a ms d"
| "run_call env a (CallUpsert ms template) d = upsertLocked env a ms template d"
| "run_call env a CallInvalid d = (Some InvalidCustomUpsert, d)"

fun run_calls :: "'d apply_env \<Rightarrow> applier \<Rightarrow> call list \<Rightarrow> 'd \<Rightarrow> apply_error option \<times> 'd" where
  "run_calls env a [] d = (None, d)"
| "run_calls env a (c # cs) d =
     (case run_call env a c d of (Some e, d1) \<Rightarrow> (Some e, d1) | (None, d1) \<Rightarrow> run_calls env a cs d1)"

lemma apply_loop_plan:
  "apply_loop env a capD capU muts deletes upserts d = run_calls env a (plan capD capU muts deletes upserts) d"
proof (induction muts arbitrary: deletes upserts d)
  case Nil
  show ?case by (simp split: prod.splits option.splits)
next
  case (Cons mut muts)
  then show ?case by (simp add: Cons.IH split: prod.splits option.splits go_any.splits)
qed

definition valid_custom :: "Mutation \<Rightarrow> bool" where
  "valid_custom mut \<longleftrightarrow>
     IsDelete mut \<or> (case map_of (mut_Meta mut) CustomUpsert of None \<Rightarrow> True | Some v \<Rightarrow> (case v of GString _ \<Rightarrow> True | _ \<Rightarrow> False))"

lemma plan_mset:
  "\<forall>m \<in> set muts. valid_custom m \<Longrightarrow>
   mset (concat (map call_muts (plan capD capU muts deletes upserts))) = mset deletes + mset upserts + mset muts"
proof (induction muts arbitrary: deletes upserts)
  case (Cons mut muts)
  then show ?case by (auto simp: valid_custom_def split: option.splits go_any.splits)
qed simp

text \<open>Deletions and upserts are kept apart, and a statement has no more rows than its slice has room for.\<close>

fun call_ok :: "nat \<Rightarrow> nat \<Rightarrow> call \<Rightarrow> bool" where
  "call_ok capD capU (CallDelete ms) \<longleftrightarrow> length ms \<le> capD \<and> list_all IsDelete ms"
| "call_ok capD capU (CallUpsert ms template) \<longleftrightarrow> length ms \<le> capU \<and> list_all (\<lambda>m. \<not> IsDelete m) ms"
| "call_ok capD capU CallInvalid \<longleftrightarrow> True"

lemma plan_calls_ok:
  "\<lbrakk>length deletes < capD; length upserts < capU; list_all IsDelete deletes; list_all (\<lambda>m. \<not> IsDelete m) upserts\<rbrakk> \<Longrightarrow>
   list_all (call_ok capD capU) (plan capD capU muts deletes upserts)"
proof (induction muts arbitrary: deletes upserts)
  case (Cons mut muts)
  show ?case
  proof (cases "IsDelete mut")
    case True
    then show ?thesis
      using Cons.IH [of "[]" upserts] Cons.IH [of "deletes @ [mut]" upserts] Cons.prems by auto
  next
    case False
    then show ?thesis
      using Cons.IH [of deletes "[]"] Cons.IH [of deletes "upserts @ [mut]"] Cons.prems
      by (auto split: option.splits go_any.splits)
  qed
qed auto

text \<open>
  C29: \<open>Apply\<close> hands every mutation that survives the de-duplication by key to exactly one statement. It behaves as
  the execution, up to the first error, of a list of delete and upsert statements that together hold the surviving
  mutations once each, deletions only in delete statements, and at most as many per statement as the row limit
  allows; a mutation with a custom template is sent alone.
\<close>

theorem Apply_statements:
  assumes "UniqueByKey muts0 = Inr muts" "cm_Positions (tm_mapping (ap_templates a)) \<noteq> []" "0 < cm_RowLimit (tm_mapping (ap_templates a))"
    and "\<forall>m \<in> set muts. valid_custom m"
  shows "\<exists>calls. Apply env a muts0 d = run_calls env a calls d
    \<and> mset (concat (map call_muts calls)) = mset muts
    \<and> list_all (call_ok (if tm_BulkDelete (ap_templates a) then max 1 (length muts) else nat (cm_RowLimit (tm_mapping (ap_templates a))))
                        (if tm_BulkUpsert (ap_templates a) then max 1 (length muts) else nat (cm_RowLimit (tm_mapping (ap_templates a))))) calls"
proof (cases "muts = []")
  case True
  then show ?thesis
    using assms(1,2) by (intro exI [of _ "plan 0 0 [] [] []"]) (auto simp: Apply_def Let_def imap_Len_def apply_loop_plan)
next
  case False
  then have m: "max 1 (length muts) = length muts" "0 < length muts" by (cases muts; simp)+
  let ?D = "if tm_BulkDelete (ap_templates a) then length muts else nat (cm_RowLimit (tm_mapping (ap_templates a)))"
  let ?U = "if tm_BulkUpsert (ap_templates a) then length muts else nat (cm_RowLimit (tm_mapping (ap_templates a)))"
  have "Apply env a muts0 d = run_calls env a (plan ?D ?U muts [] []) d"
    using assms(1,2) by (simp add: Apply_def Let_def imap_Len_def apply_loop_plan)
  moreover have "list_all (call_ok ?D ?U) (plan ?D ?U muts [] [])" using m(2) assms(3) by (intro plan_calls_ok) auto
  moreover have "mset (concat (map call_muts (plan ?D ?U muts [] []))) = mset muts" using plan_mset [OF assms(4)] by simp
  ultimately show ?thesis unfolding m(1) by blast
qed

text \<open>Witness for C29.\<close>

theorem Apply_statements_witness:
  "\<exists>calls. Apply demo_env (demo_applier\<lparr>ap_templates := dialect_templates TmplCRDB ((initial_mapping NewConfig ProductCockroachDB (WithHint NilTable []))\<lparr>cm_Positions := [(Ident ''id'', zero_position)]\<rparr>)\<rparr>)
       [demo_mut ''[1]'' 3, demo_mut ''[1]'' 8, (demo_mut ''[2]'' 4)\<lparr>mut_Data := []\<rparr>] [] =
       run_calls demo_env (demo_applier\<lparr>ap_templates := dialect_templates TmplCRDB ((initial_mapping NewConfig ProductCockroachDB (WithHint NilTable []))\<lparr>cm_Positions := [(Ident ''id'', zero_position)]\<rparr>)\<rparr>) calls []
     \<and> mset (concat (map call_muts calls)) = {# demo_mut ''[1]'' 8, (demo_mut ''[2]'' 4)\<lparr>mut_Data := []\<rparr> #}"
proof -
  let ?a = "demo_applier\<lparr>ap_templates := dialect_templates TmplCRDB ((initial_mapping NewConfig ProductCockroachDB (WithHint NilTable []))\<lparr>cm_Positions := [(Ident ''id'', zero_position)]\<rparr>)\<rparr>"
  let ?muts = "[demo_mut ''[1]'' 8, (demo_mut ''[2]'' 4)\<lparr>mut_Data := []\<rparr>]"
  have u: "UniqueByKey [demo_mut ''[1]'' 3, demo_mut ''[1]'' 8, (demo_mut ''[2]'' 4)\<lparr>mut_Data := []\<rparr>] = Inr ?muts" by code_simp
  have p: "cm_Positions (tm_mapping (ap_templates ?a)) \<noteq> []" "0 < cm_RowLimit (tm_mapping (ap_templates ?a))"
    by (simp_all add: dialect_templates_def initial_mapping_def NewConfig_def DefaultRowLimit_def)
  have v: "\<forall>m \<in> set ?muts. valid_custom m" by (simp add: valid_custom_def demo_mut_def)
  show ?thesis using Apply_statements [OF u p v, of demo_env "[]"] by auto
qed

section \<open>Conflicts\<close>

text \<open>A resolution is complete if it drops the mutation, names a queue or has a row.\<close>

definition resolved :: "Merger \<Rightarrow> Conflict \<Rightarrow> bool" where
  "resolved merger c \<longleftrightarrow>
     (case merger c of
        Inr (Some r) \<Rightarrow> rs_Drop r \<or> rs_DLQ r \<noteq> [] \<or> rs_Apply r \<noteq> None
      | _ \<Rightarrow> False)"

text \<open>The reference: the rows to apply and the mutations to queue, in the order of the conflicts.\<close>

fun to_apply :: "Merger \<Rightarrow> (Conflict \<times> Mutation) list \<Rightarrow> Bag list" where
  "to_apply merger [] = []"
| "to_apply merger ((c, mut) # cs) =
     (case merger c of
        Inr (Some r) \<Rightarrow> if \<not> rs_Drop r \<and> rs_DLQ r = [] then (case rs_Apply r of Some b \<Rightarrow> [b] | None \<Rightarrow> []) else []
      | _ \<Rightarrow> []) @ to_apply merger cs"

fun to_queue :: "Merger \<Rightarrow> (Conflict \<times> Mutation) list \<Rightarrow> (string \<times> Mutation) list" where
  "to_queue merger [] = []"
| "to_queue merger ((c, mut) # cs) =
     (case merger c of
        Inr (Some r) \<Rightarrow> if \<not> rs_Drop r \<and> rs_DLQ r \<noteq> [] then [(rs_DLQ r, mut)] else []
      | _ \<Rightarrow> []) @ to_queue merger cs"

definition enqueue_all :: "'d apply_env \<Rightarrow> applier \<Rightarrow> (string \<times> Mutation) list \<Rightarrow> 'd \<Rightarrow> 'd" where
  "enqueue_all env a qs d = fold (\<lambda>(q, mut) d. snd (env_enqueue env (Table_Schema (hn_Base (ap_target a))) q mut d)) qs d"

lemma resolve_conflicts_all:
  assumes "\<forall>c \<in> fst ` set cs. resolved merger c"
    and "\<forall>q mut d. fst (env_enqueue env (Table_Schema (hn_Base (ap_target a))) q mut d) = None"
  shows "resolve_conflicts env a merger cs fixups d = (Inr (fixups @ to_apply merger cs), enqueue_all env a (to_queue merger cs) d)"
  using assms(1)
proof (induction cs arbitrary: fixups d)
  case (Cons cm cs)
  obtain c mut where cm: "cm = (c, mut)" by force
  obtain r where r: "merger c = Inr (Some r)" "rs_Drop r \<or> rs_DLQ r \<noteq> [] \<or> rs_Apply r \<noteq> None"
    using Cons.prems by (auto simp: cm resolved_def split: sum.splits option.splits)
  have q: "env_enqueue env (Table_Schema (hn_Base (ap_target a))) q mut d
      = (None, snd (env_enqueue env (Table_Schema (hn_Base (ap_target a))) q mut d))" for q d
    using assms(2) by (metis prod.collapse)
  have rest: "\<forall>c \<in> fst ` set cs. resolved merger c" using Cons.prems by (simp add: cm)
  consider "rs_Drop r" | "\<not> rs_Drop r" "rs_DLQ r \<noteq> []" | b where "\<not> rs_Drop r" "rs_DLQ r = []" "rs_Apply r = Some b"
    using r(2) by blast
  then show ?case
  proof cases
    case 2
    then show ?thesis
      using Cons.IH [OF rest] r(1) by (subst cm, subst resolve_conflicts.simps) (subst q, simp add: cm enqueue_all_def)
  qed (use Cons.IH [OF rest] r(1) in \<open>simp_all add: cm enqueue_all_def\<close>)
qed (simp add: enqueue_all_def)

text \<open>
  C30: no conflict is lost. When a conditional upsert reports the rows that blocked it, the merge function decides
  about each of them, and the outcome is that of queueing, in order, the mutations it sends to a dead-letter
  queue and then upserting, unconditionally, exactly the rows it wants to apply.
\<close>

theorem conflicts_are_resolved:
  assumes "bags \<noteq> []" "upsertArgsLocked env a bags = Inr (allArgs, bags')"
    and "cache_Prepare env (upsert_key a (length bags) applyConditional []) (upsert_sql env a (length bags) applyConditional []) d = (Inr stmt, d1)"
    and "cm_Merger (tm_mapping (ap_templates a)) = Some merger"
    and "env_query env stmt allArgs d1 = (Inr (rows, None), d2)"
    and "all_results (read_conflict env a muts bags') rows = Inr conflicts"
    and "\<forall>c \<in> fst ` set conflicts. resolved merger c"
    and "\<forall>q mut d. fst (env_enqueue env (Table_Schema (hn_Base (ap_target a))) q mut d) = None"
  shows "upsertBagsLocked env a applyConditional muts bags [] d
    = upsertBagsLocked env a applyUnconditional [] (to_apply merger conflicts) []
        (enqueue_all env a (to_queue merger conflicts) d2)
   \<and> length conflicts = length rows"
proof -
  have len: "length conflicts = length rows" using all_results_InrD [OF assms(6)] by simp
  have none: "upsertBagsLocked env a applyUnconditional [] [] [] d2 = (None, d2)"
    by (subst upsertBagsLocked.simps) simp
  have "upsertBagsLocked env a applyConditional muts bags [] d
      = (if conflicts = [] then (None, d2)
         else case resolve_conflicts env a merger conflicts [] d2 of
           (Inl e, d3) \<Rightarrow> (Some e, d3)
         | (Inr fixups, d3) \<Rightarrow> upsertBagsLocked env a applyUnconditional [] fixups [] d3)"
    using assms(1-6) by (subst upsertBagsLocked.simps) simp
  then show ?thesis
    using resolve_conflicts_all [OF assms(7,8), of "[]" d2] len none by (auto simp: enqueue_all_def)
qed

text \<open>Witness for C30: a row that is blocked is sent to a dead-letter queue.\<close>

definition demo_cas_config :: Config where
  "demo_cas_config = NewConfig\<lparr>cfg_CASColumns := [Ident ''b''], cfg_Merger := Some (DLQ ''dlq'')\<rparr>"

definition demo_cas_env :: "string list apply_env" where
  "demo_cas_env = demo_env\<lparr>env_query := (\<lambda>s args d. (Inr ([(0, [GInt 1, GNil, GInt 9])], None), d @ [s])),
     env_enqueue := (\<lambda>sch q m d. (None, d @ [q]))\<rparr>"

definition demo_row :: "applier \<Rightarrow> Bag list" where
  "demo_row a = [bag_run [OpPut (Ident ''id'') (GNumber ''1''), OpPut (Ident ''b'') (GNumber ''5'')] (newBagLocked a)]"

theorem conflicts_are_resolved_witness:
  "\<exists>a. refreshUnlocked demo_cas_config demo_cols demo_applier = Inr a
    \<and> upsertBagsLocked demo_cas_env a applyConditional [demo_mut ''[1]'' 3] (demo_row a) [] [] = (None, [''conditional.tmpl'', ''dlq''])"
proof -
  let ?env = demo_cas_env and ?muts = "[demo_mut ''[1]'' 3]" and ?rows = "[(0, [GInt 1, GNil, GInt 9])]"
  have "(case refreshUnlocked demo_cas_config demo_cols demo_applier of Inl _ \<Rightarrow> False
     | Inr a \<Rightarrow> (case upsertArgsLocked ?env a (demo_row a) of Inl _ \<Rightarrow> False
       | Inr (args, bags') \<Rightarrow>
           (case cache_Prepare ?env (upsert_key a (length (demo_row a)) applyConditional []) (upsert_sql ?env a (length (demo_row a)) applyConditional []) [] of
              (Inl _, d) \<Rightarrow> False
            | (Inr stmt, d) \<Rightarrow>
                (case cm_Merger (tm_mapping (ap_templates a)) of None \<Rightarrow> False
                 | Some merger \<Rightarrow> (case all_results (read_conflict ?env a ?muts bags') ?rows of Inl _ \<Rightarrow> False
                    | Inr cs \<Rightarrow> stmt = ''conditional.tmpl'' \<and> d = [] \<and> list_all (\<lambda>c. resolved merger (fst c)) cs
                        \<and> List.null (to_apply merger cs) \<and> map fst (to_queue merger cs) = [''dlq''])))))"
    by code_simp
  then obtain a args bags' merger cs where
    a: "refreshUnlocked demo_cas_config demo_cols demo_applier = Inr a" "upsertArgsLocked ?env a (demo_row a) = Inr (args, bags')"
      "cache_Prepare ?env (upsert_key a (length (demo_row a)) applyConditional []) (upsert_sql ?env a (length (demo_row a)) applyConditional []) []
         = (Inr ''conditional.tmpl'', [])"
      "cm_Merger (tm_mapping (ap_templates a)) = Some merger" "all_results (read_conflict ?env a ?muts bags') ?rows = Inr cs"
    and c: "list_all (\<lambda>c. resolved merger (fst c)) cs" "to_apply merger cs = []" "map fst (to_queue merger cs) = [''dlq'']"
    by (auto dest!: case_InrD case_Inr_pairD case_pair_InrD case_SomeD simp: List.null_iff simp del: all_results.simps)
  have q: "env_query ?env ''conditional.tmpl'' args [] = (Inr (?rows, None), [''conditional.tmpl''])"
    by (simp add: demo_cas_env_def)
  have r: "\<forall>c \<in> fst ` set cs. resolved merger c" using c(1) by (simp add: list_all_iff)
  have e: "\<forall>q mut d. fst (env_enqueue ?env (Table_Schema (hn_Base (ap_target a))) q mut d) = None"
    by (simp add: demo_cas_env_def)
  have "enqueue_all ?env a (to_queue merger cs) [''conditional.tmpl''] = [''conditional.tmpl'', ''dlq'']"
    using c(3) by (auto simp: enqueue_all_def demo_cas_env_def)
  moreover have "demo_row a \<noteq> []" by (simp add: demo_row_def)
  moreover have "upsertBagsLocked ?env a applyUnconditional [] [] [] d = (None, d)" for d
    by (subst upsertBagsLocked.simps) simp
  ultimately show ?thesis
    using conflicts_are_resolved [OF _ a(2,3,4) q a(5) r e] a(1) c(2) by auto
qed

text \<open>
  A column that the user ignores and that exists in the target is not ignored in the payload. Its values are
  not mapped and its name is not on the list of names to drop, so an upsert that mentions it is refused as having
  an unexpected column.
\<close>

theorem ignored_column_is_refused:
  "case refreshUnlocked (NewConfig\<lparr>cfg_Ignore := [(Ident ''b'', True)]\<rparr>) demo_cols demo_applier of
     Inl _ \<Rightarrow> False
   | Inr a \<Rightarrow>
       (case upsertArgsLocked demo_env a (demo_row a) of
          Inl (SchemaDrift i e) \<Rightarrow> i = 0 \<and> e = UnexpectedColumns ''b''
        | _ \<Rightarrow> False)"
  by code_simp

text \<open>A null in a column that is sent as a slice becomes the zero value of the other values' type.\<close>

lemma null_becomes_zero:
  "toColumns 1 2 [GBool True, GNil] = Inr [Slice TyBool [GBool True, GBool False]]"
  by (simp add: toColumns_def fill_column_def column_type_def Let_def upt_rec)

text \<open>A property with the name of the extras column is overwritten by the encoded unmapped properties.\<close>

lemma extras_property_is_lost:
  "case refreshUnlocked (NewConfig\<lparr>cfg_Extras := Ident ''b''\<rparr>) demo_cols demo_applier of
     Inl _ \<Rightarrow> False
   | Inr a \<Rightarrow>
       (case upsertArgsLocked demo_env a (demo_row a) of
          Inl e \<Rightarrow> False
        | Inr (args, _) \<Rightarrow> args = [Arg (GString ''1''), Arg GNil, Arg GNil, Arg (GString ''{}'')])"
  by code_simp

end
