(* ===== verification/Copier.thy ===== *)
theory Copier
  imports Merger
begin

text \<open>
  The copier of \<open>src/internal/sequencer/sequtil/copier.go\<close>: it turns the cursors of a staging reader into large batches
  and progress notifications. What the copier meets is a list of events: a cursor, the closing of the channel, the
  flush timer, or a stop. The three callbacks thread a state of the caller.
\<close>

datatype 'e copier_event = EvCursor "'e StagingCursor" | EvClosed | EvTimer | EvStopping

record step =
  st_batch :: "MultiBatch option"
  st_fragment :: bool
  st_progress :: Range
  st_reportProgress :: bool

record copier_config =
  cc_FlushPeriod :: int
  cc_FlushSize :: int

datatype ('e, 'c) copier_error = CursorErr "'e cursor_error" | CopyErr batch_error | CallbackErr 'c

record ('c, 's) callbacks =
  cb_Each :: "(TemporalBatch \<Rightarrow> bool \<Rightarrow> 's \<Rightarrow> 'c option \<times> 's) option"
  cb_Flush :: "(MultiBatch \<Rightarrow> bool \<Rightarrow> 's \<Rightarrow> 'c option \<times> 's) option"
  cb_Progress :: "(Range \<Rightarrow> 's \<Rightarrow> 'c option \<times> 's) option"

definition no_step :: step where
  "no_step = \<lparr>st_batch = None, st_fragment = False, st_progress = Range Zero Zero, st_reportProgress = False\<rparr>"

text \<open>
  One call of \<open>nextStep\<close> over the events from the label \<open>top\<close>; it returns the step, or none when the copier is to stop,
  with the events that are left. The timer channel is nil, and never ready, until there is data and a flush
  period. Running out of events stands for waiting and counts as a stop.
\<close>

fun nextStep_from ::
  "copier_config \<Rightarrow> ('c, 's) callbacks \<Rightarrow> 'e copier_event list \<Rightarrow> MultiBatch \<Rightarrow> nat \<Rightarrow> 's
   \<Rightarrow> (('e, 'c) copier_error, step option) result \<times> 'e copier_event list \<times> 's" where
  "nextStep_from cfg cbs [] accumulator cnt s = (Inr None, [], s)"
| "nextStep_from cfg cbs (ev # evs) accumulator cnt s =
     (case ev of
        EvClosed \<Rightarrow> (Inr None, evs, s)
      | EvStopping \<Rightarrow> (Inr None, evs, s)
      | EvTimer \<Rightarrow>
          if cnt > 0 \<and> cc_FlushPeriod cfg > 0 then (Inr (Some (no_step\<lparr>st_batch := Some accumulator\<rparr>)), evs, s)
          else nextStep_from cfg cbs evs accumulator cnt s
      | EvCursor cursor \<Rightarrow>
          (case sc_Error cursor of
             Some e \<Rightarrow> (Inl (CursorErr e), evs, s)
           | None \<Rightarrow>
               let ret = no_step\<lparr>st_progress := sc_Progress cursor\<rparr>
               in case sc_Batch cursor of
                    None \<Rightarrow>
                      (Inr (Some (ret\<lparr>st_batch := (if cnt > 0 then Some accumulator else None), st_reportProgress := True\<rparr>)), evs, s)
                  | Some batch \<Rightarrow>
                      (case (case cb_Each cbs of Some each \<Rightarrow> each batch (sc_Fragment cursor) s | None \<Rightarrow> (None, s)) of
                         (Some e, s1) \<Rightarrow> (Inl (CallbackErr e), evs, s1)
                       | (None, s1) \<Rightarrow>
                           (case TemporalBatch_CopyInto MultiBatch_Accumulate batch accumulator of
                              Inl e \<Rightarrow> (Inl (CopyErr e), evs, s1)
                            | Inr accumulator' \<Rightarrow>
                                let cnt' = cnt + TemporalBatch_Count batch
                                in if sc_Fragment cursor then
                                     (Inr (Some (ret\<lparr>st_batch := Some accumulator', st_fragment := True\<rparr>)), evs, s1)
                                   else if int cnt' \<ge> cc_FlushSize cfg then
                                     (Inr (Some (ret\<lparr>st_batch := Some accumulator'\<rparr>)), evs, s1)
                                   else nextStep_from cfg cbs evs accumulator' cnt' s1))))"

definition Copier_nextStep ::
  "copier_config \<Rightarrow> ('c, 's) callbacks \<Rightarrow> 'e copier_event list \<Rightarrow> 's
   \<Rightarrow> (('e, 'c) copier_error, step option) result \<times> 'e copier_event list \<times> 's" where
  "Copier_nextStep cfg cbs evs s = nextStep_from cfg cbs evs MultiBatch_New 0 s"

lemma nextStep_from_shorter:
  "nextStep_from cfg cbs evs acc cnt s = (Inr (Some st), evs', s') \<Longrightarrow> length evs' < length evs"
proof (induction evs arbitrary: acc cnt s)
  case (Cons ev evs)
  note IH = Cons.IH [THEN less_SucI]
  show ?case
    using Cons.prems
    by (auto simp: Let_def split: copier_event.splits option.splits prod.splits sum.splits if_splits intro: IH)
qed simp

text \<open>The two callbacks of one step.\<close>

definition run_step :: "('c, 's) callbacks \<Rightarrow> step \<Rightarrow> 's \<Rightarrow> 'c option \<times> 's" where
  "run_step cbs st s =
     (case (case (st_batch st, cb_Flush cbs) of (Some batch, Some flush) \<Rightarrow> flush batch (st_fragment st) s | _ \<Rightarrow> (None, s)) of
        (Some e, s1) \<Rightarrow> (Some e, s1)
      | (None, s1) \<Rightarrow>
          (case cb_Progress cbs of
             Some progress \<Rightarrow> if st_reportProgress st then progress (st_progress st) s1 else (None, s1)
           | None \<Rightarrow> (None, s1)))"

function Copier_Run :: "copier_config \<Rightarrow> ('c, 's) callbacks \<Rightarrow> 'e copier_event list \<Rightarrow> 's \<Rightarrow> ('e, 'c) copier_error option \<times> 's" where
  "Copier_Run cfg cbs evs s =
     (case Copier_nextStep cfg cbs evs s of
        (Inl e, evs', s1) \<Rightarrow> (Some e, s1)
      | (Inr None, evs', s1) \<Rightarrow> (None, s1)
      | (Inr (Some st), evs', s1) \<Rightarrow>
          (case run_step cbs st s1 of
             (Some e, s2) \<Rightarrow> (Some (CallbackErr e), s2)
           | (None, s2) \<Rightarrow> Copier_Run cfg cbs evs' s2))"
  by pat_completeness auto
termination
  by (relation "measure (\<lambda>(_, _, evs, _). length evs)") (auto simp: Copier_nextStep_def dest!: nextStep_from_shorter [OF sym])

declare Copier_Run.simps [simp del]

section \<open>Every batch is flushed before progress is reported\<close>

text \<open>Callbacks that log their calls.\<close>

datatype copy_call = CallFlush MultiBatch bool | CallProgress Range

definition logging :: "(unit, copy_call list) callbacks" where
  "logging = \<lparr>cb_Each = None, cb_Flush = Some (\<lambda>b f log. (None, log @ [CallFlush b f])),
     cb_Progress = Some (\<lambda>p log. (None, log @ [CallProgress p]))\<rparr>"

fun flushed :: "copy_call list \<Rightarrow> (Table \<times> Mutation) multiset" where
  "flushed [] = {#}"
| "flushed (CallFlush b f # cs) = multi_muts b + flushed cs"
| "flushed (CallProgress p # cs) = flushed cs"

lemma flushed_append [simp]: "flushed (xs @ ys) = flushed xs + flushed ys"
  by (induction xs rule: flushed.induct) (auto simp: ac_simps)

fun received :: "'e copier_event list \<Rightarrow> (Table \<times> Mutation) multiset" where
  "received [] = {#}"
| "received (EvCursor c # evs) = (case sc_Batch c of Some b \<Rightarrow> temporal_muts b | None \<Rightarrow> {#}) + received evs"
| "received (_ # evs) = received evs"

definition good_event :: "'e copier_event \<Rightarrow> bool" where
  "good_event ev \<longleftrightarrow>
     (case ev of
        EvCursor c \<Rightarrow> sc_Error c = None \<and> (case sc_Batch c of
            Some b \<Rightarrow> temporal_ok b \<and> list_all good_mut (temporal_list b) | None \<Rightarrow> True)
      | EvTimer \<Rightarrow> True
      | _ \<Rightarrow> False)"

definition progress_event :: "'e copier_event \<Rightarrow> bool" where
  "progress_event ev \<longleftrightarrow> (case ev of EvCursor c \<Rightarrow> sc_Batch c = None | _ \<Rightarrow> False)"

lemma good_cursor_accumulates:
  assumes "good_event (EvCursor c)" "sc_Batch c = Some b" "multi_ok acc"
  obtains acc' where "TemporalBatch_CopyInto MultiBatch_Accumulate b acc = Inr acc'" "multi_ok acc'"
    "multi_muts acc' = multi_muts acc + temporal_muts b"
proof -
  have ok: "temporal_ok b" "\<forall>p \<in> set (temporal_list b). good_mut p" using assms(1,2) by (auto simp: good_event_def list_all_iff)
  obtain acc' where "run_acc MultiBatch_Accumulate (temporal_list b) acc = Inr acc'" "multi_ok acc'"
    "multi_muts acc' = multi_muts acc + mset (map (\<lambda>p. (Table_Canonical (fst p), snd p)) (temporal_list b))"
    using accumulate_seq_ok [OF assms(3) ok(2)] by blast
  then show ?thesis using that [of acc'] mset_temporal_list [OF ok(1)] by (simp add: TemporalBatch_CopyInto_run)
qed

text \<open>What a call of \<open>nextStep\<close> returns for good events, with the events \<open>used\<close> that it consumed.\<close>

definition step_for :: "'e copier_event list \<Rightarrow> (Table \<times> Mutation) multiset \<Rightarrow> step \<Rightarrow> bool" where
  "step_for used held st \<longleftrightarrow>
     (case st_batch st of Some b \<Rightarrow> multi_muts b | None \<Rightarrow> {#}) = held + received used
     \<and> (if st_reportProgress st
        then \<exists>e1 c. used = e1 @ [EvCursor c] \<and> sc_Batch c = None \<and> sc_Progress c = st_progress st \<and> \<not> list_ex progress_event e1
        else \<not> list_ex progress_event used)"

lemma received_append [simp]: "received (xs @ ys) = received xs + received ys"
  by (induction xs rule: received.induct) (auto simp: ac_simps)

lemma step_for_Cons:
  assumes "step_for used (held + received [ev]) st" "\<not> progress_event ev"
  shows "step_for (ev # used) held st"
proof -
  have r: "received (ev # used) = received [ev] + received used" using received_append [of "[ev]" used] by simp
  show ?thesis
  proof (cases "st_reportProgress st")
    case True
    then obtain e1 c where "used = e1 @ [EvCursor c]" "sc_Batch c = None" "sc_Progress c = st_progress st" "\<not> list_ex progress_event e1"
      using assms(1) by (auto simp: step_for_def)
    then have "\<exists>e1' c. ev # used = e1' @ [EvCursor c] \<and> sc_Batch c = None \<and> sc_Progress c = st_progress st \<and> \<not> list_ex progress_event e1'"
      using assms(2) by (intro exI [of _ "ev # e1"] exI [of _ c]) simp
    then show ?thesis using assms(1) True r by (simp add: step_for_def ac_simps)
  next
    case False
    then show ?thesis using assms r by (simp add: step_for_def ac_simps)
  qed
qed

lemma nextStep_from_good:
  assumes "list_all good_event evs" "multi_ok acc" "cnt = size (multi_muts acc)"
  shows "(\<exists>evs'. nextStep_from cfg logging evs acc cnt s = (Inr None, evs', s) \<and> \<not> list_ex progress_event evs)
    \<or> (\<exists>st used evs'. nextStep_from cfg logging evs acc cnt s = (Inr (Some st), evs', s) \<and> evs = used @ evs'
         \<and> step_for used (multi_muts acc) st)"
  using assms
proof (induction evs arbitrary: acc cnt)
  case (Cons ev evs)
  have rec: ?case if r: "nextStep_from cfg logging (ev # evs) acc cnt s = nextStep_from cfg logging evs acc' cnt' s"
      "multi_ok acc'" "cnt' = size (multi_muts acc')" "multi_muts acc' = multi_muts acc + received [ev]" "\<not> progress_event ev" for acc' cnt'
  proof -
    consider evs' where "nextStep_from cfg logging evs acc' cnt' s = (Inr None, evs', s)" "\<not> list_ex progress_event evs"
      | st used evs' where "nextStep_from cfg logging evs acc' cnt' s = (Inr (Some st), evs', s)" "evs = used @ evs'" "step_for used (multi_muts acc') st"
      using Cons.IH [of acc' cnt'] Cons.prems(1) r(2,3) by auto
    then show ?thesis
    proof cases
      case 1
      then show ?thesis using r(1,5) by simp
    next
      case 2
      have "step_for (ev # used) (multi_muts acc) st" using 2(3) r(4,5) by (intro step_for_Cons) simp_all
      then show ?thesis using r(1) 2(1,2) by (metis append_Cons)
    qed
  qed
  have one: ?case if o: "nextStep_from cfg logging (ev # evs) acc cnt s = (Inr (Some st), evs, s)" "step_for [ev] (multi_muts acc) st" for st
    using o by (metis append_Cons append_Nil)
  show ?case
  proof (cases ev)
    case (EvCursor c)
    have g: "sc_Error c = None" using Cons.prems(1) by (simp add: EvCursor good_event_def)
    show ?thesis
    proof (cases "sc_Batch c")
      case None
      have "step_for [ev] (multi_muts acc) (no_step\<lparr>st_progress := sc_Progress c, st_batch := (if cnt > 0 then Some acc else None), st_reportProgress := True\<rparr>)"
        using None Cons.prems(3) by (auto simp: step_for_def EvCursor no_step_def)
      then show ?thesis using g None by (intro one) (simp_all add: EvCursor Let_def no_step_def)
    next
      case (Some b)
      obtain acc' where a: "TemporalBatch_CopyInto MultiBatch_Accumulate b acc = Inr acc'" "multi_ok acc'" "multi_muts acc' = multi_muts acc + temporal_muts b"
        using good_cursor_accumulates [OF _ Some Cons.prems(2)] Cons.prems(1) by (auto simp: EvCursor)
      have np: "\<not> progress_event ev" "received [ev] = temporal_muts b" using Some by (simp_all add: EvCursor progress_event_def)
      have cnt': "cnt + TemporalBatch_Count b = size (multi_muts acc')" using a(3) Cons.prems(3) by (simp add: TemporalBatch_Count_muts)
      show ?thesis
      proof (cases "sc_Fragment c \<or> int (cnt + TemporalBatch_Count b) \<ge> cc_FlushSize cfg")
        case True
        have sf: "step_for [ev] (multi_muts acc) (no_step\<lparr>st_progress := sc_Progress c, st_batch := Some acc', st_fragment := f\<rparr>)" for f
          using a(3) np by (simp add: step_for_def no_step_def)
        then show ?thesis
          using True g Some a(1) sf [of True] sf [of False]
          by (intro one [of "no_step\<lparr>st_progress := sc_Progress c, st_batch := Some acc', st_fragment := sc_Fragment c\<rparr>"])
             (auto simp: EvCursor Let_def logging_def no_step_def)
      next
        case False
        then show ?thesis using g Some a np cnt' by (intro rec [of acc' "cnt + TemporalBatch_Count b"]) (auto simp: EvCursor Let_def logging_def)
      qed
    qed
  next
    case EvTimer
    show ?thesis
    proof (cases "cnt > 0 \<and> cc_FlushPeriod cfg > 0")
      case True
      have "step_for [ev] (multi_muts acc) (no_step\<lparr>st_batch := Some acc\<rparr>)"
        by (simp add: step_for_def EvTimer no_step_def progress_event_def)
      then show ?thesis using True by (intro one) (simp_all add: EvTimer)
    next
      case False
      then show ?thesis using Cons.prems by (intro rec [of acc cnt]) (auto simp: EvTimer progress_event_def)
    qed
  qed (use Cons.prems in \<open>auto simp: good_event_def\<close>)
qed (auto intro: exI)

text \<open>A log that reports progress only when everything received before has been flushed.\<close>

definition faithful_log :: "'e copier_event list \<Rightarrow> copy_call list \<Rightarrow> bool" where
  "faithful_log evs log \<longleftrightarrow>
     flushed log \<subseteq># received evs
     \<and> length (filter (\<lambda>c. case c of CallProgress _ \<Rightarrow> True | _ \<Rightarrow> False) log) = length (filter progress_event evs)
     \<and> (\<forall>l1 p l2. log = l1 @ CallProgress p # l2 \<longrightarrow>
          (\<exists>e1 c e2. evs = e1 @ EvCursor c # e2 \<and> sc_Batch c = None \<and> sc_Progress c = p \<and> flushed l1 = received e1))"

lemma faithful_Nil: "\<not> list_ex progress_event evs \<Longrightarrow> faithful_log evs []"
  by (auto simp: faithful_log_def list_ex_iff filter_empty_conv)

definition flush_call :: "step \<Rightarrow> copy_call list" where
  "flush_call st = (case st_batch st of Some b \<Rightarrow> [CallFlush b (st_fragment st)] | None \<Rightarrow> [])"

definition progress_call :: "step \<Rightarrow> copy_call list" where
  "progress_call st = (if st_reportProgress st then [CallProgress (st_progress st)] else [])"

lemma run_step_logging: "run_step logging st log = (None, log @ flush_call st @ progress_call st)"
  by (simp add: run_step_def logging_def flush_call_def progress_call_def split: option.splits)

lemma flush_call_flushed: "flushed (flush_call st) = (case st_batch st of Some b \<Rightarrow> multi_muts b | None \<Rightarrow> {#})"
  by (simp add: flush_call_def split: option.splits)

lemma faithful_step:
  assumes st: "step_for used {#} st" and rest: "faithful_log evs' log'"
  shows "faithful_log (used @ evs') (flush_call st @ progress_call st @ log')"
proof -
  let ?calls = "flush_call st @ progress_call st"
  have fl: "flushed (flush_call st) = received used" "flushed ?calls = received used"
    using st by (simp_all add: flush_call_flushed progress_call_def step_for_def)
  have used: "length (filter progress_event used) = (if st_reportProgress st then 1 else 0)"
    using st by (auto simp: step_for_def progress_event_def list_ex_iff filter_empty_conv split: if_splits)
  have cnt: "length (filter (\<lambda>c. case c of CallProgress _ \<Rightarrow> True | _ \<Rightarrow> False) ?calls) = (if st_reportProgress st then 1 else 0)"
    by (simp add: flush_call_def progress_call_def split: option.splits)
  have "\<exists>e1 c e2. used @ evs' = e1 @ EvCursor c # e2 \<and> sc_Batch c = None \<and> sc_Progress c = p \<and> flushed l1 = received e1"
    if split: "?calls @ log' = l1 @ CallProgress p # l2" for l1 p l2
  proof (cases "length l1 < length ?calls")
    case True
    have "CallProgress p \<noteq> CallFlush b f" for b f by simp
    then have p: "st_reportProgress st" "l1 = flush_call st" "p = st_progress st"
      using split True
      by (auto simp: flush_call_def progress_call_def append_eq_append_conv2 append_eq_Cons_conv Cons_eq_append_conv split: option.splits if_splits)
    obtain e1 c where e: "used = e1 @ [EvCursor c]" "sc_Batch c = None" "sc_Progress c = p"
      using st p(1,3) by (auto simp: step_for_def)
    then have "flushed l1 = received e1" using fl(1) p(2) by simp
    then show ?thesis using e by (intro exI [of _ e1] exI [of _ c] exI [of _ evs']) simp
  next
    case False
    then obtain l1' where l1: "l1 = ?calls @ l1'" "log' = l1' @ CallProgress p # l2"
      using split by (auto simp: append_eq_append_conv2)
    then obtain e1 c e2 where "evs' = e1 @ EvCursor c # e2" "sc_Batch c = None" "sc_Progress c = p" "flushed l1' = received e1"
      using rest unfolding faithful_log_def by blast
    then show ?thesis using l1(1) fl(2) by (intro exI [of _ "used @ e1"] exI [of _ c] exI [of _ e2]) simp
  qed
  moreover have "flushed (?calls @ log') \<subseteq># received (used @ evs')"
    using rest fl(2) by (simp add: faithful_log_def del: append_assoc)
  ultimately show ?thesis using rest used cnt unfolding faithful_log_def by auto
qed

text \<open>
  C10: the copier loses nothing and reports progress late enough. For cursors without errors it ends without an
  error; every flush hands on mutations that were received; and whenever it reports progress, the mutations
  flushed until then are exactly those of the cursors that came before the progress cursor, which carries the
  reported range. There is one report per progress cursor.
\<close>

theorem Copier_flushes_before_progress:
  assumes "list_all good_event evs"
  shows "\<exists>log. Copier_Run cfg logging evs log0 = (None, log0 @ log) \<and> faithful_log evs log"
  using assms
proof (induction "length evs" arbitrary: evs log0 rule: less_induct)
  case less
  have new: "multi_ok MultiBatch_New" "multi_muts MultiBatch_New = {#}" by (rule MultiBatch_New_ok)+
  have cases: "(\<exists>evs'. Copier_nextStep cfg logging evs log0 = (Inr None, evs', log0) \<and> \<not> list_ex progress_event evs)
    \<or> (\<exists>st used evs'. Copier_nextStep cfg logging evs log0 = (Inr (Some st), evs', log0) \<and> evs = used @ evs' \<and> step_for used {#} st)"
    using nextStep_from_good [OF less.prems new(1), of 0 cfg log0] new(2) by (simp add: Copier_nextStep_def)
  then show ?case
  proof (elim disjE exE conjE)
    fix evs' assume "Copier_nextStep cfg logging evs log0 = (Inr None, evs', log0)" "\<not> list_ex progress_event evs"
    then show ?thesis by (intro exI [of _ "[]"]) (subst Copier_Run.simps, simp add: faithful_Nil)
  next
    fix st used evs' assume st: "Copier_nextStep cfg logging evs log0 = (Inr (Some st), evs', log0)" "evs = used @ evs'" "step_for used {#} st"
    have "length evs' < length evs" using st(1) unfolding Copier_nextStep_def by (rule nextStep_from_shorter)
    then obtain log where log: "Copier_Run cfg logging evs' (log0 @ flush_call st @ progress_call st) = (None, (log0 @ flush_call st @ progress_call st) @ log)"
      "faithful_log evs' log"
      using less.hyps [of evs' "log0 @ flush_call st @ progress_call st"] less.prems st(2) by auto
    then show ?thesis
      using st faithful_step [OF st(3) log(2)]
      by (intro exI [of _ "flush_call st @ progress_call st @ log"]) (subst Copier_Run.simps, simp add: run_step_logging)
  qed
qed

text \<open>Witness for C10: a batch, a timer, a fragment and a progress cursor.\<close>

definition demo_cursor :: "int \<Rightarrow> bool \<Rightarrow> nat copier_event" where
  "demo_cursor n frag =
     EvCursor \<lparr>sc_Batch = Some \<lparr>tp_Time = Time n 0, tp_Data = [(demo_table ''t'', \<lparr>tb_Data = [demo_mut ''[1]'' n], tb_Table = demo_table ''t'', tb_Time = Time n 0\<rparr>)]\<rparr>,
       sc_Error = None, sc_Fragment = frag, sc_Jump = False, sc_Progress = Range Zero (Time n 0)\<rparr>"

definition demo_progress :: "nat copier_event" where
  "demo_progress = EvCursor \<lparr>sc_Batch = None, sc_Error = None, sc_Fragment = False, sc_Jump = False, sc_Progress = Range Zero (Time 9 0)\<rparr>"

theorem Copier_flushes_before_progress_witness:
  "\<exists>log. Copier_Run \<lparr>cc_FlushPeriod = 1, cc_FlushSize = 10\<rparr> logging [demo_cursor 3 False, EvTimer, demo_cursor 5 True, demo_progress] [] = (None, [] @ log)
     \<and> faithful_log [demo_cursor 3 False, EvTimer, demo_cursor 5 True, demo_progress] log"
proof -
  have "temporal_list \<lparr>tp_Time = Time n 0, tp_Data = [(demo_table ''t'', \<lparr>tb_Data = [demo_mut ''[1]'' n], tb_Table = demo_table ''t'', tb_Time = Time n 0\<rparr>)]\<rparr>
      = [(demo_table ''t'', demo_mut ''[1]'' n)]" for n
    by (simp add: temporal_list_def sorted_tables_def table_list_def SortSlice_def)
  then have "list_all good_event [demo_cursor 3 False, EvTimer, demo_cursor 5 True, demo_progress]"
    by (simp add: good_event_def demo_cursor_def demo_progress_def temporal_ok_def good_mut_def demo_table_def demo_mut_def
        imap_invar_def valid_time_def Zero_def)
  then show ?thesis by (rule Copier_flushes_before_progress)
qed

end
