(* ===== verification/Core.thy ===== *)
theory Core
  imports Copier
begin

text \<open>
  The core sequencer, \<open>src/internal/sequencer/core\<close>: poisoned keys (\<open>poison.go\<close>), rounds (\<open>round.go\<close>) and the callbacks
  of \<open>Core.Start\<close> (\<open>core.go\<close>) as a state machine. The copier delivers batches and progress notifications; batches
  become tasks of the scheduler, which run when no earlier task holds one of their keys (theory \<open>Lockset\<close>); each
  task reports through a channel, and the channels are read in the order in which they were made.
\<close>

section \<open>Poisoned keys\<close>

definition poisonKey :: "Table \<Rightarrow> Mutation \<Rightarrow> string" where
  "poisonKey table mut = Table_Raw table @ '':'' @ mut_Key mut"

record poisonSet =
  ps_maxCount :: int
  ps_data :: "string set"
  ps_full :: bool

definition newPoisonSet :: "int \<Rightarrow> poisonSet" where
  "newPoisonSet maxCount = \<lparr>ps_maxCount = maxCount, ps_data = {}, ps_full = False\<rparr>"

definition ForceFull :: "poisonSet \<Rightarrow> poisonSet" where
  "ForceFull p = p\<lparr>ps_full := True\<rparr>"

definition IsClean :: "poisonSet \<Rightarrow> bool" where
  "IsClean p \<longleftrightarrow> \<not> ps_full p \<and> card (ps_data p) = 0"

definition IsFull :: "poisonSet \<Rightarrow> bool" where
  "IsFull p \<longleftrightarrow> ps_full p"

definition contaminate_acc :: "poisonSet \<Rightarrow> Table \<Rightarrow> Mutation \<Rightarrow> string set \<times> bool \<Rightarrow> (batch_error, string set \<times> bool) result" where
  "contaminate_acc p table mut st =
     (case st of (toContaminate, isPoisoned) \<Rightarrow>
        let key = poisonKey table mut
        in if key \<in> ps_data p then Inr (toContaminate, True) else Inr (insert key toContaminate, isPoisoned))"

definition toPoison :: "MultiBatch \<Rightarrow> poisonSet \<Rightarrow> string set \<times> bool" where
  "toPoison batch p =
     (if ps_full p then ({}, True)
      else if card (ps_data p) = 0 then ({}, False)
      else case MultiBatch_CopyInto (contaminate_acc p) batch ({}, False) of
        Inl _ \<Rightarrow> ({}, False)
      | Inr (toContaminate, isPoisoned) \<Rightarrow> if \<not> isPoisoned then ({}, False) else (toContaminate, True))"

definition IsPoisoned :: "MultiBatch \<Rightarrow> poisonSet \<Rightarrow> bool \<times> poisonSet" where
  "IsPoisoned batch p =
     (case toPoison batch p of (toContaminate, isPoisoned) \<Rightarrow>
        if \<not> isPoisoned then (False, p)
        else if card toContaminate > 0 \<and> \<not> ps_full p then
          let dat = ps_data p \<union> toContaminate
          in (True, p\<lparr>ps_data := dat, ps_full := int (card dat) \<ge> ps_maxCount p\<rparr>)
        else (True, p))"

definition mark_acc :: "Table \<Rightarrow> Mutation \<Rightarrow> string set \<Rightarrow> (batch_error, string set) result" where
  "mark_acc table mut dat = Inr (insert (poisonKey table mut) dat)"

definition MarkPoisoned :: "MultiBatch \<Rightarrow> poisonSet \<Rightarrow> poisonSet" where
  "MarkPoisoned batch p =
     (if ps_full p then p
      else case MultiBatch_CopyInto mark_acc batch (ps_data p) of
        Inl _ \<Rightarrow> p
      | Inr dat \<Rightarrow>
          let full = int (card dat) \<ge> ps_maxCount p
          in p\<lparr>ps_data := (if full then {} else dat), ps_full := full\<rparr>)"

section \<open>Rounds\<close>

record round =
  rd_advanceTo :: Range
  rd_batch :: "MultiBatch option"
  rd_mutationCount :: nat
  rd_timestampCount :: nat

definition nextRound :: round where
  "nextRound = \<lparr>rd_advanceTo = Range Zero Zero, rd_batch = None, rd_mutationCount = 0, rd_timestampCount = 0\<rparr>"

definition advance_round :: "TemporalBatch \<Rightarrow> round \<Rightarrow> round" where
  "advance_round temp r =
     (let r1 = r\<lparr>rd_timestampCount := rd_timestampCount r + 1\<rparr>
      in if Compare (tp_Time temp) (Range_MaxInclusive (rd_advanceTo r1)) > 0
         then r1\<lparr>rd_advanceTo := RangeExcluding Zero (tp_Time temp)\<rparr> else r1)"

definition round_accumulate :: "MultiBatch \<Rightarrow> round \<Rightarrow> (batch_error, round) result" where
  "round_accumulate segment r =
     (let r1 = fold advance_round (temporal_batches segment) (r\<lparr>rd_mutationCount := rd_mutationCount r + MultiBatch_Count segment\<rparr>)
      in case rd_batch r1 of
           None \<Rightarrow> Inr (r1\<lparr>rd_batch := Some segment\<rparr>)
         | Some b \<Rightarrow>
             (case MultiBatch_CopyInto MultiBatch_Accumulate segment b of
                Inl e \<Rightarrow> Inl e
              | Inr b' \<Rightarrow> Inr (r1\<lparr>rd_batch := Some b'\<rparr>)))"

text \<open>
  \<open>tryCommit\<close> by the fates of its database calls: beginning the two transactions, the delegate, the commit of the
  target, the marking of the mutations in staging and the commit of the staging transaction. The result has
  whether the target and the staging transactions were committed.
\<close>

record commit_fates =
  cf_stagingBegin :: bool
  cf_targetBegin :: bool
  cf_accept :: bool
  cf_targetCommit :: bool
  cf_mark :: bool
  cf_stagingCommit :: bool

datatype commit_error = BeginStaging | TargetFailed | MarkFailed | Skew

definition tryCommit :: "commit_fates \<Rightarrow> commit_error option \<times> bool \<times> bool" where
  "tryCommit f =
     (if \<not> cf_stagingBegin f then (Some BeginStaging, False, False)
      else
        let target = cf_targetBegin f \<and> cf_accept f \<and> cf_targetCommit f
        in if \<not> target then (Some TargetFailed, False, False)
           else if \<not> cf_mark f then (Some MarkFailed, target, False)
           else if \<not> cf_stagingCommit f then (Some Skew, target, False)
           else (None, target, True))"

text \<open>\<open>retry.Retry\<close> around it: the attempts after the first are those that follow an error that can be retried.\<close>

fun commit_attempts :: "commit_fates \<Rightarrow> commit_fates list \<Rightarrow> commit_error option \<times> bool \<times> bool" where
  "commit_attempts f [] = tryCommit f"
| "commit_attempts f (g # gs) =
     (case tryCommit f of
        (None, target, staging) \<Rightarrow> (None, target, staging)
      | (Some _, target, _) \<Rightarrow> (case commit_attempts g gs of (e, target', staging) \<Rightarrow> (e, target \<or> target', staging)))"

section \<open>The state machine\<close>

text \<open>The locking keys of a batch, \<open>src/internal/sequencer/scheduler\<close>.\<close>

definition scheduler_key :: "Table \<Rightarrow> Mutation \<Rightarrow> string" where
  "scheduler_key table mut = Table_String table @ '':'' @ mut_Key mut"

definition keyForSingleton :: "Table \<Rightarrow> Mutation \<Rightarrow> string list" where
  "keyForSingleton table mut = [scheduler_key table mut]"

definition key_acc :: "Table \<Rightarrow> Mutation \<Rightarrow> string list \<Rightarrow> (batch_error, string list) result" where
  "key_acc table mut ret = Inr (ret @ keyForSingleton table mut)"

definition keyForBatch :: "MultiBatch \<Rightarrow> string list" where
  "keyForBatch batch = (case MultiBatch_CopyInto key_acc batch [] of Inl _ \<Rightarrow> [] | Inr ret \<Rightarrow> ret)"

text \<open>
  A channel of a report is empty, holds a value, or is closed without one. An error of a task's callback may be
  deferrable, and then the scheduler runs the task again at the head of its queues or calls the alternative of
  \<open>RetryAtHead\<close>; or it is another error.
\<close>

datatype report = Pending | Advanced Range | Closed

datatype error_class = Deferrable bool | Fatal

text \<open>
  History variables: the batches that the copier delivered with what became of them, the rounds whose target
  transaction and whose staging transaction were committed, and for every channel how many batches had been
  delivered when it was made. A published progress comes with the latter number. A running task has passed the
  check for poisoned keys and has not returned yet.
\<close>

datatype fate = InAccumulator | InTask nat | Done | Dropped

record core =
  co_poisoned :: poisonSet
  co_accumulator :: "round option"
  co_tasks :: "(nat \<times> round) list"
  co_running :: "nat list"
  co_channel :: "nat \<Rightarrow> report"
  co_reports :: "nat list"
  co_next :: nat
  co_failed :: bool
  co_segments :: "(MultiBatch \<times> fate) list"
  co_upto :: "nat \<Rightarrow> nat"
  co_applied :: "round list"
  co_marked :: "round list"
  co_published :: "(Range \<times> nat) list"

definition core_init :: "int \<Rightarrow> core" where
  "core_init maxDeferred =
     \<lparr>co_poisoned = newPoisonSet maxDeferred, co_accumulator = None, co_tasks = [], co_running = [], co_channel = (\<lambda>_. Pending),
      co_reports = [], co_next = 0, co_failed = False, co_segments = [], co_upto = (\<lambda>_. 0), co_applied = [],
      co_marked = [], co_published = []\<rparr>"

definition set_fates :: "(fate \<Rightarrow> fate) \<Rightarrow> core \<Rightarrow> core" where
  "set_fates f s = s\<lparr>co_segments := map (\<lambda>(b, x). (b, f x)) (co_segments s)\<rparr>"

text \<open>\<open>flushAccumulator\<close> makes a channel, queues it, and schedules the round.\<close>

definition make_report :: "report \<Rightarrow> core \<Rightarrow> core" where
  "make_report r s =
     s\<lparr>co_channel := (co_channel s)(co_next s := r), co_reports := co_reports s @ [co_next s],
       co_upto := (co_upto s)(co_next s := length (co_segments s)), co_next := co_next s + 1\<rparr>"

definition flushAccumulator :: "core \<Rightarrow> core" where
  "flushAccumulator s =
     (case co_accumulator s of
        None \<Rightarrow> s
      | Some r \<Rightarrow>
          let report = co_next s;
              s1 = make_report Pending s
          in set_fates (\<lambda>x. if x = InAccumulator then InTask report else x)
               (s1\<lparr>co_tasks := co_tasks s1 @ [(report, r)], co_accumulator := None\<rparr>))"

definition drop_accumulator :: "core \<Rightarrow> core" where
  "drop_accumulator s =
     set_fates (\<lambda>x. if x = InAccumulator then Dropped else x) (s\<lparr>co_accumulator := None\<rparr>)"

definition core_Progress :: "Range \<Rightarrow> core \<Rightarrow> core" where
  "core_Progress progress s =
     (let s1 = (if co_accumulator s \<noteq> None then flushAccumulator s else s) in make_report (Advanced progress) s1)"

definition core_Flush :: "MultiBatch \<Rightarrow> bool \<Rightarrow> core \<Rightarrow> core" where
  "core_Flush batch fragment s0 =
     (let s = s0\<lparr>co_segments := co_segments s0 @ [(batch, InAccumulator)]\<rparr>
      in if IsFull (co_poisoned s) then drop_accumulator (s\<lparr>co_failed := True\<rparr>)
         else case IsPoisoned batch (co_poisoned s) of
           (True, p) \<Rightarrow> drop_accumulator (s\<lparr>co_poisoned := p\<rparr>)
         | (False, p) \<Rightarrow>
             (case round_accumulate batch (case co_accumulator s of None \<Rightarrow> nextRound | Some r \<Rightarrow> r) of
                Inl e \<Rightarrow> drop_accumulator (s\<lparr>co_failed := True\<rparr>)
              | Inr r \<Rightarrow>
                  let s1 = s\<lparr>co_accumulator := Some r\<rparr>
                  in if fragment then s1 else flushAccumulator s1))"

text \<open>The callback of a task, \<open>scheduleCommit\<close>; the batch of a scheduled round is not nil.\<close>

definition round_batch :: "round \<Rightarrow> MultiBatch" where
  "round_batch r = (case rd_batch r of Some b \<Rightarrow> b | None \<Rightarrow> MultiBatch_New)"

definition end_task :: "nat \<Rightarrow> report \<Rightarrow> fate \<Rightarrow> core \<Rightarrow> core" where
  "end_task i rep x s =
     set_fates (\<lambda>y. if y = InTask i then x else y)
       (s\<lparr>co_tasks := filter (\<lambda>t. fst t \<noteq> i) (co_tasks s), co_running := removeAll i (co_running s),
          co_channel := (co_channel s)(i := rep)\<rparr>)"

definition start_task :: "nat \<Rightarrow> round \<Rightarrow> core \<Rightarrow> core" where
  "start_task i r s =
     (case IsPoisoned (round_batch r) (co_poisoned s) of
        (True, p) \<Rightarrow> end_task i Closed Dropped (s\<lparr>co_poisoned := p\<rparr>)
      | (False, p) \<Rightarrow> s\<lparr>co_running := i # co_running s\<rparr>)"

definition fail_task :: "nat \<Rightarrow> round \<Rightarrow> core \<Rightarrow> core" where
  "fail_task i r s = end_task i Closed Dropped (s\<lparr>co_poisoned := MarkPoisoned (round_batch r) (co_poisoned s)\<rparr>)"

definition finish_task :: "nat \<Rightarrow> round \<Rightarrow> commit_fates \<Rightarrow> commit_fates list \<Rightarrow> error_class \<Rightarrow> core \<Rightarrow> core" where
  "finish_task i r f fs cls s =
     (case commit_attempts f fs of
        (err, target, staging) \<Rightarrow>
          let s1 = s\<lparr>co_applied := (if target then co_applied s @ [r] else co_applied s),
                     co_marked := (if staging then co_marked s @ [r] else co_marked s)\<rparr>
          in case err of
               None \<Rightarrow> end_task i (Advanced (rd_advanceTo r)) Done s1
             | Some _ \<Rightarrow>
                 (case cls of
                    Deferrable True \<Rightarrow> s1\<lparr>co_running := removeAll i (co_running s1)\<rparr>
                  | _ \<Rightarrow> fail_task i r s1))"

text \<open>A task may run when no earlier task holds one of its keys.\<close>

definition runnable :: "nat \<Rightarrow> round \<Rightarrow> core \<Rightarrow> bool" where
  "runnable i r s \<longleftrightarrow>
     list_all (\<lambda>(j, q). j < i \<longrightarrow> set (keyForBatch (round_batch q)) \<inter> set (keyForBatch (round_batch r)) = {}) (co_tasks s)"

definition task_round :: "nat \<Rightarrow> core \<Rightarrow> round option" where
  "task_round i s = map_option snd (find (\<lambda>t. fst t = i) (co_tasks s))"

text \<open>The loop that reads the reports in order and publishes the progress.\<close>

definition read_report :: "core \<Rightarrow> core option" where
  "read_report s =
     (case co_reports s of
        [] \<Rightarrow> None
      | c # rest \<Rightarrow>
          (case co_channel s c of
             Pending \<Rightarrow> None
           | Advanced advanceTo \<Rightarrow>
               Some (if \<not> IsClean (co_poisoned s) then s\<lparr>co_reports := rest\<rparr>
                     else s\<lparr>co_reports := rest, co_published := co_published s @ [(advanceTo, co_upto s c)]\<rparr>)
           | Closed \<Rightarrow>
               Some (if \<not> IsClean (co_poisoned s) then s\<lparr>co_reports := rest\<rparr>
                     else s\<lparr>co_reports := rest, co_poisoned := ForceFull (co_poisoned s)\<rparr>)))"

datatype core_action =
    ActFlush MultiBatch bool
  | ActProgress Range
  | ActStart nat
  | ActFinish nat commit_fates "commit_fates list" error_class
  | ActReport

definition core_act :: "core_action \<Rightarrow> core \<Rightarrow> core option" where
  "core_act act s =
     (case act of
        ActFlush batch fragment \<Rightarrow> if co_failed s then None else Some (core_Flush batch fragment s)
      | ActProgress progress \<Rightarrow> if co_failed s then None else Some (core_Progress progress s)
      | ActStart i \<Rightarrow>
          (case task_round i s of
             None \<Rightarrow> None
           | Some r \<Rightarrow> if i \<notin> set (co_running s) \<and> runnable i r s then Some (start_task i r s) else None)
      | ActFinish i f fs cls \<Rightarrow>
          (case task_round i s of
             None \<Rightarrow> None
           | Some r \<Rightarrow> if i \<in> set (co_running s) then Some (finish_task i r f fs cls s) else None)
      | ActReport \<Rightarrow> read_report s)"

fun core_run :: "core_action list \<Rightarrow> core \<Rightarrow> core option" where
  "core_run [] s = Some s"
| "core_run (a # as) s = (case core_act a s of None \<Rightarrow> None | Some s' \<Rightarrow> core_run as s')"

section \<open>Poisoning\<close>

definition poison_keys :: "MultiBatch \<Rightarrow> string set" where
  "poison_keys b = (\<lambda>(t, m). poisonKey t m) ` set (multi_list b)"

lemma finite_poison_keys [simp]: "finite (poison_keys b)"
  by (simp add: poison_keys_def)

lemma run_contaminate:
  "run_acc (contaminate_acc p) xs (S, x)
   = Inr (S \<union> ((\<lambda>(t, m). poisonKey t m) ` set xs - ps_data p), x \<or> (\<lambda>(t, m). poisonKey t m) ` set xs \<inter> ps_data p \<noteq> {})"
  by (induction xs arbitrary: S x) (auto simp: contaminate_acc_def Let_def)

lemma run_mark: "run_acc mark_acc xs S = Inr (S \<union> (\<lambda>(t, m). poisonKey t m) ` set xs)"
  by (induction xs arbitrary: S) (auto simp: mark_acc_def)

lemma run_keys: "run_acc key_acc xs ks = Inr (ks @ map (\<lambda>(t, m). scheduler_key t m) xs)"
  by (induction xs arbitrary: ks) (auto simp: key_acc_def keyForSingleton_def)

lemma keyForBatch_eq: "keyForBatch b = map (\<lambda>(t, m). scheduler_key t m) (multi_list b)"
  by (simp add: keyForBatch_def MultiBatch_CopyInto_run run_keys)

lemma toPoison_eq:
  "toPoison b p =
     (if ps_full p then ({}, True)
      else if card (ps_data p) = 0 \<or> poison_keys b \<inter> ps_data p = {} then ({}, False)
      else (poison_keys b - ps_data p, True))"
  by (simp add: toPoison_def MultiBatch_CopyInto_run run_contaminate poison_keys_def)

lemma MarkPoisoned_eq:
  "MarkPoisoned b p =
     (if ps_full p then p
      else let dat = ps_data p \<union> poison_keys b; full = int (card dat) \<ge> ps_maxCount p
           in p\<lparr>ps_data := (if full then {} else dat), ps_full := full\<rparr>)"
  by (simp add: MarkPoisoned_def MultiBatch_CopyInto_run run_mark poison_keys_def)

text \<open>A set that is not clean stays so.\<close>

lemma unclean_card:
  "\<lbrakk>card A \<noteq> 0; finite B\<rbrakk> \<Longrightarrow> card (A \<union> B) \<noteq> 0"
  by (metis card_eq_0_iff finite_UnI sup_eq_bot_iff)

lemma MarkPoisoned_unclean: "\<not> IsClean p \<Longrightarrow> \<not> IsClean (MarkPoisoned b p)"
  using unclean_card [of "ps_data p" "poison_keys b"] by (auto simp: IsClean_def MarkPoisoned_eq Let_def)

lemma IsPoisoned_unclean:
  assumes "IsPoisoned b p = (x, q)"
  shows "(\<not> IsClean p \<longrightarrow> \<not> IsClean q) \<and> (x \<longrightarrow> \<not> IsClean q) \<and> (\<not> x \<longrightarrow> q = p)"
  using assms unclean_card [of "ps_data p" "poison_keys b"]
  by (auto simp: IsPoisoned_def toPoison_eq IsClean_def Let_def split: if_splits)

lemma ForceFull_unclean [simp]: "\<not> IsClean (ForceFull p)"
  by (simp add: IsClean_def ForceFull_def)

section \<open>The published progress\<close>

definition seg_fate :: "core \<Rightarrow> nat \<Rightarrow> fate" where
  "seg_fate s j = snd (co_segments s ! j)"

text \<open>
  A queued channel \<open>c\<close> stands before every queued channel that was made after batch \<open>j\<close> was delivered. While nothing
  is poisoned, every batch that is not done is held back by such a channel, which has no value or is closed.
\<close>

definition blocked :: "core \<Rightarrow> nat \<Rightarrow> nat \<Rightarrow> bool" where
  "blocked s c j \<longleftrightarrow> c \<in> set (co_reports s) \<and> (\<forall>d \<in> set (co_reports s). d < c \<longrightarrow> co_upto s d \<le> j)"

definition unreported :: "core \<Rightarrow> nat \<Rightarrow> bool" where
  "unreported s j \<longleftrightarrow> (\<forall>d \<in> set (co_reports s). co_upto s d \<le> j)"

definition accounted :: "core \<Rightarrow> nat \<Rightarrow> bool" where
  "accounted s j =
     (case seg_fate s j of
        Done \<Rightarrow> True
      | InTask i \<Rightarrow> i \<in> fst ` set (co_tasks s) \<and> blocked s i j
      | InAccumulator \<Rightarrow> unreported s j
      | Dropped \<Rightarrow> (\<exists>c. co_channel s c = Closed \<and> blocked s c j) \<or> co_failed s \<and> unreported s j)"

definition queue_inv :: "core \<Rightarrow> bool" where
  "queue_inv s \<longleftrightarrow>
     sorted_wrt (<) (co_reports s) \<and> (\<forall>c \<in> set (co_reports s). c < co_next s)
     \<and> (\<forall>i \<in> fst ` set (co_tasks s). i \<in> set (co_reports s) \<and> co_channel s i = Pending)
     \<and> (\<forall>c. co_upto s c \<le> length (co_segments s))"

definition clean_inv :: "core \<Rightarrow> bool" where
  "clean_inv s \<longleftrightarrow> (IsClean (co_poisoned s) \<longrightarrow> (\<forall>j < length (co_segments s). accounted s j))"

definition published_inv :: "core \<Rightarrow> bool" where
  "published_inv s \<longleftrightarrow>
     (\<forall>(rg, n) \<in> set (co_published s). n \<le> length (co_segments s) \<and> (\<forall>j < n. seg_fate s j = Done))"

definition core_inv :: "core \<Rightarrow> bool" where
  "core_inv s \<longleftrightarrow> queue_inv s \<and> clean_inv s \<and> published_inv s"

definition acc_inv :: "core \<Rightarrow> bool" where
  "acc_inv s \<longleftrightarrow> (\<forall>x \<in> set (co_segments s). snd x = InAccumulator \<longrightarrow> co_accumulator s \<noteq> None)"

lemma core_invI: "\<lbrakk>queue_inv s; clean_inv s; published_inv s\<rbrakk> \<Longrightarrow> core_inv s"
  by (simp add: core_inv_def)

lemma set_fates_sel [simp]:
  "co_poisoned (set_fates f s) = co_poisoned s" "co_accumulator (set_fates f s) = co_accumulator s"
  "co_tasks (set_fates f s) = co_tasks s" "co_running (set_fates f s) = co_running s"
  "co_channel (set_fates f s) = co_channel s" "co_reports (set_fates f s) = co_reports s"
  "co_next (set_fates f s) = co_next s" "co_failed (set_fates f s) = co_failed s"
  "length (co_segments (set_fates f s)) = length (co_segments s)" "co_upto (set_fates f s) = co_upto s"
  "co_applied (set_fates f s) = co_applied s" "co_marked (set_fates f s) = co_marked s"
  "co_published (set_fates f s) = co_published s"
  by (simp_all add: set_fates_def)

lemma seg_fate_set [simp]: "j < length (co_segments s) \<Longrightarrow> seg_fate (set_fates f s) j = f (seg_fate s j)"
  by (simp add: set_fates_def seg_fate_def split_beta)

lemma seg_fate_cong: "co_segments s = co_segments s' \<Longrightarrow> seg_fate s j = seg_fate s' j"
  by (simp add: seg_fate_def)

lemma published_inv_step:
  assumes "published_inv s" "set (co_published s') = set (co_published s)" "length (co_segments s) \<le> length (co_segments s')"
    and "\<And>j. j < length (co_segments s) \<Longrightarrow> seg_fate s j = Done \<Longrightarrow> seg_fate s' j = Done"
  shows "published_inv s'"
  using assms unfolding published_inv_def by fastforce

text \<open>The steps of the operations keep the invariant.\<close>

lemma core_inv_deliver:
  assumes "core_inv s"
  shows "core_inv (s\<lparr>co_segments := co_segments s @ [(b, InAccumulator)]\<rparr>)" (is "core_inv ?s")
proof -
  have fate: "seg_fate ?s j = (if j < length (co_segments s) then seg_fate s j else InAccumulator)"
    if "j < length (co_segments ?s)" for j
    using that by (auto simp: seg_fate_def nth_append less_Suc_eq)
  have q: "queue_inv ?s" using assms by (auto simp: core_inv_def queue_inv_def intro: le_SucI)
  have "accounted ?s j" if "IsClean (co_poisoned s)" "j < length (co_segments ?s)" for j
  proof (cases "j < length (co_segments s)")
    case True
    then have "accounted s j" using assms that(1) by (simp add: core_inv_def clean_inv_def)
    then show ?thesis using fate [OF that(2)] True
      by (simp add: accounted_def blocked_def unreported_def split: fate.splits)
  next
    case False
    then have "j = length (co_segments s)" using that(2) by simp
    then show ?thesis using fate [OF that(2)] assms
      by (simp add: accounted_def unreported_def core_inv_def queue_inv_def)
  qed
  moreover have "published_inv ?s"
    by (rule published_inv_step [of s]) (use assms fate in \<open>auto simp: core_inv_def\<close>)
  ultimately show ?thesis using q by (simp add: core_inv_def clean_inv_def)
qed

lemma core_inv_drop:
  assumes "core_inv s" and "\<not> IsClean (co_poisoned s) \<or> co_failed s"
  shows "core_inv (drop_accumulator s)" (is "core_inv ?s")
proof (rule core_invI)
  show "queue_inv ?s" using assms(1) by (simp add: core_inv_def queue_inv_def drop_accumulator_def)
  show "published_inv ?s"
    by (rule published_inv_step [of s]) (use assms(1) in \<open>auto simp: core_inv_def drop_accumulator_def seg_fate_def set_fates_def split_beta\<close>)
  have "accounted ?s j" if "IsClean (co_poisoned s)" "j < length (co_segments s)" for j
  proof -
    have "accounted s j" "co_failed s" using assms that by (auto simp: core_inv_def clean_inv_def)
    moreover have "seg_fate ?s j = (if seg_fate s j = InAccumulator then Dropped else seg_fate s j)"
      using that(2) by (simp add: drop_accumulator_def seg_fate_def set_fates_def split_beta)
    ultimately show ?thesis
      by (cases "seg_fate s j") (auto simp: accounted_def blocked_def unreported_def drop_accumulator_def)
  qed
  then show "clean_inv ?s" by (simp add: clean_inv_def drop_accumulator_def)
qed

lemmas core_inv_defs = core_inv_def queue_inv_def clean_inv_def published_inv_def accounted_def blocked_def unreported_def seg_fate_def

lemma core_inv_other [simp]:
  "core_inv (s\<lparr>co_running := a\<rparr>) = core_inv s" "core_inv (s\<lparr>co_applied := b\<rparr>) = core_inv s"
  "core_inv (s\<lparr>co_marked := c\<rparr>) = core_inv s" "core_inv (s\<lparr>co_accumulator := d\<rparr>) = core_inv s"
  by (simp_all add: core_inv_defs cong: fate.case_cong)

lemma core_inv_poisoned:
  "\<lbrakk>core_inv s; IsClean p \<longrightarrow> IsClean (co_poisoned s)\<rbrakk> \<Longrightarrow> core_inv (s\<lparr>co_poisoned := p\<rparr>)"
  by (simp add: core_inv_defs cong: fate.case_cong)

lemma core_inv_failed: "core_inv s \<Longrightarrow> core_inv (s\<lparr>co_failed := True\<rparr>)"
proof -
  assume inv: "core_inv s"
  have "accounted (s\<lparr>co_failed := True\<rparr>) j" if "accounted s j" for j
    using that by (cases "seg_fate s j") (auto simp: accounted_def blocked_def unreported_def seg_fate_def)
  then show ?thesis using inv by (simp add: core_inv_def queue_inv_def clean_inv_def published_inv_def seg_fate_def)
qed

text \<open>A new channel, after the accumulated batches have become the task of the channel, if it has one.\<close>

lemma core_inv_report:
  assumes inv: "core_inv s" and "\<not> co_failed s"
    and s': "co_poisoned s' = co_poisoned s" "co_reports s' = co_reports s @ [co_next s]" "co_next s' = co_next s + 1"
      "co_upto s' = (co_upto s)(co_next s := length (co_segments s))" "co_published s' = co_published s"
      "length (co_segments s') = length (co_segments s)"
    and ch: "\<And>c. c < co_next s \<Longrightarrow> co_channel s' c = co_channel s c"
    and tasks: "\<And>i. i \<in> fst ` set (co_tasks s') \<Longrightarrow> i \<in> fst ` set (co_tasks s) \<or> i = co_next s \<and> co_channel s' i = Pending"
      "fst ` set (co_tasks s) \<subseteq> fst ` set (co_tasks s')"
    and fate: "\<And>j. j < length (co_segments s) \<Longrightarrow>
        seg_fate s' j = seg_fate s j \<and> seg_fate s j \<noteq> InAccumulator
        \<or> seg_fate s j = InAccumulator \<and> seg_fate s' j = InTask (co_next s) \<and> co_next s \<in> fst ` set (co_tasks s')"
  shows "core_inv s'"
proof (rule core_invI)
  have q: "queue_inv s" using inv by (simp add: core_inv_def)
  then have bound: "c < co_next s" if "c \<in> set (co_reports s)" for c using that by (simp add: queue_inv_def)
  then have upto: "co_upto s' c = co_upto s c" if "c \<in> set (co_reports s)" for c using that s'(4) by force
  have "i \<in> set (co_reports s') \<and> co_channel s' i = Pending" if "i \<in> fst ` set (co_tasks s')" for i
    using tasks(1) [OF that] q bound ch s'(2) unfolding queue_inv_def by fastforce
  then show "queue_inv s'" using q bound s' by (auto simp: queue_inv_def sorted_wrt_append intro: less_SucI)
  show "published_inv s'"
    by (rule published_inv_step [of s]) (use inv fate s' in \<open>force simp: core_inv_def\<close>)+
  have keep: "blocked s' c j" if "blocked s c j" for c j
    using that upto bound [of c] unfolding blocked_def s'(2) by auto
  have "accounted s' j" if "IsClean (co_poisoned s)" and j: "j < length (co_segments s)" for j
  proof -
    have acc: "accounted s j" using inv that by (simp add: core_inv_def clean_inv_def)
    show ?thesis
    proof (cases "seg_fate s j = InAccumulator")
      case True
      then have "unreported s j" using acc by (simp add: accounted_def)
      then have "blocked s' (co_next s) j" using upto unfolding blocked_def unreported_def s'(2) by auto
      then show ?thesis using True fate [OF j] by (simp add: accounted_def)
    next
      case False
      then have same: "seg_fate s' j = seg_fate s j" using fate [OF j] by auto
      show ?thesis
      proof (cases "seg_fate s j")
        case (InTask i)
        then show ?thesis using acc same keep tasks(2) by (auto simp: accounted_def)
      next
        case Dropped
        then obtain c where c: "co_channel s c = Closed" "blocked s c j" using acc assms(2) by (auto simp: accounted_def)
        then have "co_channel s' c = Closed" using ch bound by (simp add: blocked_def)
        then show ?thesis using Dropped same keep [OF c(2)] by (auto simp: accounted_def)
      qed (use False same in \<open>simp_all add: accounted_def\<close>)
    qed
  qed
  then show "clean_inv s'" using s' by (simp add: clean_inv_def)
qed

lemma core_inv_flush:
  assumes "core_inv s" "\<not> co_failed s" "co_accumulator s = Some r"
  shows "core_inv (flushAccumulator s)"
  by (rule core_inv_report [OF assms(1,2)])
     (use assms(3) in \<open>auto simp: flushAccumulator_def make_report_def Let_def seg_fate_def set_fates_def split_beta\<close>)

lemma acc_inv_flush: "acc_inv (flushAccumulator s) \<or> co_accumulator s = None"
  by (auto simp: acc_inv_def flushAccumulator_def make_report_def Let_def set_fates_def split: option.splits if_splits)

lemma flushAccumulator_sel [simp]:
  "co_failed (flushAccumulator s) = co_failed s" "co_accumulator (flushAccumulator s) = None"
  "co_poisoned (flushAccumulator s) = co_poisoned s" "co_running (flushAccumulator s) = co_running s"
  by (simp_all add: flushAccumulator_def make_report_def Let_def split: option.splits)

lemma core_inv_make_report:
  assumes "core_inv s" "\<not> co_failed s" "acc_inv s" "co_accumulator s = None"
  shows "core_inv (make_report (Advanced rg) s)" "acc_inv (make_report (Advanced rg) s)"
proof -
  have "seg_fate s j \<noteq> InAccumulator" if "j < length (co_segments s)" for j
    using assms(3,4) nth_mem [OF that] by (auto simp: acc_inv_def seg_fate_def)
  then show "core_inv (make_report (Advanced rg) s)"
    by (intro core_inv_report [OF assms(1,2)]) (auto simp: make_report_def seg_fate_def)
  show "acc_inv (make_report (Advanced rg) s)" using assms(3) by (simp add: acc_inv_def make_report_def)
qed

lemma blk_end:
  "blocked (end_task i rep x s) c j = blocked s c j" "unreported (end_task i rep x s) j = unreported s j"
  "co_failed (end_task i rep x s) = co_failed s"
  by (simp_all add: blocked_def unreported_def end_task_def)

lemma core_inv_end:
  assumes inv: "core_inv s" and i: "i \<in> fst ` set (co_tasks s)" and x: "x = Done \<and> rep \<noteq> Pending \<or> x = Dropped \<and> rep = Closed"
  shows "core_inv (end_task i rep x s)" (is "core_inv ?s")
proof (rule core_invI)
  have q: "queue_inv s" using inv by (simp add: core_inv_def)
  then show "queue_inv ?s" by (auto simp: queue_inv_def end_task_def)
  have fate: "seg_fate ?s j = (if seg_fate s j = InTask i then x else seg_fate s j)" if "j < length (co_segments s)" for j
    using that by (simp add: end_task_def seg_fate_def set_fates_def split_beta)
  show "published_inv ?s"
    by (rule published_inv_step [of s]) (use inv fate in \<open>auto simp: core_inv_def end_task_def\<close>)
  have ch: "co_channel ?s c = Closed" if "co_channel s c = Closed" for c
    using that q i by (auto simp: queue_inv_def end_task_def)
  have "accounted ?s j" if "IsClean (co_poisoned s)" and j: "j < length (co_segments s)" for j
  proof -
    have acc: "accounted s j" using inv that by (simp add: core_inv_def clean_inv_def)
    show ?thesis
    proof (cases "seg_fate s j")
      case (InTask k)
      have "k \<in> fst ` set (co_tasks ?s)" if "k \<noteq> i" using acc InTask that by (force simp: accounted_def end_task_def)
      moreover have "co_channel ?s i = rep" by (simp add: end_task_def)
      ultimately show ?thesis using acc InTask fate [OF j] x by (auto simp: accounted_def blk_end)
    next
      case Dropped
      then show ?thesis using acc fate [OF j] ch by (auto simp: accounted_def blk_end)
    qed (use acc fate [OF j] in \<open>simp_all add: accounted_def blk_end\<close>)
  qed
  then show "clean_inv ?s" by (simp add: clean_inv_def end_task_def)
qed

lemma acc_inv_other [simp]:
  "acc_inv (s\<lparr>co_poisoned := p\<rparr>) = acc_inv s" "acc_inv (s\<lparr>co_running := a\<rparr>) = acc_inv s"
  "acc_inv (s\<lparr>co_applied := b\<rparr>) = acc_inv s" "acc_inv (s\<lparr>co_marked := c\<rparr>) = acc_inv s"
  by (simp_all add: acc_inv_def)

lemma acc_inv_end: "\<lbrakk>acc_inv s; x \<noteq> InAccumulator\<rbrakk> \<Longrightarrow> acc_inv (end_task i rep x s)"
  by (auto simp: acc_inv_def end_task_def set_fates_def split: if_splits)

lemma accounted_rest:
  assumes "accounted s j" "co_reports s = c # rest" and s': "co_reports s' = rest" "co_channel s' = co_channel s"
    "co_tasks s' = co_tasks s" "co_upto s' = co_upto s" "co_failed s' = co_failed s" "co_segments s' = co_segments s"
    and head: "c \<notin> fst ` set (co_tasks s)" "co_channel s c \<noteq> Closed"
  shows "accounted s' j"
proof -
  have blk: "blocked s' d j" if "blocked s d j" "d \<noteq> c" for d
    using that assms(2) s' by (simp add: blocked_def)
  have unr: "unreported s' j" if "unreported s j" using that assms(2) s' by (simp add: unreported_def)
  have fate: "seg_fate s' j = seg_fate s j" using s' by (simp add: seg_fate_def)
  show ?thesis
  proof (cases "seg_fate s j")
    case (InTask i)
    then have i: "i \<in> fst ` set (co_tasks s)" "blocked s i j" using assms(1) by (auto simp: accounted_def)
    then have "i \<noteq> c" using head(1) by auto
    then show ?thesis using i blk InTask fate s'(3) by (simp add: accounted_def)
  next
    case Dropped
    then show ?thesis using assms(1) fate head(2) blk unr s' by (fastforce simp: accounted_def)
  qed (use assms(1) fate unr in \<open>simp_all add: accounted_def\<close>)
qed

text \<open>When the head of the queue has a value and nothing is poisoned, every batch that was delivered before is done.\<close>

lemma head_done:
  assumes "accounted s j" "co_reports s = c # rest" "sorted_wrt (<) (co_reports s)" "j < co_upto s c"
    and head: "c \<notin> fst ` set (co_tasks s)" "co_channel s c \<noteq> Closed"
  shows "seg_fate s j = Done"
proof -
  have no: "\<not> blocked s d j" if "d \<noteq> c" for d
    using that assms(2-4) by (auto simp: blocked_def)
  have unr: "\<not> unreported s j" using assms(2,4) by (auto simp: unreported_def)
  show ?thesis
  proof (cases "seg_fate s j")
    case (InTask i)
    then have "i \<in> fst ` set (co_tasks s)" "blocked s i j" using assms(1) by (auto simp: accounted_def)
    then show ?thesis using no head(1) by metis
  next
    case Dropped
    then show ?thesis using assms(1) no head(2) unr unfolding accounted_def by fastforce
  qed (use assms(1) unr in \<open>simp_all add: accounted_def\<close>)
qed

lemma core_inv_read:
  assumes inv: "core_inv s" and r: "read_report s = Some s'"
  shows "core_inv s'"
proof -
  have q: "queue_inv s" and cl: "clean_inv s" and pub: "published_inv s" using inv by (auto simp: core_inv_def)
  obtain c rest where c: "co_reports s = c # rest" and np: "co_channel s c \<noteq> Pending"
    using r by (auto simp: read_report_def split: list.splits report.splits)
  have "i \<noteq> c" if "i \<in> fst ` set (co_tasks s)" for i using that q np by (auto simp: queue_inv_def)
  then have nt: "c \<notin> fst ` set (co_tasks s)" by blast
  have srt: "sorted_wrt (<) (co_reports s)" using q by (simp add: queue_inv_def)
  have q': "queue_inv (s\<lparr>co_reports := rest\<rparr>)" using q c nt unfolding queue_inv_def by auto
  show ?thesis
  proof (cases "IsClean (co_poisoned s)")
    case False
    then have "s' = s\<lparr>co_reports := rest\<rparr>" using r c np by (auto simp: read_report_def split: report.splits)
    then show ?thesis using q' pub False by (simp add: core_inv_def clean_inv_def published_inv_def seg_fate_def)
  next
    case True
    show ?thesis
    proof (cases "co_channel s c")
      case Closed
      then have "s' = s\<lparr>co_reports := rest, co_poisoned := ForceFull (co_poisoned s)\<rparr>" using r c True by (auto simp: read_report_def)
      then show ?thesis using q' pub by (simp add: core_inv_def queue_inv_def clean_inv_def published_inv_def seg_fate_def)
    next
      case (Advanced rg)
      then have s': "s' = s\<lparr>co_reports := rest, co_published := co_published s @ [(rg, co_upto s c)]\<rparr>"
        using r c True by (auto simp: read_report_def)
      have acc: "accounted s j" if "j < length (co_segments s)" for j using that cl True by (simp add: clean_inv_def)
      have upto: "co_upto s c \<le> length (co_segments s)" using q by (simp add: queue_inv_def)
      have nc: "co_channel s c \<noteq> Closed" using Advanced by simp
      have dn: "seg_fate s j = Done" if "j < co_upto s c" for j
        using head_done [OF acc c srt that nt nc] that upto by simp
      have "clean_inv s'" unfolding clean_inv_def
        using accounted_rest [OF acc c _ _ _ _ _ _ nt nc, of _ s'] s' by simp
      moreover have "published_inv s'" using pub dn upto s' by (auto simp: published_inv_def seg_fate_def)
      moreover have "queue_inv s'" using q' s' by (simp add: queue_inv_def)
      ultimately show ?thesis by (simp add: core_inv_def)
    qed (use np in simp)
  qed
qed

definition core_ok :: "core \<Rightarrow> bool" where
  "core_ok s \<longleftrightarrow> core_inv s \<and> acc_inv s"

lemma core_ok_Flush:
  assumes "core_ok s" "\<not> co_failed s"
  shows "core_ok (core_Flush batch fragment s)"
proof -
  let ?s = "s\<lparr>co_segments := co_segments s @ [(batch, InAccumulator)]\<rparr>"
  have inv: "core_inv ?s" using assms(1) by (simp add: core_ok_def core_inv_deliver)
  have drop: "acc_inv (drop_accumulator t)" for t
    by (auto simp: acc_inv_def drop_accumulator_def set_fates_def split: if_splits)
  have fail: "core_ok (drop_accumulator (?s\<lparr>co_failed := True\<rparr>))"
    using core_inv_drop [OF core_inv_failed [OF inv]] drop by (simp add: core_ok_def)
  obtain x p where p: "IsPoisoned batch (co_poisoned s) = (x, p)" by (rule prod.exhaust)
  show ?thesis
  proof (cases "IsFull (co_poisoned s) \<or> x")
    case True
    have "core_inv (drop_accumulator (?s\<lparr>co_poisoned := p\<rparr>))" if x
      using core_inv_drop [OF core_inv_poisoned [OF inv]] IsPoisoned_unclean [OF p] that by simp
    then show ?thesis using True p fail drop by (auto simp: core_Flush_def Let_def core_ok_def)
  next
    case False
    let ?r = "round_accumulate batch (case co_accumulator s of None \<Rightarrow> nextRound | Some r \<Rightarrow> r)"
    show ?thesis
    proof (cases ?r)
      case (Inl e)
      then show ?thesis using False p fail by (simp add: core_Flush_def Let_def)
    next
      case (Inr r)
      let ?t = "?s\<lparr>co_accumulator := Some r\<rparr>"
      have t: "core_inv ?t" "\<not> co_failed ?t" "acc_inv ?t" using inv assms(2) by (simp_all add: acc_inv_def)
      have "core_inv (flushAccumulator ?t)" "acc_inv (flushAccumulator ?t)"
        using core_inv_flush [OF t(1,2)] acc_inv_flush [of ?t] by simp_all
      then show ?thesis using Inr False p t by (simp add: core_Flush_def Let_def core_ok_def)
    qed
  qed
qed

lemma core_ok_Progress:
  assumes "core_ok s" "\<not> co_failed s"
  shows "core_ok (core_Progress rg s)"
proof -
  let ?t = "if co_accumulator s \<noteq> None then flushAccumulator s else s"
  have "core_inv ?t" "acc_inv ?t" "\<not> co_failed ?t" "co_accumulator ?t = None"
    using assms core_inv_flush [of s] acc_inv_flush [of s] by (auto simp: core_ok_def)
  from core_inv_make_report [OF this(1,3,2,4)] show ?thesis by (simp add: core_ok_def core_Progress_def)
qed

lemma core_ok_fail: "\<lbrakk>core_ok s; i \<in> fst ` set (co_tasks s)\<rbrakk> \<Longrightarrow> core_ok (fail_task i r s)"
  using MarkPoisoned_unclean [of "co_poisoned s" "round_batch r"]
  by (auto simp: core_ok_def fail_task_def intro!: core_inv_end core_inv_poisoned acc_inv_end)

lemma core_ok_start:
  assumes "core_ok s" "i \<in> fst ` set (co_tasks s)"
  shows "core_ok (start_task i r s)"
proof -
  obtain x p where p: "IsPoisoned (round_batch r) (co_poisoned s) = (x, p)" by (rule prod.exhaust)
  then show ?thesis using assms IsPoisoned_unclean [OF p]
    by (cases x) (auto simp: core_ok_def start_task_def intro!: core_inv_end core_inv_poisoned acc_inv_end)
qed

lemma core_ok_finish:
  assumes "core_ok s" "i \<in> fst ` set (co_tasks s)"
  shows "core_ok (finish_task i r f fs cls s)"
proof -
  obtain err target staging where e: "commit_attempts f fs = (err, target, staging)" by (rule prod_cases3)
  let ?s = "s\<lparr>co_applied := (if target then co_applied s @ [r] else co_applied s),
               co_marked := (if staging then co_marked s @ [r] else co_marked s)\<rparr>"
  have s1: "core_ok ?s" "i \<in> fst ` set (co_tasks ?s)" using assms by (simp_all add: core_ok_def acc_inv_def)
  have dn: "core_ok (end_task i (Advanced rg) Done ?s)" for rg
    using s1 core_inv_end [OF _ s1(2)] acc_inv_end by (simp add: core_ok_def)
  have rt: "core_ok (?s\<lparr>co_running := rs\<rparr>)" for rs using s1(1) by (simp add: core_ok_def acc_inv_def)
  show ?thesis using e dn rt core_ok_fail [OF s1]
    by (auto simp: finish_task_def Let_def split: option.splits error_class.splits bool.splits)
qed

lemma task_round_in: "task_round i s = Some r \<Longrightarrow> (i, r) \<in> set (co_tasks s)"
  by (auto simp: task_round_def find_Some_iff) (metis fst_conv nth_mem)

lemma core_ok_act:
  assumes "core_ok s" "core_act a s = Some s'"
  shows "core_ok s'"
proof (cases a)
  case (ActStart i)
  then obtain r where "task_round i s = Some r" "s' = start_task i r s"
    using assms(2) by (auto simp: core_act_def split: option.splits if_splits)
  then show ?thesis using core_ok_start [OF assms(1)] task_round_in by force
next
  case (ActFinish i f fs cls)
  then obtain r where "task_round i s = Some r" "s' = finish_task i r f fs cls s"
    using assms(2) by (auto simp: core_act_def split: option.splits if_splits)
  then show ?thesis using core_ok_finish [OF assms(1)] task_round_in by force
next
  case ActReport
  then have r: "read_report s = Some s'" using assms(2) by (simp add: core_act_def)
  then have "acc_inv s'" using assms(1)
    by (auto simp: core_ok_def read_report_def acc_inv_def split: list.splits report.splits if_splits)
  then show ?thesis using core_inv_read r assms(1) by (auto simp: core_ok_def)
qed (use assms core_ok_Flush core_ok_Progress in \<open>auto simp: core_act_def split: if_splits\<close>)

lemma core_ok_init: "core_ok (core_init m)"
  by (simp add: core_ok_def core_inv_defs acc_inv_def core_init_def)

lemma core_run_induct [consumes 1, case_names init act]:
  assumes "core_run as s = Some s'" "P s" "\<And>a s s'. \<lbrakk>a \<in> set as; P s; core_act a s = Some s'\<rbrakk> \<Longrightarrow> P s'"
  shows "P s'"
  using assms
proof (induction as arbitrary: s)
  case (Cons a as)
  then obtain t where t: "core_act a s = Some t" "core_run as t = Some s'" by (auto split: option.splits)
  have "P t" by (rule Cons.prems(3) [OF _ Cons.prems(2) t(1)]) simp
  then show ?case by (rule Cons.IH [OF t(2)]) (rule Cons.prems(3), auto)
qed simp

lemma core_ok_run: "core_run as (core_init m) = Some s \<Longrightarrow> core_ok s"
  by (induction rule: core_run_induct) (auto intro: core_ok_init core_ok_act)

section \<open>What a batch that is done means\<close>

definition good_action :: "core_action \<Rightarrow> bool" where
  "good_action a = (case a of ActFlush batch _ \<Rightarrow> good_batch batch | _ \<Rightarrow> True)"

definition contains_batch :: "round \<Rightarrow> MultiBatch \<Rightarrow> bool" where
  "contains_batch r b \<longleftrightarrow> multi_muts b \<subseteq># multi_muts (round_batch r)"

definition content_inv :: "core \<Rightarrow> bool" where
  "content_inv s \<longleftrightarrow>
     distinct (map fst (co_tasks s))
     \<and> (\<forall>r. co_accumulator s = Some r \<longrightarrow> rd_batch r \<noteq> None \<and> multi_ok (round_batch r))
     \<and> (\<forall>(b, x) \<in> set (co_segments s).
          (x = InAccumulator \<longrightarrow> (\<exists>r. co_accumulator s = Some r \<and> contains_batch r b))
          \<and> (\<forall>i. x = InTask i \<longrightarrow> (\<exists>r. (i, r) \<in> set (co_tasks s) \<and> contains_batch r b))
          \<and> (x = Done \<longrightarrow> (\<exists>r. r \<in> set (co_applied s) \<and> r \<in> set (co_marked s) \<and> contains_batch r b)))"

lemma tryCommit_cases:
  "tryCommit f = (err, target, staging) \<Longrightarrow> (staging \<longrightarrow> target) \<and> (err = None \<longleftrightarrow> target \<and> staging)"
  by (auto simp: tryCommit_def Let_def split: if_splits)

lemma commit_attempts_None:
  "commit_attempts f fs = (None, target, staging) \<Longrightarrow> target \<and> staging"
proof (induction fs arbitrary: f target)
  case Nil
  then show ?case using tryCommit_cases [of f None target staging] by simp
next
  case (Cons g gs)
  show ?case
  proof (cases "tryCommit f")
    case (fields e t m)
    then show ?thesis using Cons tryCommit_cases [OF fields] by (cases e) (auto split: prod.splits)
  qed
qed

lemma round_accumulate_content:
  assumes "good_batch b" and "rd_batch r = None \<or> multi_ok (round_batch r)"
  shows "\<exists>r'. round_accumulate b r = Inr r' \<and> rd_batch r' \<noteq> None \<and> multi_ok (round_batch r') \<and> contains_batch r' b
     \<and> (rd_batch r \<noteq> None \<longrightarrow> multi_muts (round_batch r) \<subseteq># multi_muts (round_batch r')) \<and> (rd_batch r = None \<longrightarrow> round_batch r' = b)"
proof -
  have keep: "rd_batch (fold advance_round ts q) = rd_batch q" for ts q
    by (induction ts arbitrary: q) (auto simp: advance_round_def Let_def)
  let ?q = "fold advance_round (temporal_batches b) (r\<lparr>rd_mutationCount := rd_mutationCount r + MultiBatch_Count b\<rparr>)"
  have q: "rd_batch ?q = rd_batch r" by (simp add: keep)
  show ?thesis
  proof (cases "rd_batch r")
    case None
    then show ?thesis using q assms(1)
      by (simp add: round_accumulate_def round_batch_def contains_batch_def good_batch_def Let_def)
  next
    case (Some rb)
    then have rb: "multi_ok rb" using assms(2) by (simp add: round_batch_def)
    obtain b' where b': "run_acc MultiBatch_Accumulate (multi_list b) rb = Inr b'" "multi_ok b'"
      "multi_muts b' = multi_muts rb + multi_muts b"
      using accumulate_seq_ok [OF rb, of "multi_list b"] assms(1) mset_multi_list [of b]
      by (auto simp: good_batch_def list_all_iff)
    then show ?thesis using Some q
      by (simp add: round_accumulate_def MultiBatch_CopyInto_run round_batch_def contains_batch_def Let_def)
  qed
qed

lemma content_inv_other [simp]:
  "content_inv (s\<lparr>co_poisoned := p\<rparr>) = content_inv s" "content_inv (s\<lparr>co_running := a\<rparr>) = content_inv s"
  "content_inv (s\<lparr>co_failed := x\<rparr>) = content_inv s"
  "content_inv (s\<lparr>co_reports := rs\<rparr>) = content_inv s" "content_inv (s\<lparr>co_published := ps\<rparr>) = content_inv s"
  by (simp_all add: content_inv_def)

lemma content_inv_mono:
  "\<lbrakk>content_inv s; set (co_applied s) \<subseteq> set as; set (co_marked s) \<subseteq> set ms\<rbrakk> \<Longrightarrow> content_inv (s\<lparr>co_applied := as, co_marked := ms\<rparr>)"
  by (fastforce simp: content_inv_def)

lemma content_inv_end:
  assumes "content_inv s" "x = Done \<longrightarrow> r \<in> set (co_applied s) \<and> r \<in> set (co_marked s)" "(i, r) \<in> set (co_tasks s)"
    "x = Done \<or> x = Dropped"
  shows "content_inv (end_task i rep x s)"
proof -
  have uniq: "r' = r" if "(i, r') \<in> set (co_tasks s)" for r'
    using that assms(1,3) by (auto simp: content_inv_def dest: eq_key_imp_eq_value)
  have "distinct (map fst (filter (\<lambda>t. fst t \<noteq> i) (co_tasks s)))"
    using assms(1) by (simp add: content_inv_def distinct_map_filter)
  then show ?thesis using assms(1,2,4) uniq
    by (fastforce simp: content_inv_def end_task_def set_fates_def split: if_splits)
qed

lemma content_inv_drop:
  assumes "content_inv s" "co_segments t = co_segments s @ [(b, InAccumulator)]" "co_tasks t = co_tasks s"
    "co_applied t = co_applied s" "co_marked t = co_marked s"
  shows "content_inv (drop_accumulator t)"
  using assms by (fastforce simp: content_inv_def drop_accumulator_def set_fates_def split: if_splits)

lemma content_inv_flush:
  assumes "content_inv s" "queue_inv s"
  shows "content_inv (flushAccumulator s)"
proof (cases "co_accumulator s")
  case (Some r)
  have "co_next s \<notin> fst ` set (co_tasks s)" using assms(2) by (fastforce simp: queue_inv_def)
  then show ?thesis using assms(1) Some
    by (fastforce simp: content_inv_def flushAccumulator_def make_report_def set_fates_def Let_def split: if_splits)
qed (use assms in \<open>simp add: flushAccumulator_def\<close>)

lemma content_inv_Flush:
  assumes "content_inv s" "core_ok s" "good_batch b"
  shows "content_inv (core_Flush b fragment s)"
proof -
  let ?s = "s\<lparr>co_segments := co_segments s @ [(b, InAccumulator)]\<rparr>"
  let ?q = "case co_accumulator s of None \<Rightarrow> nextRound | Some r \<Rightarrow> r"
  have "rd_batch ?q = None \<or> multi_ok (round_batch ?q)"
    using assms(1) by (auto simp: content_inv_def nextRound_def split: option.splits)
  then obtain r where r: "round_accumulate b ?q = Inr r" "rd_batch r \<noteq> None" "multi_ok (round_batch r)" "contains_batch r b"
    "rd_batch ?q \<noteq> None \<longrightarrow> multi_muts (round_batch ?q) \<subseteq># multi_muts (round_batch r)"
    using round_accumulate_content [OF assms(3)] by blast
  have old: "contains_batch r c" if "co_accumulator s = Some q" "contains_batch q c" for q c
    using that r(5) assms(1) by (auto simp: contains_batch_def content_inv_def intro: subset_mset.order_trans)
  have t: "content_inv (?s\<lparr>co_accumulator := Some r\<rparr>)"
    using assms(1) r(2-4) old by (fastforce simp: content_inv_def)
  have "core_inv (?s\<lparr>co_accumulator := Some r\<rparr>)" using assms(2) core_inv_deliver by (simp add: core_ok_def)
  then have "content_inv (flushAccumulator (?s\<lparr>co_accumulator := Some r\<rparr>))"
    using content_inv_flush [OF t] by (simp add: core_inv_def)
  moreover have "content_inv (drop_accumulator (?s\<lparr>co_failed := True\<rparr>))" "content_inv (drop_accumulator (?s\<lparr>co_poisoned := p\<rparr>))" for p
    by (rule content_inv_drop [OF assms(1)]; simp)+
  ultimately show ?thesis using r(1) t by (simp add: core_Flush_def Let_def split: prod.split bool.split)
qed

lemma content_inv_Progress:
  assumes "content_inv s" "core_ok s"
  shows "content_inv (core_Progress rg s)"
proof -
  have "content_inv (make_report x t) = content_inv t" for x t by (simp add: content_inv_def make_report_def)
  then show ?thesis using assms content_inv_flush [of s] by (simp add: core_Progress_def core_ok_def core_inv_def)
qed

lemma content_inv_finish:
  assumes "content_inv s" "(i, r) \<in> set (co_tasks s)"
  shows "content_inv (finish_task i r f fs cls s)"
proof -
  obtain err target staging where e: "commit_attempts f fs = (err, target, staging)" by (rule prod_cases3)
  let ?s = "s\<lparr>co_applied := (if target then co_applied s @ [r] else co_applied s),
               co_marked := (if staging then co_marked s @ [r] else co_marked s)\<rparr>"
  have "content_inv ?s" by (rule content_inv_mono [OF assms(1)]) auto
  then have s1: "content_inv ?s" "(i, r) \<in> set (co_tasks ?s)" using assms(2) by simp_all
  have "content_inv (end_task i (Advanced rg) Done ?s)" if "err = None" for rg
  proof -
    have "target \<and> staging" by (rule commit_attempts_None) (use e that in simp)
    then show ?thesis using content_inv_end [OF s1(1) _ s1(2), of Done] by simp
  qed
  moreover have "content_inv (fail_task i r ?s)"
    unfolding fail_task_def by (rule content_inv_end) (use s1 in simp_all)
  moreover have "content_inv (?s\<lparr>co_running := rs\<rparr>)" for rs using s1(1) by simp
  ultimately show ?thesis using e
    by (auto simp: finish_task_def Let_def split: option.splits error_class.splits bool.splits)
qed

lemma content_inv_start:
  assumes "content_inv s" "(i, r) \<in> set (co_tasks s)"
  shows "content_inv (start_task i r s)"
proof -
  have "content_inv (end_task i Closed Dropped (s\<lparr>co_poisoned := p\<rparr>))" for p
    by (rule content_inv_end) (use assms in simp_all)
  then show ?thesis using assms by (simp add: start_task_def split: prod.split bool.split)
qed

lemma content_inv_act:
  assumes "content_inv s" "core_ok s" "good_action a" "core_act a s = Some s'"
  shows "content_inv s'"
proof (cases a)
  case (ActStart i)
  then obtain r where "task_round i s = Some r" "s' = start_task i r s"
    using assms(4) by (auto simp: core_act_def split: option.splits if_splits)
  then show ?thesis using content_inv_start [OF assms(1)] task_round_in by simp
next
  case (ActFinish i f fs cls)
  then obtain r where "task_round i s = Some r" "s' = finish_task i r f fs cls s"
    using assms(4) by (auto simp: core_act_def split: option.splits if_splits)
  then show ?thesis using content_inv_finish [OF assms(1)] task_round_in by simp
next
  case ActReport
  then show ?thesis using assms by (auto simp: core_act_def read_report_def split: list.splits report.splits if_splits)
qed (use assms content_inv_Flush content_inv_Progress in \<open>auto simp: core_act_def good_action_def split: if_splits\<close>)

lemma content_inv_run:
  assumes "core_run as (core_init m) = Some s" "list_all good_action as"
  shows "content_inv s"
proof -
  have "core_ok s \<and> content_inv s"
    using assms(1)
  proof (induction rule: core_run_induct)
    case init
    show ?case using core_ok_init by (simp add: content_inv_def core_init_def)
  next
    case (act a s s')
    then show ?case using core_ok_act content_inv_act assms(2) by (auto simp: list_all_iff)
  qed
  then show ?thesis by simp
qed

text \<open>
  C6: the progress that the core sequencer publishes is safe. However batches, progress notifications, tasks,
  failures and retries interleave, when a range is published then every batch that the copier had delivered
  before the range was reported has been applied: some round contains all of its mutations, and the target
  transaction of that round and the staging transaction that marks its mutations have both been committed.
\<close>

theorem published_progress_is_applied:
  assumes "core_run as (core_init maxDeferred) = Some s" "list_all good_action as" "(rg, n) \<in> set (co_published s)" "j < n"
  shows "j < length (co_segments s)
    \<and> (\<exists>r. r \<in> set (co_applied s) \<and> r \<in> set (co_marked s) \<and> contains_batch r (fst (co_segments s ! j)))"
proof -
  have "published_inv s" using core_ok_run [OF assms(1)] by (simp add: core_ok_def core_inv_def)
  then have j: "j < length (co_segments s)" "seg_fate s j = Done"
    using assms(3,4) by (auto simp: published_inv_def)
  have "content_inv s" by (rule content_inv_run [OF assms(1,2)])
  then show ?thesis using j nth_mem [OF j(1)] by (cases "co_segments s ! j") (auto simp: content_inv_def seg_fate_def)
qed

section \<open>The order of mutations of one key\<close>

definition seg_batch :: "core \<Rightarrow> nat \<Rightarrow> MultiBatch" where
  "seg_batch s j = fst (co_segments s ! j)"

definition shares :: "MultiBatch \<Rightarrow> MultiBatch \<Rightarrow> bool" where
  "shares b c \<longleftrightarrow> list_ex (\<lambda>(t, m). list_ex (\<lambda>(u, n). t = u \<and> mut_Key m = mut_Key n) (multi_list c)) (multi_list b)"

lemma shares_keys:
  assumes "shares b c"
  shows "poison_keys b \<inter> poison_keys c \<noteq> {}" "set (keyForBatch b) \<inter> set (keyForBatch c) \<noteq> {}"
proof -
  obtain t m n where "(t, m) \<in> set (multi_list b)" "(t, n) \<in> set (multi_list c)" "mut_Key m = mut_Key n"
    using assms by (auto simp: shares_def list_ex_iff)
  then have "poisonKey t m \<in> poison_keys b \<inter> poison_keys c" "scheduler_key t m \<in> set (keyForBatch b) \<inter> set (keyForBatch c)"
    by (force simp: poison_keys_def poisonKey_def keyForBatch_eq scheduler_key_def)+
  then show "poison_keys b \<inter> poison_keys c \<noteq> {}" "set (keyForBatch b) \<inter> set (keyForBatch c) \<noteq> {}" by blast+
qed

definition covered :: "poisonSet \<Rightarrow> MultiBatch \<Rightarrow> bool" where
  "covered p b \<longleftrightarrow> ps_full p \<or> poison_keys b \<subseteq> ps_data p"

definition poison_le :: "poisonSet \<Rightarrow> poisonSet \<Rightarrow> bool" where
  "poison_le p q \<longleftrightarrow> (ps_full p \<longrightarrow> ps_full q) \<and> (ps_full q \<or> ps_data p \<subseteq> ps_data q) \<and> (finite (ps_data p) \<longrightarrow> finite (ps_data q))"

lemma covered_mono: "\<lbrakk>covered p b; poison_le p q\<rbrakk> \<Longrightarrow> covered q b"
  by (auto simp: covered_def poison_le_def)

lemma poison_le_refl [simp]: "poison_le p p"
  by (simp add: poison_le_def)

lemma MarkPoisoned_covers: "poison_le p (MarkPoisoned b p)" "covered (MarkPoisoned b p) b"
  by (auto simp: poison_le_def covered_def MarkPoisoned_eq Let_def)

lemma ForceFull_le: "poison_le p (ForceFull p)"
  by (auto simp: poison_le_def ForceFull_def)

lemma IsPoisoned_covers:
  assumes "IsPoisoned b p = (x, q)"
  shows "poison_le p q" "x \<Longrightarrow> covered q b"
    and "\<lbrakk>\<not> x; finite (ps_data p)\<rbrakk> \<Longrightarrow> \<not> ps_full p \<and> poison_keys b \<inter> ps_data p = {}"
  using assms by (auto simp: IsPoisoned_def toPoison_eq poison_le_def covered_def Let_def card_eq_0_iff split: if_splits)

text \<open>What holds of a batch, and of two batches in the order of their delivery.\<close>

definition one_inv :: "core \<Rightarrow> nat \<Rightarrow> bool" where
  "one_inv s j \<longleftrightarrow>
     (case seg_fate s j of
        InAccumulator \<Rightarrow> False
      | InTask a \<Rightarrow> a < co_next s \<and> (\<exists>r. (a, r) \<in> set (co_tasks s) \<and> round_batch r = seg_batch s j)
      | Done \<Rightarrow> True
      | Dropped \<Rightarrow> covered (co_poisoned s) (seg_batch s j))"

definition settled :: "core \<Rightarrow> nat \<Rightarrow> bool" where
  "settled s j \<longleftrightarrow> (case seg_fate s j of Done \<Rightarrow> True | InTask b \<Rightarrow> b \<in> set (co_running s) | _ \<Rightarrow> False)"

definition pair_inv :: "core \<Rightarrow> nat \<Rightarrow> nat \<Rightarrow> bool" where
  "pair_inv s i j \<longleftrightarrow>
     (case (seg_fate s i, seg_fate s j) of (InTask a, InTask b) \<Rightarrow> a < b | _ \<Rightarrow> True)
     \<and> (shares (seg_batch s i) (seg_batch s j) \<and> settled s j \<longrightarrow> seg_fate s i = Done)"

definition order_inv :: "core \<Rightarrow> bool" where
  "order_inv s \<longleftrightarrow>
     co_accumulator s = None \<and> finite (ps_data (co_poisoned s)) \<and> distinct (map fst (co_tasks s))
     \<and> (\<forall>i \<in> fst ` set (co_tasks s) \<union> set (co_running s). i < co_next s)
     \<and> (\<forall>j < length (co_segments s). one_inv s j \<and> (\<forall>i < j. pair_inv s i j))"

lemma order_invD:
  assumes "order_inv s" "j < length (co_segments s)"
  shows "one_inv s j" "i < j \<Longrightarrow> pair_inv s i j"
  using assms by (simp_all add: order_inv_def)

lemma order_invI:
  assumes "order_inv s" "co_accumulator s' = None" "finite (ps_data (co_poisoned s'))" "distinct (map fst (co_tasks s'))"
    "length (co_segments s') = length (co_segments s)" "\<forall>i \<in> fst ` set (co_tasks s') \<union> set (co_running s'). i < co_next s'"
    and "\<And>j. \<lbrakk>j < length (co_segments s); one_inv s j\<rbrakk> \<Longrightarrow> one_inv s' j"
    and "\<And>i j. \<lbrakk>i < j; j < length (co_segments s); pair_inv s i j\<rbrakk> \<Longrightarrow> pair_inv s' i j"
  shows "order_inv s'"
  using assms by (simp add: order_inv_def)

lemma order_inv_poisoned:
  assumes "order_inv s" "poison_le (co_poisoned s) p"
  shows "order_inv (s\<lparr>co_poisoned := p\<rparr>)"
proof (rule order_invI [OF assms(1)])
  show "finite (ps_data (co_poisoned (s\<lparr>co_poisoned := p\<rparr>)))" using assms by (simp add: order_inv_def poison_le_def)
  show "one_inv (s\<lparr>co_poisoned := p\<rparr>) j" if "one_inv s j" for j
    using that covered_mono [OF _ assms(2)] by (simp add: one_inv_def seg_fate_def seg_batch_def split: fate.splits)
qed (use assms(1) in \<open>simp_all add: order_inv_def pair_inv_def settled_def seg_fate_def seg_batch_def cong: fate.case_cong\<close>)

lemma order_inv_other [simp]:
  "order_inv (s\<lparr>co_applied := a\<rparr>) = order_inv s" "order_inv (s\<lparr>co_marked := b\<rparr>) = order_inv s"
  "order_inv (s\<lparr>co_reports := c\<rparr>) = order_inv s" "order_inv (s\<lparr>co_published := d\<rparr>) = order_inv s"
  by (simp_all add: order_inv_def one_inv_def pair_inv_def settled_def seg_fate_def seg_batch_def cong: fate.case_cong)

lemma order_inv_end:
  assumes inv: "order_inv s" and r: "(i, r) \<in> set (co_tasks s)"
    and x: "x = Done \<and> i \<in> set (co_running s) \<or> x = Dropped \<and> covered (co_poisoned s) (round_batch r)"
  shows "order_inv (end_task i rep x s)" (is "order_inv ?s")
proof (rule order_invI [OF inv])
  have fate: "seg_fate ?s j = (if seg_fate s j = InTask i then x else seg_fate s j)" "seg_batch ?s j = seg_batch s j"
    if "j < length (co_segments s)" for j
    using that by (simp_all add: end_task_def seg_fate_def seg_batch_def set_fates_def split_beta)
  have uniq: "r' = r" if "(i, r') \<in> set (co_tasks s)" for r'
    using that inv r by (auto simp: order_inv_def dest: eq_key_imp_eq_value)
  show "one_inv ?s j" if "j < length (co_segments s)" "one_inv s j" for j
    using that(2) fate [OF that(1)] uniq x
    by (cases "seg_fate s j") (auto simp: one_inv_def end_task_def split: if_splits)
  show "pair_inv ?s k j" if "k < j" "j < length (co_segments s)" "pair_inv s k j" for k j
  proof -
    have k: "k < length (co_segments s)" using that by simp
    have "settled s j" if "settled ?s j"
      using that fate [OF \<open>j < length (co_segments s)\<close>] x by (auto simp: settled_def end_task_def split: fate.splits if_splits)
    then show ?thesis using that fate [OF that(2)] fate [OF k] x
      by (auto simp: pair_inv_def split: fate.splits if_splits)
  qed
  show "distinct (map fst (co_tasks ?s))" using inv by (simp add: order_inv_def end_task_def distinct_map_filter)
qed (use inv in \<open>auto simp: order_inv_def end_task_def\<close>)

lemma order_inv_running:
  assumes "order_inv s" "\<forall>i \<in> set rs. i < co_next s" "\<And>i j b. \<lbrakk>i < j; j < length (co_segments s); seg_fate s j = InTask b; b \<in> set rs; b \<notin> set (co_running s);
      shares (seg_batch s i) (seg_batch s j)\<rbrakk> \<Longrightarrow> seg_fate s i = Done"
  shows "order_inv (s\<lparr>co_running := rs\<rparr>)"
proof (rule order_invI [OF assms(1)])
  show "pair_inv (s\<lparr>co_running := rs\<rparr>) i j" if "i < j" "j < length (co_segments s)" "pair_inv s i j" for i j
    using that(3) assms(3) [OF that(1,2)] by (auto simp: pair_inv_def settled_def seg_fate_def seg_batch_def split: fate.splits)
qed (use assms(1,2) in \<open>auto simp: order_inv_def one_inv_def seg_fate_def seg_batch_def cong: fate.case_cong\<close>)

text \<open>A task that starts finds every earlier batch that shares a key with its own done.\<close>

lemma order_inv_start:
  assumes inv: "order_inv s" and r: "(i, r) \<in> set (co_tasks s)" and run: "runnable i r s"
  shows "order_inv (start_task i r s)"
proof -
  obtain x p where p: "IsPoisoned (round_batch r) (co_poisoned s) = (x, p)" by (rule prod.exhaust)
  note cov = IsPoisoned_covers [OF p]
  show ?thesis
  proof (cases x)
    case True
    have "order_inv (s\<lparr>co_poisoned := p\<rparr>)" by (rule order_inv_poisoned [OF inv cov(1)])
    then have "order_inv (end_task i Closed Dropped (s\<lparr>co_poisoned := p\<rparr>))"
      by (rule order_inv_end [where r = r]) (use r cov(2) True in simp_all)
    then show ?thesis using True p by (simp add: start_task_def)
  next
    case False
    have fin: "finite (ps_data (co_poisoned s))" using inv by (simp add: order_inv_def)
    have free: "\<not> ps_full (co_poisoned s)" "poison_keys (round_batch r) \<inter> ps_data (co_poisoned s) = {}"
      using cov(3) False fin by auto
    have "order_inv (s\<lparr>co_running := i # co_running s\<rparr>)"
    proof (rule order_inv_running [OF inv])
      show "\<forall>j \<in> set (i # co_running s). j < co_next s" using inv r by (force simp: order_inv_def)
      fix k j b assume a: "k < j" "j < length (co_segments s)" "seg_fate s j = InTask b" "b \<in> set (i # co_running s)"
        "b \<notin> set (co_running s)" and sh: "shares (seg_batch s k) (seg_batch s j)"
      have b: "b = i" using a by simp
      obtain r' where "(i, r') \<in> set (co_tasks s)" "round_batch r' = seg_batch s j"
        using order_invD(1) [OF inv a(2)] a(3) b by (auto simp: one_inv_def)
      moreover have "r' = r" using calculation(1) inv r by (auto simp: order_inv_def dest: eq_key_imp_eq_value)
      ultimately have rb: "round_batch r = seg_batch s j" by simp
      have k: "k < length (co_segments s)" using a by simp
      note keys = shares_keys [OF sh]
      show "seg_fate s k = Done"
      proof (cases "seg_fate s k")
        case (InTask c)
        then obtain q where q: "(c, q) \<in> set (co_tasks s)" "round_batch q = seg_batch s k"
          using order_invD(1) [OF inv k] by (auto simp: one_inv_def)
        have "c < i" using order_invD(2) [OF inv a(2,1)] InTask a(3) b by (simp add: pair_inv_def)
        then have "set (keyForBatch (round_batch q)) \<inter> set (keyForBatch (round_batch r)) = {}"
          using run q(1) unfolding runnable_def list_all_iff by fastforce
        then show ?thesis using keys(2) q(2) rb by simp
      next
        case Dropped
        then have "covered (co_poisoned s) (seg_batch s k)" using order_invD(1) [OF inv k] by (simp add: one_inv_def)
        then show ?thesis using free keys(1) rb by (auto simp: covered_def)
      qed (use order_invD(1) [OF inv k] in \<open>simp_all add: one_inv_def\<close>)
    qed
    then show ?thesis using False p by (simp add: start_task_def)
  qed
qed

lemma order_inv_finish:
  assumes inv: "order_inv s" and r: "(i, r) \<in> set (co_tasks s)" and run: "i \<in> set (co_running s)"
  shows "order_inv (finish_task i r f fs cls s)"
proof -
  obtain err target staging where e: "commit_attempts f fs = (err, target, staging)" by (rule prod_cases3)
  let ?s = "s\<lparr>co_applied := (if target then co_applied s @ [r] else co_applied s),
               co_marked := (if staging then co_marked s @ [r] else co_marked s)\<rparr>"
  let ?p = "MarkPoisoned (round_batch r) (co_poisoned s)"
  have s1: "order_inv ?s" using inv by simp
  have "order_inv (?s\<lparr>co_poisoned := ?p\<rparr>)" by (rule order_inv_poisoned [OF s1]) (simp add: MarkPoisoned_covers)
  then have "order_inv (end_task i Closed Dropped (?s\<lparr>co_poisoned := ?p\<rparr>))"
    by (rule order_inv_end [where r = r]) (use r MarkPoisoned_covers in simp_all)
  then have "order_inv (fail_task i r ?s)" by (simp add: fail_task_def)
  moreover have "order_inv (end_task i (Advanced rg) Done ?s)" for rg
    by (rule order_inv_end [OF s1, where r = r]) (use r run in simp_all)
  moreover have "order_inv (?s\<lparr>co_running := removeAll i (co_running s)\<rparr>)"
    by (rule order_inv_running [OF s1]) (use inv in \<open>simp_all add: order_inv_def\<close>)
  ultimately show ?thesis using e
    by (auto simp: finish_task_def Let_def split: option.splits error_class.splits bool.splits)
qed

lemma order_inv_append:
  assumes inv: "order_inv s" and s': "co_segments s' = co_segments s @ [(b, x)]" "co_running s' = co_running s" "co_accumulator s' = None"
      "set (co_tasks s) \<subseteq> set (co_tasks s')" "co_next s \<le> co_next s'" "distinct (map fst (co_tasks s'))"
      "\<forall>i \<in> fst ` set (co_tasks s'). i < co_next s'"
    and le: "poison_le (co_poisoned s) (co_poisoned s')"
    and x: "x = Dropped \<and> covered (co_poisoned s') b
      \<or> x = InTask (co_next s) \<and> co_next s < co_next s' \<and> (\<exists>r. (co_next s, r) \<in> set (co_tasks s') \<and> round_batch r = b)"
  shows "order_inv s'"
proof -
  let ?n = "length (co_segments s)"
  have old: "seg_fate s' j = seg_fate s j" "seg_batch s' j = seg_batch s j" if "j < ?n" for j
    using that s'(1) by (simp_all add: seg_fate_def seg_batch_def nth_append)
  have new: "seg_fate s' ?n = x" "seg_batch s' ?n = b" using s'(1) by (simp_all add: seg_fate_def seg_batch_def)
  have one: "one_inv s' j" if "j < ?n" for j
    using order_invD(1) [OF inv that] old [OF that] s'(4,5) covered_mono [OF _ le]
    by (fastforce simp: one_inv_def split: fate.splits)
  have pair: "pair_inv s' i j" if "i < j" "j < ?n" for i j
    using order_invD(2) [OF inv that(2,1)] old [of i] old [of j] that s'(2)
    by (simp add: pair_inv_def settled_def cong: fate.case_cong)
  have one': "one_inv s' ?n" using x new by (auto simp: one_inv_def)
  have pair': "pair_inv s' i ?n" if "i < ?n" for i
  proof -
    have "co_next s \<notin> set (co_running s)" using inv by (force simp: order_inv_def)
    then have "\<not> settled s' ?n" using x new s'(2) by (auto simp: settled_def)
    moreover have "a < co_next s" if "seg_fate s i = InTask a" for a
      using order_invD(1) [OF inv \<open>i < ?n\<close>] that by (simp add: one_inv_def)
    ultimately show ?thesis using x new(1) old [OF that] by (auto simp: pair_inv_def split: fate.splits)
  qed
  have "length (co_segments s') = Suc ?n" using s'(1) by simp
  then have "\<forall>j < length (co_segments s'). one_inv s' j \<and> (\<forall>i < j. pair_inv s' i j)"
    using one one' pair pair' by (simp add: less_Suc_eq)
  moreover have "\<forall>i \<in> set (co_running s'). i < co_next s'" proof
    fix i assume "i \<in> set (co_running s')"
    then have "i < co_next s" using inv s'(2) by (simp add: order_inv_def ball_Un)
    then show "i < co_next s'" using s'(5) by simp
  qed
  moreover have "finite (ps_data (co_poisoned s'))" using inv le by (simp add: order_inv_def poison_le_def)
  ultimately show ?thesis using s' by (auto simp: order_inv_def)
qed

lemma settle_last:
  "(\<forall>j < length xs. snd (xs ! j) \<noteq> InAccumulator) \<Longrightarrow>
   map (\<lambda>(b, y). (b, if y = InAccumulator then z else y)) (xs @ [(b, InAccumulator)]) = xs @ [(b, z)]"
  by (auto intro!: nth_equalityI simp: nth_append split_beta)

lemma order_inv_Flush:
  assumes inv: "order_inv s"
  shows "order_inv (core_Flush b False s)"
proof -
  let ?s = "s\<lparr>co_segments := co_segments s @ [(b, InAccumulator)]\<rparr>"
  have none: "seg_fate s j \<noteq> InAccumulator" if "j < length (co_segments s)" for j
    using order_invD(1) [OF inv that] by (auto simp: one_inv_def)
  then have last: "map (\<lambda>(b, y). (b, if y = InAccumulator then z else y)) (co_segments s @ [(b, InAccumulator)]) = co_segments s @ [(b, z)]" for z
    by (intro settle_last) (simp add: seg_fate_def)
  have acc: "co_accumulator s = None" and task: "distinct (map fst (co_tasks s))" "\<forall>i \<in> fst ` set (co_tasks s). i < co_next s"
    using inv by (auto simp: order_inv_def)
  have drop: "order_inv (drop_accumulator t)"
    if "co_segments t = co_segments ?s" "co_running t = co_running s" "co_tasks t = co_tasks s" "co_next t = co_next s"
      "poison_le (co_poisoned s) (co_poisoned t)" "covered (co_poisoned t) b" for t
    by (rule order_inv_append [OF inv, where b = b and x = Dropped])
       (use that last task in \<open>simp_all add: drop_accumulator_def set_fates_def\<close>)
  obtain x p where p: "IsPoisoned b (co_poisoned s) = (x, p)" by (rule prod.exhaust)
  note cov = IsPoisoned_covers [OF p]
  obtain r where r: "round_accumulate b nextRound = Inr r" "round_batch r = b"
  proof -
    have keep: "rd_batch (fold advance_round ts q) = rd_batch q" for ts q
      by (induction ts arbitrary: q) (auto simp: advance_round_def Let_def)
    have "rd_batch nextRound = None" by (simp add: nextRound_def)
    then show thesis using that by (simp add: round_accumulate_def keep Let_def round_batch_def)
  qed
  let ?t = "flushAccumulator (?s\<lparr>co_accumulator := Some r\<rparr>)"
  have "order_inv ?t"
    by (rule order_inv_append [OF inv, where b = b and x = "InTask (co_next s)"])
       (use last task r(2) in \<open>auto simp: flushAccumulator_def make_report_def set_fates_def Let_def intro: less_SucI\<close>)
  moreover have "order_inv (drop_accumulator (?s\<lparr>co_failed := True\<rparr>))" if "IsFull (co_poisoned s)"
    by (rule drop) (use that in \<open>simp_all add: covered_def IsFull_def\<close>)
  moreover have "order_inv (drop_accumulator (?s\<lparr>co_poisoned := p\<rparr>))" if x
    by (rule drop) (use cov that in simp_all)
  ultimately show ?thesis using p r(1) acc by (simp add: core_Flush_def Let_def split: bool.split)
qed

lemma order_inv_Progress:
  assumes "order_inv s"
  shows "order_inv (core_Progress rg s)"
proof -
  let ?s = "make_report (Advanced rg) s"
  have same: "seg_fate ?s = seg_fate s" "seg_batch ?s = seg_batch s"
    by (simp_all add: make_report_def seg_fate_def seg_batch_def fun_eq_iff)
  have sel: "co_next ?s = Suc (co_next s)" "co_tasks ?s = co_tasks s" "co_poisoned ?s = co_poisoned s" "co_running ?s = co_running s"
    by (simp_all add: make_report_def)
  have "order_inv ?s"
  proof (rule order_invI [OF assms])
    show "one_inv ?s j" if "one_inv s j" for j
      using that by (simp add: one_inv_def same sel less_SucI split: fate.splits)
    show "pair_inv ?s i j" if "pair_inv s i j" for i j
      using that by (simp add: pair_inv_def settled_def same sel cong: fate.case_cong)
  qed (use assms in \<open>simp_all add: order_inv_def make_report_def less_SucI ball_Un\<close>)
  then show ?thesis using assms by (simp add: core_Progress_def order_inv_def)
qed

definition whole_action :: "core_action \<Rightarrow> bool" where
  "whole_action a = (case a of ActFlush _ fragment \<Rightarrow> \<not> fragment | _ \<Rightarrow> True)"

lemma order_inv_act:
  assumes "order_inv s" "whole_action a" "core_act a s = Some s'"
  shows "order_inv s'"
proof (cases a)
  case (ActStart i)
  then obtain r where "task_round i s = Some r" "runnable i r s" "s' = start_task i r s"
    using assms(3) by (auto simp: core_act_def split: option.splits if_splits)
  then show ?thesis using order_inv_start [OF assms(1)] task_round_in by simp
next
  case (ActFinish i f fs cls)
  then obtain r where "task_round i s = Some r" "i \<in> set (co_running s)" "s' = finish_task i r f fs cls s"
    using assms(3) by (auto simp: core_act_def split: option.splits if_splits)
  then show ?thesis using order_inv_finish [OF assms(1)] task_round_in by simp
next
  case ActReport
  have "order_inv (s\<lparr>co_reports := c, co_poisoned := ForceFull (co_poisoned s)\<rparr>)" for c
    by (rule order_inv_poisoned) (use assms(1) ForceFull_le in simp_all)
  then show ?thesis using ActReport assms(1,3)
    by (auto simp: core_act_def read_report_def split: list.splits report.splits if_splits)
qed (use assms order_inv_Flush order_inv_Progress in \<open>auto simp: core_act_def whole_action_def split: if_splits\<close>)

lemma order_inv_run:
  "\<lbrakk>core_run as (core_init m) = Some s; list_all whole_action as\<rbrakk> \<Longrightarrow> order_inv s"
proof (induction rule: core_run_induct)
  case init
  show ?case by (simp add: order_inv_def core_init_def newPoisonSet_def)
next
  case (act a s s')
  then show ?case using order_inv_act by (auto simp: list_all_iff)
qed

text \<open>
  C7: as long as no batch is delivered in fragments, the mutations of one key are applied in the order of their
  delivery, in spite of concurrency, failures and retries: if a batch is done then every earlier batch with a
  mutation of the same key in the same table is done.
\<close>

theorem applied_in_key_order:
  assumes "core_run as (core_init maxDeferred) = Some s" "list_all whole_action as"
    and "i < j" "j < length (co_segments s)" "shares (seg_batch s i) (seg_batch s j)" "seg_fate s j = Done"
  shows "seg_fate s i = Done"
  using order_invD(2) [OF order_inv_run [OF assms(1,2)] assms(4,3)] assms(5,6) by (simp add: pair_inv_def settled_def)

text \<open>Concrete runs.\<close>

definition demo_fates :: "bool \<Rightarrow> commit_fates" where
  "demo_fates ok = \<lparr>cf_stagingBegin = True, cf_targetBegin = True, cf_accept = ok, cf_targetCommit = True, cf_mark = True, cf_stagingCommit = True\<rparr>"

definition demo_run :: "core_action list" where
  "demo_run = [ActFlush (demo_multi [(''[1]'', 1)]) False, ActFlush (demo_multi [(''[1]'', 2), (''[2]'', 2)]) False, ActProgress (Range Zero (Time 3 0)),
     ActStart 0, ActFinish 0 (demo_fates False) [demo_fates True] Fatal, ActStart 1, ActFinish 1 (demo_fates False) [] (Deferrable True),
     ActStart 1, ActFinish 1 (demo_fates True) [] Fatal, ActReport, ActReport, ActReport]"

lemma demo_run_result:
  "case core_run demo_run (core_init 10) of None \<Rightarrow> False
   | Some s \<Rightarrow> map snd (co_published s) = [1, 2, 2] \<and> map snd (co_segments s) = [Done, Done] \<and> length (co_marked s) = 2"
  by code_simp

text \<open>Witness for C6: a task that fails once and a task that is deferred once.\<close>

theorem published_progress_is_applied_witness:
  "\<exists>s. core_run demo_run (core_init 10) = Some s \<and> (\<exists>rg. (rg, 2) \<in> set (co_published s))
    \<and> (\<forall>j < 2. \<exists>r. r \<in> set (co_applied s) \<and> r \<in> set (co_marked s) \<and> contains_batch r (fst (co_segments s ! j)))"
proof -
  obtain s where s: "core_run demo_run (core_init 10) = Some s" "map snd (co_published s) = [1, 2, 2]"
    using demo_run_result by (auto split: option.splits)
  have "2 \<in> set (map snd (co_published s))" using s(2) by simp
  then obtain rg where rg: "(rg, 2) \<in> set (co_published s)" by auto
  have good: "list_all good_action demo_run" by (simp add: demo_run_def good_action_def demo_multi_good)
  show ?thesis using s(1) rg published_progress_is_applied [OF s(1) good rg] by blast
qed

text \<open>Witness for C7: the two batches share a key.\<close>

theorem applied_in_key_order_witness:
  "\<exists>s. core_run demo_run (core_init 10) = Some s \<and> seg_fate s 0 = Done \<and> shares (seg_batch s 0) (seg_batch s 1)"
proof -
  have whole: "list_all whole_action demo_run" by (simp add: demo_run_def whole_action_def)
  have "case core_run demo_run (core_init 10) of None \<Rightarrow> False
     | Some s \<Rightarrow> seg_fate s 1 = Done \<and> length (co_segments s) = 2 \<and> shares (seg_batch s 0) (seg_batch s 1)"
    by code_simp
  then obtain s where s: "core_run demo_run (core_init 10) = Some s" "seg_fate s 1 = Done" "length (co_segments s) = 2"
    "shares (seg_batch s 0) (seg_batch s 1)" by (auto split: option.splits)
  then show ?thesis using applied_in_key_order [OF s(1) whole, of 0 1] by auto
qed

text \<open>
  With fragments the order can be lost. A later fragment of a transaction that touches a poisoned key makes
  the sequencer forget the earlier fragments without poisoning their keys, so a later mutation of such a key is
  applied although the earlier one is not; that one is read again and applied, over the newer value, when the
  sequencer restarts.
\<close>

theorem fragment_order_is_lost:
  "case core_run
      [ActFlush (demo_multi [(''[1]'', 1)]) False, ActStart 0, ActFinish 0 (demo_fates False) [] (Deferrable False),
       ActFlush (demo_multi [(''[2]'', 2)]) True, ActFlush (demo_multi [(''[1]'', 2)]) False,
       ActFlush (demo_multi [(''[2]'', 3)]) False, ActStart 1, ActFinish 1 (demo_fates True) [] Fatal] (core_init 10) of
     None \<Rightarrow> False
   | Some s \<Rightarrow> shares (seg_batch s 1) (seg_batch s 3) \<and> seg_fate s 1 = Dropped \<and> seg_fate s 3 = Done
       \<and> map mut_Time (map snd (multi_list (seg_batch s 1))) = [Time 2 0] \<and> map mut_Time (map snd (multi_list (seg_batch s 3))) = [Time 3 0]"
  by code_simp

end
