(* ===== verification/Decorators.thy ===== *)
theory Decorators
  imports Acceptors Staging
begin

text \<open>
  The decorators of acceptors, \<open>src/internal/sequencer/decorators\<close>: marking applied mutations in staging, filtering
  those that were applied before, and retrying; the acceptor of the core sequencer,
  \<open>src/internal/sequencer/core/acceptor.go\<close>, which stages every batch; and the stack of the immediate sequencer,
  \<open>src/internal/sequencer/immediate\<close>.
\<close>

section \<open>The world of an acceptor\<close>

text \<open>
  The target's state, the staging tables by canonical table, and the fates that the next staging statements meet.
  When no fate is left, a statement returns.
\<close>

record ('e, 's) world =
  wo_target :: 's
  wo_staging :: "Table \<Rightarrow> st_table"
  wo_fates :: "'e fate list"

datatype 'e dec_error =
    Db 'e
  | NoDelegateSet string
  | NilPanic
  | RowTwice
  | StageFailed "'e stage_error"
  | BatchErr batch_error
  | InLoop "'e dec_error loop_error"

text \<open>
  What the environment does: the clock, whether a stager can be had for a table, after how many rows a connection
  breaks, and which errors a pool retries.
\<close>

record 'e dec_env =
  de_now :: int
  de_get :: "Table \<Rightarrow> 'e option"
  de_broken :: "Table \<Rightarrow> nat option"
  de_shouldRetry :: "'e dec_error \<Rightarrow> bool"

definition next_fate :: "('e, 's) world \<Rightarrow> 'e fate" where
  "next_fate w = (case wo_fates w of [] \<Rightarrow> Returns | f # _ \<Rightarrow> f)"

definition staged :: "('e, 's) world \<Rightarrow> Table \<Rightarrow> st_table" where
  "staged w table = wo_staging w (Table_Canonical table)"

definition stage_stmt :: "Table \<Rightarrow> (st_table \<Rightarrow> st_table \<times> 'a) \<Rightarrow> ('e, 's) world \<Rightarrow> ('e, 'a) result \<times> ('e, 's) world" where
  "stage_stmt table stmt w =
     (case apply_fate (next_fate w) stmt (staged w table) of
        (tbl, r) \<Rightarrow> (r, w\<lparr>wo_staging := (wo_staging w)(Table_Canonical table := tbl), wo_fates := tl (wo_fates w)\<rparr>))"

type_synonym ('b, 'e, 's) accept = "'b \<Rightarrow> ('e, 's) world \<Rightarrow> 'e dec_error option \<times> ('e, 's) world"

record ('e, 's) TemporalAcceptor =
  ac_Table :: "(TableBatch, 'e, 's) accept"
  ac_Temporal :: "(TemporalBatch, 'e, 's) accept"

record ('e, 's) MultiAcceptor = "('e, 's) TemporalAcceptor" +
  ac_Multi :: "(MultiBatch, 'e, 's) accept"

text \<open>The delegates of a decorator, which may be nil; a multi-acceptor serves as each of them.\<close>

record ('e, 's) base =
  ba_multi :: "('e, 's) MultiAcceptor option"
  ba_table :: "(TableBatch, 'e, 's) accept option"
  ba_temporal :: "(TemporalBatch, 'e, 's) accept option"

definition base_Multi :: "('e, 's) MultiAcceptor \<Rightarrow> ('e, 's) base" where
  "base_Multi acceptor = \<lparr>ba_multi = Some acceptor, ba_table = Some (ac_Table acceptor), ba_temporal = Some (ac_Temporal acceptor)\<rparr>"

definition base_Table :: "(TableBatch, 'e, 's) accept \<Rightarrow> ('e, 's) base" where
  "base_Table acceptor = \<lparr>ba_multi = None, ba_table = Some acceptor, ba_temporal = None\<rparr>"

definition base_Temporal :: "('e, 's) TemporalAcceptor \<Rightarrow> ('e, 's) base" where
  "base_Temporal acceptor = \<lparr>ba_multi = None, ba_table = Some (ac_Table acceptor), ba_temporal = Some (ac_Temporal acceptor)\<rparr>"

section \<open>Marking\<close>

definition flatten_table :: "TableBatch \<Rightarrow> (Table, Mutation list) imap" where
  "flatten_table b = (case TableBatch_CopyInto FlattenByTable_acc b [] of Inr m \<Rightarrow> m | Inl _ \<Rightarrow> [])"

definition flatten_temporal :: "TemporalBatch \<Rightarrow> (Table, Mutation list) imap" where
  "flatten_temporal b = (case TemporalBatch_CopyInto FlattenByTable_acc b [] of Inr m \<Rightarrow> m | Inl _ \<Rightarrow> [])"

definition flatten_multi :: "MultiBatch \<Rightarrow> (Table, Mutation list) imap" where
  "flatten_multi b = (case FlattenByTable b of Inr m \<Rightarrow> m | Inl _ \<Rightarrow> [])"

text \<open>
  The range over the flattened mutations; \<open>MarkApplied\<close> is called inside the retry loop of \<open>mark\<close>, so that its own
  loop runs its statement once. The statement runs on the pool, not in the transaction.
\<close>

fun mark_tables :: "'e dec_env \<Rightarrow> (Table, Mutation list) imap \<Rightarrow> ('e, 's) world \<Rightarrow> 'e dec_error option \<times> ('e, 's) world" where
  "mark_tables env [] w = (None, w)"
| "mark_tables env ((table, muts) # rest) w =
     (case de_get env table of
        Some e \<Rightarrow> (Some (Db e), w)
      | None \<Rightarrow>
          if \<not> distinct (map (\<lambda>m. (mut_Time m, mut_Key m)) muts) then (Some RowTwice, w)
          else case stage_stmt table (\<lambda>tbl. (markAppliedTemplate (de_now env) muts tbl, ())) w of
            (Inl e, w') \<Rightarrow> (Some (Db e), w')
          | (Inr _, w') \<Rightarrow> mark_tables env rest w')"

definition tx_call :: "('e, 's) world \<Rightarrow> 'e dec_error option \<times> ('e, 's) world" where
  "tx_call w =
     (case next_fate w of Returns \<Rightarrow> None | FailsBefore e \<Rightarrow> Some (Db e) | FailsAfter e \<Rightarrow> Some (Db e),
      w\<lparr>wo_fates := tl (wo_fates w)\<rparr>)"

definition mark_attempt :: "'e dec_env \<Rightarrow> (Table, Mutation list) imap \<Rightarrow> ('e, 's) world \<Rightarrow> 'e dec_error option \<times> ('e, 's) world" where
  "mark_attempt env flattened w =
     (case tx_call w of
        (Some e, w1) \<Rightarrow> (Some e, w1)
      | (None, w1) \<Rightarrow>
          (case mark_tables env flattened w1 of
             (Some e, w2) \<Rightarrow> (Some e, w2)
           | (None, w2) \<Rightarrow> tx_call w2))"

definition mark :: "'e dec_env \<Rightarrow> (Table, Mutation list) imap \<Rightarrow> ('e, 's) world \<Rightarrow> 'e dec_error option \<times> ('e, 's) world" where
  "mark env flattened w =
     (case Retry None (de_shouldRetry env) (mark_attempt env flattened) w of (err, w') \<Rightarrow> (map_option InLoop err, w'))"

definition then_mark :: "'e dec_env \<Rightarrow> ('b \<Rightarrow> (Table, Mutation list) imap) \<Rightarrow> ('b, 'e, 's) accept option \<Rightarrow> ('b, 'e, 's) accept" where
  "then_mark env flatten delegate batch w =
     (case delegate of
        None \<Rightarrow> (Some NilPanic, w)
      | Some accept \<Rightarrow>
          (case accept batch w of
             (Some e, w') \<Rightarrow> (Some e, w')
           | (None, w') \<Rightarrow> mark env (flatten batch) w'))"

definition marker :: "'e dec_env \<Rightarrow> ('e, 's) base \<Rightarrow> ('e, 's) MultiAcceptor" where
  "marker env b =
     \<lparr>ac_Table = then_mark env flatten_table (ba_table b), ac_Temporal = then_mark env flatten_temporal (ba_temporal b),
      ac_Multi = then_mark env flatten_multi (map_option ac_Multi (ba_multi b))\<rparr>"

section \<open>Filtering\<close>

definition filter_muts :: "'e dec_env \<Rightarrow> Table \<Rightarrow> Mutation list \<Rightarrow> ('e, 's) world \<Rightarrow> ('e dec_error, Mutation list) result \<times> ('e, 's) world" where
  "filter_muts env table muts w =
     (case de_get env table of
        Some e \<Rightarrow> (Inl (Db e), w)
      | None \<Rightarrow>
          (map_sum StageFailed id (FilterApplied (next_fate w) (de_broken env table) muts (staged w table)), w\<lparr>wo_fates := tl (wo_fates w)\<rparr>))"

fun accumulate_list :: "Table \<Rightarrow> Mutation list \<Rightarrow> MultiBatch \<Rightarrow> (batch_error, MultiBatch) result" where
  "accumulate_list table [] thinned = Inr thinned"
| "accumulate_list table (mut # muts) thinned =
     (case MultiBatch_Accumulate table mut thinned of Inl e \<Rightarrow> Inl e | Inr thinned' \<Rightarrow> accumulate_list table muts thinned')"

fun filter_tables ::
  "'e dec_env \<Rightarrow> (Table, Mutation list) imap \<Rightarrow> MultiBatch \<Rightarrow> ('e, 's) world \<Rightarrow> ('e dec_error, MultiBatch) result \<times> ('e, 's) world" where
  "filter_tables env [] thinned w = (Inr thinned, w)"
| "filter_tables env ((table, muts) # rest) thinned w =
     (case filter_muts env table muts w of
        (Inl e, w') \<Rightarrow> (Inl e, w')
      | (Inr filtered, w') \<Rightarrow>
          (case accumulate_list table filtered thinned of
             Inl e \<Rightarrow> (Inl (BatchErr e), w')
           | Inr thinned' \<Rightarrow> filter_tables env rest thinned' w'))"

definition filterMultiBatch :: "'e dec_env \<Rightarrow> MultiBatch \<Rightarrow> ('e, 's) world \<Rightarrow> ('e dec_error, MultiBatch) result \<times> ('e, 's) world" where
  "filterMultiBatch env batch w = filter_tables env (flatten_multi batch) MultiBatch_New w"

definition filterTableBatch :: "'e dec_env \<Rightarrow> TableBatch \<Rightarrow> ('e, 's) world \<Rightarrow> ('e dec_error, TableBatch) result \<times> ('e, 's) world" where
  "filterTableBatch env batch w =
     (case filter_muts env (tb_Table batch) (tb_Data batch) w of
        (Inl e, w') \<Rightarrow> (Inl e, w')
      | (Inr muts, w') \<Rightarrow> (Inr ((TableBatch_Empty batch)\<lparr>tb_Data := muts\<rparr>), w'))"

fun filter_entries ::
  "'e dec_env \<Rightarrow> (Table, TableBatch) imap \<Rightarrow> TemporalBatch \<Rightarrow> ('e, 's) world \<Rightarrow> ('e dec_error, TemporalBatch) result \<times> ('e, 's) world" where
  "filter_entries env [] next' w = (Inr next', w)"
| "filter_entries env ((table, tableBatch) # rest) next' w =
     (case filterTableBatch env tableBatch w of
        (Inl e, w') \<Rightarrow> (Inl e, w')
      | (Inr b, w') \<Rightarrow> filter_entries env rest (next'\<lparr>tp_Data := imap_Put Table_Canonical table b (tp_Data next')\<rparr>) w')"

definition filterTemporalBatch ::
  "'e dec_env \<Rightarrow> TemporalBatch \<Rightarrow> ('e, 's) world \<Rightarrow> ('e dec_error, TemporalBatch) result \<times> ('e, 's) world" where
  "filterTemporalBatch env batch w = filter_entries env (tp_Data batch) (TemporalBatch_Empty batch) w"

definition filter_then ::
  "string \<Rightarrow> ('b \<Rightarrow> ('e, 's) world \<Rightarrow> ('e dec_error, 'b) result \<times> ('e, 's) world) \<Rightarrow> ('b, 'e, 's) accept option \<Rightarrow> ('b, 'e, 's) accept" where
  "filter_then msg filt delegate batch w =
     (case delegate of
        None \<Rightarrow> (Some (NoDelegateSet msg), w)
      | Some accept \<Rightarrow> (case filt batch w of (Inl e, w') \<Rightarrow> (Some e, w') | (Inr filtered, w') \<Rightarrow> accept filtered w'))"

definition once :: "'e dec_env \<Rightarrow> ('e, 's) base \<Rightarrow> ('e, 's) MultiAcceptor" where
  "once env b =
     \<lparr>ac_Table = filter_then ''no tableAcceptor set'' (filterTableBatch env) (ba_table b),
      ac_Temporal = filter_then ''no temporalAcceptor set'' (filterTemporalBatch env) (ba_temporal b),
      ac_Multi = filter_then ''no multiAcceptor set'' (filterMultiBatch env) (map_option ac_Multi (ba_multi b))\<rparr>"

section \<open>Retrying\<close>

definition retry_call :: "'e dec_env \<Rightarrow> string \<Rightarrow> ('b, 'e, 's) accept option \<Rightarrow> ('b, 'e, 's) accept" where
  "retry_call env msg delegate batch w =
     (case delegate of
        None \<Rightarrow> (Some (NoDelegateSet msg), w)
      | Some accept \<Rightarrow> (case Retry None (de_shouldRetry env) (accept batch) w of (err, w') \<Rightarrow> (map_option InLoop err, w')))"

text \<open>\<open>AcceptTableBatch\<close> looks at and calls the multi-acceptor, as the code does.\<close>

definition retryTarget :: "'e dec_env \<Rightarrow> ('e, 's) base \<Rightarrow> ('e, 's) MultiAcceptor" where
  "retryTarget env b =
     \<lparr>ac_Table = retry_call env ''no multiAcceptor set'' (map_option ac_Table (ba_multi b)),
      ac_Temporal = retry_call env ''no temporalAcceptor set'' (ba_temporal b),
      ac_Multi = retry_call env ''no multiAcceptor set'' (map_option ac_Multi (ba_multi b))\<rparr>"

section \<open>The immediate sequencer\<close>

definition immediate_acceptor :: "'e dec_env \<Rightarrow> bool \<Rightarrow> ('e, 's) MultiAcceptor \<Rightarrow> ('e, 's) MultiAcceptor" where
  "immediate_acceptor env IdempotentSource delegate =
     (let acc = retryTarget env (base_Multi delegate)
      in if IdempotentSource then acc else once env (base_Multi (marker env (base_Multi acc))))"

section \<open>The acceptor of the core sequencer\<close>

text \<open>
  It stages every batch. The window size, the compressor and the order of concurrent windows are those of the
  stager; the fate of the window that begins at \<open>b\<close> is entry \<open>b\<close> of the fates.
\<close>

record stager_cfg =
  sg_batchSize :: nat
  sg_gzip :: "string \<Rightarrow> string"
  sg_reorder :: "(nat \<times> nat) list \<Rightarrow> (nat \<times> nat) list"

definition stage_call :: "stager_cfg \<Rightarrow> Table \<Rightarrow> Mutation list \<Rightarrow> ('e, 's) world \<Rightarrow> 'e dec_error option \<times> ('e, 's) world" where
  "stage_call cfg table muts w =
     (case Stage (sg_batchSize cfg) (sg_gzip cfg) True (sg_reorder cfg) (\<lambda>b. if b < length (wo_fates w) then wo_fates w ! b else Returns)
             muts (staged w table) of
        (tbl, err) \<Rightarrow> (map_option StageFailed err,
          w\<lparr>wo_staging := (wo_staging w)(Table_Canonical table := tbl), wo_fates := drop (length muts) (wo_fates w)\<rparr>))"

definition core_AcceptTable :: "'e dec_env \<Rightarrow> stager_cfg \<Rightarrow> Table \<Rightarrow> Mutation list \<Rightarrow> ('e, 's) world \<Rightarrow> 'e dec_error option \<times> ('e, 's) world" where
  "core_AcceptTable env cfg table muts w =
     (case de_get env table of
        Some e \<Rightarrow> (Some (Db e), w)
      | None \<Rightarrow> (case Retry None (de_shouldRetry env) (stage_call cfg table muts) w of (err, w') \<Rightarrow> (map_option InLoop err, w')))"

fun core_tables :: "'e dec_env \<Rightarrow> stager_cfg \<Rightarrow> (Table, Mutation list) imap \<Rightarrow> ('e, 's) world \<Rightarrow> 'e dec_error option \<times> ('e, 's) world" where
  "core_tables env cfg [] w = (None, w)"
| "core_tables env cfg ((tbl, muts) # rest) w =
     (case core_AcceptTable env cfg tbl muts w of
        (Some e, w') \<Rightarrow> (Some e, w')
      | (None, w') \<Rightarrow> core_tables env cfg rest w')"

definition coalesce_tables :: "(Table, TableBatch) imap \<Rightarrow> (Table, Mutation list) imap \<Rightarrow> (Table, Mutation list) imap" where
  "coalesce_tables tables mutsByTable =
     fold (\<lambda>(tbl, tblBatch) m. imap_Put Table_Canonical tbl (imap_GetZero [] Table_Canonical m tbl @ tb_Data tblBatch) m) tables mutsByTable"

definition coalesce :: "TemporalBatch list \<Rightarrow> (Table, Mutation list) imap" where
  "coalesce subs = fold (\<lambda>sub. coalesce_tables (tp_Data sub)) subs []"

definition core_AcceptMultiBatch :: "'e dec_env \<Rightarrow> stager_cfg \<Rightarrow> (MultiBatch, 'e, 's) accept" where
  "core_AcceptMultiBatch env cfg batch w = core_tables env cfg (coalesce (temporal_batches batch)) w"

definition core_AcceptTableBatch :: "'e dec_env \<Rightarrow> stager_cfg \<Rightarrow> (TableBatch, 'e, 's) accept" where
  "core_AcceptTableBatch env cfg batch w = core_AcceptTable env cfg (tb_Table batch) (tb_Data batch) w"

definition core_AcceptTemporalBatch :: "'e dec_env \<Rightarrow> stager_cfg \<Rightarrow> (TemporalBatch, 'e, 's) accept" where
  "core_AcceptTemporalBatch env cfg batch w =
     core_AcceptMultiBatch env cfg \<lparr>mb_store = [batch], mb_ByTime = [tp_Time batch \<mapsto> 0], mb_Data = [0]\<rparr> w"

section \<open>Flattened batches\<close>

definition flat_muts :: "(Table, Mutation list) imap \<Rightarrow> (Table \<times> Mutation) multiset" where
  "flat_muts es = (\<Sum>e \<leftarrow> es. mset (map (Pair (Table_Canonical (fst e))) (snd e)))"

definition flat_ok :: "(Table, Mutation list) imap \<Rightarrow> bool" where
  "flat_ok es \<longleftrightarrow> (\<forall>(t, ms) \<in> set es. \<forall>m \<in> set ms. good_mut (t, m))"

lemma flat_put:
  "flat_muts (imap_Put Table_Canonical t (imap_GetZero [] Table_Canonical es t @ ms) es) = flat_muts es + mset (map (Pair (Table_Canonical t)) ms)"
  "\<lbrakk>flat_ok es; good_mut (t, m)\<rbrakk> \<Longrightarrow> flat_ok (imap_Put Table_Canonical t (imap_GetZero [] Table_Canonical es t @ [m]) es)"
proof (induction es)
  case (Cons e es)
  obtain k v where e: "e = (k, v)" by force
  case 1
  then show ?case using Cons by (auto simp: e imap_GetZero_def imap_Get_def flat_muts_def)
  case 2
  then show ?case using Cons by (auto simp: e imap_GetZero_def imap_Get_def flat_ok_def good_mut_def)
qed (simp_all add: imap_GetZero_def imap_Get_def flat_muts_def flat_ok_def)

lemma flatten_run:
  "\<exists>es'. run_acc FlattenByTable_acc ps es = Inr es' \<and> (flat_ok es \<and> (\<forall>p \<in> set ps. good_mut p) \<longrightarrow> flat_ok es')
     \<and> flat_muts es' = flat_muts es + mset (map (\<lambda>p. (Table_Canonical (fst p), snd p)) ps)"
proof (induction ps arbitrary: es)
  case (Cons p ps)
  obtain t m where p: "p = (t, m)" by force
  let ?es = "imap_Put Table_Canonical t (imap_GetZero [] Table_Canonical es t @ [m]) es"
  have "flat_muts ?es = add_mset (Table_Canonical t, m) (flat_muts es)" using flat_put(1) [of t es "[m]"] by simp
  moreover have "flat_ok ?es" if "flat_ok es" "good_mut p" using flat_put(2) that by (simp add: p)
  ultimately show ?case using Cons.IH [of ?es] by (auto simp: p FlattenByTable_acc_def)
qed simp

lemma flatten_multi_muts:
  shows "multi_ok b \<Longrightarrow> flat_muts (flatten_multi b) = multi_muts b" "good_batch b \<Longrightarrow> flat_ok (flatten_multi b)"
proof -
  obtain es where es: "run_acc FlattenByTable_acc (multi_list b) [] = Inr es" "flat_ok [] \<and> (\<forall>p \<in> set (multi_list b). good_mut p) \<longrightarrow> flat_ok es"
    "flat_muts es = flat_muts [] + mset (map (\<lambda>p. (Table_Canonical (fst p), snd p)) (multi_list b))"
    using flatten_run [of "multi_list b" "[]"] by blast
  have fl: "flatten_multi b = es" using es(1) by (simp add: flatten_multi_def FlattenByTable_def MultiBatch_CopyInto_run)
  show "multi_ok b \<Longrightarrow> flat_muts (flatten_multi b) = multi_muts b"
    using es(3) mset_multi_list [of b] fl by (simp add: flat_muts_def)
  show "good_batch b \<Longrightarrow> flat_ok (flatten_multi b)"
    using es(2) fl by (simp add: good_batch_def list_all_iff flat_ok_def)
qed

section \<open>What filtering and marking do\<close>

lemma FilterApplied_result:
  "FilterApplied fate None ms tbl = Inr xs \<Longrightarrow> xs = filter (\<lambda>m. \<not> is_applied tbl m) ms"
proof -
  assume a: "FilterApplied fate None ms tbl = Inr xs"
  let ?idxs = "filterAppliedTemplate ms tbl"
  have "xs = (if ?idxs = [] then ms else drop_indices ((\<lambda>i. i - 1) ` set ?idxs) ms)"
    using a by (cases fate) (auto simp: FilterApplied_def Let_def)
  also have "\<dots> = drop_indices ((\<lambda>i. i - 1) ` set ?idxs) ms" by (cases "?idxs = []") (simp_all add: drop_indices_empty)
  also have "\<dots> = filter (\<lambda>m. \<not> is_applied tbl m) ms" unfolding filterAppliedTemplate_def by (rule drop_indices_filter)
  finally show ?thesis .
qed

lemma FilterApplied_Returns: "FilterApplied Returns None ms tbl = Inr (filter (\<lambda>m. \<not> is_applied tbl m) ms)"
proof -
  obtain xs where "FilterApplied (Returns :: 'a fate) None ms tbl = Inr xs" by (simp add: FilterApplied_def Let_def)
  then show ?thesis using FilterApplied_result by metis
qed

definition unapplied :: "(Table \<Rightarrow> st_table) \<Rightarrow> Table \<times> Mutation \<Rightarrow> bool" where
  "unapplied st p \<longleftrightarrow> \<not> is_applied (st (fst p)) (snd p)"

lemma accumulate_list_run: "accumulate_list t ms b = run_acc MultiBatch_Accumulate (map (Pair t) ms) b"
  by (induction ms arbitrary: b) (auto split: sum.splits)

lemma filter_muts_result:
  assumes "filter_muts env t ms w = (Inr xs, w')" "de_broken env t = None"
  shows "xs = filter (\<lambda>m. unapplied (wo_staging w) (Table_Canonical t, m)) ms" "wo_staging w' = wo_staging w" "wo_target w' = wo_target w"
proof -
  have "FilterApplied (next_fate w) None ms (staged w t) = Inr xs"
    using assms by (cases "FilterApplied (next_fate w) None ms (staged w t)") (auto simp: filter_muts_def split: option.splits)
  from FilterApplied_result [OF this]
  show "xs = filter (\<lambda>m. unapplied (wo_staging w) (Table_Canonical t, m)) ms" by (simp add: unapplied_def staged_def)
  show "wo_staging w' = wo_staging w" "wo_target w' = wo_target w" using assms by (auto simp: filter_muts_def split: option.splits)
qed

lemma filter_mset_pairs:
  "mset (map (Pair c) (filter (\<lambda>m. Q (c, m)) ms)) = filter_mset Q (mset (map (Pair c) ms))"
  by (induction ms) auto

lemma filter_tables_result:
  assumes "filter_tables env es b w = (Inr b', w')" "flat_ok es" "multi_ok b" "de_broken env = (\<lambda>_. None)"
  shows "multi_ok b' \<and> multi_muts b' = multi_muts b + filter_mset (unapplied (wo_staging w)) (flat_muts es)
    \<and> wo_staging w' = wo_staging w \<and> wo_target w' = wo_target w"
  using assms
proof (induction es arbitrary: b w)
  case (Cons e es)
  obtain t ms where e: "e = (t, ms)" by force
  obtain xs w1 where f: "filter_muts env t ms w = (Inr xs, w1)"
    using Cons.prems(1) by (auto simp: e split: prod.splits sum.splits)
  note xs = filter_muts_result [OF f, unfolded Cons.prems(4), OF refl]
  have good: "\<forall>p \<in> set (map (Pair t) xs). good_mut p" using Cons.prems(2) xs(1) by (auto simp: e flat_ok_def)
  from accumulate_seq_ok [OF Cons.prems(3) good]
  obtain b1 where b1: "run_acc MultiBatch_Accumulate (map (Pair t) xs) b = Inr b1" "multi_ok b1"
    "multi_muts b1 = multi_muts b + mset (map (\<lambda>p. (Table_Canonical (fst p), snd p)) (map (Pair t) xs))" by blast
  have r: "filter_tables env es b1 w1 = (Inr b', w')" using Cons.prems(1) f b1(1) by (simp add: e accumulate_list_run)
  have "flat_ok es" using Cons.prems(2) by (simp add: flat_ok_def)
  note IH = Cons.IH [OF r this b1(2) Cons.prems(4)]
  have "mset (map (\<lambda>p. (Table_Canonical (fst p), snd p)) (map (Pair t) xs)) = filter_mset (unapplied (wo_staging w)) (mset (map (Pair (Table_Canonical t)) ms))"
    unfolding xs(1) filter_mset_pairs [symmetric] by (simp add: comp_def)
  then show ?case using IH xs(2,3) b1(3) by (simp add: e flat_muts_def)
qed (simp add: flat_muts_def)

text \<open>The rows that are applied after marking.\<close>

definition tables_distinct :: "('e, 's) world \<Rightarrow> bool" where
  "tables_distinct w \<longleftrightarrow> (\<forall>t. distinct (map pk (wo_staging w t)))"

definition marked_between :: "('e, 's) world \<Rightarrow> (Table \<times> Mutation) multiset \<Rightarrow> ('e, 's) world \<Rightarrow> bool" where
  "marked_between w ps w' \<longleftrightarrow>
     tables_distinct w' \<and> wo_target w' = wo_target w
     \<and> (\<forall>t m. is_applied (wo_staging w t) m \<longrightarrow> is_applied (wo_staging w' t) m)
     \<and> (\<forall>t m. is_applied (wo_staging w' t) m \<longrightarrow> is_applied (wo_staging w t) m \<or> (\<exists>m'. (t, m') \<in># ps \<and> time_key m' = time_key m))"

lemma is_applied_marked:
  assumes "distinct (map pk tbl)"
  shows "is_applied (markAppliedTemplate now ms tbl) m \<longleftrightarrow> time_key m \<in> time_key ` set ms \<or> is_applied tbl m"
  unfolding is_applied_get [OF assms] markAppliedTemplate_def is_applied_get [OF marked_distinct [OF assms]] marked_applied
  by (simp add: time_key_def)

lemma marked_between_trans: "\<lbrakk>marked_between w ps w1; marked_between w1 ps w2\<rbrakk> \<Longrightarrow> marked_between w ps w2"
  unfolding marked_between_def by metis

lemma marked_between_refl: "tables_distinct w \<Longrightarrow> marked_between w ps w"
  by (simp add: marked_between_def)

lemma stage_stmt_marks:
  assumes "stage_stmt t (\<lambda>tbl. (markAppliedTemplate now ms tbl, ())) w = (r, w')" "tables_distinct w"
    and ps: "\<And>m. m \<in> set ms \<Longrightarrow> (Table_Canonical t, m) \<in># ps"
  shows "marked_between w ps w'" "r = Inr () \<Longrightarrow> m \<in> set ms \<Longrightarrow> is_applied (wo_staging w' (Table_Canonical t)) m"
proof -
  let ?c = "Table_Canonical t"
  let ?tbl = "wo_staging w ?c"
  have d: "distinct (map pk ?tbl)" using assms(2) by (simp add: tables_distinct_def)
  note app = is_applied_marked [OF d]
  have d': "distinct (map pk (markAppliedTemplate now ms ?tbl))" using d by (simp add: markAppliedTemplate_def marked_distinct)
  have w': "wo_staging w' = (wo_staging w)(?c := markAppliedTemplate now ms ?tbl) \<or> wo_staging w' = wo_staging w \<and> r \<noteq> Inr ()"
    "wo_target w' = wo_target w"
    using assms(1) by (cases "next_fate w"; auto simp: stage_stmt_def staged_def)+
  have "tables_distinct w'" using w' assms(2) d' by (auto simp: tables_distinct_def)
  moreover have new: "is_applied ?tbl x \<or> (\<exists>m'. (?c, m') \<in># ps \<and> time_key m' = time_key x)"
    if "is_applied (markAppliedTemplate now ms ?tbl) x" for x
    using that app ps by (metis imageE)
  moreover have "is_applied (wo_staging w' u) x" if "is_applied (wo_staging w u) x" for u x
    using that w'(1) app by (cases "u = ?c") auto
  moreover have "is_applied (wo_staging w u) x \<or> (\<exists>m'. (u, m') \<in># ps \<and> time_key m' = time_key x)"
    if "is_applied (wo_staging w' u) x" for u x
    using that w'(1) new [of x] by (cases "u = ?c") auto
  ultimately show "marked_between w ps w'" using w'(2) by (simp add: marked_between_def)
  show "r = Inr () \<Longrightarrow> m \<in> set ms \<Longrightarrow> is_applied (wo_staging w' ?c) m" using w'(1) app by auto
qed

lemma mark_tables_marks:
  assumes "mark_tables env es w = (err, w')" "tables_distinct w" "\<And>t ms m. (t, ms) \<in> set es \<Longrightarrow> m \<in> set ms \<Longrightarrow> (Table_Canonical t, m) \<in># ps"
  shows "marked_between w ps w' \<and> (err = None \<longrightarrow> (\<forall>(t, ms) \<in> set es. \<forall>m \<in> set ms. is_applied (wo_staging w' (Table_Canonical t)) m))"
  using assms
proof (induction es arbitrary: w)
  case (Cons e es)
  obtain t ms where e: "e = (t, ms)" by force
  show ?case
  proof (cases "de_get env t \<noteq> None \<or> \<not> distinct (map (\<lambda>m. (mut_Time m, mut_Key m)) ms)")
    case True
    then have "w' = w" "err \<noteq> None" using Cons.prems(1) by (auto simp: e split: option.splits if_splits)
    then show ?thesis using Cons.prems(2) by (auto simp: marked_between_refl)
  next
    case False
    obtain r w1 where s: "stage_stmt t (\<lambda>tbl. (markAppliedTemplate (de_now env) ms tbl, ())) w = (r, w1)" by (rule prod.exhaust)
    note m = stage_stmt_marks [OF s Cons.prems(2), of ps]
    have in_ps: "(Table_Canonical t, m) \<in># ps" if "m \<in> set ms" for m using Cons.prems(3) [of t ms m] that by (simp add: e)
    have m1: "marked_between w ps w1" using m(1) in_ps by simp
    show ?thesis
    proof (cases r)
      case (Inl x)
      then show ?thesis using Cons.prems(1) False s m1 by (auto simp: e)
    next
      case (Inr u)
      then have mt: "mark_tables env es w1 = (err, w')" using Cons.prems(1) False s by (simp add: e)
      have td: "tables_distinct w1" using m1 by (simp add: marked_between_def)
      have "(Table_Canonical t, m) \<in># ps" if "(t, ms) \<in> set es" "m \<in> set ms" for t ms m
        by (rule Cons.prems(3) [of t ms]) (use that in simp_all)
      note IH = Cons.IH [OF mt td this, THEN conjunct1] Cons.IH [OF mt td this, THEN conjunct2]
      have "is_applied (wo_staging w1 (Table_Canonical t)) m" if "m \<in> set ms" for m using m(2) in_ps Inr that by simp
      then have "is_applied (wo_staging w' (Table_Canonical t)) m" if "m \<in> set ms" for m
        using IH(1) that by (simp add: marked_between_def)
      then show ?thesis using IH marked_between_trans [OF m1 IH(1)] by (simp add: e)
    qed
  qed
qed (auto simp: marked_between_refl)

lemma flat_muts_in: "\<lbrakk>(t, ms) \<in> set es; m \<in> set ms\<rbrakk> \<Longrightarrow> (Table_Canonical t, m) \<in># flat_muts es"
  by (induction es) (auto simp: flat_muts_def)

lemma flat_muts_from: "(c, m) \<in># flat_muts es \<Longrightarrow> \<exists>t ms. (t, ms) \<in> set es \<and> m \<in> set ms \<and> c = Table_Canonical t"
proof (induction es)
  case (Cons e es)
  obtain t ms where e: "e = (t, ms)" by force
  have "c = Table_Canonical t \<and> m \<in> set ms \<or> (c, m) \<in># flat_muts es" using Cons.prems by (auto simp: flat_muts_def e)
  then show ?case using Cons.IH e by auto
qed (simp add: flat_muts_def)

lemma mark_marks:
  assumes "mark env es w = (err, w')" "tables_distinct w"
  shows "marked_between w (flat_muts es) w'" "err = None \<Longrightarrow> (t, m) \<in># flat_muts es \<Longrightarrow> is_applied (wo_staging w' t) m"
proof -
  let ?P = "\<lambda>u. marked_between w (flat_muts es) u"
  let ?all = "\<lambda>u. \<forall>(t, m) \<in># flat_muts es. is_applied (wo_staging u t) m"
  have fates: "marked_between u ps (v\<lparr>wo_fates := fs\<rparr>) = marked_between u ps v" "tables_distinct (v\<lparr>wo_fates := fs\<rparr>) = tables_distinct v"
    for u ps fs and v :: "('a, 'b) world"
    by (simp_all add: marked_between_def tables_distinct_def)
  have step: "?P (snd (mark_attempt env es u)) \<and> (fst (mark_attempt env es u) = None \<longrightarrow> ?all (snd (mark_attempt env es u)))" if P: "?P u" for u
  proof -
    let ?u = "u\<lparr>wo_fates := tl (wo_fates u)\<rparr>"
    obtain x u2 where x: "mark_tables env es ?u = (x, u2)" by (rule prod.exhaust)
    have "tables_distinct ?u" using P by (simp add: marked_between_def fates(2))
    from mark_tables_marks [OF x this, of "flat_muts es"] have
      m: "marked_between ?u (flat_muts es) u2" "x = None \<longrightarrow> (\<forall>(t, ms) \<in> set es. \<forall>m \<in> set ms. is_applied (wo_staging u2 (Table_Canonical t)) m)"
      using flat_muts_in by auto
    have P2: "?P u2" using marked_between_trans [of w "flat_muts es" ?u u2] P m(1) by (simp add: fates)
    have all: "x = None \<longrightarrow> ?all u2" using m(2) by (fastforce dest: flat_muts_from)
    show ?thesis
    proof (cases x)
      case None
      then have "wo_staging (u2\<lparr>wo_fates := tl (wo_fates u2)\<rparr>) = wo_staging u2" by simp
      then show ?thesis using x None P P2 all by (simp add: mark_attempt_def tx_call_def fates split: option.split)
    next
      case (Some a)
      then show ?thesis using x P P2 by (simp add: mark_attempt_def tx_call_def fates split: option.split)
    qed
  qed
  obtain e where r: "Retry None (de_shouldRetry env) (mark_attempt env es) w = (e, w')" "err = map_option InLoop e"
    using assms(1) by (auto simp: mark_def split: prod.splits)
  have "?P w" using assms(2) by (rule marked_between_refl)
  from Retry_invariant [where P = ?P, OF r(1) this] step
  have inv: "?P w'" "e = None \<longrightarrow> (\<exists>s1. ?P s1 \<and> mark_attempt env es s1 = (None, w'))" by auto
  show "marked_between w (flat_muts es) w'" by (rule inv(1))
  assume "err = None" "(t, m) \<in># flat_muts es"
  then obtain s1 where s1: "?P s1" "mark_attempt env es s1 = (None, w')" using inv(2) r(2) by auto
  then have "?all w'" using step [OF s1(1)] by simp
  then show "is_applied (wo_staging w' t) m" using \<open>(t, m) \<in># flat_muts es\<close> by auto
qed

section \<open>Redelivery\<close>

lemma filter_tables_total:
  assumes "flat_ok es" "multi_ok b" "de_broken env = (\<lambda>_. None)" "de_get env = (\<lambda>_. None)" "wo_fates w = []"
  shows "\<exists>b' w'. filter_tables env es b w = (Inr b', w')"
  using assms
proof (induction es arbitrary: b w)
  case (Cons e es)
  obtain t ms where e: "e = (t, ms)" by force
  obtain xs w1 where f: "filter_muts env t ms w = (Inr xs, w1)" "wo_fates w1 = []"
    using Cons.prems by (simp add: filter_muts_def FilterApplied_Returns next_fate_def)
  have "set xs \<subseteq> set ms" using filter_muts_result(1) [OF f(1)] Cons.prems(3) by auto
  then have good: "\<forall>p \<in> set (map (Pair t) xs). good_mut p" using Cons.prems(1) by (auto simp: e flat_ok_def)
  obtain b1 where b1: "run_acc MultiBatch_Accumulate (map (Pair t) xs) b = Inr b1" "multi_ok b1"
    using accumulate_seq_ok [OF Cons.prems(2) good] by blast
  have "flat_ok es" using Cons.prems(1) by (simp add: flat_ok_def)
  from Cons.IH [OF this b1(2) Cons.prems(3,4) f(2)] show ?case using f(1) b1(1) by (simp add: e accumulate_list_run)
qed simp

lemma retry_keeps_staging:
  assumes "\<And>b u. wo_staging (snd (accept b u)) = wo_staging u" "retry_call env msg (Some accept) b w = (err, w')"
  shows "wo_staging w' = wo_staging w"
proof -
  obtain e where r: "Retry None (de_shouldRetry env) (accept b) w = (e, w')"
    using assms(2) by (auto simp: retry_call_def split: prod.splits)
  show ?thesis using Retry_invariant [where P = "\<lambda>u. wo_staging u = wo_staging w", OF r] assms(1) by simp
qed

text \<open>
  C11: the immediate sequencer applies a redelivered mutation only once. When it has accepted a batch from a source
  that may repeat itself, then of any batch that comes later it passes on to the target exactly the mutations that
  were not marked as applied before and are not in the accepted batch, whatever was retried on the way.
\<close>

theorem immediate_filters_redelivery:
  assumes acc: "ac_Multi (immediate_acceptor env False delegate) batch w = (None, w1)"
    and batches: "good_batch batch" "good_batch batch2" and dist: "tables_distinct w"
    and keep: "\<And>b u. wo_staging (snd (ac_Multi delegate b u)) = wo_staging u"
    and calm: "de_broken env = (\<lambda>_. None)" "de_get env = (\<lambda>_. None)" "wo_fates w1 = []"
  shows "\<exists>b2 w2. ac_Multi (immediate_acceptor env False delegate) batch2 w1
        = ac_Multi (marker env (base_Multi (retryTarget env (base_Multi delegate)))) b2 w2
    \<and> multi_muts b2 = filter_mset (\<lambda>(t, m). \<not> is_applied (wo_staging w t) m \<and> (\<forall>m'. (t, m') \<in># multi_muts batch \<longrightarrow> time_key m' \<noteq> time_key m))
        (multi_muts batch2)
    \<and> wo_staging w2 = wo_staging w1 \<and> wo_target w2 = wo_target w1"
proof -
  have stack: "ac_Multi (immediate_acceptor env False delegate) b u =
      filter_then ''no multiAcceptor set'' (filterMultiBatch env) (Some (ac_Multi (marker env (base_Multi (retryTarget env (base_Multi delegate)))))) b u" for b u
    by (simp add: immediate_acceptor_def once_def base_Multi_def Let_def)
  have mk: "ac_Multi (marker env (base_Multi (retryTarget env (base_Multi delegate)))) =
      then_mark env flatten_multi (Some (retry_call env ''no multiAcceptor set'' (Some (ac_Multi delegate))))"
    by (simp add: marker_def retryTarget_def base_Multi_def)
  obtain b' u1 where b': "filterMultiBatch env batch w = (Inr b', u1)"
    using acc by (auto simp: stack filter_then_def split: prod.splits sum.splits)
  note fl = flatten_multi_muts [of batch] flatten_multi_muts [of batch2]
  have f1: "multi_ok b'" "multi_muts b' = filter_mset (unapplied (wo_staging w)) (multi_muts batch)" "wo_staging u1 = wo_staging w"
    using filter_tables_result [OF b' [unfolded filterMultiBatch_def] fl(2) [OF batches(1)] MultiBatch_New_ok(1) calm(1)] fl(1) batches(1)
    by (auto simp: MultiBatch_New_ok good_batch_def)
  obtain u2 where u2: "retry_call env ''no multiAcceptor set'' (Some (ac_Multi delegate)) b' u1 = (None, u2)" "mark env (flatten_multi b') u2 = (None, w1)"
    using acc b' by (auto simp: stack filter_then_def mk then_mark_def split: prod.splits option.splits)
  have st2: "wo_staging u2 = wo_staging w" using retry_keeps_staging [OF keep u2(1)] f1(3) by simp
  then have "tables_distinct u2" using dist by (simp add: tables_distinct_def)
  note mm = mark_marks [OF u2(2) this, unfolded flatten_multi_muts(1) [OF f1(1)]]
  have app: "is_applied (wo_staging w1 t) m \<longleftrightarrow> is_applied (wo_staging w t) m \<or> (\<exists>m'. (t, m') \<in># multi_muts batch \<and> time_key m' = time_key m)" for t m
  proof -
    have tk: "is_applied tbl m' = is_applied tbl m" if "time_key m' = time_key m" for tbl m'
      using that by (simp add: is_applied_def time_key_def)
    have "is_applied (wo_staging w1 t) m" if "is_applied (wo_staging w t) m"
      using mm(1) that st2 by (simp add: marked_between_def)
    moreover have "is_applied (wo_staging w1 t) m" if "(t, m') \<in># multi_muts batch" "time_key m' = time_key m" for m'
    proof (cases "is_applied (wo_staging w t) m")
      case False
      then have "\<not> is_applied (wo_staging w t) m'" using tk [OF that(2)] by blast
      then have "(t, m') \<in># multi_muts b'" using that(1) unfolding f1(2) by (simp add: unapplied_def)
      then show ?thesis using mm(2) [OF refl] tk [OF that(2)] by blast
    qed (use calculation in blast)
    moreover have "is_applied (wo_staging w t) m \<or> (\<exists>m'. (t, m') \<in># multi_muts batch \<and> time_key m' = time_key m)" if "is_applied (wo_staging w1 t) m"
      using mm(1) that st2 unfolding marked_between_def f1(2) by force
    ultimately show ?thesis by blast
  qed
  obtain b2 w2 where b2: "filter_tables env (flatten_multi batch2) MultiBatch_New w1 = (Inr b2, w2)"
    using filter_tables_total [OF fl(4) [OF batches(2)] MultiBatch_New_ok(1) calm] by blast
  have "multi_muts b2 = filter_mset (unapplied (wo_staging w1)) (multi_muts batch2)" "wo_staging w2 = wo_staging w1" "wo_target w2 = wo_target w1"
    using filter_tables_result [OF b2 fl(4) [OF batches(2)] MultiBatch_New_ok(1) calm(1)] fl(3) batches(2)
    by (auto simp: MultiBatch_New_ok good_batch_def)
  moreover have "unapplied (wo_staging w1) = (\<lambda>(t, m). \<not> is_applied (wo_staging w t) m \<and> (\<forall>m'. (t, m') \<in># multi_muts batch \<longrightarrow> time_key m' \<noteq> time_key m))"
    by (auto simp: unapplied_def app fun_eq_iff)
  moreover have "ac_Multi (immediate_acceptor env False delegate) batch2 w1 = ac_Multi (marker env (base_Multi (retryTarget env (base_Multi delegate)))) b2 w2"
    unfolding stack by (simp add: filter_then_def filterMultiBatch_def b2)
  ultimately show ?thesis by (intro exI2 [of _ b2 w2]) simp
qed

section \<open>Staging everything\<close>

definition rows_kept :: "('e, 's) world \<Rightarrow> ('e, 's) world \<Rightarrow> bool" where
  "rows_kept w w' \<longleftrightarrow> wo_target w' = wo_target w \<and> (\<forall>t p r. st_get (wo_staging w t) p = Some r \<longrightarrow> st_get (wo_staging w' t) p = Some r)"

lemma rows_kept_trans: "\<lbrakk>rows_kept w w1; rows_kept w1 w2\<rbrakk> \<Longrightarrow> rows_kept w w2"
  by (simp add: rows_kept_def)

lemma stage_call_result:
  assumes "stage_call cfg t ms w = (err, w')" and cfg: "\<And>ws. mset (sg_reorder cfg ws) = mset ws" "0 < sg_batchSize cfg"
  shows "rows_kept w w'"
    and "\<lbrakk>err = None; \<forall>m \<in> set ms. valid_time (mut_Time m) \<and> mut_Key m \<noteq> []; m \<in> set ms\<rbrakk> \<Longrightarrow> st_get (wo_staging w' (Table_Canonical t)) (time_key m) \<noteq> None"
proof -
  let ?f = "\<lambda>b. if b < length (wo_fates w) then wo_fates w ! b else Returns"
  obtain tbl e where s: "Stage (sg_batchSize cfg) (sg_gzip cfg) True (sg_reorder cfg) ?f ms (staged w t) = (tbl, e)" by (rule prod.exhaust)
  then have w': "wo_staging w' = (wo_staging w)(Table_Canonical t := tbl)" "wo_target w' = wo_target w" "err = map_option StageFailed e"
    using assms(1) by (auto simp: stage_call_def)
  show "rows_kept w w'" using Stage_keeps [OF s] w'(1,2) by (simp add: rows_kept_def staged_def)
  assume a: "err = None" "\<forall>m \<in> set ms. valid_time (mut_Time m) \<and> mut_Key m \<noteq> []" "m \<in> set ms"
  then have s': "Stage (sg_batchSize cfg) (sg_gzip cfg) True (sg_reorder cfg) ?f ms (staged w t) = (tbl, None)" using s w'(3) by simp
  have "last_with (time_key m) ms \<noteq> None" using a(3) by (auto simp: last_with_def filter_empty_conv split: list.splits)
  then show "st_get (wo_staging w' (Table_Canonical t)) (time_key m) \<noteq> None"
    using Stage_result [OF s' a(2) cfg, of "time_key m"] w'(1) by (auto split: option.splits)
qed

lemma core_AcceptTable_stages:
  assumes acc: "core_AcceptTable env cfg t ms w = (err, w')" and cfg: "\<And>ws. mset (sg_reorder cfg ws) = mset ws" "0 < sg_batchSize cfg"
  shows "rows_kept w w'"
    and "\<lbrakk>err = None; \<forall>m \<in> set ms. valid_time (mut_Time m) \<and> mut_Key m \<noteq> []; m \<in> set ms\<rbrakk> \<Longrightarrow> st_get (wo_staging w' (Table_Canonical t)) (time_key m) \<noteq> None"
proof -
  have step: "rows_kept w u \<Longrightarrow> rows_kept w (snd (stage_call cfg t ms u))" for u
    using stage_call_result(1) [OF _ cfg] rows_kept_trans by (metis prod.collapse)
  have refl: "rows_kept w w" by (simp add: rows_kept_def)
  have "rows_kept w w' \<and> (err = None \<longrightarrow> (\<exists>u. stage_call cfg t ms u = (None, w')))"
  proof (cases "de_get env t")
    case None
    then obtain e where r: "Retry None (de_shouldRetry env) (stage_call cfg t ms) w = (e, w')" "err = map_option InLoop e"
      using acc by (auto simp: core_AcceptTable_def split: prod.splits)
    show ?thesis using Retry_invariant [where P = "rows_kept w", OF r(1) refl step] r(2) by auto
  qed (use acc refl in \<open>auto simp: core_AcceptTable_def\<close>)
  then show "rows_kept w w'"
    and "\<lbrakk>err = None; \<forall>m \<in> set ms. valid_time (mut_Time m) \<and> mut_Key m \<noteq> []; m \<in> set ms\<rbrakk> \<Longrightarrow> st_get (wo_staging w' (Table_Canonical t)) (time_key m) \<noteq> None"
    using stage_call_result(2) [OF _ cfg] by blast+
qed

lemma core_tables_stages:
  assumes "core_tables env cfg es w = (err, w')" and cfg: "\<And>ws. mset (sg_reorder cfg ws) = mset ws" "0 < sg_batchSize cfg"
    and valid: "\<forall>(t, ms) \<in> set es. \<forall>m \<in> set ms. valid_time (mut_Time m) \<and> mut_Key m \<noteq> []"
  shows "rows_kept w w' \<and> (err = None \<longrightarrow> (\<forall>(t, ms) \<in> set es. \<forall>m \<in> set ms. st_get (wo_staging w' (Table_Canonical t)) (time_key m) \<noteq> None))"
  using assms(1) valid
proof (induction es arbitrary: w)
  case (Cons e es)
  obtain t ms where e: "e = (t, ms)" by force
  obtain x w1 where x: "core_AcceptTable env cfg t ms w = (x, w1)" by (rule prod.exhaust)
  note c = core_AcceptTable_stages [OF x cfg]
  show ?case
  proof (cases x)
    case None
    then have r: "core_tables env cfg es w1 = (err, w')" using Cons.prems(1) x by (simp add: e)
    have "\<forall>(t, ms) \<in> set es. \<forall>m \<in> set ms. valid_time (mut_Time m) \<and> mut_Key m \<noteq> []" using Cons.prems(2) by simp
    note IH = Cons.IH [OF r this]
    have "st_get (wo_staging w' (Table_Canonical t)) (time_key m) \<noteq> None" if "m \<in> set ms" for m
    proof -
      have "st_get (wo_staging w1 (Table_Canonical t)) (time_key m) \<noteq> None" using c(2) None Cons.prems(2) that by (simp add: e)
      then show ?thesis using IH by (auto simp: rows_kept_def time_key_def)
    qed
    then show ?thesis using IH rows_kept_trans [OF c(1)] by (simp add: e)
  qed (use Cons.prems(1) x c(1) in \<open>auto simp: e\<close>)
qed (auto simp: rows_kept_def)

lemma flat_coalesce_tables:
  "flat_muts (coalesce_tables es m) = flat_muts m + (\<Sum>e \<leftarrow> es. mset (map (Pair (Table_Canonical (fst e))) (tb_Data (snd e))))"
  unfolding coalesce_tables_def
  by (induction es arbitrary: m) (simp_all add: flat_put split_beta add.assoc)

lemma flat_coalesce: "flat_muts (coalesce (temporal_batches b)) = multi_muts b"
proof -
  have "flat_muts (fold (\<lambda>sub. coalesce_tables (tp_Data sub)) subs m) = flat_muts m + (\<Sum>t \<leftarrow> subs. temporal_muts t)" for subs m
    by (induction subs arbitrary: m) (simp_all add: flat_coalesce_tables temporal_muts_def add.assoc)
  then show ?thesis by (simp add: coalesce_def multi_muts_def flat_muts_def)
qed

text \<open>
  C8: the core sequencer's acceptor stages everything it accepts. When it returns without an error, every mutation
  of the batch has a row in the staging table of its table; and whatever happens, no staged row is lost or changed
  and the target is not touched.
\<close>

theorem core_acceptor_stages:
  assumes acc: "core_AcceptMultiBatch env cfg batch w = (err, w')"
    and valid: "\<forall>(t, m) \<in># multi_muts batch. valid_time (mut_Time m) \<and> mut_Key m \<noteq> []"
    and cfg: "\<And>ws. mset (sg_reorder cfg ws) = mset ws" "0 < sg_batchSize cfg"
  shows "(err = None \<longrightarrow> (\<forall>(t, m) \<in># multi_muts batch. st_get (wo_staging w' t) (mut_Time m, mut_Key m) \<noteq> None))
    \<and> wo_target w' = wo_target w \<and> (\<forall>t p r. st_get (wo_staging w t) p = Some r \<longrightarrow> st_get (wo_staging w' t) p = Some r)"
proof -
  let ?es = "coalesce (temporal_batches batch)"
  have valid': "\<forall>(t, ms) \<in> set ?es. \<forall>m \<in> set ms. valid_time (mut_Time m) \<and> mut_Key m \<noteq> []"
    using valid flat_muts_in [of _ _ ?es] unfolding flat_coalesce by fastforce
  note c = core_tables_stages [OF acc [unfolded core_AcceptMultiBatch_def] cfg valid']
  have "st_get (wo_staging w' t) (time_key m) \<noteq> None" if "err = None" "(t, m) \<in># multi_muts batch" for t m
    using c that flat_muts_from [of t m ?es] unfolding flat_coalesce by fastforce
  then show ?thesis using c by (auto simp: rows_kept_def time_key_def)
qed

text \<open>Witnesses: a batch of two keys, a first statement that fails, and a delegate that counts its calls.\<close>

definition calm_env :: "string dec_env" where
  "calm_env = \<lparr>de_now = 7, de_get = (\<lambda>_. None), de_broken = (\<lambda>_. None), de_shouldRetry = (\<lambda>_. True)\<rparr>"

definition counting :: "(string, nat) MultiAcceptor" where
  "counting = \<lparr>ac_Table = (\<lambda>_ w. (None, w)), ac_Temporal = (\<lambda>_ w. (None, w)), ac_Multi = (\<lambda>b w. (None, w\<lparr>wo_target := wo_target w + MultiBatch_Count b\<rparr>))\<rparr>"

definition empty_world :: "string fate list \<Rightarrow> (string, nat) world" where
  "empty_world fates = \<lparr>wo_target = 0, wo_staging = (\<lambda>_. []), wo_fates = fates\<rparr>"

text \<open>Witness for C11: the statement that marks fails once.\<close>

theorem immediate_filters_redelivery_witness:
  "\<exists>w1 b2 w2. ac_Multi (immediate_acceptor calm_env False counting) (demo_multi [(''[1]'', 1)]) (empty_world [Returns, Returns, FailsAfter ''x'']) = (None, w1)
     \<and> ac_Multi (immediate_acceptor calm_env False counting) (demo_multi [(''[1]'', 1)]) w1
       = ac_Multi (marker calm_env (base_Multi (retryTarget calm_env (base_Multi counting)))) b2 w2
     \<and> multi_muts b2 = {#}"
proof -
  let ?acc = "ac_Multi (immediate_acceptor calm_env False counting) (demo_multi [(''[1]'', 1)]) (empty_world [Returns, Returns, FailsAfter ''x''])"
  have "case ?acc of (None, w1) \<Rightarrow> wo_fates w1 = [] | (Some _, _) \<Rightarrow> False" by code_simp
  then obtain w1 where w1: "?acc = (None, w1)" "wo_fates w1 = []" by (cases ?acc) (auto split: option.splits)
  have keep: "wo_staging (snd (ac_Multi counting b u)) = wo_staging u" for b u by (simp add: counting_def)
  have dist: "tables_distinct (empty_world fs)" for fs by (simp add: tables_distinct_def empty_world_def)
  have env: "de_broken calm_env = (\<lambda>_. None)" "de_get calm_env = (\<lambda>_. None)" by (simp_all add: calm_env_def)
  obtain b2 w2 where b2: "ac_Multi (immediate_acceptor calm_env False counting) (demo_multi [(''[1]'', 1)]) w1
      = ac_Multi (marker calm_env (base_Multi (retryTarget calm_env (base_Multi counting)))) b2 w2"
    "multi_muts b2 = filter_mset (\<lambda>(t, m). \<not> is_applied (wo_staging (empty_world [Returns, Returns, FailsAfter ''x'']) t) m
       \<and> (\<forall>m'. (t, m') \<in># multi_muts (demo_multi [(''[1]'', 1)]) \<longrightarrow> time_key m' \<noteq> time_key m)) (multi_muts (demo_multi [(''[1]'', 1)]))"
    using immediate_filters_redelivery [OF w1(1) demo_multi_good(1) demo_multi_good(1) dist keep env w1(2)] by blast
  have none: "filter_mset (\<lambda>(t, m). Q t m \<and> (\<forall>m'. (t, m') \<in># M \<longrightarrow> time_key m' \<noteq> time_key m)) M = {#}" for Q and M :: "(Table \<times> Mutation) multiset"
    by (auto simp: filter_mset_eq_conv multiset_eq_iff not_in_iff [symmetric])
  have "multi_muts b2 = {#}" unfolding b2(2) by (rule none)
  then show ?thesis using w1(1) b2(1) by blast
qed

text \<open>Witness for C8: two keys, staged in windows of one in reverse order.\<close>

theorem core_acceptor_stages_witness:
  "\<exists>w'. core_AcceptMultiBatch calm_env \<lparr>sg_batchSize = 1, sg_gzip = id, sg_reorder = rev\<rparr> (demo_multi [(''[1]'', 2), (''[2]'', 2)]) (empty_world []) = (None, w')
     \<and> (\<forall>(t, m) \<in># multi_muts (demo_multi [(''[1]'', 2), (''[2]'', 2)]). st_get (wo_staging w' t) (mut_Time m, mut_Key m) \<noteq> None)"
proof -
  let ?b = "demo_multi [(''[1]'', 2), (''[2]'', 2)]" and ?cfg = "\<lparr>sg_batchSize = 1, sg_gzip = id, sg_reorder = rev\<rparr>"
  let ?acc = "core_AcceptMultiBatch calm_env ?cfg ?b (empty_world [])"
  have ok: "multi_ok ?b" using demo_multi_good(2) by (simp add: good_batch_def)
  have "multi_list ?b = [(demo_table ''t'', demo_mut ''[1]'' 2), (demo_table ''t'', demo_mut ''[2]'' 2)]" by code_simp
  then have muts: "\<forall>(t, m) \<in># multi_muts ?b. valid_time (mut_Time m) \<and> mut_Key m \<noteq> []"
    unfolding mset_multi_list [OF ok, symmetric] by (simp add: demo_mut_def valid_time_def)
  have es: "coalesce (temporal_batches ?b) = [(demo_table ''t'', [demo_mut ''[1]'' 2, demo_mut ''[2]'' 2])]" by code_simp
  have "\<forall>m \<in> set [demo_mut ''[1]'' 2, demo_mut ''[2]'' 2]. valid_time (mut_Time m) \<and> mut_Key m \<noteq> []"
    by (simp add: demo_mut_def valid_time_def)
  from Stage_returns [OF this, of 1, where 'e = string] obtain tbl where
    "Stage 1 id True rev (\<lambda>_. Returns :: string fate) [demo_mut ''[1]'' 2, demo_mut ''[2]'' 2] [] = (tbl, None)" by fastforce
  then obtain w' where w': "?acc = (None, w')"
    by (simp add: core_AcceptMultiBatch_def es core_AcceptTable_def calm_env_def Retry_def Loop_def loop_from.simps stage_call_def
        staged_def empty_world_def)
  show ?thesis using core_acceptor_stages [OF w' muts] w' by simp
qed

text \<open>The retrying facade around a table acceptor never calls it.\<close>

theorem retry_table_facade_fails:
  "ac_Table (retryTarget env (base_Table accept)) batch w = (Some (NoDelegateSet ''no multiAcceptor set''), w)"
  "ac_Table (retryTarget env (base_Temporal acc)) batch w = (Some (NoDelegateSet ''no multiAcceptor set''), w)"
  by (simp_all add: retryTarget_def base_Table_def base_Temporal_def retry_call_def)

text \<open>Marking is not one transaction: an error for the second table leaves the first one marked.\<close>

theorem mark_is_not_atomic:
  "case mark \<lparr>de_now = 7, de_get = (\<lambda>_. None), de_broken = (\<lambda>_. None), de_shouldRetry = (\<lambda>_. False)\<rparr>
       [(demo_table ''s'', [demo_mut ''[1]'' 1]), (demo_table ''t'', [demo_mut ''[1]'' 1])] (empty_world [Returns, Returns, FailsBefore ''x'']) of
     (err, w) \<Rightarrow> err \<noteq> None \<and> length (staged w (demo_table ''s'')) = 1 \<and> staged w (demo_table ''t'') = []"
  by code_simp

end
