(* ===== verification/BestEffort.thy ===== *)
theory BestEffort
  imports Decorators
begin

text \<open>
  The best-effort acceptor, \<open>src/internal/sequencer/besteffort/acceptor.go\<close>: mutations go straight to the target
  unless one of their key is already staged; what the target refuses is staged. The singleton tasks that retry a
  refused batch are run by the scheduler: tasks of one key in their order, tasks of different keys in any order.
\<close>

section \<open>The acceptor\<close>

definition stage_if_exists ::
  "stager_cfg \<Rightarrow> Table \<Rightarrow> Mutation list \<Rightarrow> ('e, 's) world \<Rightarrow> ('e dec_error, Mutation list) result \<times> ('e, 's) world" where
  "stage_if_exists cfg table muts w =
     (case StageIfExists (sg_gzip cfg) (next_fate w) muts (staged w table) of
        (tbl, r) \<Rightarrow> (map_sum StageFailed id r,
          w\<lparr>wo_staging := (wo_staging w)(Table_Canonical table := tbl), wo_fates := tl (wo_fates w)\<rparr>))"

text \<open>The task of one mutation; \<open>poisonedKeys\<close> is shared between the tasks.\<close>

definition singleton_task ::
  "stager_cfg \<Rightarrow> (TableBatch, 'e, 's) accept \<Rightarrow> TableBatch \<Rightarrow> Mutation \<Rightarrow> string set \<times> ('e, 's) world
   \<Rightarrow> 'e dec_error option \<times> string set \<times> ('e, 's) world" where
  "singleton_task cfg delegate batch mut st =
     (case st of (poisonedKeys, w) \<Rightarrow>
        if mut_Key mut \<in> poisonedKeys then
          (case stage_call cfg (tb_Table batch) [mut] w of (err, w') \<Rightarrow> (err, poisonedKeys, w'))
        else
          (case delegate ((TableBatch_Empty batch)\<lparr>tb_Data := [mut]\<rparr>) w of
             (None, w') \<Rightarrow> (None, poisonedKeys, w')
           | (Some _, w') \<Rightarrow>
               (case stage_call cfg (tb_Table batch) [mut] w' of (err, w'') \<Rightarrow> (err, insert (mut_Key mut) poisonedKeys, w''))))"

text \<open>The tasks in the order in which they run. Every task runs; an error of one of them is the result.\<close>

fun run_tasks ::
  "stager_cfg \<Rightarrow> (TableBatch, 'e, 's) accept \<Rightarrow> TableBatch \<Rightarrow> Mutation list \<Rightarrow> string set \<times> ('e, 's) world
   \<Rightarrow> 'e dec_error option \<times> string set \<times> ('e, 's) world" where
  "run_tasks cfg delegate batch [] st = (None, st)"
| "run_tasks cfg delegate batch (mut # muts) st =
     (case singleton_task cfg delegate batch mut st of
        (err, st1) \<Rightarrow>
          (case run_tasks cfg delegate batch muts st1 of (err', st2) \<Rightarrow> (if err \<noteq> None then err else err', st2)))"

definition besteffort_AcceptTableBatch ::
  "'e dec_env \<Rightarrow> stager_cfg \<Rightarrow> (Mutation list \<Rightarrow> Mutation list) \<Rightarrow> (TableBatch, 'e, 's) accept \<Rightarrow> (TableBatch, 'e, 's) accept" where
  "besteffort_AcceptTableBatch env cfg order delegate batch w =
     (if length (tb_Data batch) = 0 then (None, w)
      else case de_get env (tb_Table batch) of
        Some e \<Rightarrow> (Some (Db e), w)
      | None \<Rightarrow>
          (case stage_if_exists cfg (tb_Table batch) (tb_Data batch) w of
             (Inl e, w1) \<Rightarrow> (Some e, w1)
           | (Inr attempt, w1) \<Rightarrow>
               if length attempt = 0 then (None, w1)
               else
                 let batch' = (TableBatch_Empty batch)\<lparr>tb_Data := attempt\<rparr>
                 in case delegate batch' w1 of
                      (None, w2) \<Rightarrow> (None, w2)
                    | (Some _, w2) \<Rightarrow>
                        (case run_tasks cfg delegate batch' (order attempt) ({}, w2) of (err, _, w3) \<Rightarrow> (err, w3))))"

section \<open>Recording the calls of the delegate\<close>

text \<open>
  The delegate is an arbitrary function. \<open>recording\<close> wraps it: the wrapped delegate does what the delegate does and
  keeps, beside the state of the target, the batches it was called with and what it answered. Running an acceptor on
  the wrapped delegate shows the calls that it makes; \<open>with_log\<close> is a world with such a log.
\<close>

type_synonym 'e calls = "(TableBatch \<times> 'e dec_error option) list"

definition with_log :: "('e, 's) world \<Rightarrow> 'e calls \<Rightarrow> ('e, 's \<times> 'e calls) world" where
  "with_log w log = \<lparr>wo_target = (wo_target w, log), wo_staging = wo_staging w, wo_fates = wo_fates w\<rparr>"

definition recording :: "(TableBatch, 'e, 's) accept \<Rightarrow> (TableBatch, 'e, 's \<times> 'e calls) accept" where
  "recording delegate b w =
     (case delegate b \<lparr>wo_target = fst (wo_target w), wo_staging = wo_staging w, wo_fates = wo_fates w\<rparr> of
        (err, w') \<Rightarrow> (err, with_log w' (snd (wo_target w) @ [(b, err)])))"

lemma recording_with_log:
  "delegate b w = (err, w') \<Longrightarrow> recording delegate b (with_log w log) = (err, with_log w' (log @ [(b, err)]))"
  by (cases w) (simp add: recording_def with_log_def)

lemma stage_call_with_log:
  "stage_call cfg t ms w = (err, w') \<Longrightarrow> stage_call cfg t ms (with_log w log) = (err, with_log w' log)"
  by (auto simp: stage_call_def with_log_def staged_def cong: if_cong split: prod.splits)

lemma stage_if_exists_with_log:
  "stage_if_exists cfg t ms w = (r, w') \<Longrightarrow> stage_if_exists cfg t ms (with_log w log) = (r, with_log w' log)"
  by (auto simp: stage_if_exists_def with_log_def staged_def next_fate_def split: prod.splits)

text \<open>The mutations of the calls that the delegate accepted, and those of one key.\<close>

definition accepted :: "'e calls \<Rightarrow> Mutation list" where
  "accepted calls = concat (map (\<lambda>(b, err). if err = None then tb_Data b else []) calls)"

definition of_key :: "string \<Rightarrow> Mutation list \<Rightarrow> Mutation list" where
  "of_key k ms = filter (\<lambda>m. mut_Key m = k) ms"

definition call_keys :: "TableBatch \<times> 'e dec_error option \<Rightarrow> string set" where
  "call_keys c = mut_Key ` set (tb_Data (fst c))"

text \<open>A key that was refused is not offered again.\<close>

fun refused_once :: "'e calls \<Rightarrow> bool" where
  "refused_once [] = True"
| "refused_once (c # calls) \<longleftrightarrow> (snd c = None \<or> (\<forall>c' \<in> set calls. call_keys c' \<inter> call_keys c = {})) \<and> refused_once calls"

section \<open>What happens to the staging table\<close>

definition in_staging :: "('e, 's) world \<Rightarrow> Table \<Rightarrow> Mutation \<Rightarrow> bool" where
  "in_staging w t m \<longleftrightarrow> st_get (staged w t) (time_key m) \<noteq> None"

text \<open>Rows stay as they are; a new row is unapplied and holds the data of one of the mutations.\<close>

definition staging_grown :: "stager_cfg \<Rightarrow> Table \<Rightarrow> Mutation set \<Rightarrow> ('e, 's) world \<Rightarrow> ('e, 's) world \<Rightarrow> bool" where
  "staging_grown cfg t ms w w' \<longleftrightarrow> (\<forall>p. st_get (staged w' t) p = st_get (staged w t) p
     \<or> st_get (staged w t) p = None \<and> (\<exists>m \<in> ms. time_key m = p \<and> st_get (staged w' t) p = Some (staged_row (pack_one (sg_gzip cfg) m))))"

lemma staging_grown_in: "\<lbrakk>in_staging w t m; staging_grown cfg t ms w w'\<rbrakk> \<Longrightarrow> in_staging w' t m"
  unfolding in_staging_def staging_grown_def by metis

lemma staging_grown_trans: "\<lbrakk>staging_grown cfg t A w w1; staging_grown cfg t B w1 w2; A \<union> B \<subseteq> C\<rbrakk> \<Longrightarrow> staging_grown cfg t C w w2"
  unfolding staging_grown_def by (metis UnCI subsetD)

lemma staging_grown_same: "wo_staging w' = wo_staging w \<Longrightarrow> staging_grown cfg t ms w w'"
  by (simp add: staging_grown_def staged_def)

lemma stage_one:
  assumes "stage_call cfg t [m] w = (None, w')" and cfg: "\<And>ws. mset (sg_reorder cfg ws) = mset ws" "0 < sg_batchSize cfg"
    and m: "valid_time (mut_Time m) \<and> mut_Key m \<noteq> []"
  shows "staging_grown cfg t {m} w w'" "in_staging w' t m"
proof -
  let ?f = "\<lambda>b. if b < length (wo_fates w) then wo_fates w ! b else Returns"
  obtain tbl e where s: "Stage (sg_batchSize cfg) (sg_gzip cfg) True (sg_reorder cfg) ?f [m] (staged w t) = (tbl, e)" by (rule prod.exhaust)
  then have e: "e = None" and w': "staged w' t = tbl" using assms(1) by (auto simp: stage_call_def staged_def)
  have v: "\<forall>m \<in> set [m]. valid_time (mut_Time m) \<and> mut_Key m \<noteq> []" using m by simp
  have get: "st_get (staged w' t) p = (case st_get (staged w t) p of
      Some r \<Rightarrow> Some r | None \<Rightarrow> map_option (staged_row \<circ> pack_one (sg_gzip cfg)) (last_with p [m]))" for p
    unfolding w' by (rule Stage_result [OF s [unfolded e] v cfg])
  have last: "last_with p [m] = (if time_key m = p then Some m else None)" for p by (simp add: last_with_def)
  show "staging_grown cfg t {m} w w'" unfolding staging_grown_def get last by (auto split: option.splits)
  show "in_staging w' t m" unfolding in_staging_def get last by (auto split: option.splits)
qed

section \<open>Order and completeness\<close>

text \<open>Of each key a prefix is in the log and the rest is staged.\<close>

definition applied_prefix :: "('e, 's) world \<Rightarrow> Table \<Rightarrow> Mutation list \<Rightarrow> Mutation list \<Rightarrow> bool" where
  "applied_prefix w t log ms \<longleftrightarrow>
     (\<forall>k. \<exists>n. of_key k log = take n (of_key k ms) \<and> (\<forall>m \<in> set (drop n (of_key k ms)). in_staging w t m))"

lemma applied_prefix_skip:
  assumes "applied_prefix w t log ms" "in_staging w t m" "of_key (mut_Key m) log = []"
  shows "applied_prefix w t log (m # ms)"
  unfolding applied_prefix_def
proof
  fix k
  obtain n where n: "of_key k log = take n (of_key k ms)" "\<forall>x \<in> set (drop n (of_key k ms)). in_staging w t x"
    using assms(1) by (auto simp: applied_prefix_def)
  show "\<exists>n. of_key k log = take n (of_key k (m # ms)) \<and> (\<forall>x \<in> set (drop n (of_key k (m # ms))). in_staging w t x)"
  proof (cases "k = mut_Key m")
    case True
    then have "set (of_key k ms) = set (drop n (of_key k ms))" using n(1) assms(3) by (cases "of_key k ms"; cases n) auto
    then show ?thesis using n(2) assms(2,3) True by (intro exI [of _ 0]) (auto simp: of_key_def)
  next
    case False
    then show ?thesis using n by (intro exI [of _ n]) (simp add: of_key_def)
  qed
qed

lemma applied_prefix_apply:
  assumes "applied_prefix w t log ms"
  shows "applied_prefix w t (m # log) (m # ms)"
  unfolding applied_prefix_def
proof
  fix k
  obtain n where n: "of_key k log = take n (of_key k ms)" "\<forall>x \<in> set (drop n (of_key k ms)). in_staging w t x"
    using assms by (auto simp: applied_prefix_def)
  then show "\<exists>n. of_key k (m # log) = take n (of_key k (m # ms)) \<and> (\<forall>x \<in> set (drop n (of_key k (m # ms))). in_staging w t x)"
    by (cases "k = mut_Key m") (auto simp: of_key_def intro: exI [of _ "Suc n"] exI [of _ n])
qed

lemma applied_prefix_pending:
  assumes attempt: "attempt = filter (\<lambda>m. \<not> pending_key tbl (mut_Key m)) ms"
    and pre: "applied_prefix w t log attempt" and st: "\<forall>m \<in> set ms. pending_key tbl (mut_Key m) \<longrightarrow> in_staging w t m"
  shows "applied_prefix w t log ms"
  unfolding applied_prefix_def
proof
  fix k
  obtain n where n: "of_key k log = take n (of_key k attempt)" "\<forall>m \<in> set (drop n (of_key k attempt)). in_staging w t m"
    using pre by (auto simp: applied_prefix_def)
  show "\<exists>n. of_key k log = take n (of_key k ms) \<and> (\<forall>m \<in> set (drop n (of_key k ms)). in_staging w t m)"
  proof (cases "pending_key tbl k")
    case True
    then have "of_key k attempt = []" by (auto simp: attempt of_key_def filter_empty_conv)
    then show ?thesis using n(1) st True by (intro exI [of _ 0]) (auto simp: of_key_def)
  next
    case False
    then have "of_key k attempt = of_key k ms" by (auto simp: attempt of_key_def intro: filter_cong)
    then show ?thesis using n by auto
  qed
qed

text \<open>One task: it stages its mutation, without a call or after a refused one, or its call is accepted.\<close>

lemma singleton_task_cases:
  assumes "singleton_task cfg delegate batch m (P, w) = (None, P1, w1)"
    and cfg: "\<And>ws. mset (sg_reorder cfg ws) = mset ws" "0 < sg_batchSize cfg"
    and keeps: "\<And>b u. wo_staging (snd (delegate b u)) = wo_staging u"
    and m: "valid_time (mut_Time m) \<and> mut_Key m \<noteq> []"
  obtains (staged) calls where "P1 = insert (mut_Key m) P" "staging_grown cfg (tb_Table batch) {m} w w1" "in_staging w1 (tb_Table batch) m"
      "calls = [] \<or> mut_Key m \<notin> P \<and> (\<exists>e. calls = [((TableBatch_Empty batch)\<lparr>tb_Data := [m]\<rparr>, Some e)])"
      "\<And>l. singleton_task cfg (recording delegate) batch m (P, with_log w l) = (None, P1, with_log w1 (l @ calls))"
  | (applied) "P1 = P" "mut_Key m \<notin> P" "staging_grown cfg (tb_Table batch) {} w w1"
      "\<And>l. singleton_task cfg (recording delegate) batch m (P, with_log w l)
         = (None, P1, with_log w1 (l @ [((TableBatch_Empty batch)\<lparr>tb_Data := [m]\<rparr>, None)]))"
proof (cases "mut_Key m \<in> P")
  case True
  then have s: "stage_call cfg (tb_Table batch) [m] w = (None, w1)" "P1 = insert (mut_Key m) P"
    using assms(1) by (auto simp: singleton_task_def insert_absorb split: prod.splits)
  show ?thesis
    by (rule staged [of "[]"])
       (use True s stage_one [OF s(1) cfg m] stage_call_with_log [OF s(1)] in \<open>simp_all add: singleton_task_def insert_absorb\<close>)
next
  case False
  let ?b = "(TableBatch_Empty batch)\<lparr>tb_Data := [m]\<rparr>"
  obtain err u where d: "delegate ?b w = (err, u)" by (rule prod.exhaust)
  then have same: "wo_staging u = wo_staging w" using keeps [of ?b w] by simp
  show ?thesis
  proof (cases err)
    case None
    then have "P1 = P" "w1 = u" using assms(1) d False by (simp_all add: singleton_task_def)
    then show ?thesis
      using False None same recording_with_log [of delegate ?b w, OF d] by (intro applied) (simp_all add: singleton_task_def staging_grown_same)
  next
    case (Some e)
    then have s: "stage_call cfg (tb_Table batch) [m] u = (None, w1)" "P1 = insert (mut_Key m) P"
      using assms(1) d False by (auto simp: singleton_task_def split: prod.splits)
    have "staging_grown cfg (tb_Table batch) {m} w w1"
      by (rule staging_grown_trans [OF staging_grown_same [OF same] stage_one(1) [OF s(1) cfg m], of "{}"]) simp
    then show ?thesis
      using False Some s stage_one(2) [OF s(1) cfg m] recording_with_log [of delegate ?b w, OF d] stage_call_with_log [OF s(1)]
      by (intro staged [of "[(?b, Some e)]"]) (simp_all add: singleton_task_def)
  qed
qed

lemma run_tasks_calls:
  assumes "run_tasks cfg delegate batch ms (P, w) = (None, P', w')"
    and cfg: "\<And>ws. mset (sg_reorder cfg ws) = mset ws" "0 < sg_batchSize cfg"
    and keeps: "\<And>b u. wo_staging (snd (delegate b u)) = wo_staging u"
    and valid: "\<forall>m \<in> set ms. valid_time (mut_Time m) \<and> mut_Key m \<noteq> []"
  shows "\<exists>calls. (\<forall>l. run_tasks cfg (recording delegate) batch ms (P, with_log w l) = (None, P', with_log w' (l @ calls)))
    \<and> staging_grown cfg (tb_Table batch) (set ms) w w' \<and> applied_prefix w' (tb_Table batch) (accepted calls) ms
    \<and> refused_once calls \<and> (\<forall>c \<in> set calls. call_keys c \<inter> P = {} \<and> set (tb_Data (fst c)) \<subseteq> set ms)"
  using assms(1) valid
proof (induction ms arbitrary: P w)
  case Nil
  then show ?case
    by (intro exI [of _ "[]"]) (auto simp: staging_grown_def applied_prefix_def of_key_def accepted_def)
next
  case (Cons m ms)
  let ?t = "tb_Table batch" and ?k = "mut_Key m" and ?b = "(TableBatch_Empty batch)\<lparr>tb_Data := [m]\<rparr>"
  obtain P1 w1 where task: "singleton_task cfg delegate batch m (P, w) = (None, P1, w1)"
    and rest: "run_tasks cfg delegate batch ms (P1, w1) = (None, P', w')"
    using Cons.prems(1) by (auto split: prod.splits if_splits)
  obtain calls where IH: "\<And>l. run_tasks cfg (recording delegate) batch ms (P1, with_log w1 l) = (None, P', with_log w' (l @ calls))"
    "staging_grown cfg ?t (set ms) w1 w'" "applied_prefix w' ?t (accepted calls) ms" "refused_once calls"
    "\<forall>c \<in> set calls. call_keys c \<inter> P1 = {} \<and> set (tb_Data (fst c)) \<subseteq> set ms"
    using Cons.IH [OF rest] Cons.prems(2) by auto
  have v: "valid_time (mut_Time m) \<and> mut_Key m \<noteq> []" using Cons.prems(2) by simp
  from task cfg keeps v show ?case
  proof (cases rule: singleton_task_cases)
    case (staged first)
    have keys: "call_keys (?b, e) = {?k}" for e :: "'a dec_error option" by (simp add: call_keys_def)
    have fresh: "?k \<notin> call_keys c" if "c \<in> set calls" for c using IH(5) staged(1) that by blast
    have "mut_Key x \<noteq> ?k" if x: "x \<in> set (accepted calls)" for x
    proof -
      obtain b err where c: "(b, err) \<in> set calls" "x \<in> set (tb_Data b)" using x by (auto simp: accepted_def split: if_splits)
      then have "mut_Key x \<in> call_keys (b, err)" by (simp add: call_keys_def)
      then show ?thesis using fresh [OF c(1)] by auto
    qed
    then have "of_key ?k (accepted calls) = []" by (simp add: of_key_def filter_empty_conv)
    then have "applied_prefix w' ?t (accepted calls) (m # ms)"
      using applied_prefix_skip [OF IH(3) staging_grown_in [OF staged(3) IH(2)]] by simp
    moreover have "accepted (first @ calls) = accepted calls" using staged(4) by (auto simp: accepted_def)
    moreover have "refused_once (first @ calls)" using staged(4) IH(4) fresh by (elim disjE conjE exE) (simp_all add: keys)
    moreover have "\<forall>c \<in> set (first @ calls). call_keys c \<inter> P = {} \<and> set (tb_Data (fst c)) \<subseteq> set (m # ms)"
      using staged(1,4) IH(5) by (auto simp: call_keys_def)
    moreover have "staging_grown cfg ?t (set (m # ms)) w w'" by (rule staging_grown_trans [OF staged(2) IH(2)]) auto
    ultimately show ?thesis using staged(5) IH(1) by (intro exI [of _ "first @ calls"]) simp
  next
    case applied
    have "applied_prefix w' ?t (accepted ((?b, None) # calls)) (m # ms)"
      using applied_prefix_apply [OF IH(3)] by (simp add: accepted_def)
    moreover have "staging_grown cfg ?t (set (m # ms)) w w'" by (rule staging_grown_trans [OF applied(3) IH(2)]) auto
    moreover have "\<forall>c \<in> set ((?b, None) # calls). call_keys c \<inter> P = {} \<and> set (tb_Data (fst c)) \<subseteq> set (m # ms)"
      using applied(1,2) IH(5) by (auto simp: call_keys_def)
    ultimately show ?thesis using applied(4) IH(1,4) by (intro exI [of _ "(?b, None) # calls"]) simp
  qed
qed

text \<open>
  The row of a mutation that was not applied, given the row \<open>old\<close> that its time and key had before: it was there,
  applied, and is unchanged; or it holds the packed data of a mutation of the batch, and it is unapplied unless \<open>old\<close>
  was applied.
\<close>

definition staged_for :: "(string \<Rightarrow> string) \<Rightarrow> Mutation list \<Rightarrow> st_row option \<Rightarrow> st_row \<Rightarrow> bool" where
  "staged_for gzip ms old r \<longleftrightarrow> old = Some r \<and> sr_applied r
     \<or> (\<exists>m \<in> set ms. pack_one gzip m = (sr_time r, sr_key r, sr_mut r, sr_before r)) \<and> (sr_applied r \<longrightarrow> (\<exists>r0. old = Some r0 \<and> sr_applied r0))"

lemma staged_for_new: "m \<in> set ms \<Longrightarrow> staged_for gzip ms old (staged_row (pack_one gzip m))"
  by (cases "pack_one gzip m") (auto simp: staged_for_def)

lemma staged_for_upserted:
  assumes "m \<in> set ms" "st_get tbl (time_key m) = old"
  shows "staged_for gzip ms old (upserted (pack_one gzip m) old)"
proof -
  obtain d b where p: "pack_one gzip m = (mut_Time m, mut_Key m, d, b)" by (simp add: pack_one_def)
  show ?thesis
  proof (cases old)
    case None
    then show ?thesis using staged_for_new [OF assms(1)] p by (metis upserted.simps(2))
  next
    case (Some r)
    then have "pk r = time_key m" using st_get_SomeD assms(2) by blast
    then show ?thesis using Some p assms(1) by (auto simp: staged_for_def pk_def time_key_def intro!: bexI [of _ m])
  qed
qed

lemma staged_for_rest:
  assumes s: "StageIfExists gzip fate ms (staged w t) = (tbl, Inr attempt)" and w1: "staged w1 t = tbl"
    and g: "staging_grown cfg t (set attempt) w1 w'" and gz: "gzip = sg_gzip cfg" and m: "m \<in> set ms" "in_staging w' t m"
  shows "\<exists>r. st_get (staged w' t) (time_key m) = Some r \<and> staged_for gzip ms (st_get (staged w t) (time_key m)) r"
proof -
  let ?p = "time_key m" and ?tbl = "staged w t"
  note res = StageIfExists_result [OF s]
  obtain r where r: "st_get (staged w' t) ?p = Some r" using m(2) by (auto simp: in_staging_def)
  consider (new) m' where "m' \<in> set ms" "r = staged_row (pack_one gzip m')" | (old) "st_get tbl ?p = Some r"
    using g r res(1) unfolding staging_grown_def w1 gz by (metis filter_is_subset option.inject subsetD)
  then have "staged_for gzip ms (st_get ?tbl ?p) r"
  proof cases
    case new
    then show ?thesis by (simp add: staged_for_new)
  next
    case old
    show ?thesis
    proof (cases "find (\<lambda>m. time_key m = ?p \<and> pending_key ?tbl (mut_Key m)) ms")
      case None
      then have "\<not> pending_key ?tbl (mut_Key m)" using m(1) by (auto simp: find_None_iff)
      moreover have "st_get ?tbl ?p = Some r" using old res(2) [of ?p] None by simp
      ultimately show ?thesis
        using st_get_SomeD [of ?tbl ?p r] by (auto simp: staged_for_def pending_key_def pk_def time_key_def)
    next
      case (Some m')
      then have "m' \<in> set ms" "time_key m' = ?p" by (auto simp: find_Some_iff)
      moreover have "r = upserted (pack_one gzip m') (st_get ?tbl ?p)" using old res(2) [of ?p] Some by simp
      ultimately show ?thesis using staged_for_upserted by metis
    qed
  qed
  then show ?thesis using r by blast
qed

text \<open>What the tasks do to the mutations that \<open>StageIfExists\<close> returned, and the call itself to the others, together.\<close>

lemma applied_or_staged:
  assumes s: "StageIfExists (sg_gzip cfg) fate ms (staged w t) = (tbl, Inr attempt)" and w1: "staged w1 t = tbl"
    and g: "staging_grown cfg t (set attempt) w1 w'" and pre: "applied_prefix w' t log attempt"
  shows "\<exists>n. of_key k log = take n (of_key k ms) \<and> (\<forall>m \<in> set (drop n (of_key k ms)). \<exists>r. st_get (staged w' t) (time_key m) = Some r
    \<and> staged_for (sg_gzip cfg) ms (st_get (staged w t) (time_key m)) r)"
proof -
  have "in_staging w1 t m" if "m \<in> set ms" "pending_key (staged w t) (mut_Key m)" for m
    using StageIfExists_result(2) [OF s, of "time_key m"] that w1
    by (auto simp: in_staging_def find_None_iff split: option.splits)
  then have "\<forall>m \<in> set ms. pending_key (staged w t) (mut_Key m) \<longrightarrow> in_staging w' t m" using staging_grown_in g by blast
  from applied_prefix_pending [OF StageIfExists_result(1) [OF s] pre this] obtain n
    where n: "of_key k log = take n (of_key k ms)" "\<forall>m \<in> set (drop n (of_key k ms)). in_staging w' t m"
    unfolding applied_prefix_def by blast
  have "m \<in> set ms" if "m \<in> set (drop n (of_key k ms))" for m using in_set_dropD [OF that] by (simp add: of_key_def)
  then show ?thesis using n staged_for_rest [OF s w1 g refl] by (intro exI [of _ n]) blast
qed

text \<open>The acceptor after \<open>StageIfExists\<close>.\<close>

lemma besteffort_attempt:
  assumes "besteffort_AcceptTableBatch env cfg order delegate batch w = (None, w')" "tb_Data batch \<noteq> []"
  obtains attempt w1 where "stage_if_exists cfg (tb_Table batch) (tb_Data batch) w = (Inr attempt, w1)" "de_get env (tb_Table batch) = None"
    "attempt = [] \<and> w' = w1
     \<or> attempt \<noteq> [] \<and> delegate ((TableBatch_Empty batch)\<lparr>tb_Data := attempt\<rparr>) w1 = (None, w')
     \<or> (\<exists>e w2 P. attempt \<noteq> [] \<and> delegate ((TableBatch_Empty batch)\<lparr>tb_Data := attempt\<rparr>) w1 = (Some e, w2)
          \<and> run_tasks cfg delegate ((TableBatch_Empty batch)\<lparr>tb_Data := attempt\<rparr>) (order attempt) ({}, w2) = (None, P, w'))"
proof -
  have none: "de_get env (tb_Table batch) = None"
    using assms by (auto simp: besteffort_AcceptTableBatch_def split: option.splits)
  obtain attempt w1 where s: "stage_if_exists cfg (tb_Table batch) (tb_Data batch) w = (Inr attempt, w1)"
    using assms none by (auto simp: besteffort_AcceptTableBatch_def split: prod.splits sum.splits)
  show thesis
    by (rule that [OF s none]) (use assms none s in \<open>auto simp: besteffort_AcceptTableBatch_def Let_def split: prod.splits option.splits if_splits\<close>)
qed

lemma of_key_set: "(\<And>k. of_key k xs = of_key k ys) \<Longrightarrow> set xs = set ys"
proof -
  assume "\<And>k. of_key k xs = of_key k ys"
  then have "x \<in> set (of_key (mut_Key x) xs) \<longleftrightarrow> x \<in> set (of_key (mut_Key x) ys)" for x by simp
  then show "set xs = set ys" by (auto simp: of_key_def)
qed

text \<open>
  C9: the best-effort acceptor, on any delegate that leaves the staging tables alone, loses nothing and keeps the
  mutations of a key in order. When it returns without an error, the calls that it made (as the recorded run shows
  them, which ends in the same world) are such that of the mutations of every key in the batch the accepted calls
  have a prefix, in order and each once; the time and key of each of the rest have a row in the staging table with the
  data of that mutation (of one with the same time and key, when there are several), or one that was applied before
  the call. After the first call, which offers the whole batch, a key that was refused is not offered again; and no
  mutation whose key had a pending mutation is offered at all.
\<close>

theorem best_effort_keeps_key_order:
  assumes acc: "besteffort_AcceptTableBatch env cfg order delegate batch w = (None, w')"
    and keeps: "\<And>b u. wo_staging (snd (delegate b u)) = wo_staging u"
    and order: "\<And>xs k. of_key k (order xs) = of_key k xs"
    and cfg: "\<And>ws. mset (sg_reorder cfg ws) = mset ws" "0 < sg_batchSize cfg"
    and valid: "\<forall>m \<in> set (tb_Data batch). valid_time (mut_Time m) \<and> mut_Key m \<noteq> []"
  shows "\<exists>calls. besteffort_AcceptTableBatch env cfg order (recording delegate) batch (with_log w []) = (None, with_log w' calls)
    \<and> (\<forall>k. \<exists>n. of_key k (accepted calls) = take n (of_key k (tb_Data batch))
          \<and> (\<forall>m \<in> set (drop n (of_key k (tb_Data batch))). \<exists>r. st_get (staged w' (tb_Table batch)) (time_key m) = Some r
               \<and> staged_for (sg_gzip cfg) (tb_Data batch) (st_get (staged w (tb_Table batch)) (time_key m)) r))
    \<and> refused_once (tl calls)
    \<and> (\<forall>c \<in> set calls. \<forall>m \<in> set (tb_Data (fst c)). \<not> pending_key (staged w (tb_Table batch)) (mut_Key m))"
proof (cases "tb_Data batch = []")
  case True
  then show ?thesis using acc by (intro exI [of _ "[]"]) (auto simp: besteffort_AcceptTableBatch_def of_key_def accepted_def)
next
  case False
  let ?t = "tb_Table batch" and ?ms = "tb_Data batch"
  from acc False obtain attempt w1 where s: "stage_if_exists cfg ?t ?ms w = (Inr attempt, w1)" and none: "de_get env ?t = None"
    and out: "attempt = [] \<and> w' = w1
     \<or> attempt \<noteq> [] \<and> delegate ((TableBatch_Empty batch)\<lparr>tb_Data := attempt\<rparr>) w1 = (None, w')
     \<or> (\<exists>e w2 P. attempt \<noteq> [] \<and> delegate ((TableBatch_Empty batch)\<lparr>tb_Data := attempt\<rparr>) w1 = (Some e, w2)
          \<and> run_tasks cfg delegate ((TableBatch_Empty batch)\<lparr>tb_Data := attempt\<rparr>) (order attempt) ({}, w2) = (None, P, w'))"
    by (rule besteffort_attempt)
  let ?b = "(TableBatch_Empty batch)\<lparr>tb_Data := attempt\<rparr>"
  obtain tbl where tbl: "StageIfExists (sg_gzip cfg) (next_fate w) ?ms (staged w ?t) = (tbl, Inr attempt)" "staged w1 ?t = tbl"
    using s by (auto simp: stage_if_exists_def staged_def split: prod.splits sum.splits) (metis Inl_Inr_False map_sum.simps old.sum.exhaust sum.inject(2) id_apply)
  note sp = StageIfExists_result(1) [OF tbl(1)]
  have recorded: "besteffort_AcceptTableBatch env cfg order (recording delegate) batch (with_log w []) = (None, with_log w' calls)
      \<Longrightarrow> staging_grown cfg ?t (set attempt) w1 w' \<Longrightarrow> applied_prefix w' ?t (accepted calls) attempt \<Longrightarrow> refused_once (tl calls)
      \<Longrightarrow> \<forall>c \<in> set calls. set (tb_Data (fst c)) \<subseteq> set attempt \<Longrightarrow> ?thesis" for calls
    using sp by (intro exI [of _ calls] conjI allI applied_or_staged [OF tbl]) auto
  note run = besteffort_AcceptTableBatch_def none stage_if_exists_with_log [OF s]
  from out show ?thesis
  proof (elim disjE conjE exE)
    assume "attempt = []" "w' = w1"
    then show ?thesis
      by (intro recorded [of "[]"]) (simp_all add: run False staging_grown_def applied_prefix_def of_key_def accepted_def)
  next
    assume a: "attempt \<noteq> []" "delegate ?b w1 = (None, w')"
    then have "wo_staging w' = wo_staging w1" using keeps [of ?b w1] by simp
    moreover have "applied_prefix w' ?t attempt attempt"
      unfolding applied_prefix_def by (intro allI exI [of _ "length attempt"]) (simp add: of_key_def)
    ultimately show ?thesis using a recording_with_log [of delegate ?b w1, OF a(2)] False
      by (intro recorded [of "[(?b, None)]"]) (simp_all add: run staging_grown_same accepted_def)
  next
    fix e w2 P assume a: "attempt \<noteq> []" "delegate ?b w1 = (Some e, w2)"
      and r: "run_tasks cfg delegate ?b (order attempt) ({}, w2) = (None, P, w')"
    have same: "wo_staging w2 = wo_staging w1" using keeps [of ?b w1] a(2) by simp
    have ord: "set (order attempt) = set attempt" by (rule of_key_set) (rule order)
    have "\<forall>m \<in> set (order attempt). valid_time (mut_Time m) \<and> mut_Key m \<noteq> []" using valid sp ord by auto
    from run_tasks_calls [OF r cfg keeps this] obtain calls
      where c: "\<And>l. run_tasks cfg (recording delegate) ?b (order attempt) ({}, with_log w2 l) = (None, P, with_log w' (l @ calls))"
        "staging_grown cfg ?t (set attempt) w2 w'" "applied_prefix w' ?t (accepted calls) (order attempt)" "refused_once calls"
        "\<forall>c \<in> set calls. set (tb_Data (fst c)) \<subseteq> set attempt"
      unfolding ord by (auto simp: TableBatch_Empty_def)
    have "staging_grown cfg ?t (set attempt) w1 w'" by (rule staging_grown_trans [OF staging_grown_same [OF same, of _ _ "{}"] c(2)]) simp
    moreover have "applied_prefix w' ?t (accepted calls) attempt" using c(3) by (simp add: applied_prefix_def order)
    ultimately show ?thesis using a(1) recording_with_log [of delegate ?b w1, OF a(2)] c(1,4,5) False
      by (intro recorded [of "(?b, Some e) # calls"]) (simp_all add: run accepted_def)
  qed
qed

section \<open>The target cannot make the acceptor fail\<close>

lemma stage_call_calm:
  assumes "wo_fates w = []" "valid_time (mut_Time m) \<and> mut_Key m \<noteq> []" "0 < sg_batchSize cfg"
  shows "\<exists>w'. stage_call cfg t [m] w = (None, w') \<and> wo_fates w' = []"
proof -
  have "\<forall>m \<in> set [m]. valid_time (mut_Time m) \<and> mut_Key m \<noteq> []" using assms(2) by simp
  from Stage_returns [OF this assms(3), where 'e = 'a] obtain tbl
    where "Stage (sg_batchSize cfg) (sg_gzip cfg) True (sg_reorder cfg) (\<lambda>_. Returns :: 'a fate) [m] (staged w t) = (tbl, None)" by blast
  then show ?thesis using assms(1) by (simp add: stage_call_def)
qed

lemma run_tasks_calm:
  assumes calm: "\<And>b u. wo_fates (snd (delegate b u)) = wo_fates u" and size: "0 < sg_batchSize cfg"
  shows "\<lbrakk>wo_fates w = []; \<forall>m \<in> set ms. valid_time (mut_Time m) \<and> mut_Key m \<noteq> []\<rbrakk>
    \<Longrightarrow> \<exists>P' w'. run_tasks cfg delegate batch ms (P, w) = (None, P', w')"
proof (induction ms arbitrary: P w)
  case (Cons m ms)
  let ?b = "(TableBatch_Empty batch)\<lparr>tb_Data := [m]\<rparr>"
  have v: "valid_time (mut_Time m) \<and> mut_Key m \<noteq> []" using Cons.prems(2) by simp
  have "\<exists>P1 w1. singleton_task cfg delegate batch m (P, w) = (None, P1, w1) \<and> wo_fates w1 = []"
  proof (cases "mut_Key m \<in> P")
    case True
    then show ?thesis using stage_call_calm [OF Cons.prems(1) v size, of "tb_Table batch"] by (auto simp: singleton_task_def)
  next
    case False
    obtain err u where d: "delegate ?b w = (err, u)" by (rule prod.exhaust)
    then have "wo_fates u = []" using calm [of ?b w] Cons.prems(1) by simp
    then show ?thesis using False d stage_call_calm [OF _ v size, of u "tb_Table batch"] by (cases err) (auto simp: singleton_task_def)
  qed
  then obtain P1 w1 where t: "singleton_task cfg delegate batch m (P, w) = (None, P1, w1)" "wo_fates w1 = []" by blast
  then show ?case using Cons.IH [OF t(2), of P1] Cons.prems(2) by auto
qed simp

text \<open>
  While the staging database answers, and no two mutations of the batch have one time and key, the acceptor returns
  without an error whatever the target answers.
\<close>

theorem best_effort_returns:
  assumes "wo_fates w = []" "\<And>b u. wo_fates (snd (delegate b u)) = wo_fates u" "\<And>xs. set (order xs) = set xs" "0 < sg_batchSize cfg"
    and "de_get env (tb_Table batch) = None" "distinct (map time_key (tb_Data batch))"
    and valid: "\<forall>m \<in> set (tb_Data batch). valid_time (mut_Time m) \<and> mut_Key m \<noteq> []"
  shows "\<exists>w'. besteffort_AcceptTableBatch env cfg order delegate batch w = (None, w')"
proof -
  let ?t = "tb_Table batch" and ?ms = "tb_Data batch"
  have "map args_pk (packArgs (sg_gzip cfg) ?ms) = map time_key ?ms" by (simp add: packArgs_def)
  then have d: "distinct (map args_pk (filter (\<lambda>a. pending_key (staged w ?t) (args_key a)) (packArgs (sg_gzip cfg) ?ms)))"
    using assms(6) by (metis distinct_map_filter)
  obtain tbl attempt where s: "StageIfExists (sg_gzip cfg) (next_fate w) ?ms (staged w ?t) = (tbl, Inr attempt)"
    using assms(1) d by (cases "stageIfExistsTemplate (packArgs (sg_gzip cfg) ?ms) (staged w ?t)") (auto simp: StageIfExists_def next_fate_def Let_def)
  define w1 where "w1 = w\<lparr>wo_staging := (wo_staging w)(Table_Canonical ?t := tbl), wo_fates := tl (wo_fates w)\<rparr>"
  have s1: "stage_if_exists cfg ?t ?ms w = (Inr attempt, w1)" using s by (simp add: stage_if_exists_def w1_def)
  let ?b = "(TableBatch_Empty batch)\<lparr>tb_Data := attempt\<rparr>"
  obtain err w2 where d2: "delegate ?b w1 = (err, w2)" by (rule prod.exhaust)
  have f2: "wo_fates w2 = []" using assms(2) [of ?b w1] d2 assms(1) by (simp add: w1_def)
  have "\<forall>m \<in> set (order attempt). valid_time (mut_Time m) \<and> mut_Key m \<noteq> []"
    using valid assms(3) StageIfExists_result(1) [OF s] by auto
  from run_tasks_calm [of delegate, OF assms(2,4) f2 this] obtain P w3 where "run_tasks cfg delegate ?b (order attempt) ({}, w2) = (None, P, w3)" by blast
  then show ?thesis using s1 d2 assms(5) by (cases err) (auto simp: besteffort_AcceptTableBatch_def Let_def)
qed

text \<open>
  Witness for C9: one key is pending. The target applies the first mutation of a batch of several and then fails, and
  it refuses one key.
\<close>

definition demo_delegate :: "(TableBatch, string, Mutation list) accept" where
  "demo_delegate b w =
     (if length (tb_Data b) > 1 then (Some (Db ''failed''), w\<lparr>wo_target := wo_target w @ take 1 (tb_Data b)\<rparr>)
      else if list_ex (\<lambda>m. mut_Key m = ''[2]'') (tb_Data b) then (Some (Db ''refused''), w)
      else (None, w\<lparr>wo_target := wo_target w @ tb_Data b\<rparr>))"

definition demo_effort :: TableBatch where
  "demo_effort = \<lparr>tb_Data = [demo_mut ''[1]'' 2, demo_mut ''[3]'' 2, demo_mut ''[2]'' 2, demo_mut ''[1]'' 4, demo_mut ''[2]'' 3],
     tb_Table = demo_table ''t'', tb_Time = Time 2 0\<rparr>"

definition demo_stager :: stager_cfg where
  "demo_stager = \<lparr>sg_batchSize = 1, sg_gzip = id, sg_reorder = rev\<rparr>"

definition demo_pending :: "(string, Mutation list) world" where
  "demo_pending = \<lparr>wo_target = [], wo_staging = (\<lambda>_. [staged_row (pack_one id (demo_mut ''[3]'' 1))]), wo_fates = []\<rparr>"

theorem best_effort_keeps_key_order_witness:
  "\<exists>w' calls. besteffort_AcceptTableBatch calm_env demo_stager id demo_delegate demo_effort demo_pending = (None, w')
    \<and> besteffort_AcceptTableBatch calm_env demo_stager id (recording demo_delegate) demo_effort (with_log demo_pending []) = (None, with_log w' calls)
    \<and> refused_once (tl calls) \<and> (\<exists>n. of_key ''[1]'' (accepted calls) = take n [demo_mut ''[1]'' 2, demo_mut ''[1]'' 4])"
proof -
  let ?acc = "besteffort_AcceptTableBatch calm_env demo_stager id demo_delegate demo_effort demo_pending"
  have keeps: "wo_staging (snd (demo_delegate b u)) = wo_staging u" for b u by (simp add: demo_delegate_def)
  have ord: "of_key k (id xs) = of_key k xs" for k xs by simp
  have cfg: "mset (sg_reorder demo_stager ws) = mset ws" "0 < sg_batchSize demo_stager" for ws
    by (simp_all add: demo_stager_def)
  have valid: "\<forall>m \<in> set (tb_Data demo_effort). valid_time (mut_Time m) \<and> mut_Key m \<noteq> []"
    by (simp add: demo_effort_def demo_mut_def valid_time_def)
  have "\<exists>w'. ?acc = (None, w')"
    by (rule best_effort_returns [OF _ _ _ cfg(2) _ _ valid])
       (simp_all add: demo_pending_def demo_delegate_def calm_env_def demo_effort_def demo_mut_def time_key_def)
  then obtain w' where w': "?acc = (None, w')" by blast
  have one: "of_key ''[1]'' (tb_Data demo_effort) = [demo_mut ''[1]'' 2, demo_mut ''[1]'' 4]"
    by (simp add: demo_effort_def of_key_def demo_mut_def)
  from best_effort_keeps_key_order [OF w' keeps ord cfg valid] show ?thesis using w' one by metis
qed

end
