(* ===== verification/Kafka.thy ===== *)
theory Kafka
  imports Batches
begin

text \<open>
  The Kafka source, \<open>src/internal/source/kafka\<close>: the decoding of messages (\<open>payload.go\<close>), the consumer of a claim
  (\<open>consumer.go\<close>), the search for the offset to start from (\<open>offset.go\<close>) and the configuration (\<open>config.go\<close>); with the
  metadata that every source adds to its mutations (\<open>src/internal/script/meta.go\<close>).

  The client library and the conveyor are not part of the source: what they answer comes with the events, and the calls
  they receive are recorded in order.
\<close>

section \<open>Metadata of a mutation\<close>

definition AddMeta :: "string \<Rightarrow> Table \<Rightarrow> Mutation \<Rightarrow> Mutation" where
  "AddMeta source tbl mut =
     (let meta = [(source, GBool True), (''logical'', GInt (Logical (mut_Time mut))),
                  (''nanos'', GInt (Nanos (mut_Time mut))), (''schema'', GString (Schema_Raw (Table_Schema tbl))),
                  (''table'', GString (Ident_Raw (Table_Table tbl)))]
      in mut\<lparr>mut_Meta := fold (\<lambda>(k, v). imap_Put id k v) meta (mut_Meta mut)\<rparr>)"

text \<open>The table of a topic: whatever schema the topic names, the table is in the target schema.\<close>

definition topic_table :: "string \<Rightarrow> Schema \<Rightarrow> (ident_error, Table) result" where
  "topic_table topic target =
     (case ParseTableRelative topic target of
        Inl e \<Rightarrow> Inl e
      | Inr (table, qual) \<Rightarrow> Inr (if qual \<noteq> TableOnly then NewTable target (Table_Table table) else table))"

section \<open>Messages\<close>

record message =
  km_Topic :: string
  km_Partition :: int
  km_Offset :: int
  km_Key :: string
  km_Value :: string

record payload =
  kp_After :: string
  kp_Before :: string
  kp_Resolved :: string
  kp_Updated :: string

text \<open>The JSON decoder is an argument: it ends the input, fails, or fills the fields of the payload.\<close>

datatype 'd decode_error = EOF | Malformed 'd

datatype ('d, 'e) kafka_error =
    CantDecode 'd | BadTime hlc_error | BadTopic ident_error | BadBatch batch_error | ConveyorErr 'e

definition asPayload :: "(string \<Rightarrow> ('d decode_error, payload) result) \<Rightarrow> message \<Rightarrow> (('d, 'e) kafka_error, payload) result" where
  "asPayload decode msg =
     (case decode (km_Value msg) of
        Inr p \<Rightarrow> Inr p
      | Inl EOF \<Rightarrow> Inr \<lparr>kp_After = [], kp_Before = [], kp_Resolved = [], kp_Updated = []\<rparr>
      | Inl (Malformed d) \<Rightarrow> Inl (CantDecode d))"

section \<open>The consumer of a claim\<close>

record Consumer =
  co_batchSize :: int
  co_schema :: Schema
  co_timeRange :: Range

text \<open>
  \<open>accumulate\<close>: the payload, where \<open>None\<close> is the nil pointer that is returned for a mutation outside the time range, and
  the batch.
\<close>

definition accumulate ::
  "(string \<Rightarrow> ('d decode_error, payload) result) \<Rightarrow> Consumer \<Rightarrow> message \<Rightarrow> MultiBatch
   \<Rightarrow> (('d, 'e) kafka_error, payload option \<times> MultiBatch) result" where
  "accumulate decode c msg toProcess =
     (case asPayload decode msg of
        Inl e \<Rightarrow> Inl e
      | Inr p \<Rightarrow>
          if kp_Resolved p \<noteq> [] then Inr (Some p, toProcess)
          else case Parse (kp_Updated p) of
            Inl e \<Rightarrow> Inl (BadTime e)
          | Inr timestamp \<Rightarrow>
              (case topic_table (km_Topic msg) (co_schema c) of
                 Inl e \<Rightarrow> Inl (BadTopic e)
               | Inr table \<Rightarrow>
                   if \<not> Range_Contains (co_timeRange c) timestamp then Inr (None, toProcess)
                   else
                     let mut = AddMeta ''kafka'' table
                                 \<lparr>mut_Before = kp_Before p, mut_Data = kp_After p, mut_Key = km_Key msg, mut_Meta = [],
                                  mut_Time = timestamp\<rparr>
                     in case MultiBatch_Accumulate table mut toProcess of
                          Inl e \<Rightarrow> Inl (BadBatch e)
                        | Inr b \<Rightarrow> Inr (Some p, b)))"

text \<open>The calls that the conveyor and the session receive.\<close>

datatype 'e call =
    CallEnsure "Ident list"
  | CallAdvance Ident Time
  | CallAccept MultiBatch "'e option"
  | CallMark message
  | CallMarkOffset string int int

text \<open>
  What the loop of \<open>ConsumeClaim\<close> receives. A message and a tick carry the answer of the conveyor for the case that a batch is
  flushed.
\<close>

datatype 'e claim_event = Message message "'e option" | Closed | CtxDone | Tick "'e option"

record 'e claim_state =
  cl_toProcess :: MultiBatch
  cl_consumed :: "(string, message) imap"
  cl_done :: "(string, bool) imap"
  cl_calls :: "'e call list"

datatype ('d, 'e) claim_status = Running | Ended "('d, 'e) kafka_error option" | NilPointer

definition partition_name :: "string \<Rightarrow> int \<Rightarrow> string" where
  "partition_name topic part = topic @ ''@'' @ show_int part"

definition call :: "'e call \<Rightarrow> 'e claim_state \<Rightarrow> 'e claim_state" where
  "call x st = st\<lparr>cl_calls := cl_calls st @ [x]\<rparr>"

definition set_done :: "string \<Rightarrow> bool \<Rightarrow> 'e claim_state \<Rightarrow> 'e claim_state" where
  "set_done part done st = st\<lparr>cl_done := imap_Put id part done (cl_done st)\<rparr>"

definition mark_messages :: "'e claim_state \<Rightarrow> 'e claim_state" where
  "mark_messages st = st\<lparr>cl_calls := cl_calls st @ map (CallMark \<circ> snd) (cl_consumed st), cl_consumed := []\<rparr>"

definition accept :: "'e option \<Rightarrow> 'e claim_state \<Rightarrow> 'e option \<times> 'e claim_state" where
  "accept answer st =
     (if MultiBatch_Count (cl_toProcess st) = 0 then (None, st)
      else (answer, call (CallAccept (cl_toProcess st) answer) st))"

definition consume_message :: "message \<Rightarrow> 'e claim_state \<Rightarrow> 'e claim_state" where
  "consume_message msg st =
     st\<lparr>cl_consumed := imap_Put id (partition_name (km_Topic msg) (km_Partition msg)) msg (cl_consumed st)\<rparr>"

definition start_batch :: "'e claim_state \<Rightarrow> 'e claim_state" where
  "start_batch st = st\<lparr>cl_toProcess := MultiBatch_New\<rparr>"

text \<open>A message with a resolved timestamp.\<close>

definition resolved_message ::
  "Consumer \<Rightarrow> message \<Rightarrow> string \<Rightarrow> 'e option \<Rightarrow> 'e claim_state \<Rightarrow> ('d, 'e) claim_status \<times> 'e claim_state" where
  "resolved_message c msg resolved answer st =
     (case Parse resolved of
        Inl e \<Rightarrow> (Ended (Some (BadTime e)), st)
      | Inr timestamp \<Rightarrow>
          let part = partition_name (km_Topic msg) (km_Partition msg) in
          if Compare timestamp (Range_Max (co_timeRange c)) > 0 then (Ended None, set_done part True st)
          else (case accept answer (call (CallAdvance (ident_New part) timestamp) st) of
                  (Some e, st') \<Rightarrow> (Ended (Some (ConveyorErr e)), st')
                | (None, st') \<Rightarrow> (Running, mark_messages (consume_message msg (start_batch st')))))"

definition mutation_message ::
  "Consumer \<Rightarrow> message \<Rightarrow> 'e option \<Rightarrow> 'e claim_state \<Rightarrow> ('d, 'e) claim_status \<times> 'e claim_state" where
  "mutation_message c msg answer st =
     (let st = consume_message msg st in
      if int (MultiBatch_Count (cl_toProcess st)) > co_batchSize c
      then (case accept answer st of
              (Some e, st') \<Rightarrow> (Ended (Some (ConveyorErr e)), st')
            | (None, st') \<Rightarrow> (Running, mark_messages (start_batch st')))
      else (Running, st))"

fun claim_step ::
  "(string \<Rightarrow> ('d decode_error, payload) result) \<Rightarrow> Consumer \<Rightarrow> 'e claim_event \<Rightarrow> 'e claim_state
   \<Rightarrow> ('d, 'e) claim_status \<times> 'e claim_state" where
  "claim_step decode c Closed st = (Ended None, st)"
| "claim_step decode c CtxDone st = (Ended None, st)"
| "claim_step decode c (Tick answer) st =
     (case accept answer st of
        (Some e, st') \<Rightarrow> (Ended (Some (ConveyorErr e)), st')
      | (None, st') \<Rightarrow> (Running, mark_messages (start_batch st')))"
| "claim_step decode c (Message msg answer) st =
     (case accumulate decode c msg (cl_toProcess st) of
        Inl e \<Rightarrow> (Ended (Some e), st)
      | Inr (None, b) \<Rightarrow> (NilPointer, st)
      | Inr (Some p, b) \<Rightarrow>
          let st = st\<lparr>cl_toProcess := b\<rparr> in
          if kp_Resolved p \<noteq> [] then resolved_message c msg (kp_Resolved p) answer st
          else mutation_message c msg answer st)"

fun claim_loop ::
  "(string \<Rightarrow> ('d decode_error, payload) result) \<Rightarrow> Consumer \<Rightarrow> 'e claim_event list \<Rightarrow> 'e claim_state
   \<Rightarrow> ('d, 'e) claim_status \<times> 'e claim_state" where
  "claim_loop decode c [] st = (Running, st)"
| "claim_loop decode c (ev # evs) st =
     (case claim_step decode c ev st of
        (Running, st') \<Rightarrow> claim_loop decode c evs st'
      | (status, st') \<Rightarrow> (status, st'))"

definition ConsumeClaim ::
  "(string \<Rightarrow> ('d decode_error, payload) result) \<Rightarrow> Consumer \<Rightarrow> string \<Rightarrow> int \<Rightarrow> (string, bool) imap \<Rightarrow> 'e claim_event list
   \<Rightarrow> ('d, 'e) claim_status \<times> 'e claim_state" where
  "ConsumeClaim decode c topic part done evs =
     (let name = partition_name topic part in
      claim_loop decode c evs
        (set_done name False
           \<lparr>cl_toProcess = MultiBatch_New, cl_consumed = [], cl_done = done, cl_calls = [CallEnsure [ident_New name]]\<rparr>))"

record partitionState =
  pa_topic :: string
  pa_partition :: int
  pa_offset :: int

definition Setup :: "partitionState list \<Rightarrow> 'e call list \<times> (string, bool) imap" where
  "Setup fromState = (map (\<lambda>m. CallMarkOffset (pa_topic m) (pa_partition m) (pa_offset m)) fromState, [])"

definition allDone :: "(string, bool) imap \<Rightarrow> bool" where
  "allDone done \<longleftrightarrow> list_all snd done"

definition Cleanup :: "(string, bool) imap \<Rightarrow> 'e option \<Rightarrow> 'e option" where
  "Cleanup done ctxErr = (if allDone done then None else ctxErr)"

section \<open>What is marked has been accepted\<close>

text \<open>The mutation that a message carries, if it is in the time range.\<close>

definition message_mut ::
  "(string \<Rightarrow> ('d decode_error, payload) result) \<Rightarrow> Consumer \<Rightarrow> message \<Rightarrow> (Table \<times> Mutation) option" where
  "message_mut decode c msg =
     (case asPayload decode msg :: (('d, unit) kafka_error, payload) result of
        Inl _ \<Rightarrow> None
      | Inr p \<Rightarrow>
          if kp_Resolved p \<noteq> [] then None
          else case (Parse (kp_Updated p), topic_table (km_Topic msg) (co_schema c)) of
            (Inr timestamp, Inr table) \<Rightarrow>
              if Range_Contains (co_timeRange c) timestamp
              then Some (table, AddMeta ''kafka'' table
                     \<lparr>mut_Before = kp_Before p, mut_Data = kp_After p, mut_Key = km_Key msg, mut_Meta = [], mut_Time = timestamp\<rparr>)
              else None
          | _ \<Rightarrow> None)"

definition good_message :: "(string \<Rightarrow> ('d decode_error, payload) result) \<Rightarrow> Consumer \<Rightarrow> message \<Rightarrow> bool" where
  "good_message decode c msg \<longleftrightarrow> (case message_mut decode c msg of None \<Rightarrow> True | Some p \<Rightarrow> good_mut p)"

definition message_muts ::
  "(string \<Rightarrow> ('d decode_error, payload) result) \<Rightarrow> Consumer \<Rightarrow> message list \<Rightarrow> (Table \<times> Mutation) multiset" where
  "message_muts decode c msgs =
     mset (map (\<lambda>p. (Table_Canonical (fst p), snd p)) (List.map_filter (message_mut decode c) msgs))"

fun received :: "'e claim_event list \<Rightarrow> message list" where
  "received [] = []"
| "received (Message msg _ # evs) = msg # received evs"
| "received (_ # evs) = received evs"

fun accepted :: "'e call list \<Rightarrow> (Table \<times> Mutation) multiset" where
  "accepted [] = {#}"
| "accepted (CallAccept b None # calls) = multi_muts b + accepted calls"
| "accepted (_ # calls) = accepted calls"

fun marked :: "'e call list \<Rightarrow> message list" where
  "marked [] = []"
| "marked (CallMark m # calls) = m # marked calls"
| "marked (_ # calls) = marked calls"

lemma accepted_append [simp]: "accepted (xs @ ys) = accepted xs + accepted ys"
  by (induction xs rule: accepted.induct) auto

lemma accepted_marks [simp]: "accepted (map (CallMark \<circ> f) ms) = {#}"
  by (induction ms) auto

lemma message_muts_append [simp]:
  "message_muts decode c (xs @ ys) = message_muts decode c xs + message_muts decode c ys"
  by (simp add: message_muts_def map_filter_def)

lemma message_muts_simps [simp]:
  "message_muts decode c [] = {#}"
  "message_muts decode c [m] = (case message_mut decode c m of None \<Rightarrow> {#} | Some p \<Rightarrow> {#(Table_Canonical (fst p), snd p)#})"
  by (auto simp: message_muts_def map_filter_def split: option.splits)

lemma accumulate_cases:
  assumes "accumulate decode c msg b = Inr (r, b')"
  obtains (skip) "r = None" "b' = b"
    | (resolved) p where "r = Some p" "kp_Resolved p \<noteq> []" "b' = b" "message_mut decode c msg = None"
    | (mutation) p t m where "r = Some p" "kp_Resolved p = []" "message_mut decode c msg = Some (t, m)"
        "MultiBatch_Accumulate t m b = Inr b'"
  using assms
  by (auto simp: accumulate_def message_mut_def asPayload_def Let_def
      split: sum.splits if_splits decode_error.splits)

definition marks_ok ::
  "(string \<Rightarrow> ('d decode_error, payload) result) \<Rightarrow> Consumer \<Rightarrow> message list \<Rightarrow> 'e call list \<Rightarrow> bool" where
  "marks_ok decode c rs calls \<longleftrightarrow>
     (\<forall>us m vs. calls = us @ CallMark m # vs \<longrightarrow>
        (\<exists>ms ns. rs = ms @ m # ns \<and> message_muts decode c (ms @ [m]) \<subseteq># accepted us))"

definition claim_inv ::
  "(string \<Rightarrow> ('d decode_error, payload) result) \<Rightarrow> Consumer \<Rightarrow> message list \<Rightarrow> 'e claim_state \<Rightarrow> bool" where
  "claim_inv decode c rs st \<longleftrightarrow>
     multi_ok (cl_toProcess st)
     \<and> accepted (cl_calls st) + multi_muts (cl_toProcess st) = message_muts decode c rs
     \<and> snd ` set (cl_consumed st) \<subseteq> set rs \<and> marks_ok decode c rs (cl_calls st)"

lemma marks_ok_mono: "marks_ok decode c rs calls \<Longrightarrow> marks_ok decode c (rs @ xs) calls"
  unfolding marks_ok_def by (metis append.assoc append_Cons)

lemma marks_ok_snoc:
  assumes "marks_ok decode c rs calls" "\<And>m. x \<noteq> CallMark m"
  shows "marks_ok decode c rs (calls @ [x])"
  unfolding marks_ok_def
proof (intro allI impI)
  fix us m vs assume "calls @ [x] = us @ CallMark m # vs"
  then have "\<exists>ws. calls = us @ CallMark m # ws" using assms(2)
    by (cases vs rule: rev_cases) auto
  then show "\<exists>ms ns. rs = ms @ m # ns \<and> message_muts decode c (ms @ [m]) \<subseteq># accepted us"
    using assms(1) unfolding marks_ok_def by blast
qed

lemma marks_ok_marks:
  assumes "marks_ok decode c rs calls" "message_muts decode c rs = accepted calls" "snd ` set es \<subseteq> set rs"
  shows "marks_ok decode c rs (calls @ map (CallMark \<circ> snd) es)"
  using assms(3)
proof (induction es rule: rev_induct)
  case (snoc e es)
  let ?calls = "calls @ map (CallMark \<circ> snd) es"
  note IH = snoc.IH and prems = snoc.prems
  show ?case
    unfolding marks_ok_def
  proof (intro allI impI)
    fix us m vs assume split: "calls @ map (CallMark \<circ> snd) (es @ [e]) = us @ CallMark m # vs"
    show "\<exists>ms ns. rs = ms @ m # ns \<and> message_muts decode c (ms @ [m]) \<subseteq># accepted us"
    proof (cases vs rule: rev_cases)
      case Nil
      then have "us = ?calls" "m = snd e" using split by auto
      moreover obtain ms ns where rs: "rs = ms @ snd e # ns" using snoc.prems by (auto dest: split_list)
      moreover have "message_muts decode c (ms @ [snd e]) + message_muts decode c ns = accepted calls"
        using assms(2) unfolding rs message_muts_append [symmetric] by simp
      then have "message_muts decode c (ms @ [snd e]) \<subseteq># accepted calls"
        by (metis mset_subset_eq_add_left)
      ultimately show ?thesis by (intro exI [of _ ms] exI [of _ ns]) simp
    next
      case (snoc ws w)
      then have "?calls = us @ CallMark m # ws" using split by auto
      then show ?thesis using IH prems unfolding marks_ok_def by auto
    qed
  qed
qed (use assms in simp)

lemma claim_inv_accepted:
  "claim_inv decode c rs st \<Longrightarrow> accepted (cl_calls st) \<subseteq># message_muts decode c rs"
  unfolding claim_inv_def by (metis mset_subset_eq_add_left)

lemma accept_inv:
  assumes inv: "claim_inv decode c rs st" and acc: "accept answer st = (err, st')"
  shows "marks_ok decode c rs (cl_calls st') \<and> accepted (cl_calls st') \<subseteq># message_muts decode c rs
    \<and> (err = None \<longrightarrow> claim_inv decode c rs (start_batch st') \<and> accepted (cl_calls st') = message_muts decode c rs)"
proof (cases "MultiBatch_Count (cl_toProcess st) = 0")
  case True
  then have st: "st' = st" "multi_muts (cl_toProcess st) = {#}" using acc by (auto simp: accept_def MultiBatch_Count_muts)
  then show ?thesis using inv by (simp add: claim_inv_def start_batch_def MultiBatch_New_ok)
next
  case False
  then have st: "err = answer" "st' = call (CallAccept (cl_toProcess st) answer) st" using acc by (auto simp: accept_def)
  have "marks_ok decode c rs (cl_calls st')"
    using inv by (auto simp: st call_def claim_inv_def intro!: marks_ok_snoc)
  moreover have "accepted (cl_calls st') \<subseteq># message_muts decode c rs"
    using inv claim_inv_accepted [OF inv] by (cases answer) (auto simp: st call_def claim_inv_def)
  ultimately show ?thesis
    using inv by (auto simp: st call_def claim_inv_def start_batch_def MultiBatch_New_ok)
qed

lemma mark_messages_inv:
  assumes "claim_inv decode c rs st" "accepted (cl_calls st) = message_muts decode c rs"
  shows "claim_inv decode c rs (mark_messages st)"
  using assms by (simp add: claim_inv_def mark_messages_def marks_ok_marks)

lemma consume_message_inv:
  assumes "claim_inv decode c rs st" "msg \<in> set rs"
  shows "claim_inv decode c rs (consume_message msg st)"
proof -
  have "e \<in> set (imap_Put id k msg es) \<Longrightarrow> snd e = msg \<or> e \<in> set es" for e k and es :: "(string, message) imap"
    by (induction es) (auto split: if_splits)
  then show ?thesis using assms by (fastforce simp: claim_inv_def consume_message_def)
qed

lemma message_inv:
  assumes inv: "claim_inv decode c rs st" and good: "good_message decode c msg"
    and acc: "accumulate decode c msg (cl_toProcess st) = Inr (Some p, b)"
  shows "claim_inv decode c (rs @ [msg]) (st\<lparr>cl_toProcess := b\<rparr>)"
  using acc
proof (cases rule: accumulate_cases)
  case (mutation q t m)
  have "multi_ok (cl_toProcess st)" "wf_table t" "valid_time (mut_Time m)" "mut_Time m \<noteq> Zero"
    using inv good mutation by (auto simp: claim_inv_def good_message_def good_mut_def)
  then have "multi_ok b" "multi_muts b = add_mset (Table_Canonical t, m) (multi_muts (cl_toProcess st))"
    using MultiBatch_Accumulate_ok mutation(4) by fastforce+
  then show ?thesis using inv mutation marks_ok_mono by (auto simp: claim_inv_def)
qed (use inv marks_ok_mono in \<open>auto simp: claim_inv_def\<close>)

text \<open>What a step keeps, also when it ends the claim.\<close>

definition step_ok ::
  "(string \<Rightarrow> ('d decode_error, payload) result) \<Rightarrow> Consumer \<Rightarrow> message list \<Rightarrow> ('d, 'e) claim_status \<times> 'e claim_state \<Rightarrow> bool" where
  "step_ok decode c rs r \<longleftrightarrow>
     marks_ok decode c rs (cl_calls (snd r)) \<and> accepted (cl_calls (snd r)) \<subseteq># message_muts decode c rs
     \<and> (fst r = Running \<longrightarrow> claim_inv decode c rs (snd r))"

lemma claim_inv_step_ok: "claim_inv decode c rs st \<Longrightarrow> step_ok decode c rs (status, st)"
  using claim_inv_accepted unfolding step_ok_def claim_inv_def by auto

lemma claim_inv_advance: "claim_inv decode c rs st \<Longrightarrow> claim_inv decode c rs (call (CallAdvance p t) st)"
  by (auto simp: claim_inv_def call_def intro: marks_ok_snoc)

lemma flush_step_ok:
  assumes inv: "claim_inv decode c rs st"
    and k: "\<And>s. claim_inv decode c rs s \<Longrightarrow> accepted (cl_calls s) = message_muts decode c rs \<Longrightarrow> step_ok decode c rs (f s)"
  shows "step_ok decode c rs (case accept answer st of
      (Some e, st') \<Rightarrow> (Ended (Some (ConveyorErr e)), st')
    | (None, st') \<Rightarrow> f (start_batch st'))"
proof -
  obtain err st' where acc: "accept answer st = (err, st')" by (cases "accept answer st")
  note A = accept_inv [OF inv acc]
  show ?thesis
  proof (cases err)
    case None
    then show ?thesis using A k [of "start_batch st'"] by (simp add: acc start_batch_def)
  next
    case (Some e)
    then show ?thesis using A by (simp add: acc step_ok_def)
  qed
qed

lemma resolved_step_ok:
  assumes inv: "claim_inv decode c rs st" and msg: "msg \<in> set rs"
  shows "step_ok decode c rs (resolved_message c msg resolved answer st)"
proof (cases "Parse resolved")
  case (Inr timestamp)
  let ?part = "partition_name (km_Topic msg) (km_Partition msg)"
  show ?thesis
  proof (cases "Compare timestamp (Range_Max (co_timeRange c)) > 0")
    case True
    have "claim_inv decode c rs (set_done ?part True st)" using inv by (simp add: set_done_def claim_inv_def)
    then show ?thesis using True Inr by (simp add: resolved_message_def claim_inv_step_ok)
  next
    case False
    have "step_ok decode c rs (case accept answer (call (CallAdvance (ident_New ?part) timestamp) st) of
        (Some e, st') \<Rightarrow> (Ended (Some (ConveyorErr e)), st')
      | (None, st') \<Rightarrow> (Running, mark_messages (consume_message msg (start_batch st'))))"
    proof (rule flush_step_ok [OF claim_inv_advance [OF inv]])
      fix s :: "'b claim_state" assume s: "claim_inv decode c rs s" "accepted (cl_calls s) = message_muts decode c rs"
      show "step_ok decode c rs (Running, mark_messages (consume_message msg s))"
        using consume_message_inv [OF s(1) msg] s(2)
        by (intro claim_inv_step_ok mark_messages_inv) (simp_all add: consume_message_def)
    qed
    then show ?thesis using False Inr by (simp add: resolved_message_def Let_def)
  qed
qed (use inv in \<open>simp add: resolved_message_def claim_inv_step_ok\<close>)

lemma mutation_step_ok:
  assumes inv: "claim_inv decode c rs st" and msg: "msg \<in> set rs"
  shows "step_ok decode c rs (mutation_message c msg answer st)"
proof -
  note inv' = consume_message_inv [OF inv msg]
  have "step_ok decode c rs (case accept answer (consume_message msg st) of
      (Some e, st') \<Rightarrow> (Ended (Some (ConveyorErr e)), st')
    | (None, st') \<Rightarrow> (Running, mark_messages (start_batch st')))"
    by (rule flush_step_ok [OF inv']) (rule claim_inv_step_ok, rule mark_messages_inv)
  then show ?thesis using claim_inv_step_ok [OF inv'] by (simp add: mutation_message_def Let_def)
qed

lemma claim_step_ok:
  assumes inv: "claim_inv decode c rs st" and good: "list_all (good_message decode c) (received [ev])"
  shows "step_ok decode c (rs @ received [ev]) (claim_step decode c ev st)"
proof (cases ev)
  case (Tick answer)
  have "step_ok decode c rs (claim_step decode c ev st)"
    unfolding Tick claim_step.simps
    by (rule flush_step_ok [OF inv]) (rule claim_inv_step_ok, rule mark_messages_inv)
  then show ?thesis by (simp add: Tick)
next
  case (Message msg answer)
  let ?rs = "rs @ [msg]"
  have stop: "step_ok decode c ?rs (Ended e, st)" "step_ok decode c ?rs (NilPointer, st)" for e
    using inv marks_ok_mono claim_inv_accepted [OF inv] unfolding step_ok_def claim_inv_def
    by (auto simp del: message_muts_simps intro: subset_mset.add_increasing2)
  show ?thesis
  proof (cases "accumulate decode c msg (cl_toProcess st) :: (('a, 'b) kafka_error, payload option \<times> MultiBatch) result")
    case (Inr r)
    obtain po b where r: "r = (po, b)" by force
    show ?thesis
    proof (cases po)
      case (Some p)
      let ?st = "st\<lparr>cl_toProcess := b\<rparr>"
      have inv': "claim_inv decode c ?rs ?st"
        using message_inv [OF inv, of msg p b] Inr r Some good Message by simp
      have "step_ok decode c ?rs (resolved_message c msg resolved answer ?st)" for resolved
        by (rule resolved_step_ok [OF inv']) simp
      moreover have "step_ok decode c ?rs (mutation_message c msg answer ?st)"
        by (rule mutation_step_ok [OF inv']) simp
      ultimately show ?thesis by (simp add: Message Inr r Some Let_def)
    qed (use stop in \<open>simp add: Message Inr r\<close>)
  qed (use stop in \<open>simp add: Message\<close>)
qed (use inv in \<open>simp_all add: claim_inv_step_ok\<close>)

lemma step_ok_mono:
  assumes "step_ok decode c rs (status, st)"
  shows "marks_ok decode c (rs @ xs) (cl_calls st) \<and> accepted (cl_calls st) \<subseteq># message_muts decode c (rs @ xs)"
  using assms marks_ok_mono by (auto simp: step_ok_def intro: subset_mset.add_increasing2)

lemma received_Cons: "received (ev # evs) = received [ev] @ received evs"
  by (cases ev) auto

lemma claim_loop_ok:
  "\<lbrakk>claim_inv decode c rs st; list_all (good_message decode c) (received evs); claim_loop decode c evs st = (status, st')\<rbrakk>
   \<Longrightarrow> marks_ok decode c (rs @ received evs) (cl_calls st')
     \<and> accepted (cl_calls st') \<subseteq># message_muts decode c (rs @ received evs)"
proof (induction evs arbitrary: rs st)
  case Nil
  then show ?case using claim_inv_step_ok [OF Nil.prems(1), of Running] by (simp add: step_ok_def)
next
  case (Cons ev evs)
  have good: "list_all (good_message decode c) (received [ev])" "list_all (good_message decode c) (received evs)"
    using Cons.prems(2) received_Cons [of ev evs] by simp_all
  obtain s st1 where step: "claim_step decode c ev st = (s, st1)" by force
  have ok: "step_ok decode c (rs @ received [ev]) (s, st1)" using claim_step_ok [OF Cons.prems(1) good(1)] step by simp
  show ?case
  proof (cases "s = Running")
    case True
    then have "claim_inv decode c (rs @ received [ev]) st1" using ok by (simp add: step_ok_def)
    from Cons.IH [OF this good(2)] Cons.prems(3) step True show ?thesis by (simp add: received_Cons [of ev evs])
  next
    case False
    then have "st' = st1" using Cons.prems(3) step by (cases s) auto
    then show ?thesis using step_ok_mono [OF ok, of "received evs"] by (simp add: received_Cons [of ev evs])
  qed
qed

section \<open>Properties of the consumer\<close>

text \<open>
  C12: a message of a claim is marked as read only after every mutation of the messages up to it, that is in the time range, has
  been accepted without an error; and nothing is accepted that was not received, nor more often. This holds whatever the messages
  are, whenever the batches are flushed, and also when the claim ends with an error.
\<close>

theorem kafka_marks_accepted:
  assumes "list_all (good_message decode c) (received evs)"
    and "ConsumeClaim decode c topic part done evs = (status, st)"
  shows "(\<forall>us m vs. cl_calls st = us @ CallMark m # vs \<longrightarrow>
      (\<exists>ms ns. received evs = ms @ m # ns \<and> message_muts decode c (ms @ [m]) \<subseteq># accepted us))
    \<and> accepted (cl_calls st) \<subseteq># message_muts decode c (received evs)"
proof -
  let ?st = "set_done (partition_name topic part) False
    \<lparr>cl_toProcess = MultiBatch_New, cl_consumed = [], cl_done = done, cl_calls = [CallEnsure [ident_New (partition_name topic part)]]\<rparr>"
  have "claim_inv decode c [] ?st"
    by (auto simp: claim_inv_def set_done_def MultiBatch_New_ok marks_ok_def Cons_eq_append_conv)
  from claim_loop_ok [OF this assms(1)] assms(2) show ?thesis
    by (simp add: ConsumeClaim_def Let_def marks_ok_def)
qed

text \<open>
  A consumer of a test topic: the value of a message is decoded to the payload that the first character selects.
\<close>

definition demo_decode :: "string \<Rightarrow> (unit decode_error, payload) result" where
  "demo_decode v =
     (case v of
        [] \<Rightarrow> Inl EOF
      | k # ts \<Rightarrow>
          if k = CHR ''R'' then Inr \<lparr>kp_After = [], kp_Before = [], kp_Resolved = ts, kp_Updated = []\<rparr>
          else if k = CHR ''M'' then Inr \<lparr>kp_After = ''{}'', kp_Before = [], kp_Resolved = [], kp_Updated = ts\<rparr>
          else Inl (Malformed ()))"

definition demo_consumer :: Consumer where
  "demo_consumer = \<lparr>co_batchSize = 10, co_schema = Schema (Ident ''db'') NilIdent,
     co_timeRange = RangeExcluding (Time 5 0) (Time 100 0)\<rparr>"

definition demo_message :: "int \<Rightarrow> string \<Rightarrow> message" where
  "demo_message offset v = \<lparr>km_Topic = Ident_String (Ident ''t''), km_Partition = 0, km_Offset = offset, km_Key = ''[1]'', km_Value = v\<rparr>"

lemma demo_Parse: "Parse ''7.0000000000'' = Inr (Time 7 0)"
proof -
  have "''7.0000000000'' = String (Time 7 0)" by code_simp
  then show ?thesis using Parse_String_roundtrip [of "Time 7 0"] by (simp add: clock_time_def valid_time_def MaxInt32_def)
qed

lemma demo_Parse8: "Parse ''8.0000000000'' = Inr (Time 8 0)"
proof -
  have "''8.0000000000'' = String (Time 8 0)" by code_simp
  then show ?thesis using Parse_String_roundtrip [of "Time 8 0"] by (simp add: clock_time_def valid_time_def MaxInt32_def)
qed

lemma topic_table_quoted:
  assumes "nice_ident i"
  shows "topic_table (Ident_String i) target = Inr (NewTable target i)"
proof -
  have "parseDottedIdent (Join Ident_String [i]) = Inr [i]" using assms by (intro parseDottedIdent_Join) simp
  then show ?thesis by (simp add: topic_table_def ParseTableRelative_def)
qed

lemma demo_topic:
  "topic_table (Ident_String (Ident ''t'')) (Schema (Ident ''db'') NilIdent) = Inr (Table (Schema (Ident ''db'') NilIdent) (Ident ''t''))"
  using topic_table_quoted [of "Ident ''t''"] by (simp add: nice_ident_def NewTable_def)

lemma demo_range: "Range_Contains (Range (Time 5 0) (Time 100 0)) (Time 7 0)" 
  by code_simp

lemma demo_cmp: "Compare (Time 8 0) (Time 100 0) = -92" 
  by code_simp

lemma demo_cmp7: "Compare (Time 7 0) (Time 7 0) = 0"
  by code_simp

lemma demo_eq:
  "ident_Equal (IdTable (Table (Schema (Ident ''db'') NilIdent) (Ident ''t''))) (IdTable (Table (Schema (Ident ''db'') NilIdent) (Ident ''t'')))"
  by code_simp

lemmas demo_facts = demo_Parse demo_Parse8 demo_topic demo_range demo_cmp demo_cmp7 demo_eq

text \<open>Witness for C12: a mutation and a resolved timestamp; both messages are marked, in the order of the offsets.\<close>

theorem kafka_marks_accepted_witness:
  "\<exists>status (st :: unit claim_state).
     ConsumeClaim demo_decode demo_consumer ''t'' 0 []
       [Message (demo_message 1 ''M7.0000000000'') None, Tick None, Message (demo_message 2 ''R8.0000000000'') None] = (status, st)
     \<and> map km_Offset (marked (cl_calls st)) = [1, 2]
     \<and> accepted (cl_calls st) \<subseteq>#
         message_muts demo_decode demo_consumer [demo_message 1 ''M7.0000000000'', demo_message 2 ''R8.0000000000'']"
proof -
  let ?evs = "[Message (demo_message 1 ''M7.0000000000'') None, Tick None, Message (demo_message 2 ''R8.0000000000'') (None :: unit option)]"
  obtain status and st :: "unit claim_state" where run: "ConsumeClaim demo_decode demo_consumer ''t'' 0 [] ?evs = (status, st)" by force
  have good: "list_all (good_message demo_decode demo_consumer) (received ?evs)"
    using demo_facts
    by (simp add: good_message_def message_mut_def asPayload_def demo_decode_def demo_message_def demo_consumer_def
        RangeExcluding_def AddMeta_def good_mut_def valid_time_def Zero_def)
  have marks: "map km_Offset (marked (cl_calls (snd (ConsumeClaim demo_decode demo_consumer ''t'' 0 [] ?evs)))) = [1, 2]"
    using demo_facts
    by (simp add: ConsumeClaim_def Let_def set_done_def accumulate_def asPayload_def demo_decode_def demo_message_def
        demo_consumer_def RangeExcluding_def mutation_message_def consume_message_def accept_def call_def mark_messages_def
        start_batch_def resolved_message_def MultiBatch_Accumulate_def MultiBatch_New_def TemporalBatch_Accumulate_def
        TableBatch_Accumulate_def MultiBatch_Count_def temporal_batches_def TemporalBatch_Count_def TableBatch_Count_def
        AddMeta_def Zero_def)
  show ?thesis using run marks kafka_marks_accepted [OF good run] by auto
qed

text \<open>
  A mutation outside of the time range is skipped with a nil payload and no error, and the loop reads a field of that payload: the
  claim panics on the first such message.
\<close>

theorem skipped_mutation_panics:
  assumes "decode (km_Value msg) = Inr p" "kp_Resolved p = []" "Parse (kp_Updated p) = Inr timestamp"
    and "topic_table (km_Topic msg) (co_schema c) = Inr table" "\<not> Range_Contains (co_timeRange c) timestamp"
  shows "claim_step decode c (Message msg answer) st = (NilPointer, st)"
  using assms by (simp add: accumulate_def asPayload_def)

text \<open>
  A resolved timestamp is proposed as a checkpoint before the mutations that precede it in the claim have been accepted. When the
  conveyor refuses the batch, the checkpoint stays although none of its mutations has been accepted.
\<close>

theorem advance_precedes_accept:
  assumes "decode (km_Value msg) = Inr p" "kp_Resolved p \<noteq> []" "Parse (kp_Resolved p) = Inr timestamp"
    and "\<not> Compare timestamp (Range_Max (co_timeRange c)) > 0" "MultiBatch_Count (cl_toProcess st) \<noteq> 0"
  shows "claim_step decode c (Message msg (Some e)) st =
    (Ended (Some (ConveyorErr e)),
     st\<lparr>cl_calls := cl_calls st @
          [CallAdvance (ident_New (partition_name (km_Topic msg) (km_Partition msg))) timestamp,
           CallAccept (cl_toProcess st) (Some e)]\<rparr>)"
  using assms by (simp add: accumulate_def asPayload_def resolved_message_def Let_def accept_def call_def)

text \<open>
  A resolved timestamp beyond the end of the time range ends the claim without an error, and the mutations that have been
  accumulated since the last flush are dropped, although they are inside the range.
\<close>

theorem end_of_range_drops_batch:
  assumes "decode (km_Value msg) = Inr p" "kp_Resolved p \<noteq> []" "Parse (kp_Resolved p) = Inr timestamp"
    and "Compare timestamp (Range_Max (co_timeRange c)) > 0"
  shows "claim_step decode c (Message msg answer) st =
    (Ended None, set_done (partition_name (km_Topic msg) (km_Partition msg)) True st)"
  using assms by (simp add: accumulate_def asPayload_def resolved_message_def Let_def)

text \<open>A message without a value, which the decoder treats as an empty payload, ends the claim with an error.\<close>

theorem empty_message_ends_claim:
  assumes "decode (km_Value msg) = Inl EOF"
  shows "claim_step decode c (Message msg answer) st = (Ended (Some (BadTime (CantParse []))), st)"
  using assms by (simp add: accumulate_def asPayload_def Parse_def)

section \<open>The offset to start from\<close>

definition OffsetNewest :: int where
  "OffsetNewest = - 1"

definition OffsetOldest :: int where
  "OffsetOldest = - 2"

text \<open>What a partition consumer delivers: messages, the end of its channel, or an error.\<close>

datatype 'e part_event = PartMessage message | PartClosed | PartError 'e

datatype ('d, 'e) seek_error = SeekPayload "('d, 'e) kafka_error" | SeekTime hlc_error | ConsumerClosed string | ClientErr 'e

text \<open>The loop of \<open>seekResolved\<close>. \<open>None\<close> is waiting for another event.\<close>

fun seek_loop ::
  "(string \<Rightarrow> ('d decode_error, payload) result) \<Rightarrow> Time \<Rightarrow> string \<Rightarrow> int \<Rightarrow> 'e part_event list \<Rightarrow> int
   \<Rightarrow> (('d, 'e) seek_error, int) result option" where
  "seek_loop decode mn topic mx [] found = None"
| "seek_loop decode mn topic mx (PartClosed # evs) found = Some (Inl (ConsumerClosed topic))"
| "seek_loop decode mn topic mx (PartError e # evs) found = Some (Inl (ClientErr e))"
| "seek_loop decode mn topic mx (PartMessage msg # evs) found =
     (if km_Offset msg > mx then Some (Inr OffsetOldest)
      else case asPayload decode msg of
        Inl e \<Rightarrow> Some (Inl (SeekPayload e))
      | Inr p \<Rightarrow>
          if kp_Resolved p \<noteq> [] then
            (case Parse (kp_Resolved p) of
               Inl e \<Rightarrow> Some (Inl (SeekTime e))
             | Inr timestamp \<Rightarrow>
                 if Compare mn timestamp \<le> 0 then Some (Inr found)
                 else seek_loop decode mn topic mx evs (km_Offset msg))
          else seek_loop decode mn topic mx evs found)"

text \<open>
  The client: offsets by time (\<open>Inl\<close> an error), and the events of a partition consumer that starts at an offset. The answers are
  functions of the number of calls made before, since they change over time.
\<close>

record 'e client =
  ct_Partitions :: "string \<Rightarrow> ('e, int list) result"
  ct_GetOffset :: "nat \<Rightarrow> string \<Rightarrow> int \<Rightarrow> int \<Rightarrow> ('e, int) result"
  ct_Consume :: "nat \<Rightarrow> string \<Rightarrow> int \<Rightarrow> int \<Rightarrow> ('e, 'e part_event list) result"

definition seekResolved ::
  "(string \<Rightarrow> ('d decode_error, payload) result) \<Rightarrow> 'e client \<Rightarrow> nat \<Rightarrow> Time \<Rightarrow> string \<Rightarrow> int \<Rightarrow> int \<Rightarrow> int
   \<Rightarrow> (('d, 'e) seek_error, int) result option" where
  "seekResolved decode cl n mn topic part lo hi =
     (case ct_Consume cl n topic part lo of
        Inl e \<Rightarrow> Some (Inl (ClientErr e))
      | Inr evs \<Rightarrow> seek_loop decode mn topic hi evs OffsetOldest)"

text \<open>
  The loop of \<open>getPartitionOffset\<close>. Every round that goes on makes \<open>last\<close> smaller, and \<open>last\<close> is not negative then, so the loop
  ends whatever the client answers. An offset of the broker is not negative, so \<open>last - 1\<close> does not wrap.
\<close>

function offset_loop ::
  "(string \<Rightarrow> ('d decode_error, payload) result) \<Rightarrow> 'e client \<Rightarrow> int \<Rightarrow> Time \<Rightarrow> string \<Rightarrow> int \<Rightarrow> nat \<Rightarrow> int \<Rightarrow> int
   \<Rightarrow> (('d, 'e) seek_error, int) result option" where
  "offset_loop decode cl interval mn topic part n minMillis lst =
     (case ct_GetOffset cl n topic part minMillis of
        Inl e \<Rightarrow> Some (Inl (ClientErr e))
      | Inr offset \<Rightarrow>
          if offset = OffsetNewest then Some (Inr OffsetNewest)
          else
            let offset = (if offset \<ge> lst then lst - 1 else offset) in
            if offset < 0 then Some (Inr OffsetOldest)
            else case seekResolved decode cl n mn topic part offset lst of
              None \<Rightarrow> None
            | Some (Inl e) \<Rightarrow> Some (Inl e)
            | Some (Inr r) \<Rightarrow>
                if r \<noteq> OffsetOldest then Some (Inr r)
                else offset_loop decode cl interval mn topic part (Suc n) (wrap64 (minMillis - interval)) offset)"
  by pat_completeness auto
termination
  by (relation "measure (\<lambda>(decode, cl, interval, mn, topic, part, n, minMillis, lst). nat lst)")
     (auto split: if_splits)

declare offset_loop.simps [simp del]

definition getPartitionOffset ::
  "(string \<Rightarrow> ('d decode_error, payload) result) \<Rightarrow> 'e client \<Rightarrow> int \<Rightarrow> Time \<Rightarrow> string \<Rightarrow> int
   \<Rightarrow> (('d, 'e) seek_error, int) result option" where
  "getPartitionOffset decode cl interval mn topic part =
     (case ct_GetOffset cl 0 topic part OffsetNewest of
        Inl e \<Rightarrow> Some (Inl (ClientErr e))
      | Inr loghead \<Rightarrow> offset_loop decode cl interval mn topic part 1 (go_div (Nanos mn) 1000000) loghead)"

fun get_partitions ::
  "(int \<Rightarrow> (('d, 'e) seek_error, int) result option) \<Rightarrow> string \<Rightarrow> int list \<Rightarrow> partitionState list
   \<Rightarrow> (('d, 'e) seek_error, partitionState list) result option" where
  "get_partitions offsetOf topic [] res = Some (Inr res)"
| "get_partitions offsetOf topic (p # ps) res =
     (case offsetOf p of
        None \<Rightarrow> None
      | Some (Inl e) \<Rightarrow> Some (Inl e)
      | Some (Inr offset) \<Rightarrow>
          get_partitions offsetOf topic ps (res @ [\<lparr>pa_topic = topic, pa_partition = p, pa_offset = offset\<rparr>]))"

fun get_topics ::
  "(string \<Rightarrow> ('d decode_error, payload) result) \<Rightarrow> 'e client \<Rightarrow> int \<Rightarrow> Time \<Rightarrow> string list \<Rightarrow> partitionState list
   \<Rightarrow> (('d, 'e) seek_error, partitionState list) result option" where
  "get_topics decode cl interval mn [] res = Some (Inr res)"
| "get_topics decode cl interval mn (topic # topics) res =
     (case ct_Partitions cl topic of
        Inl e \<Rightarrow> Some (Inl (ClientErr e))
      | Inr parts \<Rightarrow>
          (case get_partitions (getPartitionOffset decode cl interval mn topic) topic parts res of
             None \<Rightarrow> None
           | Some (Inl e) \<Rightarrow> Some (Inl e)
           | Some (Inr res') \<Rightarrow> get_topics decode cl interval mn topics res'))"

definition GetOffsets ::
  "(string \<Rightarrow> ('d decode_error, payload) result) \<Rightarrow> 'e client \<Rightarrow> int \<Rightarrow> string list \<Rightarrow> Time
   \<Rightarrow> (('d, 'e) seek_error, partitionState list) result option" where
  "GetOffsets decode cl interval topics mn = get_topics decode cl interval mn topics []"

text \<open>Where a message announces that every mutation up to a time has been sent.\<close>

definition resolved_at :: "(string \<Rightarrow> ('d decode_error, payload) result) \<Rightarrow> message \<Rightarrow> Time \<Rightarrow> bool" where
  "resolved_at decode msg t \<longleftrightarrow>
     (\<exists>p. decode (km_Value msg) = Inr p \<and> kp_Resolved p \<noteq> [] \<and> Parse (kp_Resolved p) = Inr t)"

lemma asPayload_resolved:
  "\<lbrakk>asPayload decode msg = Inr p; kp_Resolved p \<noteq> []; Parse (kp_Resolved p) = Inr t\<rbrakk> \<Longrightarrow> resolved_at decode msg t"
  by (auto simp: asPayload_def resolved_at_def split: sum.splits decode_error.splits)

lemma seek_loop_found:
  "seek_loop decode mn topic mx evs found = Some (Inr r) \<Longrightarrow>
   r = OffsetOldest \<or> r = found
   \<or> (\<exists>msg t. PartMessage msg \<in> set evs \<and> km_Offset msg = r \<and> r \<le> mx \<and> resolved_at decode msg t \<and> Compare mn t > 0)"
proof (induction evs arbitrary: found)
  case (Cons ev evs)
  show ?case
  proof (cases ev)
    case (PartMessage msg)
    then show ?thesis
      using Cons.prems Cons.IH asPayload_resolved [of decode msg]
      by (fastforce split: if_splits sum.splits)
  qed (use Cons in auto)
qed simp

definition sound_offset ::
  "(string \<Rightarrow> ('d decode_error, payload) result) \<Rightarrow> 'e client \<Rightarrow> Time \<Rightarrow> string \<Rightarrow> int \<Rightarrow> int \<Rightarrow> bool" where
  "sound_offset decode cl mn topic part r \<longleftrightarrow> r = OffsetNewest \<or> r = OffsetOldest
     \<or> (\<exists>n lo evs msg t. ct_Consume cl n topic part lo = Inr evs \<and> PartMessage msg \<in> set evs
          \<and> km_Offset msg = r \<and> resolved_at decode msg t \<and> Compare mn t > 0)"

lemma seekResolved_sound:
  "seekResolved decode cl n mn topic part lo hi = Some (Inr r) \<Longrightarrow> sound_offset decode cl mn topic part r"
  unfolding seekResolved_def sound_offset_def by (auto split: sum.splits dest!: seek_loop_found)

lemma offset_loop_sound:
  "offset_loop decode cl interval mn topic part n minMillis lst = Some (Inr r) \<Longrightarrow> sound_offset decode cl mn topic part r"
proof (induction decode cl interval mn topic part n minMillis lst rule: offset_loop.induct)
  case (1 decode cl interval mn topic part n minMillis lst)
  show ?case
  proof (cases "ct_GetOffset cl n topic part minMillis")
    case (Inr offset)
    define o' where "o' = (if offset \<ge> lst then lst - 1 else offset)"
    show ?thesis
    proof (cases "offset = OffsetNewest \<or> o' < 0")
      case True
      then have "r = OffsetNewest \<or> r = OffsetOldest"
        using "1.prems" Inr unfolding o'_def by (subst (asm) offset_loop.simps) (auto simp: Let_def split: if_splits)
      then show ?thesis by (auto simp: sound_offset_def)
    next
      case False
      note IH = "1.IH" [OF Inr _ o'_def]
      consider r' where "seekResolved decode cl n mn topic part o' lst = Some (Inr r')" "r' \<noteq> OffsetOldest" "r = r'"
        | "seekResolved decode cl n mn topic part o' lst = Some (Inr OffsetOldest)"
          "offset_loop decode cl interval mn topic part (Suc n) (wrap64 (minMillis - interval)) o' = Some (Inr r)"
        using "1.prems" Inr False unfolding o'_def
        by (subst (asm) offset_loop.simps) (auto simp: Let_def split: if_splits option.splits sum.splits)
      then show ?thesis using IH False seekResolved_sound by cases blast+
    qed
  qed (use "1.prems" in \<open>subst (asm) offset_loop.simps, simp\<close>)
qed

lemma offset_loop_returns:
  assumes "\<And>n lo hi. seekResolved decode cl n mn topic part lo hi \<noteq> None"
  shows "offset_loop decode cl interval mn topic part n minMillis lst \<noteq> None"
proof (induction "nat lst" arbitrary: n minMillis lst rule: less_induct)
  case less
  show ?case
  proof (cases "ct_GetOffset cl n topic part minMillis")
    case (Inr offset)
    define o' where "o' = (if offset \<ge> lst then lst - 1 else offset)"
    have "offset_loop decode cl interval mn topic part (Suc n) (wrap64 (minMillis - interval)) o' \<noteq> None" if "\<not> o' < 0"
      by (rule less) (use that in \<open>auto simp: o'_def split: if_splits\<close>)
    then show ?thesis
      using Inr assms [of n o' lst] by (subst offset_loop.simps) (auto simp: Let_def o'_def split: sum.splits)
  qed (subst offset_loop.simps, simp)
qed

text \<open>
  The search for the start of a partition ends whenever the partition consumers answer, and what it returns is the end of the log,
  its beginning, or the offset of a message that resolves a time before the minimum.
\<close>

theorem getPartitionOffset_sound:
  assumes "\<And>n lo hi. seekResolved decode cl n mn topic part lo hi \<noteq> None"
  shows "\<exists>res. getPartitionOffset decode cl interval mn topic part = Some res
    \<and> (case res of Inl _ \<Rightarrow> True | Inr r \<Rightarrow> sound_offset decode cl mn topic part r)"
proof (cases "ct_GetOffset cl 0 topic part OffsetNewest")
  case (Inr loghead)
  let ?loop = "offset_loop decode cl interval mn topic part 1 (go_div (Nanos mn) 1000000) loghead"
  obtain res where res: "?loop = Some res" using offset_loop_returns [OF assms] by blast
  moreover have "case res of Inl _ \<Rightarrow> True | Inr r \<Rightarrow> sound_offset decode cl mn topic part r"
  proof (cases res)
    case (Inr r)
    then show ?thesis using offset_loop_sound [of decode cl interval mn topic part] res by simp
  qed simp
  ultimately show ?thesis using Inr by (simp add: getPartitionOffset_def)
qed (simp add: getPartitionOffset_def)

text \<open>
  A message that resolves a time before the minimum does not bound the mutations before it: a changefeed may send a later
  mutation first. Here the log is: resolved 10, a mutation at time 100, resolved 50, resolved 120. For the minimum 80 the search
  returns the offset 2, and the mutation of time 100 at offset 1 is skipped.
\<close>

definition demo_log :: "unit part_event list" where
  "demo_log = map (\<lambda>(i, k, t). PartMessage (demo_message i (k # String (Time t 0))))
     [(0, CHR ''R'', 10), (1, CHR ''M'', 100), (2, CHR ''R'', 50), (3, CHR ''R'', 120)]"

definition demo_client :: "unit client" where
  "demo_client =
     \<lparr>ct_Partitions = (\<lambda>_. Inr [0]),
      ct_GetOffset = (\<lambda>_ _ _ millis. Inr (if millis = OffsetNewest then 4 else 0)),
      ct_Consume = (\<lambda>_ _ _ lo. Inr (drop (nat lo) demo_log))\<rparr>"

lemma demo_asPayload:
  assumes "0 \<le> t" "t < 2 ^ 63"
  shows "asPayload demo_decode (demo_message i (CHR ''R'' # String (Time t 0)))
      = Inr \<lparr>kp_After = [], kp_Before = [], kp_Resolved = String (Time t 0), kp_Updated = []\<rparr>"
    "asPayload demo_decode (demo_message i (CHR ''M'' # String (Time t 0)))
      = Inr \<lparr>kp_After = ''{}'', kp_Before = [], kp_Resolved = [], kp_Updated = String (Time t 0)\<rparr>"
    "Parse (String (Time t 0)) = Inr (Time t 0)" "String (Time t 0) \<noteq> []"
  using assms Parse_String_roundtrip [of "Time t 0"]
  by (simp_all add: asPayload_def demo_decode_def demo_message_def String_def)

theorem seek_skips_mutation:
  "getPartitionOffset demo_decode demo_client 5000 (Time 80 0) ''t'' 0 = Some (Inr 2)
   \<and> (\<exists>msg p. PartMessage msg \<in> set demo_log \<and> km_Offset msg < 2 \<and> demo_decode (km_Value msg) = Inr p
        \<and> kp_Resolved p = [] \<and> Parse (kp_Updated p) = Inr (Time 100 0))"
proof
  have c: "Compare (Time 80 0) (Time 10 0) = 70" "Compare (Time 80 0) (Time 50 0) = 30" "Compare (Time 80 0) (Time 120 0) = - 40"
    by code_simp+
  have off: "km_Offset (demo_message i v) = i" for i v by (simp add: demo_message_def)
  have "seek_loop demo_decode (Time 80 0) ''t'' 4 demo_log OffsetOldest = Some (Inr 2)"
    unfolding demo_log_def using c by (simp add: demo_asPayload off)
  then have "seekResolved demo_decode demo_client 1 (Time 80 0) ''t'' 0 0 4 = Some (Inr 2)"
    by (simp add: seekResolved_def demo_client_def)
  moreover have get: "ct_GetOffset demo_client n ''t'' 0 millis = Inr (if millis = OffsetNewest then 4 else 0)" for n millis
    by (simp add: demo_client_def)
  ultimately have "offset_loop demo_decode demo_client 5000 (Time 80 0) ''t'' 0 1 0 4 = Some (Inr 2)"
    by (subst offset_loop.simps) (simp add: OffsetNewest_def OffsetOldest_def)
  then show "getPartitionOffset demo_decode demo_client 5000 (Time 80 0) ''t'' 0 = Some (Inr 2)"
    by (simp add: getPartitionOffset_def get go_div_def)
  show "\<exists>msg p. PartMessage msg \<in> set demo_log \<and> km_Offset msg < 2 \<and> demo_decode (km_Value msg) = Inr p
        \<and> kp_Resolved p = [] \<and> Parse (kp_Updated p) = Inr (Time 100 0)"
    by (rule exI [of _ "demo_message 1 (CHR ''M'' # String (Time 100 0))"])
       (simp add: demo_log_def demo_decode_def off demo_asPayload demo_message_def)
qed

section \<open>Configuration\<close>

record SASLConfig =
  sasl_ClientID :: string
  sasl_ClientSecret :: string
  sasl_GrantType :: string
  sasl_Mechanism :: string
  sasl_Password :: string
  sasl_Scopes :: "string list"
  sasl_TokenURL :: string
  sasl_User :: string

text \<open>The fields that \<open>preflight\<close> sets in the configuration of the client.\<close>

datatype rebalance = RebalanceSticky | RebalanceRoundRobin | RebalanceRange

datatype sasl_client = NoGenerator | ScramSHA512 | ScramSHA256 | OAuthTokens

record sarama_config =
  sa_strategy :: rebalance
  sa_tls :: bool
  sa_sasl :: "(string \<times> sasl_client \<times> string \<times> string) option"
  sa_initial :: int

record kafka_Config =
  kc_TargetSchema :: Schema
  kc_BatchSize :: int
  kc_Brokers :: "string list"
  kc_Group :: string
  kc_MaxTimestamp :: string
  kc_MinTimestamp :: string
  kc_ResolvedInterval :: int
  kc_SASL :: SASLConfig
  kc_Strategy :: string
  kc_Topics :: "string list"
  kc_sarama :: "sarama_config option"
  kc_timeRange :: Range

datatype 'e preflight_error =
    Nested 'e | NoTargetSchema | NoGroup | NoBrokers | NoTopics | TimestampErr hlc_error | IntervalTooShort | MinAfterMax
  | UnknownStrategy string | NoTokenURL | MalformedTokenURL 'e | NoClientID | NoClientSecret

definition rebalance_of :: "string \<Rightarrow> ('e preflight_error, rebalance) result" where
  "rebalance_of s =
     (if s = ''sticky'' then Inr RebalanceSticky
      else if s = ''roundrobin'' then Inr RebalanceRoundRobin
      else if s = ''range'' then Inr RebalanceRange
      else Inl (UnknownStrategy s))"

text \<open>The parser of URLs is an argument, with the error it returns.\<close>

definition newTokenProvider :: "(string \<Rightarrow> 'e option) \<Rightarrow> SASLConfig \<Rightarrow> 'e preflight_error option" where
  "newTokenProvider parseURL c =
     (if sasl_TokenURL c = [] then Some NoTokenURL
      else case parseURL (sasl_TokenURL c) of
        Some e \<Rightarrow> Some (MalformedTokenURL e)
      | None \<Rightarrow>
          if sasl_ClientID c = [] then Some NoClientID
          else if sasl_ClientSecret c = [] then Some NoClientSecret
          else None)"

definition sasl_of ::
  "(string \<Rightarrow> 'e option) \<Rightarrow> SASLConfig \<Rightarrow> ('e preflight_error, (string \<times> sasl_client \<times> string \<times> string) option) result" where
  "sasl_of parseURL c =
     (let m = sasl_Mechanism c; done = (\<lambda>k. Inr (Some (m, k, sasl_User c, sasl_Password c))) in
      if m = [] then Inr None
      else if m = ''SCRAM-SHA-512'' then done ScramSHA512
      else if m = ''SCRAM-SHA-256'' then done ScramSHA256
      else if m = ''OAUTHBEARER'' then
        (case newTokenProvider parseURL c of Some e \<Rightarrow> Inl e | None \<Rightarrow> done OAuthTokens)
      else done NoGenerator)"

definition limit_of :: "string \<Rightarrow> Time \<Rightarrow> ('e preflight_error, Time) result" where
  "limit_of s dflt =
     (if length s \<noteq> 0 then (case Parse s of Inl e \<Rightarrow> Inl (TimestampErr e) | Inr t \<Rightarrow> Inr t) else Inr dflt)"

text \<open>
  \<open>tls\<close> is the outcome of the preflight of the TLS configuration (whether there is one), \<open>validate\<close> that of the client's own
  validation.
\<close>

definition kafka_preflight ::
  "(string \<Rightarrow> 'e option) \<Rightarrow> ('e, bool) result \<Rightarrow> (sarama_config \<Rightarrow> 'e option) \<Rightarrow> kafka_Config
   \<Rightarrow> kafka_Config \<times> 'e preflight_error option" where
  "kafka_preflight parseURL tls validate c =
     (if kc_Group c = [] then (c, Some NoGroup)
      else if length (kc_Brokers c) = 0 then (c, Some NoBrokers)
      else if length (kc_Topics c) = 0 then (c, Some NoTopics)
      else case limit_of (kc_MinTimestamp c) (New 0 0) of
        Inl e \<Rightarrow> (c, Some e)
      | Inr minTimestamp \<Rightarrow>
        (case limit_of (kc_MaxTimestamp c) (New MaxInt64 MaxInt64) of
           Inl e \<Rightarrow> (c, Some e)
         | Inr maxTimestamp \<Rightarrow>
             if kc_ResolvedInterval c < 1000000 then (c, Some IntervalTooShort)
             else if Compare minTimestamp maxTimestamp > 0 then (c, Some MinAfterMax)
             else
               let c = c\<lparr>kc_timeRange := RangeExcluding minTimestamp maxTimestamp\<rparr> in
               case rebalance_of (kc_Strategy c) of
                 Inl e \<Rightarrow> (c, Some e)
               | Inr strategy \<Rightarrow>
                 (case tls of
                    Inl e \<Rightarrow> (c, Some (Nested e))
                  | Inr hasTLS \<Rightarrow>
                    (case sasl_of parseURL (kc_SASL c) of
                       Inl e \<Rightarrow> (c, Some e)
                     | Inr sasl \<Rightarrow>
                         let sc = \<lparr>sa_strategy = strategy, sa_tls = hasTLS, sa_sasl = sasl, sa_initial = OffsetOldest\<rparr>
                         in (c\<lparr>kc_sarama := Some sc\<rparr>, map_option Nested (validate sc))))))"

text \<open>The exported method: the nested configurations come first, by the errors of their preflights in order.\<close>

definition kafka_Preflight ::
  "'e option list \<Rightarrow> (string \<Rightarrow> 'e option) \<Rightarrow> ('e, bool) result \<Rightarrow> (sarama_config \<Rightarrow> 'e option) \<Rightarrow> kafka_Config
   \<Rightarrow> kafka_Config \<times> 'e preflight_error option" where
  "kafka_Preflight nested parseURL tls validate c =
     (case List.find (\<lambda>e. e \<noteq> None) nested of
        Some (Some e) \<Rightarrow> (c, Some (Nested e))
      | _ \<Rightarrow>
          if Schema_Empty (kc_TargetSchema c) then (c, Some NoTargetSchema)
          else kafka_preflight parseURL tls validate c)"

text \<open>A configuration that passes: the range of times is the one of the options, with its end excluded, and is not reversed.\<close>

lemma kafka_preflight_range:
  assumes "kafka_preflight parseURL tls validate c = (c', None)"
  shows "limit_of (kc_MinTimestamp c) (New 0 0) = Inr (Range_Min (kc_timeRange c')) \<and>
    limit_of (kc_MaxTimestamp c) (New MaxInt64 MaxInt64) = Inr (Range_Max (kc_timeRange c'))
    \<and> Compare (Range_Min (kc_timeRange c')) (Range_Max (kc_timeRange c')) \<le> 0 \<and> kc_sarama c' \<noteq> None"
  using assms
  by (auto simp: kafka_preflight_def Let_def RangeExcluding_def limit_of_def split: if_splits sum.splits)

end
