(* ===== verification/Cdcjson.thy ===== *)
theory Cdcjson
  imports Kafka
begin

text \<open>
  Mutations in changefeed payloads, \<open>src/internal/util/cdcjson\<close>: the reader of newline-delimited JSON, and the readers of one
  mutation for plain and for query changefeeds. The JSON decoder and encoder are arguments.
\<close>

section \<open>Readers of one mutation\<close>

datatype 'd cdcjson_error =
    JsonErr 'd | NoUpdatedOption | NoResolvedOption | CdcTime hlc_error | ErrBareEnvelope | NoTimestamp | MissingKey Ident
  | NilMap | KeyIndex nat | CdcBatch batch_error | TooLong | InvalidBuffer int

record bulk_payload =
  bk_After :: string
  bk_Before :: string
  bk_Key :: string
  bk_Updated :: string

definition BulkMutationReader :: "(string \<Rightarrow> ('d, bulk_payload) result) \<Rightarrow> string \<Rightarrow> ('d cdcjson_error, Mutation) result" where
  "BulkMutationReader decode buf =
     (case decode buf of
        Inl e \<Rightarrow> Inl (JsonErr e)
      | Inr p \<Rightarrow>
          if bk_Updated p = [] then Inl NoUpdatedOption
          else case Parse (bk_Updated p) of
            Inl e \<Rightarrow> Inl (CdcTime e)
          | Inr ts \<Rightarrow> Inr \<lparr>mut_Before = bk_Before p, mut_Data = bk_After p, mut_Key = bk_Key p, mut_Meta = [], mut_Time = ts\<rparr>)"

text \<open>
  A payload of a query. The decoder gives a map by identifier, or nil for a JSON null; \<open>codec\<close> holds the conversions of
  \<open>encoding/json\<close> that are used. The panics of the code, on a nil map and on an index out of range, are errors here: the HTTP handler
  recovers from them.
\<close>

record 'd codec =
  jc_map :: "string \<Rightarrow> ('d, (Ident, string) imap option) result"
  jc_string :: "string \<Rightarrow> ('d, string) result"
  jc_enc_map :: "(Ident, string) imap \<Rightarrow> ('d, string) result"
  jc_enc_list :: "string list \<Rightarrow> ('d, string) result"

record queryPayload =
  qp_after :: "(Ident, string) imap option"
  qp_before :: "(Ident, string) imap option"
  qp_keyValues :: "string list option"
  qp_updated :: Time

definition Time_UnmarshalJSON :: "'d codec \<Rightarrow> string \<Rightarrow> ('d cdcjson_error, Time) result" where
  "Time_UnmarshalJSON jc data =
     (case jc_string jc data of
        Inl e \<Rightarrow> Inl (JsonErr e)
      | Inr s \<Rightarrow> (case Parse s of Inl e \<Rightarrow> Inl (CdcTime e) | Inr t \<Rightarrow> Inr t))"

definition decode_field :: "'d codec \<Rightarrow> string option \<Rightarrow> ('d cdcjson_error, (Ident, string) imap option) result" where
  "decode_field jc field =
     (case field of
        None \<Rightarrow> Inr None
      | Some raw \<Rightarrow> (case jc_map jc raw of Inl e \<Rightarrow> Inl (JsonErr e) | Inr m \<Rightarrow> Inr m))"

text \<open>The values of the key columns, each at its position.\<close>

definition key_visit ::
  "(Ident, string) imap \<Rightarrow> Ident \<Rightarrow> nat \<Rightarrow> string list \<Rightarrow> ('d cdcjson_error, string list) result" where
  "key_visit msg k pos keyValues =
     (case imap_Get Ident_Canonical msg k of
        None \<Rightarrow> Inl (MissingKey k)
      | Some v \<Rightarrow> if pos < length keyValues then Inr (keyValues[pos := v]) else Inl (KeyIndex pos))"

definition extract_keys :: "(Ident, nat) imap \<Rightarrow> (Ident, string) imap \<Rightarrow> ('d cdcjson_error, string list) result" where
  "extract_keys keys msg = imap_Range (key_visit msg) keys (replicate (imap_Len keys) [])"

definition queryPayload_UnmarshalJSON :: "'d codec \<Rightarrow> (Ident, nat) imap \<Rightarrow> string \<Rightarrow> ('d cdcjson_error, queryPayload) result" where
  "queryPayload_UnmarshalJSON jc keys data =
     (case jc_map jc data of
        Inl e \<Rightarrow> Inl (JsonErr e)
      | Inr None \<Rightarrow> Inl NilMap
      | Inr (Some msg) \<Rightarrow>
          if imap_Get Ident_Canonical msg (ident_New ''__crdb__'') \<noteq> None then Inl ErrBareEnvelope
          else case imap_Get Ident_Canonical msg (ident_New ''updated'') of
            None \<Rightarrow> Inl NoTimestamp
          | Some ts \<Rightarrow>
            (case Time_UnmarshalJSON jc ts of
               Inl e \<Rightarrow> Inl e
             | Inr upd \<Rightarrow>
               (case decode_field jc (imap_Get Ident_Canonical msg (ident_New ''after'')) of
                  Inl e \<Rightarrow> Inl e
                | Inr aft \<Rightarrow>
                  (case decode_field jc (imap_Get Ident_Canonical msg (ident_New ''before'')) of
                     Inl e \<Rightarrow> Inl e
                   | Inr bef \<Rightarrow>
                       let q = \<lparr>qp_after = aft, qp_before = bef, qp_keyValues = None, qp_updated = upd\<rparr> in
                       case (case aft of None \<Rightarrow> bef | Some _ \<Rightarrow> aft) of
                         None \<Rightarrow> Inr q
                       | Some row \<Rightarrow>
                           (case extract_keys keys row of
                              Inl e \<Rightarrow> Inl e
                            | Inr vs \<Rightarrow> Inr (q\<lparr>qp_keyValues := Some vs\<rparr>))))))"

definition encode_opt :: "('a \<Rightarrow> ('d, string) result) \<Rightarrow> 'a option \<Rightarrow> ('d cdcjson_error, string) result" where
  "encode_opt enc x = (case x of None \<Rightarrow> Inr [] | Some a \<Rightarrow> (case enc a of Inl e \<Rightarrow> Inl (JsonErr e) | Inr s \<Rightarrow> Inr s))"

definition AsMutation :: "'d codec \<Rightarrow> queryPayload \<Rightarrow> ('d cdcjson_error, Mutation) result" where
  "AsMutation jc q =
     (case encode_opt (jc_enc_map jc) (qp_after q) of
        Inl e \<Rightarrow> Inl e
      | Inr dat \<Rightarrow>
          (case encode_opt (jc_enc_map jc) (qp_before q) of
             Inl e \<Rightarrow> Inl e
           | Inr bef \<Rightarrow>
               (case encode_opt (jc_enc_list jc) (qp_keyValues q) of
                  Inl e \<Rightarrow> Inl e
                | Inr key \<Rightarrow>
                    Inr \<lparr>mut_Before = bef, mut_Data = dat, mut_Key = key, mut_Meta = [], mut_Time = qp_updated q\<rparr>)))"

definition QueryMutationReader :: "'d codec \<Rightarrow> (Ident, nat) imap \<Rightarrow> string \<Rightarrow> ('d cdcjson_error, Mutation) result" where
  "QueryMutationReader jc keys buf =
     (case queryPayload_UnmarshalJSON jc keys buf of Inl e \<Rightarrow> Inl e | Inr q \<Rightarrow> AsMutation jc q)"

section \<open>Newline-delimited JSON\<close>

text \<open>
  The lines that \<open>bufio.Scanner\<close> delivers with a buffer of a given bufSize, and whether it stopped at a line that does not fit. A
  trailing carriage return is dropped, and there is no last line after a final newline.
\<close>

definition drop_cr :: "string \<Rightarrow> string" where
  "drop_cr line = (if line \<noteq> [] \<and> last line = CHR 0x0D then butlast line else line)"

fun scan_lines :: "nat \<Rightarrow> string \<Rightarrow> string \<Rightarrow> string list \<times> bool" where
  "scan_lines bufSize [] acc =
     (if acc = [] then ([], False) else if length acc < bufSize then ([drop_cr acc], False) else ([], True))"
| "scan_lines bufSize (c # cs) acc =
     (if c = CHR 0x0A
      then (if length acc < bufSize then (case scan_lines bufSize cs [] of (ls, e) \<Rightarrow> (drop_cr acc # ls, e)) else ([], True))
      else scan_lines bufSize cs (acc @ [c]))"

definition NDJsonParser_New :: "int \<Rightarrow> ('d cdcjson_error, nat) result" where
  "NDJsonParser_New bufferSize = (if bufferSize \<le> 0 then Inl (InvalidBuffer bufferSize) else Inr (nat bufferSize))"

fun parse_lines ::
  "Table \<Rightarrow> (string \<Rightarrow> ('d cdcjson_error, Mutation) result) \<Rightarrow> string list \<Rightarrow> MultiBatch \<Rightarrow> ('d cdcjson_error, MultiBatch) result" where
  "parse_lines table parseMutation [] batch = Inr batch"
| "parse_lines table parseMutation (buf # bufs) batch =
     (if length buf = 0 then parse_lines table parseMutation bufs batch
      else case parseMutation buf of
        Inl e \<Rightarrow> Inl e
      | Inr mut \<Rightarrow>
          if IsDelete mut \<and> mut_Key mut = [] then parse_lines table parseMutation bufs batch
          else case MultiBatch_Accumulate table mut batch of
            Inl e \<Rightarrow> Inl (CdcBatch e)
          | Inr batch' \<Rightarrow> parse_lines table parseMutation bufs batch')"

definition NDJsonParser_Parse ::
  "nat \<Rightarrow> Table \<Rightarrow> (string \<Rightarrow> ('d cdcjson_error, Mutation) result) \<Rightarrow> string \<Rightarrow> ('d cdcjson_error, MultiBatch) result" where
  "NDJsonParser_Parse bufSize table parseMutation body =
     (case scan_lines bufSize body [] of (bufs, tooLong) \<Rightarrow>
        (case parse_lines table parseMutation bufs MultiBatch_New of
           Inl e \<Rightarrow> Inl e
         | Inr batch \<Rightarrow> if tooLong then Inl TooLong else Inr batch))"

definition NDJsonParser_Resolved :: "(string \<Rightarrow> ('d, string) result) \<Rightarrow> string \<Rightarrow> ('d cdcjson_error, Time) result" where
  "NDJsonParser_Resolved decode body =
     (case decode body of
        Inl e \<Rightarrow> Inl (JsonErr e)
      | Inr resolved \<Rightarrow>
          if resolved = [] then Inl NoResolvedOption
          else case Parse resolved of Inl e \<Rightarrow> Inl (CdcTime e) | Inr t \<Rightarrow> Inr t)"

section \<open>Properties\<close>

text \<open>
  The positions of the keys are a permutation of the first numbers, as they are for a list of columns that begins with the primary
  key: then the extraction only fails when a key column is missing, and every value is at its position.
\<close>

definition key_positions :: "(Ident, nat) imap \<Rightarrow> bool" where
  "key_positions keys \<longleftrightarrow> distinct (map snd keys) \<and> (\<forall>e \<in> set keys. snd e < length keys)"

lemma key_range:
  assumes "distinct (map snd es)" "\<forall>e \<in> set es. snd e < length vs \<and> imap_Get Ident_Canonical msg (fst e) \<noteq> None"
  shows "\<exists>vs'. imap_Range (key_visit msg) es vs = (Inr vs' :: ('d cdcjson_error, string list) result) \<and> length vs' = length vs
    \<and> (\<forall>e \<in> set es. imap_Get Ident_Canonical msg (fst e) = Some (vs' ! snd e))
    \<and> (\<forall>i < length vs. i \<notin> snd ` set es \<longrightarrow> vs' ! i = vs ! i)"
  using assms
proof (induction es arbitrary: vs)
  case (Cons e es)
  obtain k i where e: "e = (k, i)" by force
  obtain v where v: "imap_Get Ident_Canonical msg k = Some v" using Cons.prems(2) by (auto simp: e)
  have i: "i < length vs" "i \<notin> snd ` set es" using Cons.prems by (auto simp: e)
  obtain vs' where vs': "imap_Range (key_visit msg) es (vs[i := v]) = (Inr vs' :: ('d cdcjson_error, string list) result)"
    "length vs' = length vs" "\<forall>e \<in> set es. imap_Get Ident_Canonical msg (fst e) = Some (vs' ! snd e)"
    "\<forall>j < length vs. j \<notin> snd ` set es \<longrightarrow> vs' ! j = vs[i := v] ! j"
    using Cons.IH [of "vs[i := v]"] Cons.prems by auto
  have "imap_Range (key_visit msg) (e # es) vs = (Inr vs' :: ('d cdcjson_error, string list) result)"
    using v i vs'(1) by (simp add: e key_visit_def)
  moreover have "vs' ! i = v" using vs'(4) i by simp
  ultimately show ?case using v vs'(2,3,4) by (intro exI [of _ vs']) (auto simp: e)
qed simp

lemma extract_keys_ok:
  assumes "key_positions keys" "\<forall>e \<in> set keys. imap_Get Ident_Canonical msg (fst e) \<noteq> None"
  shows "\<exists>vs. extract_keys keys msg = (Inr vs :: ('d cdcjson_error, string list) result) \<and> length vs = length keys
    \<and> (\<forall>e \<in> set keys. imap_Get Ident_Canonical msg (fst e) = Some (vs ! snd e))"
  using key_range [of keys "replicate (length keys) []" msg] assms
  by (auto simp: extract_keys_def imap_Len_def key_positions_def)

text \<open>A reading of lines, and the mutations that come out of it.\<close>

definition kept :: "Mutation \<Rightarrow> bool" where
  "kept mut \<longleftrightarrow> \<not> (IsDelete mut \<and> mut_Key mut = [])"

lemma parse_lines_ok:
  assumes "multi_ok batch" "wf_table table"
    and "\<forall>buf \<in> set bufs. length buf \<noteq> 0 \<longrightarrow> (\<exists>mut. parseMutation buf = Inr mut \<and> valid_time (mut_Time mut) \<and> mut_Time mut \<noteq> Zero)"
  shows "\<exists>batch'. parse_lines table parseMutation bufs batch = Inr batch' \<and> multi_ok batch'
    \<and> multi_muts batch' = multi_muts batch
      + mset (map (Pair (Table_Canonical table)) (filter kept (map (projr \<circ> parseMutation) (filter (\<lambda>buf. length buf \<noteq> 0) bufs))))"
  using assms
proof (induction bufs arbitrary: batch)
  case (Cons buf bufs)
  show ?case
  proof (cases "length buf = 0")
    case False
    then obtain mut where mut: "parseMutation buf = Inr mut" "valid_time (mut_Time mut)" "mut_Time mut \<noteq> Zero"
      using Cons.prems(3) by auto
    show ?thesis
    proof (cases "kept mut")
      case True
      obtain b where b: "MultiBatch_Accumulate table mut batch = Inr b" "multi_ok b"
        "multi_muts b = add_mset (Table_Canonical table, mut) (multi_muts batch)"
        using MultiBatch_Accumulate_ok [OF Cons.prems(1,2) mut(2,3)] by blast
      have k: "\<not> (IsDelete mut \<and> mut_Key mut = [])" using True by (simp add: kept_def)
      have "parse_lines table parseMutation (buf # bufs) batch = parse_lines table parseMutation bufs b"
        using False mut(1) k b(1) by auto
      then show ?thesis using Cons.IH [OF b(2) Cons.prems(2)] Cons.prems(3) b(3) False True mut(1) by simp
    next
      case drop: False
      have k: "IsDelete mut" "mut_Key mut = []" using drop by (auto simp: kept_def)
      have "parse_lines table parseMutation (buf # bufs) batch = parse_lines table parseMutation bufs batch"
        using False mut(1) k by simp
      then show ?thesis using Cons.IH [OF Cons.prems(1,2)] Cons.prems(3) False drop mut(1) by simp
    qed
  qed (use Cons in simp)
qed simp

text \<open>Lines that are written with a newline each are read back, when they fit the buffer.\<close>

definition plain_line :: "nat \<Rightarrow> string \<Rightarrow> bool" where
  "plain_line bufSize l \<longleftrightarrow> CHR 0x0A \<notin> set l \<and> (l = [] \<or> last l \<noteq> CHR 0x0D) \<and> length l < bufSize"

lemma scan_lines_prefix:
  "CHR 0x0A \<notin> set l \<Longrightarrow> scan_lines bufSize (l @ cs) acc = scan_lines bufSize cs (acc @ l)"
  by (induction l arbitrary: acc) auto

lemma scan_lines_written:
  "list_all (plain_line bufSize) ls \<Longrightarrow> scan_lines bufSize (concat (map (\<lambda>l. l @ [CHR 0x0A]) ls)) [] = (ls, False)"
proof (induction ls)
  case (Cons l ls)
  have l: "CHR 0x0A \<notin> set l" "drop_cr l = l" "length l < bufSize" using Cons.prems by (auto simp: plain_line_def drop_cr_def)
  have "scan_lines bufSize (concat (map (\<lambda>l. l @ [CHR 0x0A]) (l # ls))) []
      = scan_lines bufSize (CHR 0x0A # concat (map (\<lambda>l. l @ [CHR 0x0A]) ls)) l"
    using scan_lines_prefix [OF l(1), of bufSize "CHR 0x0A # concat (map (\<lambda>l. l @ [CHR 0x0A]) ls)" "[]"] by simp
  then show ?case using Cons l by simp
qed simp

end
