(* ===== verification/Checkpoint.thy ===== *)
theory Checkpoint
  imports Hlc Ident Retry
begin

text \<open>
  Checkpoints (resolved timestamps): \<open>src/internal/staging/checkpoint/group.go\<close>,
  \<open>checkpoint.go\<close> and \<open>migrate.go\<close>, with \<open>src/internal/types/table_group.go\<close>. The checkpoint table is a
  list of rows and the SQL statements are functions on it; decimal timestamps are compared as the
  times they encode.
\<close>

section \<open>Table groups\<close>

record TableGroup =
  tg_Name :: Ident
  tg_Enclosing :: Schema
  tg_Tables :: "Table list"

datatype group_error = MixedSchemas Schema Schema

fun common_schema :: "Schema \<Rightarrow> Table list \<Rightarrow> (group_error, Schema) result" where
  "common_schema common [] = Inr common"
| "common_schema common (tbl # tbls) =
     (if \<not> ident_Equal (IdArray (Table_Schema tbl)) (IdArray common) then Inl (MixedSchemas common (Table_Schema tbl))
      else common_schema common tbls)"

definition TableGroup_Schema :: "TableGroup \<Rightarrow> (group_error, Schema) result" where
  "TableGroup_Schema g =
     (if \<not> Schema_Empty (tg_Enclosing g) then Inr (tg_Enclosing g)
      else case tg_Tables g of
        [] \<Rightarrow> Inr NilSchema
      | tbl # tbls \<Rightarrow> common_schema (Table_Schema tbl) tbls)"

section \<open>SQL aggregates\<close>

text \<open>\<open>max\<close> and \<open>min\<close> over a column: \<open>NULL\<close> on no rows.\<close>

fun sql_max :: "Time list \<Rightarrow> Time option" where
  "sql_max [] = None"
| "sql_max (x # xs) = (case sql_max xs of None \<Rightarrow> Some x | Some y \<Rightarrow> Some (max x y))"

fun sql_min :: "Time list \<Rightarrow> Time option" where
  "sql_min [] = None"
| "sql_min (x # xs) = (case sql_min xs of None \<Rightarrow> Some x | Some y \<Rightarrow> Some (min x y))"

section \<open>The checkpoint table\<close>

record ck_row =
  ck_group :: string
  ck_part :: string
  ck_hlc :: Time
  ck_applied :: "int option"

type_synonym ck_table = "ck_row list"

text \<open>An upsert of key columns leaves an existing row as it is.\<close>

definition upsert_key :: "string \<Rightarrow> string \<Rightarrow> Time \<Rightarrow> int option \<Rightarrow> ck_table \<Rightarrow> ck_table" where
  "upsert_key g p t applied tbl =
     (if \<exists>r \<in> set tbl. ck_group r = g \<and> ck_part r = p \<and> ck_hlc r = t then tbl
      else tbl @ [\<lparr>ck_group = g, ck_part = p, ck_hlc = t, ck_applied = applied\<rparr>])"

definition advanceTemplate :: "string \<Rightarrow> string \<Rightarrow> Time \<Rightarrow> ck_table \<Rightarrow> ck_table \<times> nat" where
  "advanceTemplate g p t tbl =
     (let not_before = sql_max (map ck_hlc (filter (\<lambda>r. ck_group r = g \<and> ck_part r = p) tbl)) in
      case not_before of
        None \<Rightarrow> (upsert_key g p t None tbl, 1)
      | Some m \<Rightarrow> if t \<ge> m then (upsert_key g p t None tbl, 1) else (tbl, 0))"

definition commitTemplate :: "string \<Rightarrow> Time \<Rightarrow> Time \<Rightarrow> int \<Rightarrow> ck_table \<Rightarrow> ck_table" where
  "commitTemplate g lo hi now tbl =
     map (\<lambda>r. if ck_group r = g \<and> ck_hlc r \<ge> lo \<and> ck_hlc r < hi \<and> ck_applied r = None
              then r\<lparr>ck_applied := Some now\<rparr> else r) tbl"

definition ensureTemplate :: "string \<Rightarrow> string \<Rightarrow> int \<Rightarrow> ck_table \<Rightarrow> ck_table" where
  "ensureTemplate g p now tbl =
     (if \<exists>r \<in> set tbl. ck_group r = g \<and> ck_part r = p then tbl
      else upsert_key g p (Time 1 1) (Some now) tbl)"

text \<open>The common table expressions of \<open>refreshTemplate\<close>.\<close>

definition available_data :: "string \<Rightarrow> Time \<Rightarrow> ck_table \<Rightarrow> ck_table" where
  "available_data g known tbl = filter (\<lambda>r. ck_group r = g \<and> ck_hlc r \<ge> known) tbl"

definition partition_max_times :: "ck_table \<Rightarrow> Time list" where
  "partition_max_times rows =
     List.map_filter (\<lambda>p. sql_max (map ck_hlc (filter (\<lambda>r. ck_part r = p) rows))) (remdups (map ck_part rows))"

definition visible_data :: "ck_table \<Rightarrow> ck_table" where
  "visible_data rows =
     (case sql_min (partition_max_times rows) of
        None \<Rightarrow> []
      | Some m \<Rightarrow> filter (\<lambda>r. ck_hlc r \<le> m) rows)"

definition partition_max_unapplied :: "ck_table \<Rightarrow> string \<Rightarrow> Time option" where
  "partition_max_unapplied visible p =
     sql_max (map ck_hlc (filter (\<lambda>r. ck_part r = p \<and> ck_applied r = None) visible))"

definition last_applied :: "ck_table \<Rightarrow> Time option" where
  "last_applied visible = sql_max (map ck_hlc (filter (\<lambda>r. ck_applied r \<noteq> None) visible))"

definition stop_hlc :: "ck_table \<Rightarrow> Time option" where
  "stop_hlc visible =
     sql_min (List.map_filter
       (\<lambda>p. case partition_max_unapplied visible p of Some t \<Rightarrow> Some t | None \<Rightarrow> last_applied visible)
       (remdups (map ck_part visible)))"

definition look_back :: "ck_table \<Rightarrow> Time option" where
  "look_back visible =
     (case stop_hlc visible of
        None \<Rightarrow> None
      | Some s \<Rightarrow> sql_max (map ck_hlc (filter (\<lambda>r. ck_applied r \<noteq> None \<and> ck_hlc r \<le> s) visible)))"

definition refreshTemplate :: "string \<Rightarrow> Time \<Rightarrow> ck_table \<Rightarrow> Time option \<times> Time option" where
  "refreshTemplate g known tbl =
     (let visible = visible_data (available_data g known tbl) in (look_back visible, stop_hlc visible))"

section \<open>Operations of a group\<close>

text \<open>
  The database rows, the in-memory bounds that other components watch, and the number of wake-ups of
  the refresh job.
\<close>

record ck_state =
  cs_rows :: ck_table
  cs_bounds :: Range
  cs_wakeups :: nat

datatype 'e ck_error = CkDb 'e | CkLoop "'e loop_error" | GoingBackwards Ident Time

definition Refresh :: "ck_state \<Rightarrow> ck_state" where
  "Refresh st = st\<lparr>cs_wakeups := Suc (cs_wakeups st)\<rparr>"

definition group_key :: "TableGroup \<Rightarrow> string" where
  "group_key g = Ident_Raw (Ident_Canonical (tg_Name g))"

definition Advance :: "TableGroup \<Rightarrow> Ident \<Rightarrow> Time \<Rightarrow> 'e fate \<Rightarrow> ck_state \<Rightarrow> ck_state \<times> 'e ck_error option" where
  "Advance g part ts fate st =
     (case apply_fate fate (advanceTemplate (group_key g) (Ident_Raw (Ident_Canonical part)) ts) (cs_rows st) of
        (rows, Inl e) \<Rightarrow> (st\<lparr>cs_rows := rows\<rparr>, Some (CkDb e))
      | (rows, Inr n) \<Rightarrow>
          if n = 0 then (st\<lparr>cs_rows := rows\<rparr>, Some (GoingBackwards part ts))
          else (Refresh (st\<lparr>cs_rows := rows\<rparr>), None))"

definition Commit ::
  "TableGroup \<Rightarrow> Range \<Rightarrow> int \<Rightarrow> ('e \<Rightarrow> bool) \<Rightarrow> 'e \<Rightarrow> 'e fate list \<Rightarrow> ck_state \<Rightarrow> ck_state \<times> 'e ck_error option" where
  "Commit g rng now shouldRetry gone fates st =
     (case retry_stmt shouldRetry gone fates
             (\<lambda>rows. (commitTemplate (group_key g) (Range_Min rng) (Range_Max rng) now rows, ())) (cs_rows st) of
        (rows, Inl e) \<Rightarrow> (st\<lparr>cs_rows := rows\<rparr>, Some (CkLoop e))
      | (rows, Inr _) \<Rightarrow> (Refresh (st\<lparr>cs_rows := rows\<rparr>), None))"

text \<open>\<open>Ensure\<close> runs in a transaction and uses the raw names.\<close>

definition ensure_all :: "TableGroup \<Rightarrow> Ident list \<Rightarrow> int \<Rightarrow> ck_table \<Rightarrow> ck_table" where
  "ensure_all g parts now rows = fold (\<lambda>part. ensureTemplate (Ident_Raw (tg_Name g)) (Ident_Raw part) now) parts rows"

definition Ensure ::
  "TableGroup \<Rightarrow> Ident list \<Rightarrow> int \<Rightarrow> ('e \<Rightarrow> bool) \<Rightarrow> 'e \<Rightarrow> 'e fate list \<Rightarrow> ck_state \<Rightarrow> ck_state \<times> 'e ck_error option" where
  "Ensure g parts now shouldRetry gone fates st =
     (case retry_stmt shouldRetry gone fates (\<lambda>rows. (ensure_all g parts now rows, ())) (cs_rows st) of
        (rows, Inl e) \<Rightarrow> (st\<lparr>cs_rows := rows\<rparr>, Some (CkLoop e))
      | (rows, Inr _) \<Rightarrow> (Refresh (st\<lparr>cs_rows := rows\<rparr>), None))"

text \<open>
  \<open>refreshQuery\<close> as \<open>refreshBounds\<close> calls it, inside its own retry loop: one attempt, whose error is
  returned.
\<close>

definition refreshQuery :: "TableGroup \<Rightarrow> Time \<Rightarrow> 'e fate \<Rightarrow> ck_table \<Rightarrow> ('e, Range) result" where
  "refreshQuery g knownCommitted fate rows =
     (case snd (apply_fate fate (\<lambda>rows. (rows, refreshTemplate (group_key g) knownCommitted rows)) rows) of
        Inl e \<Rightarrow> Inl e
      | Inr (nextMin, nextMax) \<Rightarrow>
          let mn = (case nextMin of Some t \<Rightarrow> t | None \<Rightarrow> knownCommitted)
          in Inr (case nextMax of Some mx \<Rightarrow> RangeIncluding mn mx | None \<Rightarrow> RangeIncluding mn mn))"

text \<open>
  The update of the bounds: an error of the query makes the callback return the empty range and nil,
  and an unchanged range is not published.
\<close>

definition refreshBounds :: "TableGroup \<Rightarrow> 'e fate \<Rightarrow> ck_state \<Rightarrow> ck_state" where
  "refreshBounds g fate st =
     (case refreshQuery g (Range_Min (cs_bounds st)) fate (cs_rows st) of
        Inl e \<Rightarrow> st\<lparr>cs_bounds := RangeEmpty\<rparr>
      | Inr nxt \<Rightarrow> if nxt = cs_bounds st then st else st\<lparr>cs_bounds := nxt\<rparr>)"

text \<open>\<open>ScanForTargetSchemas\<close>: the groups with unapplied checkpoints.\<close>

fun parse_schemas :: "string list \<Rightarrow> (ident_error, Schema list) result" where
  "parse_schemas [] = Inr []"
| "parse_schemas (raw # raws) =
     (case ParseSchema raw of
        Inl e \<Rightarrow> Inl e
      | Inr sch \<Rightarrow> (case parse_schemas raws of Inl e \<Rightarrow> Inl e | Inr schs \<Rightarrow> Inr (sch # schs)))"

definition ScanForTargetSchemas :: "ck_table \<Rightarrow> (ident_error, Schema list) result" where
  "ScanForTargetSchemas tbl = parse_schemas (remdups (map ck_group (filter (\<lambda>r. ck_applied r = None) tbl)))"

section \<open>Migration of resolved timestamps\<close>

record old_row =
  or_schema :: string
  or_nanos :: int
  or_logical :: int
  or_applied :: "int option"

text \<open>The old table may be missing; a check constraint records that it was migrated.\<close>

record mig_state =
  ms_old :: "(bool \<times> old_row list) option"
  ms_new :: ck_table

definition migrated_row :: "old_row \<Rightarrow> ck_row" where
  "migrated_row r = \<lparr>ck_group = or_schema r, ck_part = or_schema r, ck_hlc = Time (or_nanos r) (or_logical r), ck_applied = or_applied r\<rparr>"

definition key_of :: "ck_row \<Rightarrow> string \<times> Time \<times> string" where
  "key_of r = (ck_group r, ck_hlc r, ck_part r)"

text \<open>The transaction of \<open>migrate\<close>; an insert that repeats a key fails and rolls back.\<close>

definition migrate_tx :: "mig_state \<Rightarrow> mig_state \<times> bool" where
  "migrate_tx st =
     (case ms_old st of
        None \<Rightarrow> (st, True)
      | Some (constrained, rows) \<Rightarrow>
          if constrained then (st, True)
          else let new = map migrated_row rows in
            if distinct (map key_of (ms_new st @ new))
            then (\<lparr>ms_old = Some (True, rows), ms_new = ms_new st @ new\<rparr>, True)
            else (st, False))"

section \<open>The window of the refresh query\<close>

lemma sql_max_None [simp]: "sql_max xs = None \<longleftrightarrow> xs = []"
  by (cases xs) (auto split: option.splits)

lemma sql_min_None [simp]: "sql_min xs = None \<longleftrightarrow> xs = []"
  by (cases xs) (auto split: option.splits)

lemma sql_max_SomeD: "sql_max xs = Some m \<Longrightarrow> m \<in> set xs \<and> (\<forall>x \<in> set xs. x \<le> m)"
  by (induction xs arbitrary: m) (auto simp: max_def split: option.splits if_splits intro: order.trans)

lemma sql_min_SomeD: "sql_min xs = Some m \<Longrightarrow> m \<in> set xs \<and> (\<forall>x \<in> set xs. m \<le> x)"
  by (induction xs arbitrary: m) (auto simp: min_def split: option.splits if_splits intro: order.trans)

lemma sql_max_ge: "x \<in> set xs \<Longrightarrow> \<exists>m. sql_max xs = Some m \<and> x \<le> m"
  by (cases "sql_max xs") (auto dest: sql_max_SomeD)

lemma sql_min_le: "x \<in> set xs \<Longrightarrow> \<exists>m. sql_min xs = Some m \<and> m \<le> x"
  by (cases "sql_min xs") (auto dest: sql_min_SomeD)

lemma set_map_filter_Some: "x \<in> set (List.map_filter f xs) \<longleftrightarrow> (\<exists>a \<in> set xs. f a = Some x)"
  by (force simp: List.map_filter_def)

text \<open>The visible rows reach up to a time that every partition has reached.\<close>

lemma visible_data_props:
  assumes "rows \<noteq> []"
  shows "\<exists>m. visible_data rows = filter (\<lambda>r. ck_hlc r \<le> m) rows \<and> (\<exists>r \<in> set rows. ck_hlc r = m \<and> (\<forall>r' \<in> set rows. ck_part r' = ck_part r \<longrightarrow> ck_hlc r' \<le> m))
    \<and> (\<forall>r \<in> set rows. \<exists>r' \<in> set rows. ck_part r' = ck_part r \<and> m \<le> ck_hlc r')"
proof -
  let ?mx = "\<lambda>p. sql_max (map ck_hlc (filter (\<lambda>r. ck_part r = p) rows))"
  have mx: "\<exists>t. ?mx (ck_part r) = Some t \<and> t \<in> set (partition_max_times rows)
      \<and> (\<exists>r' \<in> set rows. ck_part r' = ck_part r \<and> ck_hlc r' = t)" if r: "r \<in> set rows" for r
  proof -
    from r have "ck_hlc r \<in> set (map ck_hlc (filter (\<lambda>x. ck_part x = ck_part r) rows))" by simp
    from sql_max_ge [OF this] obtain t where t: "?mx (ck_part r) = Some t" by blast
    then show ?thesis
      using sql_max_SomeD [OF t] r unfolding partition_max_times_def set_map_filter_Some by fastforce
  qed
  obtain r0 where "r0 \<in> set rows" using assms by (cases rows) auto
  then obtain m where m: "sql_min (partition_max_times rows) = Some m" using mx sql_min_le by blast
  have "\<exists>r' \<in> set rows. ck_part r' = ck_part r \<and> m \<le> ck_hlc r'" if "r \<in> set rows" for r
    using mx [OF that] sql_min_SomeD [OF m] by blast
  moreover have "\<exists>r \<in> set rows. ck_hlc r = m \<and> (\<forall>r' \<in> set rows. ck_part r' = ck_part r \<longrightarrow> ck_hlc r' \<le> m)"
    using sql_min_SomeD [OF m] by (fastforce simp: partition_max_times_def set_map_filter_Some dest!: sql_max_SomeD)
  ultimately show ?thesis using m by (intro exI [of _ m]) (simp add: visible_data_def)
qed

lemma stop_hlc_Some:
  assumes "v \<noteq> []"
  shows "\<exists>h. stop_hlc v = Some h \<and> (\<exists>r \<in> set v. ck_hlc r = h \<and> (ck_applied r = None \<or> last_applied v = Some h))
    \<and> (\<forall>r \<in> set v. ck_applied r = None \<longrightarrow> (\<exists>r' \<in> set v. ck_part r' = ck_part r \<and> ck_applied r' = None \<and> h \<le> ck_hlc r'))"
proof -
  let ?f = "\<lambda>p. case partition_max_unapplied v p of Some t \<Rightarrow> Some t | None \<Rightarrow> last_applied v"
  let ?ts = "List.map_filter ?f (remdups (map ck_part v))"
  have some: "\<exists>t. ?f (ck_part r) = Some t \<and> t \<in> set ?ts" if r: "r \<in> set v" for r
  proof -
    have "\<exists>t. ?f (ck_part r) = Some t"
    proof (cases "ck_applied r")
      case None
      then show ?thesis
        using r sql_max_ge [of "ck_hlc r" "map ck_hlc (filter (\<lambda>x. ck_part x = ck_part r \<and> ck_applied x = None) v)"]
        by (auto simp: partition_max_unapplied_def)
    next
      case (Some a)
      then show ?thesis
        using r sql_max_ge [of "ck_hlc r" "map ck_hlc (filter (\<lambda>x. ck_applied x \<noteq> None) v)"]
        by (auto simp: last_applied_def split: option.splits)
    qed
    then show ?thesis using r unfolding set_map_filter_Some by force
  qed
  obtain r0 where "r0 \<in> set v" using assms by (cases v) auto
  then obtain h where h: "sql_min ?ts = Some h" using some sql_min_le by blast
  have "\<exists>r \<in> set v. ck_hlc r = h \<and> (ck_applied r = None \<or> last_applied v = Some h)"
  proof -
    obtain p where "?f p = Some h" using sql_min_SomeD [OF h] unfolding set_map_filter_Some by blast
    then consider "partition_max_unapplied v p = Some h" | "last_applied v = Some h" by (auto split: option.splits)
    then show ?thesis
    proof cases
      case 1
      then show ?thesis using sql_max_SomeD [OF 1 [unfolded partition_max_unapplied_def]] by auto
    next
      case 2
      then show ?thesis using sql_max_SomeD [OF 2 [unfolded last_applied_def]] by auto
    qed
  qed
  moreover have "\<exists>r' \<in> set v. ck_part r' = ck_part r \<and> ck_applied r' = None \<and> h \<le> ck_hlc r'"
    if r: "r \<in> set v" "ck_applied r = None" for r
  proof -
    obtain t where t: "partition_max_unapplied v (ck_part r) = Some t"
      using r sql_max_ge [of "ck_hlc r" "map ck_hlc (filter (\<lambda>x. ck_part x = ck_part r \<and> ck_applied x = None) v)"]
      by (auto simp: partition_max_unapplied_def)
    then have "h \<le> t" using some [OF r(1)] sql_min_SomeD [OF h] by auto
    then show ?thesis using sql_max_SomeD [OF t [unfolded partition_max_unapplied_def]] by auto
  qed
  ultimately show ?thesis using h unfolding stop_hlc_def by blast
qed

lemma look_back_SomeD:
  assumes "look_back v = Some l"
  shows "\<exists>h. stop_hlc v = Some h \<and> l \<le> h" "\<exists>r \<in> set v. ck_applied r \<noteq> None \<and> ck_hlc r = l"
  using assms by (auto simp: look_back_def split: option.splits dest!: sql_max_SomeD) blast



lemma refresh_empty: "available_data g known tbl = [] \<Longrightarrow> refreshTemplate g known tbl = (None, None)"
  by (simp add: refreshTemplate_def visible_data_def partition_max_times_def List.map_filter_def stop_hlc_def look_back_def Let_def)

text \<open>What one answer of the refresh query says.\<close>

lemma refresh_window:
  assumes "available_data g known tbl \<noteq> []" "refreshTemplate g known tbl = (lo, hi)"
  shows "\<exists>h. hi = Some h \<and> known \<le> h
    \<and> (\<exists>r \<in> set tbl. ck_group r = g \<and> ck_hlc r = h)
    \<and> (\<forall>r \<in> set tbl. ck_group r = g \<longrightarrow> known \<le> ck_hlc r \<longrightarrow>
         (\<exists>r' \<in> set tbl. ck_group r' = g \<and> ck_part r' = ck_part r \<and> h \<le> ck_hlc r'))
    \<and> (\<forall>l. lo = Some l \<longrightarrow> known \<le> l \<and> l \<le> h
         \<and> (\<exists>r \<in> set tbl. ck_group r = g \<and> ck_applied r \<noteq> None \<and> ck_hlc r = l))"
proof -
  let ?a = "available_data g known tbl"
  let ?v = "visible_data ?a"
  have res: "lo = look_back ?v" "hi = stop_hlc ?v" using assms(2) by (auto simp: refreshTemplate_def Let_def)
  obtain m where m: "?v = filter (\<lambda>r. ck_hlc r \<le> m) ?a" "\<exists>r \<in> set ?a. ck_hlc r = m"
    "\<forall>r \<in> set ?a. \<exists>r' \<in> set ?a. ck_part r' = ck_part r \<and> m \<le> ck_hlc r'"
    using visible_data_props [OF assms(1)] by blast
  have "?v \<noteq> []" using m(1,2) by (auto simp: filter_empty_conv)
  then obtain h where h: "stop_hlc ?v = Some h" "\<exists>r \<in> set ?v. ck_hlc r = h" using stop_hlc_Some by blast
  have sub: "r \<in> set tbl" "ck_group r = g" "known \<le> ck_hlc r" if "r \<in> set ?v" for r
    using that unfolding m(1) by (auto simp: available_data_def)
  have hm: "h \<le> m" using h(2) m(1) by auto
  have "\<exists>r' \<in> set tbl. ck_group r' = g \<and> ck_part r' = ck_part r \<and> h \<le> ck_hlc r'"
    if "r \<in> set tbl" "ck_group r = g" "known \<le> ck_hlc r" for r
  proof -
    have "r \<in> set ?a" using that by (simp add: available_data_def)
    then obtain r' where "r' \<in> set ?a" "ck_part r' = ck_part r" "m \<le> ck_hlc r'" using m(3) by blast
    then show ?thesis using hm by (auto simp: available_data_def)
  qed
  moreover have "known \<le> l \<and> l \<le> h \<and> (\<exists>r \<in> set tbl. ck_group r = g \<and> ck_applied r \<noteq> None \<and> ck_hlc r = l)"
    if "look_back ?v = Some l" for l
    using look_back_SomeD [OF that] sub h(1) by fastforce
  ultimately show ?thesis using h sub unfolding res by fastforce
qed

section \<open>A commit advances the window\<close>

lemma commitTemplate_rows:
  "r \<in> set tbl \<Longrightarrow> \<exists>r' \<in> set (commitTemplate g lo hi now tbl). ck_group r' = ck_group r \<and> ck_part r' = ck_part r
     \<and> ck_hlc r' = ck_hlc r \<and> (ck_applied r' = None \<longleftrightarrow> ck_applied r = None \<and> \<not> (ck_group r = g \<and> lo \<le> ck_hlc r \<and> ck_hlc r < hi))"
  by (rule bexI [of _ "if ck_group r = g \<and> ck_hlc r \<ge> lo \<and> ck_hlc r < hi \<and> ck_applied r = None then r\<lparr>ck_applied := Some now\<rparr> else r"])
     (auto simp: commitTemplate_def)

lemma commitTemplate_rowsD:
  "r' \<in> set (commitTemplate g lo hi now tbl) \<Longrightarrow> \<exists>r \<in> set tbl. ck_group r' = ck_group r \<and> ck_part r' = ck_part r
     \<and> ck_hlc r' = ck_hlc r \<and> (ck_applied r' = None \<longleftrightarrow> ck_applied r = None \<and> \<not> (ck_group r = g \<and> lo \<le> ck_hlc r \<and> ck_hlc r < hi))"
  by (force simp: commitTemplate_def split: if_splits)

lemma commit_advances:
  assumes ref: "refreshTemplate g known tbl = (lo, Some h)" and l: "l = (case lo of Some t \<Rightarrow> t | None \<Rightarrow> known)"
    and hi: "\<And>t. t < hi \<longleftrightarrow> t \<le> h"
  shows "\<exists>l' h'. refreshTemplate g l (commitTemplate g l hi now tbl) = (Some l', Some h') \<and> h \<le> l' \<and> l' \<le> h'"
proof -
  let ?t = "commitTemplate g l hi now tbl"
  let ?a = "available_data g l ?t"
  let ?v = "visible_data ?a"
  have "available_data g known tbl \<noteq> []" using ref refresh_empty by fastforce
  from refresh_window [OF this ref] have w: "known \<le> h" "\<exists>r \<in> set tbl. ck_group r = g \<and> ck_hlc r = h"
    "\<And>r. \<lbrakk>r \<in> set tbl; ck_group r = g; known \<le> ck_hlc r\<rbrakk> \<Longrightarrow>
       \<exists>r' \<in> set tbl. ck_group r' = g \<and> ck_part r' = ck_part r \<and> h \<le> ck_hlc r'"
    and lh: "known \<le> l" "l \<le> h" unfolding l by (auto split: option.splits)
  have ap: "ck_applied r \<noteq> None \<or> h < ck_hlc r" if "r \<in> set ?a" for r
    using that hi commitTemplate_rowsD [of r g l hi now tbl] by (fastforce simp: available_data_def not_le)
  obtain rh where rh: "rh \<in> set ?a" "ck_hlc rh = h" "ck_applied rh \<noteq> None"
  proof -
    obtain r where "r \<in> set tbl" "ck_group r = g" "ck_hlc r = h" using w(2) by blast
    then show ?thesis
      using commitTemplate_rows [of r tbl g l hi now] lh(2) hi that by (fastforce simp: available_data_def)
  qed
  then have "?a \<noteq> []" by auto
  from visible_data_props [OF this] obtain m rm where m: "?v = filter (\<lambda>r. ck_hlc r \<le> m) ?a"
    "rm \<in> set ?a" "ck_hlc rm = m" "\<And>r. \<lbrakk>r \<in> set ?a; ck_part r = ck_part rm\<rbrakk> \<Longrightarrow> ck_hlc r \<le> m" by blast
  have hm: "h \<le> m"
  proof -
    have rm: "rm \<in> set ?t" "ck_group rm = g" "l \<le> ck_hlc rm" using m(2) by (auto simp: available_data_def)
    obtain r0 where r0: "r0 \<in> set tbl" "ck_group r0 = g" "ck_part r0 = ck_part rm" "ck_hlc r0 = ck_hlc rm"
      using commitTemplate_rowsD [OF rm(1)] rm(2) by metis
    obtain r1 where r1: "r1 \<in> set tbl" "ck_group r1 = g" "ck_part r1 = ck_part rm" "h \<le> ck_hlc r1"
    proof -
      have "known \<le> ck_hlc r0" using rm(3) lh(1) r0(4) by simp
      from w(3) [OF r0(1,2) this] show ?thesis using that r0(3) by auto
    qed
    obtain r2 where "r2 \<in> set ?a" "ck_part r2 = ck_part rm" "h \<le> ck_hlc r2"
      using commitTemplate_rows [OF r1(1), of g l hi now] r1 lh(2) by (fastforce simp: available_data_def)
    then show ?thesis using m(4) by force
  qed
  have rv: "rh \<in> set ?v" using rh hm m(1) by simp
  then have "?v \<noteq> []" by auto
  from stop_hlc_Some [OF this] obtain h' r where h': "stop_hlc ?v = Some h'" "r \<in> set ?v" "ck_hlc r = h'"
    "ck_applied r = None \<or> last_applied ?v = Some h'" by blast
  have "h \<le> h'"
    using h'(4)
  proof
    assume "ck_applied r = None"
    then show ?thesis using ap [of r] h'(2,3) m(1) by auto
  next
    assume "last_applied ?v = Some h'"
    then show ?thesis using rv rh(2,3) by (auto simp: last_applied_def dest!: sql_max_SomeD)
  qed
  then obtain l' where l': "look_back ?v = Some l'" "h \<le> l'"
    using sql_max_ge [of h "map ck_hlc (filter (\<lambda>r. ck_applied r \<noteq> None \<and> ck_hlc r \<le> h') ?v)"] rv rh(2,3)
    by (force simp: look_back_def h'(1))
  then show ?thesis using look_back_SomeD(1) [OF l'(1)] h'(1) by (auto simp: refreshTemplate_def Let_def)
qed

section \<open>Rows of a partition\<close>

lemma upsert_key_rows:
  "set (upsert_key g p t a tbl) = set tbl \<union>
     (if \<exists>r \<in> set tbl. ck_group r = g \<and> ck_part r = p \<and> ck_hlc r = t then {}
      else {\<lparr>ck_group = g, ck_part = p, ck_hlc = t, ck_applied = a\<rparr>})"
  by (auto simp: upsert_key_def)

text \<open>A mark is refused exactly when the partition already has a later one.\<close>

definition backwards :: "TableGroup \<Rightarrow> Ident \<Rightarrow> Time \<Rightarrow> ck_table \<Rightarrow> bool" where
  "backwards g part ts rows \<longleftrightarrow>
     (\<exists>r \<in> set rows. ck_group r = group_key g \<and> ck_part r = Ident_Raw (Ident_Canonical part) \<and> ts < ck_hlc r)"

lemma advanceTemplate_rows:
  "advanceTemplate (group_key g) (Ident_Raw (Ident_Canonical part)) ts rows =
     (if backwards g part ts rows then (rows, 0)
      else (upsert_key (group_key g) (Ident_Raw (Ident_Canonical part)) ts None rows, 1))"
proof -
  let ?hs = "map ck_hlc (filter (\<lambda>r. ck_group r = group_key g \<and> ck_part r = Ident_Raw (Ident_Canonical part)) rows)"
  have b: "backwards g part ts rows \<longleftrightarrow> (\<exists>t \<in> set ?hs. ts < t)" by (auto simp: backwards_def)
  show ?thesis
  proof (cases "sql_max ?hs")
    case None
    then show ?thesis using b by (simp add: advanceTemplate_def)
  next
    case (Some m)
    then have "backwards g part ts rows \<longleftrightarrow> \<not> m \<le> ts" unfolding b using sql_max_SomeD [OF Some] by (meson leD le_less_linear order.trans)
    then show ?thesis using Some by (simp add: advanceTemplate_def Let_def)
  qed
qed

lemma refreshBounds_Returns:
  "cs_bounds (refreshBounds g (Returns :: 'e fate) st) =
     (case refreshTemplate (group_key g) (Range_Min (cs_bounds st)) (cs_rows st) of (lo, hi) \<Rightarrow>
        let mn = (case lo of Some t \<Rightarrow> t | None \<Rightarrow> Range_Min (cs_bounds st))
        in (case hi of Some mx \<Rightarrow> RangeIncluding mn mx | None \<Rightarrow> RangeIncluding mn mn))"
  by (auto simp: refreshBounds_def refreshQuery_def Let_def split: prod.splits)

section \<open>Properties\<close>

text \<open>
  \<open>Advance\<close> refuses a mark that is before the latest one of its partition, with the table and the
  bounds unchanged; otherwise the mark is in the table, no row of the table is lost or changed, and the
  refresh job is woken up. A mark equal to the latest one is accepted and stays applied if it was.
\<close>

theorem Advance_monotone:
  "case Advance g part ts (Returns :: 'e fate) st of (st', err) \<Rightarrow>
     cs_bounds st' = cs_bounds st
     \<and> (if backwards g part ts (cs_rows st) then st' = st \<and> err = Some (GoingBackwards part ts)
        else err = None \<and> cs_wakeups st' = Suc (cs_wakeups st) \<and> set (cs_rows st) \<subseteq> set (cs_rows st')
          \<and> (\<exists>r \<in> set (cs_rows st'). ck_group r = group_key g \<and> ck_part r = Ident_Raw (Ident_Canonical part) \<and> ck_hlc r = ts)
          \<and> length (cs_rows st') \<le> Suc (length (cs_rows st)))"
  by (auto simp: Advance_def advanceTemplate_rows Refresh_def upsert_key_def)


text \<open>
  C18: after a successful commit of the current bounds, the next refresh publishes bounds that begin at or
  after the last instant of the committed ones: the window moves forward and never back.
\<close>

theorem commit_then_refresh_advances:
  assumes st: "st = refreshBounds g (Returns :: 'e fate) st0"
    and tick: "\<forall>r \<in> set (cs_rows st0). tick_time (ck_hlc r)" "tick_time (Range_Min (cs_bounds st0))"
    and commit: "Commit g (cs_bounds st) now shouldRetry gone fates st = (st', None)"
  shows "Range_MaxInclusive (cs_bounds st) \<le> Range_Min (cs_bounds (refreshBounds g (Returns :: 'e fate) st'))"
proof -
  let ?known = "Range_Min (cs_bounds st0)" and ?g = "group_key g"
  obtain lo hi where r: "refreshTemplate ?g ?known (cs_rows st0) = (lo, hi)" by fastforce
  let ?l = "case lo of Some t \<Rightarrow> t | None \<Rightarrow> ?known"
  have rows: "cs_rows st = cs_rows st0" using st by (simp add: refreshBounds_def split: sum.splits)
  have bounds: "cs_bounds st = (case hi of Some h \<Rightarrow> RangeIncluding ?l h | None \<Rightarrow> RangeIncluding ?l ?l)"
    using st r by (simp add: refreshBounds_Returns Let_def)
  have min: "Range_Min (cs_bounds st) = ?l" unfolding bounds by (simp split: option.splits)
  let ?c = "\<lambda>rows. commitTemplate ?g ?l (Range_Max (cs_bounds st)) now rows"
  have idem: "?c (?c rows) = ?c rows" for rows by (simp add: commitTemplate_def)
  have c: "cs_rows st' = ?c (cs_rows st0)" "cs_bounds st' = cs_bounds st"
    using commit retry_stmt_idempotent [where stmt = "\<lambda>rows. (?c rows, ())"] idem
    by (auto simp: Commit_def Refresh_def min rows split: prod.splits sum.splits)
  show ?thesis
  proof (cases hi)
    case (Some h)
    have "available_data ?g ?known (cs_rows st0) \<noteq> []" using r refresh_empty Some by fastforce
    from refresh_window [OF this r] have "tick_time h" using Some tick(1) by auto
    then have hi: "t < Next h \<longleftrightarrow> t \<le> h" for t by (rule less_Next_iff)
    obtain l' h' where a: "refreshTemplate ?g ?l (commitTemplate ?g ?l (Next h) now (cs_rows st0)) = (Some l', Some h')" "h \<le> l'"
      using commit_advances [OF r [unfolded Some] refl hi] by blast
    have "cs_rows st' = commitTemplate ?g ?l (Next h) now (cs_rows st0)" using c(1) bounds Some by simp
    then have "Range_Min (cs_bounds (refreshBounds g (Returns :: 'e fate) st')) = l'"
      using a(1) by (simp add: refreshBounds_Returns c(2) min)
    then show ?thesis using a(2) bounds Some \<open>tick_time h\<close> by (simp add: Range_MaxInclusive_def Before_Next)
  next
    case None
    have empty: "available_data ?g ?known (cs_rows st0) = []"
      using r None refresh_window [of ?g ?known "cs_rows st0"] by fastforce
    then have "lo = None" using r refresh_empty by fastforce
    then have l: "?l = ?known" by simp
    have "available_data ?g ?known (?c (cs_rows st0)) = []"
      using empty by (auto simp: available_data_def filter_empty_conv dest: commitTemplate_rowsD)
    then have "Range_Min (cs_bounds (refreshBounds g (Returns :: 'e fate) st')) = ?known"
      using l by (simp add: refreshBounds_Returns c min refresh_empty Let_def)
    then show ?thesis using bounds None l tick(2) by (simp add: Range_MaxInclusive_def Before_Next)
  qed
qed

text \<open>Witness for C19: two partitions, one behind the other.\<close>

definition demo_group :: TableGroup where
  "demo_group = \<lparr>tg_Name = Ident ''g'', tg_Enclosing = NilSchema, tg_Tables = []\<rparr>"

definition demo_rows :: ck_table where
  "demo_rows = [\<lparr>ck_group = ''g'', ck_part = ''a'', ck_hlc = Time 2 0, ck_applied = Some 0\<rparr>,
     \<lparr>ck_group = ''g'', ck_part = ''a'', ck_hlc = Time 9 0, ck_applied = None\<rparr>,
     \<lparr>ck_group = ''g'', ck_part = ''b'', ck_hlc = Time 5 0, ck_applied = None\<rparr>]"

definition demo_ck :: ck_state where
  "demo_ck = \<lparr>cs_rows = demo_rows, cs_bounds = RangeEmpty, cs_wakeups = 0\<rparr>"

lemma demo_group_key [simp]: "group_key demo_group = ''g''"
  by code_simp

lemma demo_refresh: "cs_bounds (refreshBounds demo_group (Returns :: string fate) demo_ck) = RangeIncluding (Time 2 0) (Time 2 0)"
  by code_simp


text \<open>Witness for C18: the same table, with a commit that fails once after its effect.\<close>

theorem commit_then_refresh_advances_witness:
  "\<exists>st'. Commit demo_group (cs_bounds (refreshBounds demo_group (Returns :: string fate) demo_ck)) 7 (\<lambda>_. True) ''gone''
       [FailsAfter ''e'', Returns] (refreshBounds demo_group (Returns :: string fate) demo_ck) = (st', None)
     \<and> Time 2 0 \<le> Range_Min (cs_bounds (refreshBounds demo_group (Returns :: string fate) st'))"
proof -
  let ?st = "refreshBounds demo_group (Returns :: string fate) demo_ck"
  have "\<exists>st'. Commit demo_group (cs_bounds ?st) 7 (\<lambda>_. True) ''gone'' [FailsAfter ''e'', Returns] ?st = (st', None)"
    by (simp add: Commit_def retry_stmt_def Retry_def Loop_def loop_from.simps stmt_attempt_def maxAttempts_def)
  then obtain st' where c: "Commit demo_group (cs_bounds ?st) 7 (\<lambda>_. True) ''gone'' [FailsAfter ''e'', Returns] ?st = (st', None)" ..
  have "Range_MaxInclusive (cs_bounds ?st) \<le> Range_Min (cs_bounds (refreshBounds demo_group (Returns :: string fate) st'))"
    by (rule commit_then_refresh_advances [OF refl _ _ c])
       (simp_all add: demo_ck_def demo_rows_def RangeEmpty_def Zero_def tick_time_def valid_time_def MaxInt64_def)
  then show ?thesis using c by (simp add: demo_refresh Range_MaxInclusive_def Before_Next tick_time_def valid_time_def MaxInt64_def)
qed

text \<open>
  \<open>Ensure\<close> writes the raw name of a partition while \<open>Advance\<close> writes the lower-cased one: with an
  upper-case letter in the name, the ensured row never moves and the published bounds stay at it,
  whatever marks the partition receives.
\<close>

theorem Ensure_raw_name_stalls:
  "\<exists>st1 st2. Ensure demo_group [Ident ''P''] 0 (\<lambda>_. True) ''gone'' [Returns] \<lparr>cs_rows = [], cs_bounds = RangeEmpty, cs_wakeups = 0\<rparr> = (st1, None)
     \<and> Advance demo_group (Ident ''P'') (Time 5 0) (Returns :: string fate) st1 = (st2, None)
     \<and> cs_bounds (refreshBounds demo_group (Returns :: string fate) st2) = RangeIncluding (Time 1 1) (Time 1 1)"
proof -
  let ?r1 = "\<lparr>ck_group = ''g'', ck_part = ''P'', ck_hlc = Time 1 1, ck_applied = Some 0\<rparr>"
  let ?r2 = "\<lparr>ck_group = ''g'', ck_part = ''p'', ck_hlc = Time 5 0, ck_applied = None\<rparr>"
  let ?st1 = "\<lparr>cs_rows = [?r1], cs_bounds = RangeEmpty, cs_wakeups = 1\<rparr>"
  let ?st2 = "\<lparr>cs_rows = [?r1, ?r2], cs_bounds = RangeEmpty, cs_wakeups = 2\<rparr>"
  have "Ensure demo_group [Ident ''P''] 0 (\<lambda>_. True) ''gone'' [Returns] \<lparr>cs_rows = [], cs_bounds = RangeEmpty, cs_wakeups = 0\<rparr> = (?st1, None)"
    by (simp add: Ensure_def retry_stmt_def Retry_def Loop_def loop_from.simps stmt_attempt_def ensure_all_def
        ensureTemplate_def upsert_key_def Refresh_def demo_group_def)
  moreover have "Advance demo_group (Ident ''P'') (Time 5 0) (Returns :: string fate) ?st1 = (?st2, None)"
    by code_simp
  moreover have "cs_bounds (refreshBounds demo_group (Returns :: string fate) ?st2) = RangeIncluding (Time 1 1) (Time 1 1)"
    by code_simp
  ultimately show ?thesis by blast
qed

text \<open>
  A failed refresh query resets the published bounds to the empty range at zero instead of reporting
  the error or keeping the bounds.
\<close>

lemma refresh_error_resets_bounds:
  "cs_bounds (refreshBounds g (FailsBefore e) st) = RangeEmpty"
  by (simp add: refreshBounds_def refreshQuery_def)

text \<open>The migration copies every old row once, and running it again changes nothing.\<close>

lemma migrate_tx_idempotent:
  assumes "migrate_tx st = (st', True)"
  shows "migrate_tx st' = (st', True)
    \<and> (ms_old st = Some (False, rows) \<longrightarrow> ms_new st' = ms_new st @ map migrated_row rows)"
  using assms by (auto simp: migrate_tx_def Let_def split: option.splits if_splits)

end
