(* ===== verification/Sequencing.thy ===== *)
theory Sequencing
  imports Checkpoint Staging
begin

text \<open>
  What the sequencers share and how they are switched: configuration defaults and progress statistics
  (\<open>src/internal/sequencer/config.go\<close>, \<open>sequencer.go\<close>), the progress of the immediate and the best-effort
  sequencers, the retirement of staged mutations (\<open>retire/retire.go\<close>), and the switcher between modes
  (\<open>switcher\<close>).
\<close>

section \<open>Configuration\<close>

record seq_Config =
  sc_FlushPeriod :: int
  sc_FlushSize :: int
  sc_IdempotentSource :: bool
  sc_Parallelism :: int
  sc_QuiescentPeriod :: int
  sc_RetireOffset :: int
  sc_ScanSize :: int
  sc_TimestampLimit :: int

definition DefaultFlushPeriod :: int where
  "DefaultFlushPeriod = 1000000000"

definition DefaultFlushSize :: int where
  "DefaultFlushSize = 1000"

definition DefaultParallelism :: int where
  "DefaultParallelism = 16"

definition DefaultQuiescentPeriod :: int where
  "DefaultQuiescentPeriod = 10 * 1000000000"

definition DefaultRetireOffset :: int where
  "DefaultRetireOffset = 24 * 3600 * 1000000000"

definition DefaultScanSize :: int where
  "DefaultScanSize = 10000"

definition DefaultTimestampLimit :: int where
  "DefaultTimestampLimit = 1000"

definition Preflight :: "seq_Config \<Rightarrow> seq_Config" where
  "Preflight c =
     c\<lparr>sc_FlushPeriod := (if sc_FlushPeriod c = 0 then DefaultFlushPeriod else sc_FlushPeriod c),
       sc_FlushSize := (if sc_FlushSize c = 0 then DefaultFlushSize else sc_FlushSize c),
       sc_Parallelism := (if sc_Parallelism c = 0 then DefaultParallelism else sc_Parallelism c),
       sc_QuiescentPeriod := (if sc_QuiescentPeriod c \<le> 0 then DefaultQuiescentPeriod else sc_QuiescentPeriod c),
       sc_RetireOffset := (if sc_RetireOffset c < 0 then DefaultRetireOffset else sc_RetireOffset c),
       sc_ScanSize := (if sc_ScanSize c = 0 then DefaultScanSize else sc_ScanSize c),
       sc_TimestampLimit := (if sc_TimestampLimit c \<le> 0 then DefaultTimestampLimit else sc_TimestampLimit c)\<rparr>"

section \<open>Progress\<close>

record stat =
  st_group :: TableGroup
  st_tables :: "(Table, Range) imap"

definition NewStat :: "TableGroup \<Rightarrow> (Table, Range) imap \<Rightarrow> stat" where
  "NewStat grp progress = \<lparr>st_group = grp, st_tables = progress\<rparr>"

fun common_max :: "(Table, Range) imap \<Rightarrow> Table list \<Rightarrow> Time \<Rightarrow> Time option" where
  "common_max progress [] commonMax = Some commonMax"
| "common_max progress (table # tables) commonMax =
     (case imap_Get Table_Canonical progress table of
        None \<Rightarrow> None
      | Some ts \<Rightarrow> common_max progress tables (if Compare (Range_Max ts) commonMax < 0 then Range_Max ts else commonMax))"

definition CommonProgress :: "stat option \<Rightarrow> Range" where
  "CommonProgress so =
     (case so of
        None \<Rightarrow> RangeEmpty
      | Some s \<Rightarrow>
          (case common_max (st_tables s) (tg_Tables (st_group s)) (New MaxInt64 MaxInt64) of
             None \<Rightarrow> RangeEmpty
           | Some commonMax \<Rightarrow> RangeExcluding Zero commonMax))"

text \<open>The update of the core sequencer for a report, and the callback of the immediate sequencer.\<close>

definition put_all :: "TableGroup \<Rightarrow> Range \<Rightarrow> (Table, Range) imap \<Rightarrow> (Table, Range) imap" where
  "put_all grp advanceTo progress = fold (\<lambda>table. imap_Put Table_Canonical table advanceTo) (tg_Tables grp) progress"

definition core_report :: "Range \<Rightarrow> stat \<Rightarrow> stat" where
  "core_report advanceTo s = s\<lparr>st_tables := put_all (st_group s) advanceTo (st_tables s)\<rparr>"

definition immediate_bounds :: "TableGroup \<Rightarrow> Range \<Rightarrow> Range \<Rightarrow> stat \<Rightarrow> stat" where
  "immediate_bounds grp old new' s =
     (if Compare (Range_Max new') (Range_Max old) \<le> 0 then s else NewStat grp (put_all grp new' []))"

text \<open>
  The options of the nested sequencer that best-effort starts for one table, its aggregation of progress, and
  the synthetic bounds while there are no checkpoints: the new bounds, no update, or the end of the task.
\<close>

record start_options =
  so_Bounds :: Range
  so_Group :: TableGroup
  so_MaxDeferred :: int

definition sub_options :: "seq_Config \<Rightarrow> Table \<Rightarrow> start_options \<Rightarrow> start_options" where
  "sub_options cfg table opts =
     opts\<lparr>so_MaxDeferred := sc_TimestampLimit cfg,
          so_Group := (so_Group opts)\<lparr>tg_Name := ident_New (Ident_Raw (tg_Name (so_Group opts)) @ '':'' @ Table_Raw table), tg_Tables := [table]\<rparr>\<rparr>"

definition aggregate :: "Table \<Rightarrow> stat \<Rightarrow> stat \<Rightarrow> stat" where
  "aggregate table subStat old =
     (case imap_Get Table_Canonical (st_tables subStat) table of
        None \<Rightarrow> old
      | Some nextProgress \<Rightarrow> old\<lparr>st_tables := imap_Put Table_Canonical table nextProgress (st_tables old)\<rparr>)"

datatype bounds_update = Cancelled | NoUpdate | NewBounds Range

definition synthetic_bounds :: "Time \<Rightarrow> Range \<Rightarrow> bounds_update" where
  "synthetic_bounds proposed old =
     (if Range_Min old \<noteq> Zero then Cancelled
      else if Compare proposed (Range_MaxInclusive old) > 0 then NewBounds (RangeIncluding (Range_Min old) proposed)
      else NoUpdate)"

section \<open>Retiring mutations\<close>

text \<open>The callback: the tables before and after, the time that is announced, or the error.\<close>

datatype 'e retire_error = NoStager 'e | RetireFailed Table "'e stage_error"

fun retire_tables ::
  "('e \<Rightarrow> bool) \<Rightarrow> (Table \<Rightarrow> 'e option) \<Rightarrow> Time \<Rightarrow> Table list \<Rightarrow> (Table \<Rightarrow> 'e retire_state) \<Rightarrow> (Table \<Rightarrow> 'e retire_state) \<times> 'e retire_error option" where
  "retire_tables shouldRetry get before [] s = (s, None)"
| "retire_tables shouldRetry get before (tbl # tbls) s =
     (case get tbl of
        Some e \<Rightarrow> (s, Some (NoStager e))
      | None \<Rightarrow>
          (case Retire shouldRetry before (s tbl) of
             (t, Some e) \<Rightarrow> (s(tbl := t), Some (RetireFailed tbl e))
           | (t, None) \<Rightarrow> retire_tables shouldRetry get before tbls (s(tbl := t))))"

definition retire_before :: "seq_Config \<Rightarrow> Range \<Rightarrow> Time" where
  "retire_before cfg bounds = New (wrap64 (Nanos (Range_Min bounds) - sc_RetireOffset cfg)) (Logical (Range_Min bounds))"

definition retire_callback ::
  "seq_Config \<Rightarrow> ('e \<Rightarrow> bool) \<Rightarrow> (Table \<Rightarrow> 'e option) \<Rightarrow> TableGroup \<Rightarrow> Range \<Rightarrow> (Table \<Rightarrow> 'e retire_state) \<Rightarrow> Time option
   \<Rightarrow> (Table \<Rightarrow> 'e retire_state) \<times> Time option \<times> 'e retire_error option" where
  "retire_callback cfg shouldRetry get grp bounds s announced =
     (let before = retire_before cfg bounds
      in if Compare before Zero \<le> 0 then (s, announced, None)
         else case retire_tables shouldRetry get before (tg_Tables grp) s of
           (s', Some e) \<Rightarrow> (s', announced, Some e)
         | (s', None) \<Rightarrow> (s', Some before, None))"

section \<open>The switcher\<close>

datatype Mode = ModeUnknown | ModeBestEffort | ModeConsistent | ModeImmediate | ModeOther int

datatype 'e switch_error = Unimplemented Mode | StartErr 'e | NoModeVariable | ModeUnset | SwitcherStopped

text \<open>
  The state of a group: the acceptor with the epoch, the nested stopper, in which it was started; the present
  epoch; the epochs that were stopped; and the number of the next epoch. Starting a sequencer is an argument.
\<close>

record 'a switch_state =
  sw_acceptor :: "(nat \<times> 'a) option"
  sw_stopper :: "nat option"
  sw_stopped :: "nat set"
  sw_next :: nat

definition switch_init :: "'a switch_state" where
  "switch_init = \<lparr>sw_acceptor = None, sw_stopper = None, sw_stopped = {}, sw_next = 0\<rparr>"

definition switchModeLocked ::
  "(Mode \<Rightarrow> nat \<Rightarrow> ('e, 'a) result) \<Rightarrow> Mode \<Rightarrow> 'a switch_state \<Rightarrow> 'e switch_error option \<times> 'a switch_state" where
  "switchModeLocked start next' s =
     (let s1 = s\<lparr>sw_stopped := (case sw_stopper s of None \<Rightarrow> sw_stopped s | Some e \<Rightarrow> insert e (sw_stopped s)),
                 sw_stopper := Some (sw_next s), sw_next := sw_next s + 1\<rparr>;
          started = (case start next' (sw_next s) of
                       Inl e \<Rightarrow> (Some (StartErr e), s1)
                     | Inr a \<Rightarrow> (None, s1\<lparr>sw_acceptor := Some (sw_next s, a)\<rparr>))
      in case next' of
           ModeBestEffort \<Rightarrow> started
         | ModeImmediate \<Rightarrow> started
         | ModeConsistent \<Rightarrow> started
         | _ \<Rightarrow> (Some (Unimplemented next'), s1))"

text \<open>\<open>Start\<close>, the changes of the mode variable one after the other, and the end of the watching task.\<close>

definition Switcher_Start ::
  "(Mode \<Rightarrow> nat \<Rightarrow> ('e, 'a) result) \<Rightarrow> Mode option \<Rightarrow> 'e switch_error option \<times> 'a switch_state" where
  "Switcher_Start start mode =
     (case mode of
        None \<Rightarrow> (Some NoModeVariable, switch_init)
      | Some m \<Rightarrow> if m = ModeUnknown then (Some ModeUnset, switch_init) else switchModeLocked start m switch_init)"

fun mode_changes :: "(Mode \<Rightarrow> nat \<Rightarrow> ('e, 'a) result) \<Rightarrow> Mode list \<Rightarrow> 'a switch_state \<Rightarrow> 'a switch_state" where
  "mode_changes start [] s = s"
| "mode_changes start (m # ms) s = mode_changes start ms (snd (switchModeLocked start m s))"

definition watch_ended :: "'a switch_state \<Rightarrow> 'a switch_state" where
  "watch_ended s = s\<lparr>sw_acceptor := None\<rparr>"

definition switch_Accept :: "('b \<Rightarrow> nat) \<Rightarrow> ('a \<Rightarrow> 'b \<Rightarrow> 'w \<Rightarrow> 'e option \<times> 'w) \<Rightarrow> 'b \<Rightarrow> 'a switch_state \<Rightarrow> 'w \<Rightarrow> 'e switch_error option \<times> 'w" where
  "switch_Accept cnt accept batch s w =
     (if cnt batch = 0 then (None, w)
      else case sw_acceptor s of
        None \<Rightarrow> (Some SwitcherStopped, w)
      | Some (_, acc) \<Rightarrow> (case accept acc batch w of (e, w') \<Rightarrow> (map_option StartErr e, w')))"

section \<open>Properties\<close>

lemma common_max_least:
  assumes "\<forall>t \<in> set tables. \<exists>r. imap_Get Table_Canonical progress t = Some r \<and> valid_time (Range_Max r)" "valid_time c"
  shows "\<exists>m. common_max progress tables c = Some m \<and> valid_time m \<and> m \<le> c
    \<and> (\<forall>t \<in> set tables. \<forall>r. imap_Get Table_Canonical progress t = Some r \<longrightarrow> m \<le> Range_Max r)
    \<and> (m = c \<or> (\<exists>t \<in> set tables. \<exists>r. imap_Get Table_Canonical progress t = Some r \<and> m = Range_Max r))"
  using assms
proof (induction tables arbitrary: c)
  case (Cons t ts)
  obtain r where r: "imap_Get Table_Canonical progress t = Some r" "valid_time (Range_Max r)" using Cons.prems(1) by auto
  let ?c = "if Compare (Range_Max r) c < 0 then Range_Max r else c"
  have v: "valid_time ?c" using r(2) Cons.prems(2) by simp
  have le: "?c \<le> Range_Max r" "?c \<le> c" using r(2) Cons.prems(2) by (auto simp: time_order not_less)
  obtain m where m: "common_max progress ts ?c = Some m" "valid_time m" "m \<le> ?c"
    "\<forall>t \<in> set ts. \<forall>r. imap_Get Table_Canonical progress t = Some r \<longrightarrow> m \<le> Range_Max r"
    "m = ?c \<or> (\<exists>t \<in> set ts. \<exists>r. imap_Get Table_Canonical progress t = Some r \<and> m = Range_Max r)"
    using Cons.IH [OF _ v] Cons.prems(1) by auto
  have "common_max progress (t # ts) c = Some m" using r(1) m(1) by simp
  moreover have "m \<le> c" "m \<le> Range_Max r" using m(3) le by (auto intro: order_trans)
  moreover have "m = c \<or> (\<exists>t' \<in> set (t # ts). \<exists>r. imap_Get Table_Canonical progress t' = Some r \<and> m = Range_Max r)"
    using m(5) r(1) by (auto split: if_splits)
  ultimately show ?case using m(2,4) r(1) by (intro exI [of _ m]) auto
qed simp

lemma common_max_missing:
  "\<exists>t \<in> set tables. imap_Get Table_Canonical progress t = None \<Longrightarrow> common_max progress tables c = None"
  by (induction tables arbitrary: c) (auto split: option.splits)

lemma put_all_get:
  "imap_Get Table_Canonical (put_all grp rg progress) t
   = (if Table_Canonical t \<in> Table_Canonical ` set (tg_Tables grp) then Some rg else imap_Get Table_Canonical progress t)"
proof -
  have "imap_Get Table_Canonical (fold (\<lambda>table. imap_Put Table_Canonical table rg) ts p) t
      = (if Table_Canonical t \<in> Table_Canonical ` set ts then Some rg else imap_Get Table_Canonical p t)" for ts p
    by (induction ts arbitrary: p) (auto simp: imap_Get_Put)
  then show ?thesis by (simp add: put_all_def)
qed

text \<open>The two cases of the common progress.\<close>

lemma CommonProgress_cases:
  assumes "tg_Tables (st_group s) \<noteq> []"
    and "\<forall>t \<in> set (tg_Tables (st_group s)). \<forall>r. imap_Get Table_Canonical (st_tables s) t = Some r \<longrightarrow> valid_time (Range_Max r)"
  shows "if \<exists>t \<in> set (tg_Tables (st_group s)). imap_Get Table_Canonical (st_tables s) t = None
    then CommonProgress (Some s) = RangeEmpty
    else \<exists>m. CommonProgress (Some s) = Range Zero m
      \<and> (\<exists>t \<in> set (tg_Tables (st_group s)). \<exists>r. imap_Get Table_Canonical (st_tables s) t = Some r \<and> m = Range_Max r)
      \<and> (\<forall>t \<in> set (tg_Tables (st_group s)). \<forall>r. imap_Get Table_Canonical (st_tables s) t = Some r \<longrightarrow> m \<le> Range_Max r)"
proof (cases "\<exists>t \<in> set (tg_Tables (st_group s)). imap_Get Table_Canonical (st_tables s) t = None")
  case True
  then show ?thesis using common_max_missing [OF True] by (simp add: CommonProgress_def)
next
  case False
  let ?top = "New MaxInt64 MaxInt64"
  have all: "\<forall>t \<in> set (tg_Tables (st_group s)). \<exists>r. imap_Get Table_Canonical (st_tables s) t = Some r \<and> valid_time (Range_Max r)"
    using False assms(2) by auto
  have top: "valid_time ?top" by (simp add: New_def valid_time_def MaxInt64_def)
  obtain m where m: "common_max (st_tables s) (tg_Tables (st_group s)) ?top = Some m"
    "\<forall>t \<in> set (tg_Tables (st_group s)). \<forall>r. imap_Get Table_Canonical (st_tables s) t = Some r \<longrightarrow> m \<le> Range_Max r"
    "m = ?top \<or> (\<exists>t \<in> set (tg_Tables (st_group s)). \<exists>r. imap_Get Table_Canonical (st_tables s) t = Some r \<and> m = Range_Max r)"
    using common_max_least [OF all top] by blast
  obtain t r where t: "t \<in> set (tg_Tables (st_group s))" "imap_Get Table_Canonical (st_tables s) t = Some r" "valid_time (Range_Max r)"
    using all assms(1) by (meson last_in_set)
  have "Range_Max r \<le> ?top" using t(3) by (auto simp: New_def valid_time_def less_eq_Time_def MaxInt64_def)
  then have "m = ?top \<Longrightarrow> m = Range_Max r" using m(2) t by (auto intro: antisym)
  then have "\<exists>t \<in> set (tg_Tables (st_group s)). \<exists>r. imap_Get Table_Canonical (st_tables s) t = Some r \<and> m = Range_Max r"
    using m(3) t by blast
  then show ?thesis unfolding if_not_P [OF False] using m(1,2) by (simp add: CommonProgress_def RangeExcluding_def)
qed

text \<open>
  The common progress of a group is the least progress of its tables: it is empty while some table has made
  none, and otherwise begins at zero and ends at the smallest end of the tables' ranges.
\<close>

theorem CommonProgress_is_least:
  assumes "tg_Tables (st_group s) \<noteq> []"
    and "\<forall>t \<in> set (tg_Tables (st_group s)). \<forall>r. imap_Get Table_Canonical (st_tables s) t = Some r \<longrightarrow> valid_time (Range_Max r)"
  shows "if \<exists>t \<in> set (tg_Tables (st_group s)). imap_Get Table_Canonical (st_tables s) t = None
    then CommonProgress (Some s) = RangeEmpty
    else \<exists>m. CommonProgress (Some s) = Range Zero m
      \<and> (\<exists>t \<in> set (tg_Tables (st_group s)). \<exists>r. imap_Get Table_Canonical (st_tables s) t = Some r \<and> m = Range_Max r)
      \<and> (\<forall>t \<in> set (tg_Tables (st_group s)). \<forall>r. imap_Get Table_Canonical (st_tables s) t = Some r \<longrightarrow> m \<le> Range_Max r)"
  using assms by (rule CommonProgress_cases)

text \<open>Witness: two tables, one behind the other.\<close>

theorem CommonProgress_is_least_witness:
  "CommonProgress (Some (NewStat \<lparr>tg_Name = Ident ''g'', tg_Enclosing = NilSchema, tg_Tables = [demo_table ''s'', demo_table ''t'']\<rparr>
     [(demo_table ''s'', Range Zero (Time 9 0)), (demo_table ''T'', Range Zero (Time 5 0))])) = Range Zero (Time 5 0)"
proof -
  let ?s = "NewStat \<lparr>tg_Name = Ident ''g'', tg_Enclosing = NilSchema, tg_Tables = [demo_table ''s'', demo_table ''t'']\<rparr>
     [(demo_table ''s'', Range Zero (Time 9 0)), (demo_table ''T'', Range Zero (Time 5 0))]"
  have get: "imap_Get Table_Canonical (st_tables ?s) (demo_table ''s'') = Some (Range Zero (Time 9 0))"
    "imap_Get Table_Canonical (st_tables ?s) (demo_table ''t'') = Some (Range Zero (Time 5 0))" by code_simp+
  have tables: "tg_Tables (st_group ?s) = [demo_table ''s'', demo_table ''t'']" by (simp add: NewStat_def)
  have "valid_time (Time 9 0)" "valid_time (Time 5 0)" by (simp_all add: valid_time_def)
  then show ?thesis using CommonProgress_is_least [of ?s] unfolding tables by (auto simp: get less_eq_Time_def)
qed

text \<open>A report of the core sequencer, or new bounds of the immediate one, advance the whole group.\<close>

lemma report_advances_group:
  assumes "tg_Tables (st_group s) \<noteq> []" "valid_time (Range_Max rg)"
  shows "CommonProgress (Some (core_report rg s)) = Range Zero (Range_Max rg)"
proof -
  let ?s = "core_report rg s"
  have grp: "st_group ?s = st_group s" by (simp add: core_report_def)
  have get: "imap_Get Table_Canonical (st_tables ?s) t = Some rg" if "t \<in> set (tg_Tables (st_group s))" for t
    using that by (simp add: core_report_def put_all_get)
  have top: "valid_time (New MaxInt64 MaxInt64)" by (simp add: New_def valid_time_def MaxInt64_def)
  obtain m where m: "common_max (st_tables ?s) (tg_Tables (st_group s)) (New MaxInt64 MaxInt64) = Some m"
    "m \<le> New MaxInt64 MaxInt64" "\<forall>t \<in> set (tg_Tables (st_group s)). m \<le> Range_Max rg" "m = New MaxInt64 MaxInt64 \<or> m = Range_Max rg"
    using common_max_least [of "tg_Tables (st_group s)" "st_tables ?s", OF _ top] get assms(2) by auto
  have "Range_Max rg \<le> New MaxInt64 MaxInt64" using assms(2) by (auto simp: New_def valid_time_def less_eq_Time_def MaxInt64_def)
  then have "m = Range_Max rg" using m assms(1) by (auto intro: antisym simp: neq_Nil_conv)
  then show ?thesis using m(1) grp by (simp add: CommonProgress_def RangeExcluding_def)
qed

text \<open>The synthetic bounds keep their beginning and only grow.\<close>

lemma synthetic_bounds_grow:
  assumes "synthetic_bounds proposed old = NewBounds new'" "clock_time proposed" "tick_time (Range_Max old)" "Zero < Range_Max old"
  shows "Range_Min new' = Range_Min old \<and> Range_Max old \<le> Range_Max new'"
proof -
  have n: "new' = Range (Range_Min old) (Next proposed)" and c: "Compare proposed (Before (Range_Max old)) > 0"
    using assms(1) by (auto simp: synthetic_bounds_def RangeIncluding_def Range_MaxInclusive_def split: if_splits)
  have "Nanos (Range_Max old) < Nanos proposed \<or> Nanos (Range_Max old) = Nanos proposed \<and> Logical (Range_Max old) \<le> Logical proposed + 1"
    using c assms(2-4)
    by (auto simp: Compare_def Before_def Let_def wrap64_id in_int64_def clock_time_def tick_time_def valid_time_def less_Time_def Zero_def MaxInt32_def MaxInt64_def split: if_splits)
  then show ?thesis using n assms(2) by (auto simp: Next_def less_eq_Time_def wrap64_id in_int64_def clock_time_def tick_time_def valid_time_def MaxInt32_def MaxInt64_def)
qed

section \<open>Epochs of the switcher\<close>

definition switch_inv :: "'a switch_state \<Rightarrow> bool" where
  "switch_inv s \<longleftrightarrow>
     (\<forall>e. sw_stopper s = Some e \<longrightarrow> e < sw_next s \<and> e \<notin> sw_stopped s) \<and> (\<forall>e \<in> sw_stopped s. e < sw_next s)
     \<and> (\<forall>e < sw_next s. sw_stopper s = Some e \<or> e \<in> sw_stopped s) \<and> (\<forall>e a. sw_acceptor s = Some (e, a) \<longrightarrow> e < sw_next s)"

lemma switch_inv_step: "switch_inv s \<Longrightarrow> switch_inv (snd (switchModeLocked start m s))"
  by (cases m; cases "sw_stopper s"; cases "start m (sw_next s)")
     (force simp: switch_inv_def switchModeLocked_def Let_def less_Suc_eq)+

lemma switch_inv_changes: "switch_inv s \<Longrightarrow> switch_inv (mode_changes start ms s)"
  by (induction ms arbitrary: s) (auto simp: switch_inv_step)

lemma switch_inv_Start: "Switcher_Start start mode = (err, s) \<Longrightarrow> switch_inv s"
  using switch_inv_step [of switch_init start]
  by (auto simp: Switcher_Start_def switch_inv_def switch_init_def split: option.splits if_splits) (metis snd_conv)+

text \<open>
  C35: after any changes of the mode, a change that succeeds leaves the group with the acceptor of the new mode,
  started in the one epoch that is not stopped. A change that fails has stopped the epoch all the same: the group
  goes on with its previous acceptor, whose epoch has ended.
\<close>

theorem switch_epochs:
  assumes "Switcher_Start start mode = (None, s0)" "switchModeLocked start m (mode_changes start ms s0) = (err, s')"
  shows "case err of
      None \<Rightarrow> \<exists>e a. sw_acceptor s' = Some (e, a) \<and> start m e = Inr a \<and> sw_stopper s' = Some e \<and> sw_stopped s' = {..<e}
    | Some _ \<Rightarrow> sw_acceptor s' = sw_acceptor (mode_changes start ms s0) \<and> (\<forall>e a. sw_acceptor s' = Some (e, a) \<longrightarrow> e \<in> sw_stopped s')"
proof -
  let ?s = "mode_changes start ms s0"
  have inv: "switch_inv ?s" using switch_inv_changes [OF switch_inv_Start [OF assms(1)]] .
  have stopped: "(case sw_stopper ?s of None \<Rightarrow> sw_stopped ?s | Some e \<Rightarrow> insert e (sw_stopped ?s)) = {..<sw_next ?s}"
    using inv by (auto simp: switch_inv_def split: option.splits)
  have acc: "\<forall>e a. sw_acceptor ?s = Some (e, a) \<longrightarrow> e < sw_next ?s" using inv by (simp add: switch_inv_def)
  show ?thesis using assms(2) acc stopped
    by (cases m; cases "start m (sw_next ?s)") (auto simp: switchModeLocked_def Let_def)
qed

text \<open>Witness for C35: a change to a mode that does not exist.\<close>

theorem switch_epochs_witness:
  "\<exists>s'. switchModeLocked (\<lambda>m _. Inr m :: (unit, Mode) result) (ModeOther 9) (mode_changes (\<lambda>m _. Inr m :: (unit, Mode) result) [ModeImmediate]
       (snd (Switcher_Start (\<lambda>m _. Inr m :: (unit, Mode) result) (Some ModeConsistent)))) = (Some (Unimplemented (ModeOther 9)), s')
     \<and> sw_acceptor s' = Some (1, ModeImmediate) \<and> 1 \<in> sw_stopped s'"
proof -
  let ?start = "\<lambda>m (_ :: nat). Inr m :: (unit, Mode) result"
  have s: "Switcher_Start ?start (Some ModeConsistent) = (None, snd (Switcher_Start ?start (Some ModeConsistent)))"
    by (simp add: Switcher_Start_def switchModeLocked_def Let_def)
  obtain s' where s': "switchModeLocked ?start (ModeOther 9) (mode_changes ?start [ModeImmediate] (snd (Switcher_Start ?start (Some ModeConsistent))))
      = (Some (Unimplemented (ModeOther 9)), s')"
    by (simp add: switchModeLocked_def Let_def)
  have "sw_acceptor (mode_changes ?start [ModeImmediate] (snd (Switcher_Start ?start (Some ModeConsistent)))) = Some (1, ModeImmediate)"
    by (simp add: Switcher_Start_def switchModeLocked_def switch_init_def Let_def)
  then show ?thesis using switch_epochs [OF s s'] s' by auto
qed

end
