(* ===== verification/Conveyor.thy ===== *)
theory Conveyor
  imports Sequencing
begin

text \<open>
  The conveyor, \<open>src/internal/conveyor\<close>, which joins a source to the sequencers: one conveyor per target schema with its table
  group, the choice of the mode from the lag, and the commit of checkpoints from the progress of the sequencers; with the counting
  acceptor in front of it, \<open>src/internal/types/counter.go\<close>.
\<close>

section \<open>Counting acceptor\<close>

text \<open>The counters of errors, received mutations and successes, and a call of the delegate.\<close>

record counters =
  cn_errors :: nat
  cn_received :: nat
  cn_successes :: nat

definition counting_accept :: "('b \<Rightarrow> nat) \<Rightarrow> ('b \<Rightarrow> 'w \<Rightarrow> 'e option \<times> 'w) \<Rightarrow> 'b \<Rightarrow> counters \<times> 'w \<Rightarrow> 'e option \<times> counters \<times> 'w" where
  "counting_accept Count delegate batch s =
     (let cnt = Count batch; c = (fst s)\<lparr>cn_received := cn_received (fst s) + cnt\<rparr> in
      case delegate batch (snd s) of (err, w) \<Rightarrow>
        (err, (if err = None then c\<lparr>cn_successes := cn_successes c + cnt\<rparr> else c\<lparr>cn_errors := cn_errors c + cnt\<rparr>), w))"

definition counting_AcceptMultiBatch :: "(MultiBatch \<Rightarrow> 'w \<Rightarrow> 'e option \<times> 'w) \<Rightarrow> MultiBatch \<Rightarrow> counters \<times> 'w \<Rightarrow> 'e option \<times> counters \<times> 'w" where
  "counting_AcceptMultiBatch = counting_accept MultiBatch_Count"

definition counting_AcceptTableBatch :: "(TableBatch \<Rightarrow> 'w \<Rightarrow> 'e option \<times> 'w) \<Rightarrow> TableBatch \<Rightarrow> counters \<times> 'w \<Rightarrow> 'e option \<times> counters \<times> 'w" where
  "counting_AcceptTableBatch = counting_accept TableBatch_Count"

definition counting_AcceptTemporalBatch :: "(TemporalBatch \<Rightarrow> 'w \<Rightarrow> 'e option \<times> 'w) \<Rightarrow> TemporalBatch \<Rightarrow> counters \<times> 'w \<Rightarrow> 'e option \<times> counters \<times> 'w" where
  "counting_AcceptTemporalBatch = counting_accept TemporalBatch_Count"

text \<open>The counters balance after any sequence of batches, and the delegate sees what it would see without them.\<close>

lemma counting_balanced:
  assumes "counting_accept Count delegate batch (c, w) = (err, c', w')" "cn_received c = cn_errors c + cn_successes c"
  shows "cn_received c' = cn_errors c' + cn_successes c' \<and> delegate batch w = (err, w')"
  using assms by (auto simp: counting_accept_def Let_def split: prod.splits if_splits)

section \<open>The mode of a conveyor\<close>

record conv_Config =
  cv_BestEffortWindow :: int
  cv_BestEffortOnly :: bool
  cv_Immediate :: bool

definition defaultBackfillWindow :: int where
  "defaultBackfillWindow = 3600 * 1000000000"

text \<open>A fixed mode, when the configuration forces one.\<close>

definition fixed_mode :: "conv_Config \<Rightarrow> Mode option" where
  "fixed_mode cfg =
     (if cv_Immediate cfg then Some ModeImmediate else if cv_BestEffortOnly cfg then Some ModeBestEffort else None)"

text \<open>\<open>time.Since\<close> saturates at the limits of a duration.\<close>

definition since :: "int \<Rightarrow> int \<Rightarrow> int" where
  "since now t = max (- (2 ^ 63)) (min MaxInt64 (now - t))"

definition mode_want :: "conv_Config \<Rightarrow> int \<Rightarrow> Mode" where
  "mode_want cfg lag =
     (if cv_BestEffortWindow cfg \<le> 0 then ModeConsistent
      else if lag \<ge> cv_BestEffortWindow cfg then ModeBestEffort
      else if lag \<le> go_div (cv_BestEffortWindow cfg) 4 then ModeConsistent
      else ModeUnknown)"

text \<open>The update of the variable; \<open>None\<close> is \<open>ErrNoUpdate\<close>.\<close>

definition mode_update :: "Mode \<Rightarrow> Mode \<Rightarrow> Mode option" where
  "mode_update want current =
     (if current = ModeUnknown \<and> want = ModeUnknown then Some ModeBestEffort
      else if want = ModeUnknown \<or> current = want then None
      else Some want)"

definition mode_callback :: "conv_Config \<Rightarrow> int \<Rightarrow> Range \<Rightarrow> Mode \<Rightarrow> Mode" where
  "mode_callback cfg now bounds current =
     (case mode_update (mode_want cfg (since now (Nanos (Range_Min bounds)))) current of
        None \<Rightarrow> current
      | Some want \<Rightarrow> want)"

text \<open>The modes over the times at which the callback runs, with the bounds it sees.\<close>

fun modeSelector :: "conv_Config \<Rightarrow> (int \<times> Range) list \<Rightarrow> Mode \<Rightarrow> Mode" where
  "modeSelector cfg [] current = (case fixed_mode cfg of Some m \<Rightarrow> m | None \<Rightarrow> current)"
| "modeSelector cfg ((now, bounds) # evs) current =
     (case fixed_mode cfg of
        Some m \<Rightarrow> m
      | None \<Rightarrow> modeSelector cfg evs (mode_callback cfg now bounds current))"

section \<open>Committing checkpoints\<close>

text \<open>One change of the progress, with the clock and the fates of the statements of the commit.\<close>

definition resolved_callback ::
  "TableGroup \<Rightarrow> ('e \<Rightarrow> bool) \<Rightarrow> 'e \<Rightarrow> stat option \<Rightarrow> stat \<Rightarrow> int \<Rightarrow> 'e fate list \<Rightarrow> ck_state \<Rightarrow> ck_state" where
  "resolved_callback grp shouldRetry gone old new' now fates ck =
     (let oldMin = CommonProgress old; newMin = CommonProgress (Some new') in
      if oldMin = newMin then ck else fst (Commit grp newMin now shouldRetry gone fates ck))"

fun updateResolved ::
  "TableGroup \<Rightarrow> ('e \<Rightarrow> bool) \<Rightarrow> 'e \<Rightarrow> (stat \<times> int \<times> 'e fate list) list \<Rightarrow> stat option \<Rightarrow> ck_state \<Rightarrow> ck_state" where
  "updateResolved grp shouldRetry gone [] old ck = ck"
| "updateResolved grp shouldRetry gone ((new', now, fates) # evs) old ck =
     updateResolved grp shouldRetry gone evs (Some new') (resolved_callback grp shouldRetry gone old new' now fates ck)"

section \<open>The conveyors\<close>

text \<open>
  What \<open>Get\<close> calls: the watcher of a schema with its tables, and the start of the checkpoint group and of the switcher, which
  receives the acceptor of the conveyor. The parts that have been started for a group are recorded in order.
\<close>

datatype part = PartCheckpoint | PartModeSelector | PartSwitcher | PartResolved | PartRetire | PartMetrics

record ('e, 'a) conv_env =
  ce_watcher :: "Schema \<Rightarrow> ('e, Table list) result"
  ce_checkpoint :: "TableGroup \<Rightarrow> 'e option"
  ce_switcher :: "TableGroup \<Rightarrow> ('e, 'a) result"

record 'a conveyor =
  cy_acceptor :: 'a
  cy_target :: Schema
  cy_group :: TableGroup

record 'a conveyors =
  cs_targets :: "(Schema, 'a conveyor) imap"
  cs_started :: "(TableGroup \<times> part) list"
  cs_kind :: string

definition started :: "TableGroup \<Rightarrow> part list \<Rightarrow> 'a conveyors \<Rightarrow> 'a conveyors" where
  "started grp parts c = c\<lparr>cs_started := cs_started c @ map (Pair grp) parts\<rparr>"

definition table_group :: "Schema \<Rightarrow> Table list \<Rightarrow> TableGroup" where
  "table_group schema tables = \<lparr>tg_Name = ident_New (Schema_Raw schema), tg_Enclosing = schema, tg_Tables = tables\<rparr>"

definition Conveyors_Get :: "('e, 'a) conv_env \<Rightarrow> Schema \<Rightarrow> 'a conveyors \<Rightarrow> 'a conveyors \<times> ('e, 'a conveyor) result" where
  "Conveyors_Get env schema c =
     (case imap_Get Schema_Canonical (cs_targets c) schema of
        Some found \<Rightarrow> (c, Inr found)
      | None \<Rightarrow>
          (case ce_watcher env schema of
             Inl e \<Rightarrow> (c, Inl e)
           | Inr tables \<Rightarrow>
               let grp = table_group schema tables in
               case ce_checkpoint env grp of
                 Some e \<Rightarrow> (c, Inl e)
               | None \<Rightarrow>
                   let c1 = started grp [PartCheckpoint, PartModeSelector] c in
                   case ce_switcher env grp of
                     Inl e \<Rightarrow> (c1, Inl e)
                   | Inr acc \<Rightarrow>
                       let ret = \<lparr>cy_acceptor = acc, cy_target = schema, cy_group = grp\<rparr>;
                           c2 = started grp [PartSwitcher, PartResolved, PartRetire, PartMetrics] c1
                       in (c2\<lparr>cs_targets := imap_Put Schema_Canonical schema ret (cs_targets c2)\<rparr>, Inr ret)))"

definition WithKind :: "string \<Rightarrow> 'a conveyors \<Rightarrow> 'a conveyors" where
  "WithKind kind c = \<lparr>cs_targets = [], cs_started = cs_started c, cs_kind = kind\<rparr>"

fun get_all :: "('e, 'a) conv_env \<Rightarrow> Schema list \<Rightarrow> 'a conveyors \<Rightarrow> 'a conveyors \<times> 'e option" where
  "get_all env [] c = (c, None)"
| "get_all env (sch # schs) c =
     (case Conveyors_Get env sch c of
        (c', Inl e) \<Rightarrow> (c', Some e)
      | (c', Inr _) \<Rightarrow> get_all env schs c')"

datatype 'e bootstrap_error = ScanErr ident_error | GetErr 'e

definition Bootstrap :: "('e, 'a) conv_env \<Rightarrow> ck_table \<Rightarrow> 'a conveyors \<Rightarrow> 'a conveyors \<times> 'e bootstrap_error option" where
  "Bootstrap env rows c =
     (case ScanForTargetSchemas rows of
        Inl e \<Rightarrow> (c, Some (ScanErr e))
      | Inr schemas \<Rightarrow> (case get_all env schemas c of (c', e) \<Rightarrow> (c', map_option GetErr e)))"

section \<open>Properties\<close>

text \<open>
  The mode has hysteresis: it leaves the consistent mode only when the lag has reached the window, and the best-effort mode only when
  the lag has fallen to a quarter of it; a window that is not positive means the consistent mode. It is never unknown after the first
  evaluation.
\<close>

lemma mode_hysteresis:
  assumes "m' = mode_callback cfg now bounds m" and "lag = since now (Nanos (Range_Min bounds))" and "w = cv_BestEffortWindow cfg"
  shows "m' \<noteq> ModeUnknown" and "w \<le> 0 \<Longrightarrow> m' = ModeConsistent"
    and "m = ModeConsistent \<Longrightarrow> m' \<noteq> m \<Longrightarrow> 0 < w \<and> w \<le> lag \<and> m' = ModeBestEffort"
    and "m = ModeBestEffort \<Longrightarrow> m' \<noteq> m \<Longrightarrow> w \<le> 0 \<or> lag \<le> w div 4 \<and> m' = ModeConsistent"
  using assms by (auto simp: mode_callback_def mode_update_def mode_want_def go_div_pos split: option.splits if_splits)

lemma modeSelector_fixed: "fixed_mode cfg = Some m \<Longrightarrow> modeSelector cfg evs current = m"
  by (cases evs) auto

text \<open>What a commit does to the checkpoints, whatever becomes of its statements.\<close>

lemma commitTemplate_idem [simp]: "commitTemplate g lo hi now (commitTemplate g lo hi now rows) = commitTemplate g lo hi now rows"
  by (simp add: commitTemplate_def)

lemma Commit_rows:
  assumes "Commit grp rng now shouldRetry gone fates ck = (ck', err)"
  shows "cs_rows ck' = cs_rows ck \<or> cs_rows ck' = commitTemplate (group_key grp) (Range_Min rng) (Range_Max rng) now (cs_rows ck)"
proof -
  let ?c = "\<lambda>rows. commitTemplate (group_key grp) (Range_Min rng) (Range_Max rng) now rows"
  obtain rows r where r: "retry_stmt shouldRetry gone fates (\<lambda>rows. (?c rows, ())) (cs_rows ck) = (rows, r)" by fastforce
  have "cs_rows ck' = rows" using assms r by (auto simp: Commit_def Refresh_def split: sum.splits)
  moreover obtain n where "rows = ((fst \<circ> (\<lambda>rows. (?c rows, ()))) ^^ n) (cs_rows ck)" using retry_stmt_iterates(1) [OF r] by blast
  moreover have "((fst \<circ> (\<lambda>rows. (?c rows, ()))) ^^ n) rows0 \<in> {rows0, ?c rows0}" for n rows0
    by (induction n) auto
  ultimately show ?thesis by (metis empty_iff insert_iff)
qed

lemma Commit_Returns:
  "cs_rows (fst (Commit grp rng now shouldRetry gone (Returns # fates) ck))
   = commitTemplate (group_key grp) (Range_Min rng) (Range_Max rng) now (cs_rows ck)"
  by (simp add: Commit_def retry_stmt_def Retry_def Loop_def loop_from.simps stmt_attempt_def maxAttempts_def Refresh_def)

text \<open>A time that every table of the group has passed.\<close>

definition passed :: "stat \<Rightarrow> Time \<Rightarrow> bool" where
  "passed s t \<longleftrightarrow> (\<forall>table \<in> set (tg_Tables (st_group s)). \<exists>rg. imap_Get Table_Canonical (st_tables s) table = Some rg \<and> t < Range_Max rg)"

definition good_stat :: "TableGroup \<Rightarrow> stat \<Rightarrow> bool" where
  "good_stat grp s \<longleftrightarrow> st_group s = grp \<and> tg_Tables grp \<noteq> []
     \<and> (\<forall>t \<in> set (tg_Tables grp). \<forall>rg. imap_Get Table_Canonical (st_tables s) t = Some rg \<longrightarrow> valid_time (Range_Max rg))"

lemma CommonProgress_passed:
  assumes "good_stat grp s" "valid_time t"
  shows "Range_Min (CommonProgress (Some s)) \<le> t" "t < Range_Max (CommonProgress (Some s)) \<longleftrightarrow> passed s t"
proof -
  have z: "Zero \<le> t" using assms(2) by (auto simp: valid_time_def Zero_def less_eq_Time_def)
  note least = CommonProgress_cases [of s]
  show "Range_Min (CommonProgress (Some s)) \<le> t"
    using z by (auto simp: CommonProgress_def RangeEmpty_def RangeExcluding_def split: option.splits)
  show "t < Range_Max (CommonProgress (Some s)) \<longleftrightarrow> passed s t"
  proof (cases "\<exists>u \<in> set (tg_Tables (st_group s)). imap_Get Table_Canonical (st_tables s) u = None")
    case True
    then have "CommonProgress (Some s) = RangeEmpty" by (simp add: CommonProgress_def common_max_missing)
    then show ?thesis using True z by (auto simp: RangeEmpty_def passed_def)
  next
    case False
    obtain m where m: "CommonProgress (Some s) = Range Zero m"
      "\<exists>u \<in> set (tg_Tables (st_group s)). \<exists>rg. imap_Get Table_Canonical (st_tables s) u = Some rg \<and> m = Range_Max rg"
      "\<forall>u \<in> set (tg_Tables (st_group s)). \<forall>rg. imap_Get Table_Canonical (st_tables s) u = Some rg \<longrightarrow> m \<le> Range_Max rg"
      using least assms(1) False by (auto simp: good_stat_def)
    show ?thesis
    proof
      assume "t < Range_Max (CommonProgress (Some s))"
      then have t: "t < m" using m(1) by simp
      show "passed s t"
        unfolding passed_def
      proof
        fix u assume u: "u \<in> set (tg_Tables (st_group s))"
        then obtain rg where rg: "imap_Get Table_Canonical (st_tables s) u = Some rg" using False by auto
        then have "m \<le> Range_Max rg" using m(3) u by blast
        then show "\<exists>rg. imap_Get Table_Canonical (st_tables s) u = Some rg \<and> t < Range_Max rg" using rg t by auto
      qed
    next
      assume "passed s t"
      then show "t < Range_Max (CommonProgress (Some s))" using m(1,2) by (auto simp: passed_def)
    qed
  qed
qed

text \<open>
  What a sequence of reports keeps of the checkpoints: their keys, the rows of other groups, what has been applied before, and that a row
  is applied only below a progress that has been reported.
\<close>

definition resolved_inv :: "TableGroup \<Rightarrow> stat set \<Rightarrow> ck_table \<Rightarrow> ck_table \<Rightarrow> bool" where
  "resolved_inv grp stats rows rows' \<longleftrightarrow>
     list_all2 (\<lambda>r r'. r' = r \<or> ck_group r = group_key grp \<and> ck_applied r = None \<and> (\<exists>now. r' = r\<lparr>ck_applied := Some now\<rparr>)
        \<and> (\<exists>s \<in> stats. passed s (ck_hlc r))) rows rows'"

lemma resolved_inv_commit:
  assumes "good_stat grp s" "s \<in> stats" "\<forall>r \<in> set rows. valid_time (ck_hlc r)"
  shows "resolved_inv grp stats rows
    (commitTemplate (group_key grp) (Range_Min (CommonProgress (Some s))) (Range_Max (CommonProgress (Some s))) now rows)"
  unfolding resolved_inv_def commitTemplate_def list.rel_map
  using assms CommonProgress_passed(2) [OF assms(1)] by (intro list.rel_refl_strong) auto

lemma resolved_inv_trans:
  assumes "resolved_inv grp stats rows rows'" "resolved_inv grp stats rows' rows''"
  shows "resolved_inv grp stats rows rows''"
  using assms unfolding resolved_inv_def by (rule list_all2_trans [rotated]) auto

lemma resolved_inv_hlc: "resolved_inv grp stats rows rows' \<Longrightarrow> map ck_hlc rows' = map ck_hlc rows"
  unfolding resolved_inv_def by (induction rule: list_all2_induct) auto

lemma resolved_inv_valid:
  "resolved_inv grp stats rows rows' \<Longrightarrow> \<forall>r \<in> set rows. valid_time (ck_hlc r) \<Longrightarrow> \<forall>r \<in> set rows'. valid_time (ck_hlc r)"
  unfolding resolved_inv_def by (induction rule: list_all2_induct) auto

lemma resolved_callback_inv:
  assumes "good_stat grp s" "s \<in> stats" "\<forall>r \<in> set (cs_rows ck). valid_time (ck_hlc r)"
  shows "resolved_inv grp stats (cs_rows ck) (cs_rows (resolved_callback grp shouldRetry gone old s now fates ck))"
proof -
  have refl: "resolved_inv grp stats rows rows" for rows
    unfolding resolved_inv_def by (rule list.rel_refl) simp
  obtain ck' err where c: "Commit grp (CommonProgress (Some s)) now shouldRetry gone fates ck = (ck', err)" by force
  show ?thesis
    using Commit_rows [OF c] resolved_inv_commit [OF assms] refl c by (auto simp: resolved_callback_def Let_def)
qed

lemma updateResolved_inv:
  "\<lbrakk>\<forall>ev \<in> set evs. good_stat grp (fst ev) \<and> fst ev \<in> stats; \<forall>r \<in> set (cs_rows ck). valid_time (ck_hlc r)\<rbrakk>
   \<Longrightarrow> resolved_inv grp stats (cs_rows ck) (cs_rows (updateResolved grp shouldRetry gone evs old ck))"
proof (induction evs arbitrary: old ck)
  case Nil
  show ?case by (simp add: resolved_inv_def list.rel_refl)
next
  case (Cons ev evs)
  obtain s now fates where ev: "ev = (s, now, fates)" by (metis prod_cases3)
  let ?ck = "resolved_callback grp shouldRetry gone old s now fates ck"
  have step: "resolved_inv grp stats (cs_rows ck) (cs_rows ?ck)"
    using Cons.prems by (intro resolved_callback_inv) (auto simp: ev)
  have "resolved_inv grp stats (cs_rows ?ck) (cs_rows (updateResolved grp shouldRetry gone evs (Some s) ?ck))"
    using Cons.prems(1) resolved_inv_valid [OF step Cons.prems(2)] by (intro Cons.IH) auto
  then show ?case using resolved_inv_trans [OF step] by (simp add: ev)
qed

text \<open>When the statements return, everything below the last common progress has been applied.\<close>

definition applied_below :: "TableGroup \<Rightarrow> Time \<Rightarrow> ck_table \<Rightarrow> bool" where
  "applied_below grp t rows \<longleftrightarrow> (\<forall>r \<in> set rows. ck_group r = group_key grp \<longrightarrow> ck_hlc r < t \<longrightarrow> ck_applied r \<noteq> None)"

lemma resolved_callback_applies:
  assumes "good_stat grp s" "\<forall>r \<in> set (cs_rows ck). valid_time (ck_hlc r)"
    and "applied_below grp (Range_Max (CommonProgress old)) (cs_rows ck)"
  shows "applied_below grp (Range_Max (CommonProgress (Some s)))
    (cs_rows (resolved_callback grp shouldRetry gone old s now (Returns # fates) ck))"
proof (cases "CommonProgress old = CommonProgress (Some s)")
  case False
  have "applied_below grp (Range_Max (CommonProgress (Some s)))
      (commitTemplate (group_key grp) (Range_Min (CommonProgress (Some s))) (Range_Max (CommonProgress (Some s))) now (cs_rows ck))"
    using CommonProgress_passed(1) [OF assms(1)] assms(2) by (auto simp: applied_below_def commitTemplate_def)
  then show ?thesis using False by (simp add: resolved_callback_def Let_def Commit_Returns)
qed (use assms(3) in \<open>simp add: resolved_callback_def Let_def\<close>)

lemma updateResolved_applies:
  "\<lbrakk>\<forall>ev \<in> set evs. good_stat grp (fst ev) \<and> (\<exists>fates. snd (snd ev) = Returns # fates); \<forall>r \<in> set (cs_rows ck). valid_time (ck_hlc r);
    applied_below grp (Range_Max (CommonProgress old)) (cs_rows ck)\<rbrakk>
   \<Longrightarrow> applied_below grp (Range_Max (CommonProgress (if evs = [] then old else Some (fst (last evs)))))
        (cs_rows (updateResolved grp shouldRetry gone evs old ck))"
proof (induction evs arbitrary: old ck)
  case (Cons ev evs)
  obtain s now fates where ev: "ev = (s, now, Returns # fates)" using Cons.prems(1) by (metis list.set_intros(1) prod.collapse)
  let ?ck = "resolved_callback grp shouldRetry gone old s now (Returns # fates) ck"
  have good: "good_stat grp s" using Cons.prems(1) by (simp add: ev)
  have valid: "\<forall>r \<in> set (cs_rows ?ck). valid_time (ck_hlc r)"
    by (rule resolved_inv_valid [OF resolved_callback_inv [OF good _ Cons.prems(2), of "{s}"] Cons.prems(2)]) simp
  have tail: "\<forall>ev \<in> set evs. good_stat grp (fst ev) \<and> (\<exists>fates. snd (snd ev) = Returns # fates)" using Cons.prems(1) by simp
  from Cons.IH [OF tail valid resolved_callback_applies [OF good Cons.prems(2,3)]] show ?case
    by (simp add: ev split: if_splits)
qed simp

text \<open>
  C33: the checkpoints of a group follow its progress. However the statements of the commits fare, no row is lost or added, and a row
  of the group becomes applied only when a report said that every table of the group has passed its time. When the commits return,
  every row is applied that is before the common progress of the last report.
\<close>

theorem checkpoints_follow_progress:
  assumes "\<forall>ev \<in> set evs. good_stat grp (fst ev)" and "\<forall>r \<in> set (cs_rows ck). valid_time (ck_hlc r)"
    and "ck' = updateResolved grp shouldRetry gone evs None ck"
  shows "list_all2 (\<lambda>r r'. r' = r \<or> ck_group r = group_key grp \<and> ck_applied r = None \<and> (\<exists>now. r' = r\<lparr>ck_applied := Some now\<rparr>)
      \<and> (\<exists>ev \<in> set evs. passed (fst ev) (ck_hlc r))) (cs_rows ck) (cs_rows ck')
    \<and> (evs \<noteq> [] \<longrightarrow> (\<forall>ev \<in> set evs. \<exists>fates. snd (snd ev) = Returns # fates) \<longrightarrow>
        (\<forall>r \<in> set (cs_rows ck'). ck_group r = group_key grp \<longrightarrow> passed (fst (last evs)) (ck_hlc r) \<longrightarrow> ck_applied r \<noteq> None))"
proof (intro conjI impI)
  have inv: "resolved_inv grp (fst ` set evs) (cs_rows ck) (cs_rows ck')"
    unfolding assms(3) by (rule updateResolved_inv) (use assms(1,2) in auto)
  then show "list_all2 (\<lambda>r r'. r' = r \<or> ck_group r = group_key grp \<and> ck_applied r = None \<and> (\<exists>now. r' = r\<lparr>ck_applied := Some now\<rparr>)
      \<and> (\<exists>ev \<in> set evs. passed (fst ev) (ck_hlc r))) (cs_rows ck) (cs_rows ck')"
    by (simp add: resolved_inv_def)
  assume evs: "evs \<noteq> []" "\<forall>ev \<in> set evs. \<exists>fates. snd (snd ev) = Returns # fates"
  have valid: "\<forall>r \<in> set (cs_rows ck'). valid_time (ck_hlc r)" using resolved_inv_valid [OF inv assms(2)] .
  have "applied_below grp (Range_Max (CommonProgress None)) (cs_rows ck)"
    using assms(2) by (auto simp: applied_below_def CommonProgress_def RangeEmpty_def valid_time_def Zero_def less_Time_def)
  from updateResolved_applies [OF _ assms(2) this, of evs] assms(1,3) evs
  have "applied_below grp (Range_Max (CommonProgress (Some (fst (last evs))))) (cs_rows ck')" by auto
  moreover have "good_stat grp (fst (last evs))" using assms(1) evs(1) by simp
  ultimately show "\<forall>r \<in> set (cs_rows ck'). ck_group r = group_key grp \<longrightarrow> passed (fst (last evs)) (ck_hlc r) \<longrightarrow> ck_applied r \<noteq> None"
    using valid CommonProgress_passed(2) by (auto simp: applied_below_def)
qed

text \<open>Witness for C33: two tables, of which one has only reached the time 7, and checkpoints at the times 5 and 9.\<close>

definition demo_stat :: stat where
  "demo_stat = NewStat (demo_group\<lparr>tg_Tables := [demo_table ''s'', demo_table ''t'']\<rparr>)
     [(demo_table ''s'', Range Zero (Time 20 0)), (demo_table ''t'', Range Zero (Time 7 0))]"

lemma demo_stat_get:
  "imap_Get Table_Canonical (st_tables demo_stat) (demo_table ''s'') = Some (Range Zero (Time 20 0))"
  "imap_Get Table_Canonical (st_tables demo_stat) (demo_table ''t'') = Some (Range Zero (Time 7 0))"
  by code_simp+

theorem checkpoints_follow_progress_witness:
  "\<exists>x y z. cs_rows (updateResolved (st_group demo_stat) (\<lambda>_. True) ''gone'' [(demo_stat, 0, [Returns])] None demo_ck) = [x, y, z]
     \<and> ck_hlc y = Time 9 0 \<and> ck_applied y = None \<and> ck_hlc z = Time 5 0 \<and> ck_applied z \<noteq> None"
proof -
  let ?ck = "updateResolved (st_group demo_stat) (\<lambda>_. True) ''gone'' [(demo_stat, 0, [Returns])] None demo_ck"
  have tables: "tg_Tables (st_group demo_stat) = [demo_table ''s'', demo_table ''t'']" by (simp add: demo_stat_def NewStat_def)
  have good: "good_stat (st_group demo_stat) demo_stat"
    unfolding good_stat_def tables by (simp add: demo_stat_get valid_time_def)
  have valid: "\<forall>r \<in> set (cs_rows demo_ck). valid_time (ck_hlc r)" by (simp add: demo_ck_def demo_rows_def valid_time_def)
  have key: "group_key (st_group demo_stat) = ''g''" by code_simp
  have passed: "passed demo_stat (Time 5 0)" "\<not> passed demo_stat (Time 9 0)"
    unfolding passed_def tables by (simp_all add: demo_stat_get less_Time_def)
  have P: "list_all2 (\<lambda>r r'. r' = r \<or> ck_group r = group_key (st_group demo_stat) \<and> ck_applied r = None
        \<and> (\<exists>now. r' = r\<lparr>ck_applied := Some now\<rparr>) \<and> (\<exists>ev \<in> set [(demo_stat, 0 :: int, [Returns :: string fate])]. passed (fst ev) (ck_hlc r)))
      (cs_rows demo_ck) (cs_rows ?ck)"
    "\<forall>r \<in> set (cs_rows ?ck). ck_group r = group_key (st_group demo_stat) \<longrightarrow> passed demo_stat (ck_hlc r) \<longrightarrow> ck_applied r \<noteq> None"
    using checkpoints_follow_progress [of "[(demo_stat, 0, [Returns])]" "st_group demo_stat" demo_ck ?ck "\<lambda>_. True" "''gone''"] good valid
    by simp_all
  have "length (cs_rows demo_ck) = 3" by (simp add: demo_ck_def demo_rows_def)
  then have "length (cs_rows ?ck) = Suc (Suc (Suc 0))" using list_all2_lengthD [OF P(1)] by simp
  then obtain x y z where rows: "cs_rows ?ck = [x, y, z]" unfolding length_Suc_conv by blast
  have "ck_hlc y = Time 9 0" "ck_applied y = None" "ck_hlc z = Time 5 0" "ck_group z = ''g''"
    using P(1) passed(2) unfolding rows by (auto simp: demo_ck_def demo_rows_def)
  moreover have "ck_applied z \<noteq> None" using P(2) passed(1) calculation(3,4) key unfolding rows by simp
  ultimately show ?thesis using rows by blast
qed

text \<open>
  A group without tables has no progress to wait for: its first report commits every checkpoint of the group, past and future.
\<close>

theorem empty_group_commits_all:
  assumes "tg_Tables (st_group s) = []" "\<forall>r \<in> set (cs_rows ck). valid_time (ck_hlc r) \<and> ck_hlc r \<noteq> New MaxInt64 MaxInt64"
  shows "applied_below (st_group s) (New MaxInt64 MaxInt64)
    (cs_rows (updateResolved (st_group s) shouldRetry gone [(s, now, [Returns])] None ck))"
proof -
  have c: "CommonProgress (Some s) = Range Zero (New MaxInt64 MaxInt64)" using assms(1) by (simp add: CommonProgress_def RangeExcluding_def)
  have "CommonProgress None \<noteq> CommonProgress (Some s)"
    unfolding c by (simp add: CommonProgress_def RangeEmpty_def Zero_def New_def MaxInt64_def)
  moreover have "Zero \<le> t" if "valid_time t" for t using that by (auto simp: valid_time_def Zero_def less_eq_Time_def)
  ultimately show ?thesis
    using assms(2) by (auto simp: resolved_callback_def Let_def Commit_Returns c applied_below_def commitTemplate_def)
qed

text \<open>
  There is one conveyor per schema: once \<open>Get\<close> has returned one, it returns the same for every spelling of the schema and starts
  nothing more. Its group names the tables that the watcher saw.
\<close>

lemma imap_Get_canon: "canon k = canon k' \<Longrightarrow> imap_Get canon m k = imap_Get canon m k'"
  by (induction m) auto

lemma Conveyors_Get_memo:
  assumes "Conveyors_Get env schema c = (c', Inr cy)" "Schema_Canonical schema' = Schema_Canonical schema"
  shows "Conveyors_Get env' schema' c' = (c', Inr cy)"
proof -
  have "imap_Get Schema_Canonical (cs_targets c') schema' = imap_Get Schema_Canonical (cs_targets c') schema"
    by (rule imap_Get_canon) (rule assms(2))
  moreover have "imap_Get Schema_Canonical (cs_targets c') schema = Some cy"
    using assms(1) by (auto simp: Conveyors_Get_def Let_def imap_Get_Put split: option.splits sum.splits)
  ultimately show ?thesis by (simp add: Conveyors_Get_def)
qed

lemma Conveyors_Get_fresh:
  assumes "Conveyors_Get env schema c = (c', Inr cy)" "imap_Get Schema_Canonical (cs_targets c) schema = None"
  shows "\<exists>tables. ce_watcher env schema = Inr tables \<and> cy_group cy = table_group schema tables
    \<and> cs_started c' = cs_started c @ map (Pair (cy_group cy))
        [PartCheckpoint, PartModeSelector, PartSwitcher, PartResolved, PartRetire, PartMetrics]"
  using assms by (auto simp: Conveyors_Get_def Let_def started_def split: sum.splits option.splits)

text \<open>
  When the switcher cannot be started, the checkpoint group and the mode selector of the failed conveyor keep running and are not
  remembered, so each further attempt starts them again.
\<close>

theorem failed_Get_leaves_parts:
  assumes "imap_Get Schema_Canonical (cs_targets c) schema = None" "ce_watcher env schema = Inr tables"
    and "ce_checkpoint env (table_group schema tables) = None" "ce_switcher env (table_group schema tables) = Inl e"
  shows "cs_started (fst (Conveyors_Get env schema (fst (Conveyors_Get env schema c))))
    = cs_started c @ map (Pair (table_group schema tables)) [PartCheckpoint, PartModeSelector, PartCheckpoint, PartModeSelector]"
  using assms by (simp add: Conveyors_Get_def Let_def started_def)

end
