(* ===== verification/Cdc.thy ===== *)
theory Cdc
  imports Cdcjson Conveyor Acceptors
begin

text \<open>
  The HTTP source of changefeeds, \<open>src/internal/source/cdc\<close>: the path of a request (\<open>request.go\<close>), the payloads of webhooks
  (\<open>webhook.go\<close>, \<open>webhook_query.go\<close>), newline-delimited files (\<open>ndjson.go\<close>), resolved timestamps (\<open>resolved.go\<close>), primary
  keys (\<open>primary_key.go\<close>) and the handler (\<open>handler.go\<close>). The JSON decoder, the authenticator and the conveyors are arguments.
\<close>

section \<open>Paths\<close>

datatype ('d, 'e) cdc_error =
    EscapeError | TooManySegments | TooFewSegments nat | NoPattern | SchemaErr ident_error | TopicErr ident_error
  | BadTimestamp string | BadLogical string | TimeErr hlc_error | AccumulateErr batch_error
  | PayloadErr 'd | MutationErr "'d cdcjson_error" | BareEnvelope | GetConveyor 'e | NotATable | TableNotFound Table | ActionErr 'e

definition hex_digit :: "char \<Rightarrow> nat option" where
  "hex_digit c =
     (let n = of_char c :: nat in
      if 48 \<le> n \<and> n \<le> 57 then Some (n - 48)
      else if 97 \<le> n \<and> n \<le> 102 then Some (n - 87)
      else if 65 \<le> n \<and> n \<le> 70 then Some (n - 55)
      else None)"

text \<open>\<open>url.QueryUnescape\<close>.\<close>

fun QueryUnescape :: "string \<Rightarrow> (('d, 'e) cdc_error, string) result" where
  "QueryUnescape [] = Inr []"
| "QueryUnescape (c # cs) =
     (if c = CHR ''%'' then
        (case cs of
           a # b # rest \<Rightarrow>
             (case (hex_digit a, hex_digit b) of
                (Some x, Some y) \<Rightarrow>
                  (case QueryUnescape rest of Inl e \<Rightarrow> Inl e | Inr s \<Rightarrow> Inr (char_of (16 * x + y) # s))
              | _ \<Rightarrow> Inl EscapeError)
         | _ \<Rightarrow> Inl EscapeError)
      else case QueryUnescape cs of
        Inl e \<Rightarrow> Inl e
      | Inr s \<Rightarrow> Inr ((if c = CHR ''+'' then CHR '' '' else c) # s))"

definition path_Split :: "string \<Rightarrow> string \<times> string" where
  "path_Split s = (let file = rev (takeWhile (\<lambda>c. c \<noteq> CHR ''/'') (rev s)) in (take (length s - length file) s, file))"

definition maxPathSegments :: nat where
  "maxPathSegments = 8"

text \<open>The loop over the path, from its end: the number of free places, \<open>segmentIdx + 1\<close>, and the segments found so far.\<close>

function path_segments :: "string \<Rightarrow> nat \<Rightarrow> string list \<Rightarrow> (('d, 'e) cdc_error, string list) result" where
  "path_segments remaining free acc =
     (let (dir, file) = path_Split remaining in
      if free = 0 then Inl TooManySegments
      else if remaining = [] \<or> dir = [] then Inr acc
      else if file = [] then path_segments (butlast dir) free acc
      else case QueryUnescape file of
        Inl e \<Rightarrow> Inl e
      | Inr seg \<Rightarrow> path_segments (butlast dir) (free - 1) (seg # acc))"
  by pat_completeness auto
termination
proof (relation "measure (\<lambda>(remaining, _, _). length remaining)", goal_cases)
  case 1
  then show ?case by simp
next
  case (2 remaining free acc x dir fl)
  then show ?case by (auto simp: path_Split_def Let_def)
next
  case (3 remaining free acc x dir fl seg)
  then show ?case by (auto simp: path_Split_def Let_def)
qed

declare path_segments.simps [simp del]

fun schemaSegmentCount :: "Product \<Rightarrow> nat" where
  "schemaSegmentCount ProductUnknown = 0"
| "schemaSegmentCount ProductOracle = 1"
| "schemaSegmentCount ProductMariaDB = 1"
| "schemaSegmentCount ProductMySQL = 1"
| "schemaSegmentCount ProductCockroachDB = 2"
| "schemaSegmentCount ProductPostgreSQL = 2"

section \<open>File names\<close>

text \<open>
  The two regular expressions. Each has at most one match, since a hyphen ends every group but the topic, and the schema id after
  the topic has none. The character before the extension is a single byte.
\<close>

definition match_date :: "string \<Rightarrow> string option" where
  "match_date s =
     (if length s > 10 \<and> list_all is_digit (take 4 s) \<and> s ! 4 = CHR ''-'' \<and> list_all is_digit (take 2 (drop 5 s))
         \<and> s ! 7 = CHR ''-'' \<and> list_all is_digit (take 2 (drop 8 s)) \<and> s ! 10 = CHR ''/''
      then Some (drop 11 s) else None)"

fun skip_groups :: "nat \<Rightarrow> string \<Rightarrow> string option" where
  "skip_groups 0 s = Some s"
| "skip_groups (Suc n) s =
     (let rest = dropWhile (\<lambda>c. c \<noteq> CHR ''-'') s in
      if takeWhile (\<lambda>c. c \<noteq> CHR ''-'') s = [] \<or> rest = [] then None else skip_groups n (tl rest))"

definition split_topic :: "string \<Rightarrow> string option" where
  "split_topic t =
     (if length t < 7 \<or> drop (length t - 6) t \<noteq> ''ndjson'' \<or> t ! (length t - 7) = CHR 0x0A then None
      else
        let body = take (length t - 7) t; schemaID = rev (takeWhile (\<lambda>c. c \<noteq> CHR ''-'') (rev body));
            topic = butlast (take (length body - length schemaID) body)
        in if schemaID = [] \<or> topic = [] \<or> CHR 0x0A \<in> set topic then None else Some topic)"

definition ndjsonRegex :: "string \<Rightarrow> string option" where
  "ndjsonRegex s = (case match_date s of None \<Rightarrow> None | Some r \<Rightarrow> (case skip_groups 5 r of None \<Rightarrow> None | Some t \<Rightarrow> split_topic t))"

definition resolvedRegex :: "string \<Rightarrow> string option" where
  "resolvedRegex s =
     (case match_date s of
        None \<Rightarrow> None
      | Some r \<Rightarrow>
          if length r = 42 \<and> list_all is_digit (take 33 r) \<and> r ! 33 \<noteq> CHR 0x0A \<and> drop 34 r = ''RESOLVED''
          then Some (take 33 r) else None)"

section \<open>Resolved timestamps\<close>

definition dec :: "string \<Rightarrow> int" where
  "dec s = foldl (\<lambda>n c. 10 * n + (of_char c - 48)) 0 s"

definition is_leap :: "int \<Rightarrow> bool" where
  "is_leap y \<longleftrightarrow> y mod 4 = 0 \<and> (y mod 100 \<noteq> 0 \<or> y mod 400 = 0)"

definition days_in :: "int \<Rightarrow> int \<Rightarrow> int" where
  "days_in y m = (if m = 2 then (if is_leap y then 29 else 28) else if m \<in> {4, 6, 9, 11} then 30 else 31)"

definition days_before_year :: "int \<Rightarrow> int" where
  "days_before_year y = 365 * (y - 1) + (y - 1) div 4 - (y - 1) div 100 + (y - 1) div 400"

definition unix_days :: "int \<Rightarrow> int \<Rightarrow> int \<Rightarrow> int" where
  "unix_days y m d = days_before_year y - days_before_year 1970 + sum_list (map (days_in y) [1..m - 1]) + d - 1"

text \<open>
  The calls have digits only, by the regular expression; \<open>time.Parse\<close> checks the ranges of the fields, and the nanoseconds since the
  epoch wrap.
\<close>

definition parseResolvedTimestamp :: "string \<Rightarrow> string \<Rightarrow> (('d, 'e) cdc_error, Time) result" where
  "parseResolvedTimestamp timestamp logical =
     (if length timestamp \<noteq> 23 \<or> \<not> list_all is_digit timestamp then Inl (BadTimestamp timestamp)
      else if length logical \<noteq> 10 \<or> \<not> list_all is_digit logical then Inl (BadLogical logical)
      else
        let y = dec (take 4 timestamp); mo = dec (take 2 (drop 4 timestamp)); d = dec (take 2 (drop 6 timestamp));
            h = dec (take 2 (drop 8 timestamp)); mi = dec (take 2 (drop 10 timestamp)); s = dec (take 2 (drop 12 timestamp))
        in if mo < 1 \<or> 12 < mo \<or> d < 1 \<or> days_in y mo < d \<or> 24 \<le> h \<or> 60 \<le> mi \<or> 60 \<le> s then Inl (BadTimestamp timestamp)
           else Inr (New (wrap64 ((unix_days y mo d * 86400 + h * 3600 + mi * 60 + s) * 1000000000 + dec (drop 14 timestamp)))
                         (dec logical)))"

section \<open>Requests\<close>

datatype schematic = SchemaTarget Schema | TableTarget Table

fun schematic_Schema :: "schematic \<Rightarrow> Schema" where
  "schematic_Schema (SchemaTarget s) = s"
| "schematic_Schema (TableTarget t) = Table_Schema t"

datatype leaf = LeafNdjsonBulk | LeafNdjsonQuery | LeafResolved | LeafWebhook | LeafWebhookQuery

record request =
  rq_leaf :: leaf
  rq_target :: schematic
  rq_timestamp :: Time

text \<open>The patterns, in order: the number of segments, and what becomes of a match for a target. \<open>None\<close> tries the next one.\<close>

definition ndjson_pattern :: "string list \<Rightarrow> schematic \<Rightarrow> request option" where
  "ndjson_pattern matchOn target =
     (case ndjsonRegex (concat [hd matchOn, ''/'', last matchOn]) of
        None \<Rightarrow> None
      | Some topic \<Rightarrow>
          (case target of
             SchemaTarget t \<Rightarrow>
               (case ParseTableRelative topic t of
                  Inl e \<Rightarrow> None
                | Inr (tbl, _) \<Rightarrow>
                    Some \<lparr>rq_leaf = LeafNdjsonBulk, rq_target = TableTarget (NewTable t (Table_Table tbl)), rq_timestamp = Zero\<rparr>)
           | TableTarget t \<Rightarrow> Some \<lparr>rq_leaf = LeafNdjsonQuery, rq_target = target, rq_timestamp = Zero\<rparr>))"

definition resolved_pattern :: "string list \<Rightarrow> schematic \<Rightarrow> request option" where
  "resolved_pattern matchOn target =
     (case resolvedRegex (concat [hd matchOn, ''/'', last matchOn]) of
        None \<Rightarrow> None
      | Some tsText \<Rightarrow>
          (case parseResolvedTimestamp (take 23 tsText) (drop 23 tsText) :: ((unit, unit) cdc_error, Time) result of
             Inl e \<Rightarrow> None
           | Inr ts \<Rightarrow> Some \<lparr>rq_leaf = LeafResolved, rq_target = target, rq_timestamp = ts\<rparr>))"

definition webhook_pattern :: "string list \<Rightarrow> schematic \<Rightarrow> request option" where
  "webhook_pattern matchOn target =
     Some \<lparr>rq_leaf = (case target of SchemaTarget _ \<Rightarrow> LeafWebhook | TableTarget _ \<Rightarrow> LeafWebhookQuery),
           rq_target = target, rq_timestamp = Zero\<rparr>"

definition requestPatterns :: "(nat \<times> (string list \<Rightarrow> schematic \<Rightarrow> request option)) list" where
  "requestPatterns = [(2, ndjson_pattern), (2, resolved_pattern), (0, webhook_pattern)]"

fun try_patterns ::
  "Schema \<Rightarrow> string list \<Rightarrow> (nat \<times> (string list \<Rightarrow> schematic \<Rightarrow> request option)) list \<Rightarrow> request option" where
  "try_patterns targetSchema segments [] = None"
| "try_patterns targetSchema segments ((expected, fn) # ps) =
     (let r = (if length segments = expected then fn segments (SchemaTarget targetSchema)
               else if length segments = expected + 1
               then fn (tl segments) (TableTarget (NewTable targetSchema (ident_New (hd segments))))
               else None)
      in case r of Some req \<Rightarrow> Some req | None \<Rightarrow> try_patterns targetSchema segments ps)"

definition parseURL :: "Product \<Rightarrow> string \<Rightarrow> (('d, 'e) cdc_error, request) result" where
  "parseURL product escapedPath =
     (case path_segments escapedPath maxPathSegments [] of
        Inl e \<Rightarrow> Inl e
      | Inr segments \<Rightarrow>
          let n = schemaSegmentCount product in
          if length segments < n then Inl (TooFewSegments n)
          else case NewSchema (map ident_New (take n segments)) of
            Inl e \<Rightarrow> Inl (SchemaErr e)
          | Inr targetSchema \<Rightarrow>
              (case try_patterns targetSchema (drop n segments) requestPatterns of
                 None \<Rightarrow> Inl NoPattern
               | Some req \<Rightarrow> Inr req))"

section \<open>Handlers\<close>

record webhook_line =
  wl_After :: string
  wl_Before :: string
  wl_Key :: string
  wl_Topic :: string
  wl_Updated :: string

record webhook_payload =
  wp_Payload :: "webhook_line list"
  wp_Length :: int
  wp_Resolved :: string
  wp_Range :: Range

record query_message =
  qm_Payload :: "string list"
  qm_Length :: int
  qm_Bare :: bool
  qm_Resolved :: string

text \<open>
  What the handlers use: the conveyors, the columns of a table in the schema that the watcher of a conveyor sees, with whether they
  are in the primary key, the decoders, and the size of the line buffer. A handler ends by one call of a conveyor, which is its
  result here.
\<close>

record ('d, 'e, 'a) cdc_env =
  en_Get :: "Schema \<Rightarrow> ('e, 'a conveyor) result"
  en_columns :: "Schema \<Rightarrow> Table \<Rightarrow> (Ident \<times> bool) list option"
  en_webhook :: "string \<Rightarrow> ('d decode_error, webhook_payload) result"
  en_query :: "string \<Rightarrow> ('d decode_error, query_message) result"
  en_bulk :: "string \<Rightarrow> ('d, bulk_payload) result"
  en_codec :: "'d codec"
  en_bufferSize :: nat

datatype cdc_action = NoAction | DoAccept Schema MultiBatch | DoAdvance Schema Ident Time

definition resolved :: "('d, 'e, 'a) cdc_env \<Rightarrow> schematic \<Rightarrow> Time \<Rightarrow> (('d, 'e) cdc_error, cdc_action) result" where
  "resolved env target timestamp =
     (case en_Get env (schematic_Schema target) of
        Inl e \<Rightarrow> Inl (GetConveyor e)
      | Inr cy \<Rightarrow> Inr (DoAdvance (schematic_Schema target) (tg_Name (cy_group cy)) timestamp))"

definition getPrimaryKey :: "('d, 'e, 'a) cdc_env \<Rightarrow> schematic \<Rightarrow> (('d, 'e) cdc_error, (Ident, nat) imap) result" where
  "getPrimaryKey env target =
     (case target of
        SchemaTarget _ \<Rightarrow> Inl NotATable
      | TableTarget table \<Rightarrow>
          (case en_Get env (Table_Schema table) of
             Inl e \<Rightarrow> Inl (GetConveyor e)
           | Inr cy \<Rightarrow>
               (case en_columns env (Table_Schema table) table of
                  None \<Rightarrow> Inl (TableNotFound table)
                | Some columns \<Rightarrow>
                    Inr (fold (\<lambda>(i, name, primary) keys. if primary then imap_Put Ident_Canonical name i keys else keys)
                              (enumerate 0 columns) []))))"

definition ndjson ::
  "('d, 'e, 'a) cdc_env \<Rightarrow> string \<Rightarrow> schematic \<Rightarrow> (string \<Rightarrow> ('d cdcjson_error, Mutation) result)
   \<Rightarrow> (('d, 'e) cdc_error, cdc_action) result" where
  "ndjson env body target mutParser =
     (case target of
        SchemaTarget _ \<Rightarrow> Inl NotATable
      | TableTarget table \<Rightarrow>
          (case NDJsonParser_Parse (en_bufferSize env) table mutParser body of
             Inl e \<Rightarrow> Inl (MutationErr e)
           | Inr batch \<Rightarrow>
               (case en_Get env (Table_Schema table) of
                  Inl e \<Rightarrow> Inl (GetConveyor e)
                | Inr _ \<Rightarrow> Inr (DoAccept (Table_Schema table) batch))))"

definition line_mutation :: "Schema \<Rightarrow> webhook_line \<Rightarrow> (('d, 'e) cdc_error, Table \<times> Mutation) result" where
  "line_mutation target line =
     (case Parse (wl_Updated line) of
        Inl e \<Rightarrow> Inl (TimeErr e)
      | Inr timestamp \<Rightarrow>
          (case topic_table (wl_Topic line) target of
             Inl e \<Rightarrow> Inl (TopicErr e)
           | Inr table \<Rightarrow>
               Inr (table, \<lparr>mut_Before = wl_Before line, mut_Data = wl_After line, mut_Key = wl_Key line, mut_Meta = [],
                            mut_Time = timestamp\<rparr>)))"

fun webhook_lines :: "Schema \<Rightarrow> webhook_line list \<Rightarrow> MultiBatch \<Rightarrow> (('d, 'e) cdc_error, MultiBatch) result" where
  "webhook_lines target [] toProcess = Inr toProcess"
| "webhook_lines target (line # lines) toProcess =
     (case line_mutation target line of
        Inl e \<Rightarrow> Inl e
      | Inr (table, mut) \<Rightarrow>
          (case MultiBatch_Accumulate table mut toProcess of
             Inl e \<Rightarrow> Inl (AccumulateErr e)
           | Inr b \<Rightarrow> webhook_lines target lines b))"

definition webhook :: "('d, 'e, 'a) cdc_env \<Rightarrow> string \<Rightarrow> schematic \<Rightarrow> (('d, 'e) cdc_error, cdc_action) result" where
  "webhook env body target =
     (case en_webhook env body of
        Inl EOF \<Rightarrow> Inr NoAction
      | Inl (Malformed d) \<Rightarrow> Inl (PayloadErr d)
      | Inr payload \<Rightarrow>
          (case en_Get env (schematic_Schema target) of
             Inl e \<Rightarrow> Inl (GetConveyor e)
           | Inr _ \<Rightarrow>
               if wp_Resolved payload \<noteq> [] then
                 (case Parse (wp_Resolved payload) of
                    Inl e \<Rightarrow> Inl (TimeErr e)
                  | Inr timestamp \<Rightarrow> resolved env target timestamp)
               else
                 (case webhook_lines (schematic_Schema target) (wp_Payload payload) MultiBatch_New of
                    Inl e \<Rightarrow> Inl e
                  | Inr toProcess \<Rightarrow> Inr (DoAccept (schematic_Schema target) toProcess))))"

fun query_lines ::
  "(string \<Rightarrow> ('d cdcjson_error, Mutation) result) \<Rightarrow> Table \<Rightarrow> string list \<Rightarrow> MultiBatch \<Rightarrow> (('d, 'e) cdc_error, MultiBatch) result" where
  "query_lines reader table [] toProcess = Inr toProcess"
| "query_lines reader table (p # ps) toProcess =
     (case reader p of
        Inl e \<Rightarrow> Inl (MutationErr e)
      | Inr mut \<Rightarrow>
          if IsDelete mut \<and> mut_Key mut = [] then query_lines reader table ps toProcess
          else case MultiBatch_Accumulate table mut toProcess of
            Inl e \<Rightarrow> Inl (AccumulateErr e)
          | Inr b \<Rightarrow> query_lines reader table ps b)"

definition webhookForQuery :: "('d, 'e, 'a) cdc_env \<Rightarrow> string \<Rightarrow> schematic \<Rightarrow> (('d, 'e) cdc_error, cdc_action) result" where
  "webhookForQuery env body target =
     (case target of
        SchemaTarget _ \<Rightarrow> Inl NotATable
      | TableTarget table \<Rightarrow>
          (case en_Get env (Table_Schema table) of
             Inl e \<Rightarrow> Inl (GetConveyor e)
           | Inr _ \<Rightarrow>
               (case getPrimaryKey env target of
                  Inl e \<Rightarrow> Inl e
                | Inr keys \<Rightarrow>
                    (case en_query env body of
                       Inl EOF \<Rightarrow> Inr NoAction
                     | Inl (Malformed d) \<Rightarrow> Inl (PayloadErr d)
                     | Inr message \<Rightarrow>
                         if qm_Bare message then Inl BareEnvelope
                         else if qm_Resolved message \<noteq> [] then
                           (case Parse (qm_Resolved message) of
                              Inl e \<Rightarrow> Inl (TimeErr e)
                            | Inr timestamp \<Rightarrow> resolved env target timestamp)
                         else
                           (case query_lines (QueryMutationReader (en_codec env) keys) table (qm_Payload message) MultiBatch_New of
                              Inl e \<Rightarrow> Inl e
                            | Inr toProcess \<Rightarrow> Inr (DoAccept (Table_Schema table) toProcess))))))"

fun run_leaf :: "('d, 'e, 'a) cdc_env \<Rightarrow> string \<Rightarrow> request \<Rightarrow> leaf \<Rightarrow> (('d, 'e) cdc_error, cdc_action) result" where
  "run_leaf env body req LeafNdjsonBulk = ndjson env body (rq_target req) (BulkMutationReader (en_bulk env))"
| "run_leaf env body req LeafNdjsonQuery =
     (case getPrimaryKey env (rq_target req) of
        Inl e \<Rightarrow> Inl e
      | Inr keys \<Rightarrow> ndjson env body (rq_target req) (QueryMutationReader (en_codec env) keys))"
| "run_leaf env body req LeafResolved = resolved env (rq_target req) (rq_timestamp req)"
| "run_leaf env body req LeafWebhook = webhook env body (rq_target req)"
| "run_leaf env body req LeafWebhookQuery = webhookForQuery env body (rq_target req)"

text \<open>
  The handler: the status of the response and the call of the conveyor that was made. \<open>answer\<close> is what the conveyor answers, \<open>copied\<close>
  the outcome of reading the body in discard mode.
\<close>

datatype http_status = StatusOK | StatusBadRequest | StatusUnauthorized | StatusNotFound

definition sendErr :: "'x option \<Rightarrow> http_status" where
  "sendErr err = (if err = None then StatusOK else StatusBadRequest)"

definition ServeHTTP ::
  "('d, 'e, 'a) cdc_env \<Rightarrow> (Schema \<Rightarrow> string \<Rightarrow> ('e, bool) result) \<Rightarrow> (cdc_action \<Rightarrow> 'e option) \<Rightarrow> bool \<Rightarrow> 'e option
   \<Rightarrow> Product \<Rightarrow> string \<Rightarrow> string \<Rightarrow> string \<Rightarrow> http_status \<times> cdc_action" where
  "ServeHTTP env check answer discard copied product path token body =
     (if discard then (sendErr copied, NoAction)
      else case parseURL product path :: (('d, 'e) cdc_error, request) result of
        Inl e \<Rightarrow> (StatusNotFound, NoAction)
      | Inr req \<Rightarrow>
          (case check (schematic_Schema (rq_target req)) token of
             Inl e \<Rightarrow> (StatusBadRequest, NoAction)
           | Inr allowed \<Rightarrow>
               if \<not> allowed then (StatusUnauthorized, NoAction)
               else case run_leaf env body req (rq_leaf req) of
                 Inl e \<Rightarrow> (StatusBadRequest, NoAction)
               | Inr NoAction \<Rightarrow> (StatusOK, NoAction)
               | Inr act \<Rightarrow> (sendErr (answer act), act)))"

section \<open>Payloads that are made from a batch\<close>

definition payload_acc :: "Table \<Rightarrow> Mutation \<Rightarrow> webhook_payload \<Rightarrow> (unit, webhook_payload) result" where
  "payload_acc table mut ret =
     Inr (ret\<lparr>wp_Payload := wp_Payload ret @ [\<lparr>wl_After = mut_Data mut, wl_Before = mut_Before mut, wl_Key = mut_Key mut,
               wl_Topic = Table_Raw table, wl_Updated = String (mut_Time mut)\<rparr>],
              wp_Range := Range_Extend (wp_Range ret) (mut_Time mut)\<rparr>)"

definition NewWebhookPayload :: "MultiBatch \<Rightarrow> (unit, webhook_payload) result" where
  "NewWebhookPayload batch =
     (case MultiBatch_CopyInto payload_acc batch \<lparr>wp_Payload = [], wp_Length = 0, wp_Resolved = [], wp_Range = RangeEmpty\<rparr> of
        Inl e \<Rightarrow> Inl e
      | Inr ret \<Rightarrow> Inr (ret\<lparr>wp_Length := int (length (wp_Payload ret))\<rparr>))"

definition NewWebhookResolved :: "Time \<Rightarrow> webhook_payload" where
  "NewWebhookResolved ts = \<lparr>wp_Payload = [], wp_Length = 0, wp_Resolved = String ts, wp_Range = RangeEmpty\<rparr>"

section \<open>Properties\<close>

fun action_schema :: "cdc_action \<Rightarrow> Schema option" where
  "action_schema NoAction = None"
| "action_schema (DoAccept s _) = Some s"
| "action_schema (DoAdvance s _ _) = Some s"

lemma run_leaf_schema:
  assumes "run_leaf env body req leaf = Inr act" "act \<noteq> NoAction"
  shows "action_schema act = Some (schematic_Schema (rq_target req))"
proof -
  have r: "resolved env target ts = Inr a \<Longrightarrow> action_schema a = Some (schematic_Schema target)" for target ts a
    by (auto simp: resolved_def split: sum.splits)
  have n: "ndjson env body target parser = Inr a \<Longrightarrow> action_schema a = Some (schematic_Schema target)" for target parser a
    by (auto simp: ndjson_def split: sum.splits schematic.splits)
  have w: "webhook env body target = Inr a \<Longrightarrow> a = NoAction \<or> action_schema a = Some (schematic_Schema target)" for target a
    using r by (auto simp: webhook_def split: sum.splits decode_error.splits if_splits)
  have q: "webhookForQuery env body target = Inr a \<Longrightarrow> a = NoAction \<or> action_schema a = Some (schematic_Schema target)" for target a
    using r by (auto simp: webhookForQuery_def split: sum.splits decode_error.splits if_splits schematic.splits)
  show ?thesis
  proof (cases leaf)
    case LeafNdjsonBulk
    then show ?thesis using assms(1) n by simp
  next
    case LeafNdjsonQuery
    then show ?thesis using assms(1) n by (auto split: sum.splits)
  next
    case LeafResolved
    then show ?thesis using assms(1) r by simp
  next
    case LeafWebhook
    then show ?thesis using assms w [of "rq_target req" act] by simp
  next
    case LeafWebhookQuery
    then show ?thesis using assms q [of "rq_target req" act] by simp
  qed
qed

text \<open>
  C13: whatever a request holds, a conveyor is called only for the schema that the path names, only when the authenticator has allowed
  the token for that schema, and the response is OK exactly when the conveyor did not refuse the call.
\<close>

theorem cdc_calls_are_authorized:
  fixes env :: "('d, 'e, 'a) cdc_env"
  assumes "ServeHTTP env check answer discard copied product path token body = (status, act)" "act \<noteq> NoAction"
  shows "\<exists>req. parseURL product path = (Inr req :: (('d, 'e) cdc_error, request) result) \<and> \<not> discard
    \<and> action_schema act = Some (schematic_Schema (rq_target req)) \<and> check (schematic_Schema (rq_target req)) token = Inr True
    \<and> (status = StatusOK \<longleftrightarrow> answer act = None)"
proof -
  obtain req where req: "parseURL product path = (Inr req :: (('d, 'e) cdc_error, request) result)"
    using assms by (auto simp: ServeHTTP_def split: if_splits sum.splits)
  have d: "\<not> discard" using assms by (auto simp: ServeHTTP_def split: if_splits)
  have c: "check (schematic_Schema (rq_target req)) token = Inr True"
    using assms req d by (auto simp: ServeHTTP_def split: if_splits sum.splits)
  have r: "run_leaf env body req (rq_leaf req) = Inr act" "status = sendErr (answer act)"
    using assms req d c by (auto simp: ServeHTTP_def split: if_splits sum.splits cdc_action.splits)
  show ?thesis using req d c run_leaf_schema [OF r(1) assms(2)] r(2) by (auto simp: sendErr_def)
qed

text \<open>The lines of a webhook, when they can be read, are accumulated in order.\<close>

lemma webhook_lines_run:
  "\<forall>line \<in> set lines. line_mutation target line = (Inr (f line) :: (('d, 'e) cdc_error, Table \<times> Mutation) result) \<Longrightarrow>
   webhook_lines target lines b = (case run_acc MultiBatch_Accumulate (map f lines) b of
      Inl e \<Rightarrow> (Inl (AccumulateErr e) :: (('d, 'e) cdc_error, MultiBatch) result) | Inr b' \<Rightarrow> Inr b')"
proof (induction lines arbitrary: b)
  case (Cons line lines)
  obtain t m where f: "f line = (t, m)" by force
  show ?case using Cons f by (cases "MultiBatch_Accumulate t m b") simp_all
qed simp

definition line_of :: "Table \<times> Mutation \<Rightarrow> webhook_line" where
  "line_of p = \<lparr>wl_After = mut_Data (snd p), wl_Before = mut_Before (snd p), wl_Key = mut_Key (snd p),
     wl_Topic = Table_Raw (fst p), wl_Updated = String (mut_Time (snd p))\<rparr>"

lemma NewWebhookPayload_lines:
  "\<exists>p. NewWebhookPayload b = Inr p \<and> wp_Payload p = map line_of (multi_list b) \<and> wp_Resolved p = []"
proof -
  have "\<exists>r. run_acc payload_acc ms ret = Inr r \<and> wp_Payload r = wp_Payload ret @ map line_of ms \<and> wp_Resolved r = wp_Resolved ret"
    for ms ret
  proof (induction ms arbitrary: ret)
    case (Cons p ms)
    show ?case using Cons.IH [of "projr (payload_acc (fst p) (snd p) ret)"] by (cases p) (auto simp: payload_acc_def line_of_def)
  qed simp
  from this [of "multi_list b" "\<lparr>wp_Payload = [], wp_Length = 0, wp_Resolved = [], wp_Range = RangeEmpty\<rparr>"]
  show ?thesis by (auto simp: NewWebhookPayload_def MultiBatch_CopyInto_run)
qed

text \<open>
  Names that are read back without quotes: ASCII, without a separator, and not beginning with a quote.
\<close>

definition plain_name :: "string \<Rightarrow> bool" where
  "plain_name r \<longleftrightarrow> r \<noteq> [] \<and> hd r \<noteq> dquote \<and> list_all (\<lambda>c. (of_char c :: nat) < 128 \<and> c \<noteq> separator) r"

lemma parse_unquoted_plain:
  assumes "list_all (\<lambda>c. (of_char c :: nat) < 128 \<and> c \<noteq> separator) r" "rest = [] \<or> hd rest = separator"
  shows "n \<le> length r \<Longrightarrow> parse_unquoted_loop (r @ rest) (length r - n) = Inr (length r)"
proof (induction n)
  case 0
  show ?case
  proof (cases rest)
    case (Cons c cs)
    then have "DecodeRune (drop (length r) (r @ rest)) = (of_char separator, 1)"
      using assms(2) DecodeRune_ascii [of separator cs] by (simp add: separator_def)
    then show ?thesis using Cons by (subst parse_unquoted_loop.simps) simp
  qed (subst parse_unquoted_loop.simps, simp)
next
  case (Suc n)
  let ?i = "length r - Suc n"
  have i: "?i < length r" "Suc ?i = length r - n" using Suc.prems by auto
  have c: "(of_char (r ! ?i) :: nat) < 128" "r ! ?i \<noteq> separator" using assms(1) i(1) by (auto simp: list_all_length)
  have d: "drop ?i (r @ rest) = r ! ?i # drop (Suc ?i) (r @ rest)"
    using i(1) by (simp add: Cons_nth_drop_Suc)
  have "DecodeRune (drop ?i (r @ rest)) = (of_char (r ! ?i), 1)" unfolding d by (rule DecodeRune_ascii [OF c(1)])
  moreover have "(of_char (r ! ?i) :: nat) \<noteq> of_char separator" "(of_char (r ! ?i) :: nat) \<noteq> RuneError"
    using c by (simp_all add: RuneError_def)
  ultimately show ?case using Suc.IH Suc.prems i by (subst parse_unquoted_loop.simps) simp
qed

lemma ParseIdent_plain:
  assumes "plain_name r" "rest = [] \<or> hd rest = separator"
  shows "ParseIdent (r @ rest) = Inr (Ident r, rest)"
proof -
  obtain c cs where r: "r = c # cs" using assms(1) by (cases r) (auto simp: plain_name_def)
  have "parse_unquoted_loop (r @ rest) 0 = Inr (length r)"
    using parse_unquoted_plain [of r rest "length r"] assms by (simp add: plain_name_def)
  then have "parseUnquotedIdent (r @ rest) = Inr (Ident r, rest)" using r by (simp add: parseUnquotedIdent_def ident_New_def)
  then show ?thesis using assms(1) r by (simp add: ParseIdent_def plain_name_def)
qed

lemma parseDottedIdent_plain:
  "list_all plain_name rs \<Longrightarrow> parseDottedIdent (Join Ident_Raw (map Ident rs)) = Inr (map Ident rs)"
proof (induction rs rule: induct_list012)
  case 1
  show ?case by (subst parseDottedIdent.simps) simp
next
  case (2 r)
  then have "ParseIdent r = Inr (Ident r, [])" "r \<noteq> []" using ParseIdent_plain [of r "[]"] by (auto simp: plain_name_def)
  then show ?case by (subst parseDottedIdent.simps) simp
next
  case (3 r r' rs)
  let ?rest = "Join Ident_Raw (map Ident (r' # rs))"
  have "ParseIdent (r @ separator # ?rest) = Inr (Ident r, separator # ?rest)" "r \<noteq> []"
    using ParseIdent_plain [of r "separator # ?rest"] 3(3) by (auto simp: plain_name_def)
  then show ?case using 3 by (subst parseDottedIdent.simps) simp
qed

fun plain_schema :: "Schema \<Rightarrow> bool" where
  "plain_schema (Schema (Ident a) NilIdent) \<longleftrightarrow> plain_name a"
| "plain_schema (Schema (Ident a) (Ident b)) \<longleftrightarrow> plain_name a \<and> plain_name b"
| "plain_schema _ \<longleftrightarrow> False"

lemma topic_table_plain:
  assumes "plain_schema target" "plain_name t"
  shows "topic_table (Table_Raw (Table target (Ident t))) target = Inr (Table target (Ident t))"
  using assms(1)
proof (cases target rule: plain_schema.cases)
  case (1 a)
  then show ?thesis
    using assms parseDottedIdent_plain [of "[a, t]"]
    by (auto simp: topic_table_def ParseTableRelative_def Table_Raw_def Schema_Relative_def NewTable_def plain_name_def Let_def)
next
  case (2 a b)
  then show ?thesis
    using assms parseDottedIdent_plain [of "[a, b, t]"]
    by (auto simp: topic_table_def ParseTableRelative_def Table_Raw_def Schema_Relative_def NewTable_def plain_name_def Let_def)
qed auto

text \<open>A mutation of a webhook: without metadata, with a counter of at most ten digits, for a table of the target schema.\<close>

definition webhook_mut :: "Schema \<Rightarrow> Table \<times> Mutation \<Rightarrow> bool" where
  "webhook_mut target p \<longleftrightarrow> mut_Meta (snd p) = [] \<and> Logical (mut_Time (snd p)) < 10 ^ 10
     \<and> (\<exists>t. fst p = Table target (Ident t) \<and> plain_name t)"

text \<open>
  What a payload looks like after \<open>encoding/json\<close> has written and read it. \<open>Range\<close> has the tag \<open>json:"-"\<close> and is not
  sent. A raw message is written through \<open>compact\<close> (insignificant space removed and some characters escaped), and one
  that is nil is written as \<open>null\<close> and comes back as these four bytes. The other fields are strings of plain characters,
  or a number.
\<close>

definition json_raw :: "(string \<Rightarrow> string) \<Rightarrow> string \<Rightarrow> string" where
  "json_raw compact raw = (if raw = [] then ''null'' else compact raw)"

definition json_payload :: "(string \<Rightarrow> string) \<Rightarrow> webhook_payload \<Rightarrow> webhook_payload" where
  "json_payload compact payload = payload\<lparr>wp_Range := RangeEmpty, wp_Payload := map (\<lambda>line. line\<lparr>wl_After := json_raw compact (wl_After line),
     wl_Before := json_raw compact (wl_Before line), wl_Key := json_raw compact (wl_Key line)\<rparr>) (wp_Payload payload)\<rparr>"

definition json_mut :: "(string \<Rightarrow> string) \<Rightarrow> Mutation \<Rightarrow> Mutation" where
  "json_mut compact m = m\<lparr>mut_Before := json_raw compact (mut_Before m), mut_Data := json_raw compact (mut_Data m),
     mut_Key := json_raw compact (mut_Key m)\<rparr>"

lemma line_mutation_line_of:
  assumes "plain_schema target" "webhook_mut target p" "good_mut p"
  shows "line_mutation target ((line_of p)\<lparr>wl_After := json_raw compact (wl_After (line_of p)),
      wl_Before := json_raw compact (wl_Before (line_of p)), wl_Key := json_raw compact (wl_Key (line_of p))\<rparr>) = Inr (apsnd (json_mut compact) p)"
proof -
  have "Parse (String (mut_Time (snd p))) = Inr (mut_Time (snd p))"
    using assms by (intro Parse_String_roundtrip) (auto simp: webhook_mut_def good_mut_def valid_time_def)
  moreover have "topic_table (Table_Raw (fst p)) target = Inr (fst p)"
    using topic_table_plain [OF assms(1)] assms(2) by (auto simp: webhook_mut_def)
  ultimately show ?thesis
    using assms(2) by (cases p) (simp add: line_mutation_def line_of_def webhook_mut_def json_mut_def)
qed

text \<open>
  C38: a batch survives the webhook. Let the payload made from a batch be written and read by \<open>encoding/json\<close>, and sent
  to the schema of its tables. Then the conveyor of that schema is given a batch with the same mutations for the same
  tables, whose data, previous data and keys are as the encoding returns them. This is for mutations without metadata,
  at times with a counter of at most ten digits, and for tables of the target schema, all of whose names are plain
  (the topic is the raw name, without quotes).
\<close>

theorem webhook_roundtrip:
  assumes "good_batch b" "\<forall>p \<in> set (multi_list b). webhook_mut target p" "plain_schema target"
    and "NewWebhookPayload b = Inr payload" "en_webhook env body = Inr (json_payload compact payload)" "en_Get env target = Inr cy"
  shows "\<exists>b'. webhook env body (SchemaTarget target) = Inr (DoAccept target b') \<and> multi_ok b'
    \<and> multi_muts b' = image_mset (apsnd (json_mut compact)) (multi_muts b)"
proof -
  let ?j = "\<lambda>line. line\<lparr>wl_After := json_raw compact (wl_After line), wl_Before := json_raw compact (wl_Before line), wl_Key := json_raw compact (wl_Key line)\<rparr>"
  let ?ms = "map (apsnd (json_mut compact)) (multi_list b)"
  have ok: "multi_ok b" "\<forall>p \<in> set (multi_list b). good_mut p" using assms(1) by (auto simp: good_batch_def list_all_iff)
  have lines: "wp_Payload (json_payload compact payload) = map (?j \<circ> line_of) (multi_list b)" "wp_Resolved (json_payload compact payload) = []"
    using NewWebhookPayload_lines [of b] assms(4) by (auto simp: json_payload_def)
  have "\<forall>p \<in> set ?ms. good_mut p" using ok(2) by (simp add: good_mut_def json_mut_def)
  then obtain b' where b': "run_acc MultiBatch_Accumulate ?ms MultiBatch_New = Inr b'" "multi_ok b'"
    "multi_muts b' = multi_muts MultiBatch_New + mset (map (\<lambda>p. (Table_Canonical (fst p), snd p)) ?ms)"
    using accumulate_seq_ok [OF MultiBatch_New_ok(1)] by blast
  define g :: "webhook_line \<Rightarrow> Table \<times> Mutation"
    where "g line = projr (line_mutation target line :: (('a, 'b) cdc_error, Table \<times> Mutation) result)" for line
  have lm: "line_mutation target (?j (line_of p)) = (Inr (apsnd (json_mut compact) p) :: (('a, 'b) cdc_error, Table \<times> Mutation) result)"
    if "p \<in> set (multi_list b)" for p
    using line_mutation_line_of [OF assms(3), of p] that assms(2) ok(2) by blast
  then have g: "g (?j (line_of p)) = apsnd (json_mut compact) p" if "p \<in> set (multi_list b)" for p using that by (simp add: g_def)
  have mg: "map g (map (?j \<circ> line_of) (multi_list b)) = ?ms" using g by simp
  have all: "\<forall>line \<in> set (map (?j \<circ> line_of) (multi_list b)).
      line_mutation target line = (Inr (g line) :: (('a, 'b) cdc_error, Table \<times> Mutation) result)"
    using lm g by auto
  have "webhook_lines target (map (?j \<circ> line_of) (multi_list b)) MultiBatch_New = (Inr b' :: (('a, 'b) cdc_error, MultiBatch) result)"
    using webhook_lines_run [OF all, of MultiBatch_New] unfolding mg b'(1) by simp
  moreover have "multi_muts b' = image_mset (apsnd (json_mut compact)) (multi_muts b)"
    unfolding b'(3) mset_multi_list [OF ok(1), symmetric] by (simp add: MultiBatch_New_ok multiset.map_comp o_def)
  ultimately show ?thesis using assms(5,6) lines b'(2) by (simp add: webhook_def)
qed

text \<open>
  Witness for C38: a batch of two mutations without previous data, through a decoder that knows one body. Their data
  and keys have no space, so that \<open>compact\<close> leaves them alone; the previous data comes back as \<open>null\<close>.
\<close>

definition demo_env :: "webhook_payload \<Rightarrow> (unit, unit, unit) cdc_env" where
  "demo_env payload =
     \<lparr>en_Get = (\<lambda>s. Inr \<lparr>cy_acceptor = (), cy_target = s, cy_group = table_group s []\<rparr>), en_columns = (\<lambda>_ _. None),
      en_webhook = (\<lambda>body. if body = ''{}'' then Inr payload else Inl EOF), en_query = (\<lambda>_. Inl EOF),
      en_bulk = (\<lambda>_. Inl ()),
      en_codec = \<lparr>jc_map = (\<lambda>_. Inl ()), jc_string = (\<lambda>_. Inl ()), jc_enc_map = (\<lambda>_. Inl ()), jc_enc_list = (\<lambda>_. Inl ())\<rparr>,
      en_bufferSize = 65536\<rparr>"

theorem webhook_roundtrip_witness:
  "\<exists>payload b'. NewWebhookPayload (demo_multi [(''[1]'', 2), (''[2]'', 2)]) = Inr payload
     \<and> webhook (demo_env (json_payload (filter (\<lambda>c. c \<noteq> CHR '' '')) payload)) ''{}'' (SchemaTarget (Schema (Ident ''db'') NilIdent))
         = Inr (DoAccept (Schema (Ident ''db'') NilIdent) b')
     \<and> multi_muts b' = image_mset (apsnd (\<lambda>m. m\<lparr>mut_Before := ''null''\<rparr>)) (multi_muts (demo_multi [(''[1]'', 2), (''[2]'', 2)]))"
proof -
  let ?b = "demo_multi [(''[1]'', 2), (''[2]'', 2)]" and ?compact = "filter (\<lambda>c. c \<noteq> CHR '' '')"
  obtain payload where p: "NewWebhookPayload ?b = Inr payload" using NewWebhookPayload_lines by blast
  have list: "multi_list ?b = [(demo_table ''t'', demo_mut ''[1]'' 2), (demo_table ''t'', demo_mut ''[2]'' 2)]" by code_simp
  have muts: "\<forall>p \<in> set (multi_list ?b). webhook_mut (Schema (Ident ''db'') NilIdent) p"
    unfolding list by (simp add: webhook_mut_def demo_table_def demo_mut_def plain_name_def dquote_def separator_def)
  have sch: "plain_schema (Schema (Ident ''db'') NilIdent)" by (simp add: plain_name_def dquote_def separator_def)
  have "en_webhook (demo_env (json_payload ?compact payload)) ''{}'' = Inr (json_payload ?compact payload)"
    "en_Get (demo_env (json_payload ?compact payload)) (Schema (Ident ''db'') NilIdent)
       = Inr \<lparr>cy_acceptor = (), cy_target = Schema (Ident ''db'') NilIdent, cy_group = table_group (Schema (Ident ''db'') NilIdent) []\<rparr>"
    by (simp_all add: demo_env_def)
  note r = webhook_roundtrip [OF demo_multi_good(2) muts sch p this]
  have "multi_ok ?b" using demo_multi_good(2) by (simp add: good_batch_def)
  from mset_multi_list [OF this] have ms: "multi_muts ?b = mset (map (\<lambda>p. (Table_Canonical (fst p), snd p)) (multi_list ?b))" by simp
  have "image_mset (apsnd (json_mut ?compact)) (multi_muts ?b) = image_mset (apsnd (\<lambda>m. m\<lparr>mut_Before := ''null''\<rparr>)) (multi_muts ?b)"
    unfolding ms list by (simp add: json_mut_def json_raw_def demo_mut_def)
  then show ?thesis using p r by metis
qed

text \<open>Segments of a path: joined with slashes, they are found again, as long as there are fewer than eight.\<close>

definition plain_segment :: "string \<Rightarrow> bool" where
  "plain_segment s \<longleftrightarrow> s \<noteq> [] \<and> list_all (\<lambda>c. c \<noteq> CHR ''/'' \<and> c \<noteq> CHR ''%'' \<and> c \<noteq> CHR ''+'') s"

definition join_path :: "string list \<Rightarrow> string" where
  "join_path segs = concat (map (\<lambda>s. CHR ''/'' # s) segs)"

lemma QueryUnescape_plain: "list_all (\<lambda>c. c \<noteq> CHR ''/'' \<and> c \<noteq> CHR ''%'' \<and> c \<noteq> CHR ''+'') s \<Longrightarrow> QueryUnescape s = Inr s"
  by (induction s) auto

lemma path_Split_join:
  assumes "plain_segment s"
  shows "path_Split (xs @ CHR ''/'' # s) = (xs @ ''/'', s)"
proof -
  have "takeWhile (\<lambda>c. c \<noteq> CHR ''/'') (rev s @ CHR ''/'' # rev xs) = rev s"
    using assms by (subst takeWhile_append2) (auto simp: plain_segment_def list_all_iff)
  then show ?thesis by (simp add: path_Split_def Let_def)
qed

lemma path_segments_join:
  "list_all plain_segment segs \<Longrightarrow>
   path_segments (join_path segs) free acc
     = (if length segs < free then Inr (segs @ acc) else Inl TooManySegments :: (('d, 'e) cdc_error, string list) result)"
proof (induction segs arbitrary: free acc rule: rev_induct)
  case Nil
  then show ?case by (subst path_segments.simps) (auto simp: join_path_def path_Split_def)
next
  case (snoc s segs)
  have s: "plain_segment s" using snoc.prems by simp
  have join: "join_path (segs @ [s]) = join_path segs @ CHR ''/'' # s" by (simp add: join_path_def)
  have sp: "path_Split (join_path (segs @ [s])) = (join_path segs @ ''/'', s)" unfolding join by (rule path_Split_join [OF s])
  have q: "QueryUnescape s = (Inr s :: (('d, 'e) cdc_error, string) result)" "s \<noteq> []" using s by (auto simp: plain_segment_def QueryUnescape_plain)
  have "path_segments (join_path (segs @ [s])) free acc
      = (if free = 0 then Inl TooManySegments
         else path_segments (join_path segs) (free - 1) (s # acc) :: (('d, 'e) cdc_error, string list) result)"
    using sp q by (subst path_segments.simps) (auto simp: join)
  then show ?case using snoc by auto
qed

text \<open>
  The limit of eight segments is exclusive, although the error says that the maximum of eight was exceeded; and a plus sign in a
  segment is read as a space.
\<close>

theorem eight_segments_are_refused:
  assumes "list_all plain_segment segs" "length segs = 8"
  shows "parseURL product (join_path segs) = Inl TooManySegments"
  using assms(2) by (simp add: parseURL_def maxPathSegments_def path_segments_join [OF assms(1)])

theorem plus_is_a_space: "QueryUnescape ''a+b'' = Inr ''a b''"
  by simp

text \<open>A request for a schema or one of its tables is a webhook.\<close>

lemma parseURL_webhook:
  assumes "list_all plain_segment [db, sch]"
  shows "parseURL ProductCockroachDB (join_path [db, sch])
    = Inr \<lparr>rq_leaf = LeafWebhook, rq_target = SchemaTarget (Schema (Ident db) (Ident sch)), rq_timestamp = Zero\<rparr>"
  using assms
  by (simp add: parseURL_def path_segments_join [OF assms] maxPathSegments_def requestPatterns_def webhook_pattern_def
      ident_New_def plain_segment_def Let_def)

text \<open>Witness for C13: a batch is accepted for the schema of the path when the token is right.\<close>

theorem cdc_calls_are_authorized_witness:
  "let env = demo_env \<lparr>wp_Payload = [], wp_Length = 0, wp_Resolved = [], wp_Range = RangeEmpty\<rparr>;
       r = ServeHTTP env (\<lambda>s token. Inr (token = ''ok'')) (\<lambda>_. None) False None ProductCockroachDB (join_path [''db'', ''public'']) ''ok'' ''{}''
   in fst r = StatusOK \<and> action_schema (snd r) = Some (Schema (Ident ''db'') (Ident ''public''))"
proof -
  let ?env = "demo_env \<lparr>wp_Payload = [], wp_Length = 0, wp_Resolved = [], wp_Range = RangeEmpty\<rparr>"
  let ?r = "ServeHTTP ?env (\<lambda>s token. Inr (token = ''ok'')) (\<lambda>_. None) False None ProductCockroachDB (join_path [''db'', ''public'']) ''ok'' ''{}''"
  have plain: "list_all plain_segment [''db'', ''public'']" by (simp add: plain_segment_def)
  have url: "parseURL ProductCockroachDB (join_path [''db'', ''public''])
      = (Inr \<lparr>rq_leaf = LeafWebhook, rq_target = SchemaTarget (Schema (Ident ''db'') (Ident ''public'')), rq_timestamp = Zero\<rparr>
         :: ((unit, unit) cdc_error, request) result)"
    using parseURL_webhook [OF plain] .
  have act: "snd ?r = DoAccept (Schema (Ident ''db'') (Ident ''public'')) MultiBatch_New"
    by (simp add: ServeHTTP_def url webhook_def demo_env_def)
  obtain status a where r: "?r = (status, a)" by (cases ?r)
  have "a \<noteq> NoAction" using act r by simp
  from cdc_calls_are_authorized [OF r this] show ?thesis using r url by (auto simp: Let_def)
qed

text \<open>
  When the columns of a table begin with its primary key, as the schema watcher lists them, the key of a query payload is made of the
  values of the key columns in their order.
\<close>

lemma primary_keys:
  assumes "distinct (map Ident_Canonical ks)" "\<forall>c \<in> set rest. \<not> snd c"
  shows "fold (\<lambda>(i, name, primary) keys. if primary then imap_Put Ident_Canonical name i keys else keys)
      (enumerate 0 (map (\<lambda>n. (n, True)) ks @ rest)) [] = zip ks [0..<length ks]"
proof -
  let ?f = "\<lambda>(i, name, primary) keys. if primary then imap_Put Ident_Canonical name i keys else keys"
  have put: "imap_Put Ident_Canonical k v m = m @ [(k, v)]" if "Ident_Canonical k \<notin> Ident_Canonical ` fst ` set m"
    for k and v :: nat and m
    using that by (induction m) auto
  have rest: "fold ?f (enumerate n rest) m = m" for n m
    using assms(2) by (induction rest arbitrary: n) auto
  have ks: "fold ?f (enumerate (length pre) (map (\<lambda>n. (n, True)) post)) (zip pre [0..<length pre])
      = zip (pre @ post) [0..<length (pre @ post)]" if "distinct (map Ident_Canonical (pre @ post))" for pre post
    using that
  proof (induction post arbitrary: pre)
    case (Cons p post)
    have new: "Ident_Canonical p \<notin> Ident_Canonical ` fst ` set (zip pre [0..<length pre])"
      using Cons.prems by (auto dest: set_zip_leftD)
    have "zip pre [0..<length pre] @ [(p, length pre)] = zip (pre @ [p]) [0..<length (pre @ [p])]" by simp
    then show ?case using Cons.IH [of "pre @ [p]"] Cons.prems put [OF new] by simp
  qed simp
  show ?thesis using ks [of "[]" ks] assms(1) rest by (simp add: enumerate_append_eq)
qed

lemma query_keys_in_order:
  assumes "en_Get env (Table_Schema table) = Inr cy"
    and "en_columns env (Table_Schema table) table = Some (map (\<lambda>n. (n, True)) ks @ rest)"
    and "distinct (map Ident_Canonical ks)" "\<forall>c \<in> set rest. \<not> snd c" "\<forall>k \<in> set ks. imap_Get Ident_Canonical row k \<noteq> None"
  shows "\<exists>keys vs. getPrimaryKey env (TableTarget table) = Inr keys
    \<and> extract_keys keys row = (Inr vs :: ('d cdcjson_error, string list) result)
    \<and> map Some vs = map (imap_Get Ident_Canonical row) ks"
proof -
  let ?keys = "zip ks [0..<length ks]"
  have "getPrimaryKey env (TableTarget table) = Inr ?keys"
    using assms(1,2) primary_keys [OF assms(3,4)] by (simp add: getPrimaryKey_def)
  moreover have "key_positions ?keys" by (auto simp: key_positions_def dest: set_zip_rightD)
  moreover have "\<forall>e \<in> set ?keys. imap_Get Ident_Canonical row (fst e) \<noteq> None"
    using assms(5) by (auto dest: set_zip_leftD)
  ultimately obtain vs where vs: "extract_keys ?keys row = (Inr vs :: ('d cdcjson_error, string list) result)" "length vs = length ks"
    "\<forall>e \<in> set ?keys. imap_Get Ident_Canonical row (fst e) = Some (vs ! snd e)"
    using extract_keys_ok [of ?keys row] by auto
  have "map Some vs = map (imap_Get Ident_Canonical row) ks"
  proof (rule nth_equalityI)
    fix i assume "i < length (map Some vs)"
    then have i: "i < length ks" using vs(2) by simp
    then have "(ks ! i, i) \<in> set ?keys" by (force simp: set_zip)
    then show "map Some vs ! i = map (imap_Get Ident_Canonical row) ks ! i" using vs(2,3) i by force
  qed (simp add: vs(2))
  then show ?thesis using vs(1) \<open>getPrimaryKey env (TableTarget table) = Inr ?keys\<close> by blast
qed

end
