(* ===== verification/Spec2Isabelle.thy ===== *)
theory Spec2Isabelle
  imports Schedule Leases Stagers Apply Core BestEffort Cdc
begin

text \<open>
  Replicator (cdc-sink) receives change feeds from CockroachDB and other databases, stages the
  mutations, and applies them to a target database in an order that keeps transactions and
  foreign keys consistent.

  \<^bold>\<open>How the parts interact.\<close> A source (\<open>source/*\<close>) turns what it receives into batches of mutations, each stamped with
  a hybrid logical time, and gives them to an acceptor. It also records resolved timestamps as checkpoints
  (\<open>staging/checkpoint\<close>): the interval of committed checkpoints of a group of tables is its \<^emph>\<open>bounds\<close>. The sequencer
  of the group (\<open>sequencer/*\<close>) provides the acceptor. The core sequencer's acceptor stages every mutation
  (\<open>staging/stage\<close>). Its reader side reads one staging table per cursor, merges the cursors by time, copies the merged
  stream into batches (\<open>sequencer/sequtil\<close>), schedules the batches on the keys they touch (\<open>util/lockset\<close>), applies them
  to the target (\<open>target/apply\<close>) and reports progress within the bounds. The best-effort sequencer applies mutations
  one by one and stages the ones that cannot be applied; the immediate sequencer applies whatever it is given. The switcher
  changes between them. Only the process that holds the lease of a group (\<open>staging/leases\<close>) runs the reader side.

  \<^bold>\<open>Theories, in the order of their imports.\<close> Paths are relative to \<open>src/internal\<close>.

  \<^item> \<open>Prelude\<close>: the result type (\<open>Inl\<close> an error), and lemmas on lists, maps and options that the others share.
  \<^item> \<open>GoLib\<close>: what the code uses of Go's standard library: decimal numbers, string functions, heaps, Unicode case of the
    ASCII range, sort and compare.
  \<^item> \<open>Hlc\<close>: \<open>util/hlc\<close>. A time is a record of two 64 bit words; the order is an instance of \<open>linorder\<close>. Parsing is
    the inverse of printing.
  \<^item> \<open>Lockset\<close>: \<open>util/lockset/queue.go\<close>. The queue of each key is a list, as in the code. The locale
    \<open>admission_queue\<close> is the contract (what is at the head of all its queues is admitted, once); its client lemmas are
    mutual exclusion, exact notifications and progress; the interpretation is on \<open>NewQueue\<close>, \<open>Enqueue\<close> and \<open>Dequeue\<close>.
  \<^item> \<open>Schedule\<close>: \<open>util/lockset/lockset.go\<close>. Goroutines are the steps of an inductive relation over the shared state, the
    mutex held for the length of a step, as in the code. Invariants by rule induction: callbacks with a common key never
    run together, and some step is enabled while a task is not finished.
  \<^item> \<open>Ident\<close>: \<open>util/ident\<close>, \<open>util/cmap\<close>. Identifiers, schemas, tables, parsing, and maps by canonical key. The locale
    \<open>canonical_map\<close> is the contract of the maps; it is interpreted on the identifier maps here and on property bags
    in \<open>Merge\<close>.
  \<^item> \<open>Batches\<close>: \<open>types/batches.go\<close>, \<open>util/msort\<close>, \<open>util/batches\<close>. Accumulating keeps a multi-batch well formed and loses
    nothing; de-duplication keeps the latest mutation of each key.
  \<^item> \<open>Retry\<close>: \<open>util/retry\<close>. What the database answers to each attempt is a list of outcomes.
  \<^item> \<open>Acceptors\<close>: the ordered acceptor of \<open>types/acceptors.go\<close>, products, and the dependency order of
    \<open>target/schemawatch/dependencies.go\<close>.
  \<^item> \<open>Leases\<close>: \<open>staging/leases\<close>, \<open>types/table_group.go\<close>. The lease table is a map; processes with clocks of
    their own interleave statements, and the release of a lease and the end of its context are two steps. At most one lease of a name is live, not
    being released, and unexpired beyond the skew of the clocks; a lease that is being released is an exception that the code allows.
  \<^item> \<open>Checkpoint\<close>: \<open>staging/checkpoint\<close>. The checkpoint table is a list of rows; every SQL statement is a function on it.
  \<^item> \<open>Staging\<close>: \<open>staging/stage/stage.go\<close>, \<open>gzip.go\<close>. A staging table is a list of rows with one row per time and key; every
    SQL statement is a function on it, and each statement meets a \<open>fate\<close> (returns, fails before or after the effect).
  \<^item> \<open>Reader\<close>, \<open>Merger\<close>, \<open>Stagers\<close>: \<open>table_reader.go\<close>, \<open>table_merger.go\<close>, \<open>factory.go\<close> of \<open>staging/stage\<close>. Reads return
    pages; merged cursors come out in the order of time, and everything up to the least progress of the tables is delivered.
  \<^item> \<open>Crep\<close>, \<open>Merge\<close>: \<open>util/crep\<close>, \<open>util/merge\<close>. The decoder of canonical representations agrees with a reference
    grammar; property bags stay well formed; the standard merge is the three-way merge.
  \<^item> \<open>Applycfg\<close>, \<open>ColumnMapping\<close>, \<open>Pjson\<close>, \<open>Apply\<close>: \<open>util/applycfg\<close>, \<open>target/apply\<close>, \<open>util/pjson\<close>, \<open>util/stmtcache\<close>. On targets
    without bulk upserts each placeholder is bound to the value of its column, unless columns take each other's names; conflicts go through the merge function.
  \<^item> \<open>Copier\<close>: \<open>sequencer/sequtil/copier.go\<close>. No progress is reported before the mutations below it have been flushed.
  \<^item> \<open>Core\<close>: \<open>sequencer/core/core.go\<close>, \<open>round.go\<close>, \<open>poison.go\<close>, a state machine over the copier's callbacks and the scheduler. The admission
    of a task is the predicate \<open>runnable\<close>: no earlier task that shares a key is unfinished, which is what \<open>Schedule\<close> shows of the lock set.
    Progress is published only for mutations that have been applied; the mutations of a key are applied in order.
  \<^item> \<open>Decorators\<close>: \<open>sequencer/decorators\<close>, \<open>core/acceptor.go\<close>, \<open>immediate\<close>. Staging tables are kept by the
    canonical name of the target, not by the name that \<open>stagingTable\<close> makes of it, which two targets can share. \<open>BestEffort\<close>: \<open>sequencer/besteffort\<close>,
    over any delegate: a wrapper that records its calls shows which mutations it accepted, and the rest is in the staging table.
    \<open>Sequencing\<close>: configuration and progress of the sequencers, \<open>retire\<close>, \<open>switcher\<close>.
  \<^item> \<open>Conveyor\<close>: \<open>conveyor\<close>, \<open>types/counter.go\<close>. The conveyor of a schema, the choice of its mode, and the commit of checkpoints: a
    checkpoint becomes applied only when every table of the group has passed it.
  \<^item> \<open>Kafka\<close>: \<open>source/kafka\<close>, \<open>script/meta.go\<close>. A claim is a loop over events; what is marked as read has been accepted. The search
    for a start offset ends because the offset it looks at decreases.
  \<^item> \<open>Cdcjson\<close>, \<open>Cdc\<close>: \<open>util/cdcjson\<close>, \<open>source/cdc\<close>. Paths, file names, payloads and handlers of the HTTP source; a handler ends in one
    call of a conveyor, which is the result of its model. Calls are authorized, and a batch survives the webhook up to
    what \<open>encoding/json\<close> does to raw messages.

  \<^bold>\<open>Bounds and fuel.\<close> \<open>Loop\<close> of \<open>Retry\<close> runs at most the number of attempts of the code (10), so it is structural.
  \<open>Window\<close> is a \<open>partial_function (option)\<close> because a window of size 0 does not terminate; callers use lemmas that it
  returns for the sizes they pass. The loop of \<open>Retire\<close> has the limit of rows of the code (10000) as a parameter and is proved
  to end with every retired row gone. What the environment does (answers of the database, the clock, the order of goroutines,
  the items a channel receives) is always an argument: a list of fates, events or actions, over which the theorems
  quantify.

  \<^bold>\<open>What is not in the source.\<close> Databases are modelled by the SQL of the source over tables as lists or maps. The JSON decoder and
  encoder, gzip, the drivers, the Kafka client, the authenticator and user-defined merge functions are arguments of the definitions that
  call them; hypotheses on them are those that their documentation states.

  \<^bold>\<open>Not modelled.\<close> User scripts (\<open>script\<close>, \<open>sequencer/script\<close>) run in a JavaScript engine that is a third-party package. The logical
  replication sources for PostgreSQL and MySQL and the object storage source follow the protocols of third-party clients. Command
  line, connection pools, servers, metrics, diagnostics and test support have no logic of their own on the data. The manifest lists
  each of them with its files.
\<close>

end
